(* ===== verification/Prelude.thy ===== *)
theory Prelude
  imports Main "HOL-Library.Word"
begin

text \<open>
  Shared vocabulary of the development.

  \<^item> \<open>'a res\<close>: the outcome of running a piece of C code: \<open>Ret\<close> with its result, or \<open>Crash\<close>
    with the reason why no C implementation has to go on from there (a failed \<open>assert\<close>, an access
    outside the allocated block, a null dereference, a loop whose state repeats).
  \<^item> Memory: a block (\<open>region\<close>) is the list of its bytes, a heap is the list of the blocks that have
    been allocated, and a \<open>ptr\<close> is null, a pointer into a block, or a pointer to text that is never
    written again (a string literal, a pool copy).
  \<^item> The parts of \<open>ctype.h\<close>, \<open>string.h\<close> and \<open>stdlib.h\<close> the sources use, in the "C" locale.
\<close>

named_theorems cchar \<open>character classes and comparisons of the C library\<close>
named_theorems mem_simps \<open>loads, stores and scans\<close>

section \<open>Outcomes\<close>

datatype crash = Assert_Failed | Out_Of_Bounds | Null_Deref | Diverges | Exits | Div_By_Zero | Int_Overflow

datatype 'a res = Ret 'a | Crash crash

definition bnd :: "'a res \<Rightarrow> ('a \<Rightarrow> 'b res) \<Rightarrow> 'b res" where
  "bnd m f = (case m of Ret x \<Rightarrow> f x | Crash e \<Rightarrow> Crash e)"

lemma bnd_Ret [simp]: "bnd (Ret x) f = f x"
  by (simp add: bnd_def)

lemma bnd_Crash [simp]: "bnd (Crash e) f = Crash e"
  by (simp add: bnd_def)

lemma bnd_eq_Ret: "bnd m f = Ret y \<longleftrightarrow> (\<exists>x. m = Ret x \<and> f x = Ret y)"
  by (cases m) auto

lemma bnd_RetE [elim!]:
  assumes "bnd m f = Ret y"
  obtains x where "m = Ret x" "f x = Ret y"
  using assms by (cases m) auto

lemma bnd_cong [fundef_cong]:
  "m = m' \<Longrightarrow> (\<And>x. m' = Ret x \<Longrightarrow> f x = f' x) \<Longrightarrow> bnd m f = bnd m' f'"
  by (cases m') auto

lemma bnd_split:
  "P (bnd m f) \<longleftrightarrow> (\<forall>x. m = Ret x \<longrightarrow> P (f x)) \<and> (\<forall>e. m = Crash e \<longrightarrow> P (Crash e))"
  by (cases m) auto

definition is_ret :: "'a res \<Rightarrow> bool" where
  "is_ret m = (case m of Ret _ \<Rightarrow> True | Crash _ \<Rightarrow> False)"

lemma is_ret_simps [simp]: "is_ret (Ret x)" "\<not> is_ret (Crash e)"
  by (simp_all add: is_ret_def)

lemma is_ret_iff: "is_ret m \<longleftrightarrow> (\<exists>x. m = Ret x)"
  by (cases m) auto

text \<open>\<open>assert(b)\<close> in front of the code \<open>k\<close>: the build does not define \<open>NDEBUG\<close>.\<close>

definition assert_then :: "bool \<Rightarrow> 'a res \<Rightarrow> 'a res" where
  "assert_then b k = (if b then k else Crash Assert_Failed)"

lemma assert_then_simps [simp]:
  "assert_then True k = k" "assert_then False k = Crash Assert_Failed"
  by (simp_all add: assert_then_def)

lemma assert_then_Ret: "assert_then b k = Ret x \<longleftrightarrow> b \<and> k = Ret x"
  by (simp add: assert_then_def)

section \<open>Bytes and character classes\<close>

abbreviation NUL :: char where "NUL \<equiv> CHR 0x00"
abbreviation CR :: char where "CR \<equiv> CHR 0x0D"
abbreviation LF :: char where "LF \<equiv> CHR 0x0A"

definition CRLF :: string where
  "CRLF = [CR, LF]"

definition byte :: "char \<Rightarrow> nat" where
  "byte c = of_char c"

definition isspace :: "char \<Rightarrow> bool" where
  "isspace c \<longleftrightarrow> c \<in> {CHR 0x20, CHR 0x09, CHR 0x0A, CHR 0x0B, CHR 0x0C, CHR 0x0D}"

definition isdigit :: "char \<Rightarrow> bool" where
  "isdigit c \<longleftrightarrow> 48 \<le> byte c \<and> byte c \<le> 57"

definition islower :: "char \<Rightarrow> bool" where
  "islower c \<longleftrightarrow> 97 \<le> byte c \<and> byte c \<le> 122"

definition isupper :: "char \<Rightarrow> bool" where
  "isupper c \<longleftrightarrow> 65 \<le> byte c \<and> byte c \<le> 90"

definition isalpha :: "char \<Rightarrow> bool" where
  "isalpha c \<longleftrightarrow> islower c \<or> isupper c"

definition tolower :: "char \<Rightarrow> char" where
  "tolower c = (if isupper c then char_of (byte c + 32) else c)"

definition toupper :: "char \<Rightarrow> char" where
  "toupper c = (if islower c then char_of (byte c - 32) else c)"

lemmas cchar_defs = byte_def isspace_def isdigit_def islower_def isupper_def isalpha_def
  tolower_def toupper_def

lemma isspace_NUL [simp]: "\<not> isspace NUL"
  by (simp add: isspace_def)

lemma isspace_sep [simp]: "isspace (CHR '' '')" "isspace CR" "isspace LF"
  by (simp_all add: isspace_def)

lemma byte_less [simp]: "byte c < 256"
  by (simp add: byte_def)

lemma tolower_NUL_iff [simp]: "tolower c = NUL \<longleftrightarrow> c = NUL"
proof (cases "isupper c")
  case True
  then have u: "65 \<le> byte c" "byte c \<le> 90" by (simp_all add: isupper_def)
  have "byte (char_of (byte c + 32)) = byte c + 32"
    using u by (simp add: byte_def)
  moreover have "byte NUL = 0" by (simp add: byte_def)
  ultimately have "char_of (byte c + 32) \<noteq> NUL" by (metis add_is_0 numeral_neq_zero)
  moreover from u have "c \<noteq> NUL" by (auto simp: byte_def)
  ultimately show ?thesis using True by (simp add: tolower_def)
qed (simp add: tolower_def)

section \<open>Memory blocks\<close>

type_synonym region = "char list"
type_synonym heap = "region list"

definition load :: "region \<Rightarrow> nat \<Rightarrow> char res" where
  "load m p = (if p < length m then Ret (m ! p) else Crash Out_Of_Bounds)"

definition store :: "region \<Rightarrow> nat \<Rightarrow> char \<Rightarrow> region res" where
  "store m p c = (if p < length m then Ret (m[p := c]) else Crash Out_Of_Bounds)"

lemma load_Ret [mem_simps]: "p < length m \<Longrightarrow> load m p = Ret (m ! p)"
  by (simp add: load_def)

lemma store_Ret [mem_simps]: "p < length m \<Longrightarrow> store m p c = Ret (m[p := c])"
  by (simp add: store_def)

text \<open>The loop \<open>while (P( *p)) p++\<close>: it reads one byte per round and so leaves the block when no
  byte from \<open>p\<close> on stops it.\<close>

function scan_while :: "(char \<Rightarrow> bool) \<Rightarrow> region \<Rightarrow> nat \<Rightarrow> nat res" where
  "scan_while P m p =
     (if p < length m then (if P (m ! p) then scan_while P m (Suc p) else Ret p)
      else Crash Out_Of_Bounds)"
  by pat_completeness auto
termination
  by (relation "measure (\<lambda>(P, m, p). length m - p)") auto

declare scan_while.simps [simp del]

text \<open>The loop \<open>while (P( *p) && p < e) p++\<close>, which reads \<open>*p\<close> before it looks at the bound.\<close>

function scan_upto :: "(char \<Rightarrow> bool) \<Rightarrow> region \<Rightarrow> nat \<Rightarrow> nat \<Rightarrow> nat res" where
  "scan_upto P m p e =
     (if p < length m then (if P (m ! p) \<and> p < e then scan_upto P m (Suc p) e else Ret p)
      else Crash Out_Of_Bounds)"
  by pat_completeness auto
termination
  by (relation "measure (\<lambda>(P, m, p, e). length m - p)") auto

declare scan_upto.simps [simp del]

text \<open>Copying a text into a block, and out of it.\<close>

definition write_at :: "region \<Rightarrow> nat \<Rightarrow> string \<Rightarrow> region res" where
  "write_at m p d =
     (if p + length d \<le> length m then Ret (take p m @ d @ drop (p + length d) m) else Crash Out_Of_Bounds)"

definition bytes_at :: "region \<Rightarrow> nat \<Rightarrow> nat \<Rightarrow> string res" where
  "bytes_at m p n = (if p + n \<le> length m then Ret (take n (drop p m)) else Crash Out_Of_Bounds)"

lemma write_at_append: "length d \<le> length v \<Longrightarrow> write_at (u @ v) (length u) d = Ret (u @ d @ drop (length d) v)"
  by (simp add: write_at_def)

lemma bytes_at_append: "bytes_at (u @ d @ v) (length u) (length d) = Ret d"
  by (simp add: bytes_at_def)

text \<open>The text a C string read finds at an offset of a block.\<close>

definition cstr_at :: "region \<Rightarrow> nat \<Rightarrow> string" where
  "cstr_at m p = takeWhile (\<lambda>c. c \<noteq> NUL) (drop p m)"

definition nul_from :: "region \<Rightarrow> nat \<Rightarrow> bool" where
  "nul_from m p \<longleftrightarrow> NUL \<in> set (drop p m)"

lemma nul_from_iff: "nul_from m p \<longleftrightarrow> (\<exists>i. p \<le> i \<and> i < length m \<and> m ! i = NUL)"
proof
  assume "nul_from m p"
  then obtain k where "k < length m - p" "drop p m ! k = NUL"
    by (auto simp: nul_from_def in_set_conv_nth)
  then show "\<exists>i. p \<le> i \<and> i < length m \<and> m ! i = NUL"
    by (intro exI [of _ "p + k"]) auto
next
  assume "\<exists>i. p \<le> i \<and> i < length m \<and> m ! i = NUL"
  then obtain i where "p \<le> i" "i < length m" "m ! i = NUL" by blast
  then have "i - p < length (drop p m)" "drop p m ! (i - p) = NUL" by auto
  then show "nul_from m p" unfolding nul_from_def by (metis nth_mem)
qed

lemma nul_from_mono: "nul_from m q \<Longrightarrow> p \<le> q \<Longrightarrow> nul_from m p"
  unfolding nul_from_iff by (meson le_trans)

lemma nul_from_update_NUL: "nul_from m p \<Longrightarrow> nul_from (m[i := NUL]) p"
  unfolding nul_from_iff by (metis length_list_update nth_list_update_eq nth_list_update_neq)

lemma nul_from_Suc:
  assumes "nul_from m p" "m ! p \<noteq> NUL"
  shows "nul_from m (Suc p)"
proof -
  obtain i where i: "p \<le> i" "i < length m" "m ! i = NUL"
    using assms(1) by (auto simp: nul_from_iff)
  with assms(2) have "Suc p \<le> i" by (cases "i = p") auto
  with i show ?thesis by (auto simp: nul_from_iff)
qed

lemma nul_from_less: "nul_from m p \<Longrightarrow> p < length m"
  by (auto simp: nul_from_iff)

lemma all_from_Suc:
  assumes "Q p" "\<forall>i. Suc p \<le> i \<and> i < q \<longrightarrow> Q i"
  shows "\<forall>i. p \<le> i \<and> i < q \<longrightarrow> Q i"
proof (intro allI impI)
  fix i assume "p \<le> i \<and> i < q"
  with assms show "Q i" by (cases "i = p") auto
qed

text \<open>A scan that stops at the latest at a NUL stays inside every block with a NUL ahead.\<close>

lemma scan_while_Ret:
  assumes "nul_from m p" and "\<not> P NUL"
  shows "\<exists>q. scan_while P m p = Ret q \<and> p \<le> q \<and> q < length m \<and> \<not> P (m ! q)
           \<and> (\<forall>i. p \<le> i \<and> i < q \<longrightarrow> P (m ! i)) \<and> nul_from m q"
  using assms
proof (induction P m p rule: scan_while.induct)
  case (1 P m p)
  from "1.prems"(1) have p: "p < length m" by (rule nul_from_less)
  show ?case
  proof (cases "P (m ! p)")
    case True
    with "1.prems" have "nul_from m (Suc p)"
      by (metis nul_from_Suc)
    with "1.IH" [OF p True] "1.prems" obtain q where
      q: "scan_while P m (Suc p) = Ret q" "Suc p \<le> q" "q < length m" "\<not> P (m ! q)"
        "\<forall>i. Suc p \<le> i \<and> i < q \<longrightarrow> P (m ! i)" "nul_from m q"
      by blast
    have "\<forall>i. p \<le> i \<and> i < q \<longrightarrow> P (m ! i)"
      by (rule all_from_Suc [OF True q(5)])
    with p True q show ?thesis
      by (intro exI [of _ q]) (simp add: scan_while.simps [of P m p])
  next
    case False
    with p "1.prems" show ?thesis
      by (intro exI [of _ p]) (auto simp: scan_while.simps [of P m p])
  qed
qed

lemma scan_while_RetD:
  "scan_while P m p = Ret q \<Longrightarrow> p \<le> q \<and> q < length m \<and> \<not> P (m ! q) \<and> (\<forall>i. p \<le> i \<and> i < q \<longrightarrow> P (m ! i))"
proof (induction P m p rule: scan_while.induct)
  case (1 P m p)
  show ?case
  proof (cases "p < length m \<and> P (m ! p)")
    case True
    with "1.prems" have "scan_while P m (Suc p) = Ret q"
      by (simp add: scan_while.simps [of P m p])
    with "1.IH" True have "Suc p \<le> q \<and> q < length m \<and> \<not> P (m ! q) \<and> (\<forall>i. Suc p \<le> i \<and> i < q \<longrightarrow> P (m ! i))"
      by blast
    with True show ?thesis
      using all_from_Suc [of "\<lambda>i. P (m ! i)" p q] by simp
  next
    case False
    with "1.prems" show ?thesis
      by (auto simp: scan_while.simps [of P m p] split: if_splits)
  qed
qed

text \<open>The workhorse of the parsing lemmas: where a scan stops is fixed by the bytes it meets.\<close>

lemma scan_while_stop:
  assumes "p \<le> q" "q < length m" "\<not> P (m ! q)" "\<And>i. p \<le> i \<Longrightarrow> i < q \<Longrightarrow> P (m ! i)"
  shows "scan_while P m p = Ret q"
  using assms
proof (induction "q - p" arbitrary: p)
  case 0
  then show ?case by (simp add: scan_while.simps [of P m p])
next
  case (Suc n)
  then have "p < q" "P (m ! p)" by auto
  moreover have "scan_while P m (Suc p) = Ret q"
    using Suc \<open>p < q\<close> by (intro Suc.hyps(1)) auto
  ultimately show ?case
    using Suc.prems(2) by (simp add: scan_while.simps [of P m p])
qed

lemma scan_while_append:
  assumes "\<forall>c \<in> set t. P c" "\<not> P x"
  shows "scan_while P (u @ t @ x # v) (length u) = Ret (length u + length t)"
proof (rule scan_while_stop)
  show "\<not> P ((u @ t @ x # v) ! (length u + length t))"
    using assms by (simp add: nth_append)
  fix i assume "length u \<le> i" "i < length u + length t"
  then have "(u @ t @ x # v) ! i = t ! (i - length u)" "i - length u < length t"
    by (auto simp: nth_append)
  with assms show "P ((u @ t @ x # v) ! i)" by simp
qed auto

lemma scan_upto_Ret:
  assumes "p < length m" "e < length m"
  shows "\<exists>q. scan_upto P m p e = Ret q \<and> p \<le> q \<and> q \<le> max p e \<and> q < length m
    \<and> (q < e \<longrightarrow> \<not> P (m ! q)) \<and> (\<forall>i. p \<le> i \<and> i < q \<longrightarrow> P (m ! i))"
  using assms
proof (induction P m p e rule: scan_upto.induct)
  case (1 P m p e)
  show ?case
  proof (cases "P (m ! p) \<and> p < e")
    case True
    with "1.IH" "1.prems" obtain q where
      q: "scan_upto P m (Suc p) e = Ret q" "Suc p \<le> q" "q \<le> max (Suc p) e" "q < length m"
        "q < e \<longrightarrow> \<not> P (m ! q)" "\<forall>i. Suc p \<le> i \<and> i < q \<longrightarrow> P (m ! i)"
      by auto
    have "\<forall>i. p \<le> i \<and> i < q \<longrightarrow> P (m ! i)"
      using all_from_Suc [of "\<lambda>i. P (m ! i)" p q] True q(6) by blast
    with True "1.prems" q show ?thesis
      by (intro exI [of _ q]) (simp add: scan_upto.simps [of P m p])
  next
    case False
    with "1.prems" show ?thesis
      by (intro exI [of _ p]) (auto simp: scan_upto.simps [of P m p])
  qed
qed

lemma scan_upto_RetD:
  "scan_upto P m p e = Ret q \<Longrightarrow> p \<le> q \<and> q \<le> max p e \<and> q < length m
     \<and> (\<forall>i. p \<le> i \<and> i < q \<longrightarrow> P (m ! i))"
proof (induction P m p e rule: scan_upto.induct)
  case (1 P m p e)
  show ?case
  proof (cases "p < length m \<and> P (m ! p) \<and> p < e")
    case True
    with "1.prems" have "scan_upto P m (Suc p) e = Ret q"
      by (simp add: scan_upto.simps [of P m p])
    with "1.IH" True have "Suc p \<le> q \<and> q \<le> max (Suc p) e \<and> q < length m \<and> (\<forall>i. Suc p \<le> i \<and> i < q \<longrightarrow> P (m ! i))"
      by blast
    with True show ?thesis
      using all_from_Suc [of "\<lambda>i. P (m ! i)" p q] by auto
  next
    case False
    with "1.prems" show ?thesis
      by (auto simp: scan_upto.simps [of P m p] split: if_splits)
  qed
qed

lemma scan_upto_stop:
  assumes "p \<le> q" "q \<le> e" "q < length m" "q = e \<or> \<not> P (m ! q)" "\<And>i. p \<le> i \<Longrightarrow> i < q \<Longrightarrow> P (m ! i)"
  shows "scan_upto P m p e = Ret q"
  using assms
proof (induction "q - p" arbitrary: p)
  case 0
  then show ?case by (auto simp: scan_upto.simps [of P m p])
next
  case (Suc n)
  then have "p < q" "P (m ! p)" by auto
  moreover have "scan_upto P m (Suc p) e = Ret q"
    using Suc \<open>p < q\<close> by (intro Suc.hyps(1)) auto
  ultimately show ?case
    using Suc.prems(2,3) by (simp add: scan_upto.simps [of P m p])
qed

lemma cstr_at_append: "NUL \<notin> set t \<Longrightarrow> cstr_at (u @ t @ NUL # v) (length u) = t"
  by (induction t arbitrary: u) (auto simp: cstr_at_def)

lemma cstr_at_no_NUL: "NUL \<notin> set (cstr_at m p)"
  by (auto simp: cstr_at_def dest: set_takeWhileD)

section \<open>Pointers and C strings\<close>

datatype ptr = Null | Lit string | At nat nat

text \<open>Reading the C string a pointer leads to.\<close>

definition deref :: "heap \<Rightarrow> ptr \<Rightarrow> string res" where
  "deref h p = (case p of
       Null \<Rightarrow> Crash Null_Deref
     | Lit s \<Rightarrow> Ret s
     | At b off \<Rightarrow>
         (if b < length h \<and> nul_from (h ! b) off then Ret (cstr_at (h ! b) off)
          else Crash Out_Of_Bounds))"

lemma deref_simps [simp]:
  "deref h Null = Crash Null_Deref"
  "deref h (Lit s) = Ret s"
  "deref h (At b off) =
     (if b < length h \<and> nul_from (h ! b) off then Ret (cstr_at (h ! b) off) else Crash Out_Of_Bounds)"
  by (simp_all add: deref_def)

record str_t =
  data :: ptr
  len :: nat

text \<open>The initialiser \<open>server_string("...")\<close> and the assignment \<open>to_string(p, "...")\<close>.\<close>

definition server_string :: "string \<Rightarrow> str_t" where
  "server_string s = \<lparr>data = Lit s, len = length s\<rparr>"

definition null_str :: str_t where
  "null_str = \<lparr>data = Null, len = 0\<rparr>"

lemma server_string_simps [simp]:
  "data (server_string s) = Lit s" "len (server_string s) = length s"
  by (simp_all add: server_string_def)

lemma null_str_simps [simp]: "data null_str = Null" "len null_str = 0"
  by (simp_all add: null_str_def)

section \<open>String comparison\<close>

text \<open>\<open>strncmp(a, b, n) == 0\<close> and its case-insensitive variant, on the texts of two C strings.\<close>

fun strncmp_eq :: "nat \<Rightarrow> string \<Rightarrow> string \<Rightarrow> bool" where
  "strncmp_eq 0 a b = True"
| "strncmp_eq (Suc n) [] [] = True"
| "strncmp_eq (Suc n) (x # xs) (y # ys) = (x = y \<and> strncmp_eq n xs ys)"
| "strncmp_eq (Suc n) _ _ = False"

definition strncasecmp_eq :: "nat \<Rightarrow> string \<Rightarrow> string \<Rightarrow> bool" where
  "strncasecmp_eq n a b = strncmp_eq n (map tolower a) (map tolower b)"

definition strcasecmp_eq :: "string \<Rightarrow> string \<Rightarrow> bool" where
  "strcasecmp_eq a b = (map tolower a = map tolower b)"

lemma strncmp_eq_take: "strncmp_eq n a b \<longleftrightarrow> take n a = take n b"
  by (induction n a b rule: strncmp_eq.induct) auto

lemma strncasecmp_eq_take:
  "strncasecmp_eq n a b \<longleftrightarrow> take n (map tolower a) = take n (map tolower b)"
  by (simp add: strncasecmp_eq_def strncmp_eq_take)

lemma strncmp_eq_refl [simp]: "strncmp_eq n a a"
  by (simp add: strncmp_eq_take)

lemma strncasecmp_eq_refl [simp]: "strncasecmp_eq n a a"
  by (simp add: strncasecmp_eq_take)

lemma strncmp_eq_prefix: "strncmp_eq (length a) a b \<longleftrightarrow> take (length a) b = a"
  by (auto simp: strncmp_eq_take)

text \<open>\<open>strstr\<close>: what is left of the text from the first occurrence on.\<close>

fun strstr :: "string \<Rightarrow> string \<Rightarrow> string option" where
  "strstr pat s =
     (if take (length pat) s = pat then Some s
      else case s of [] \<Rightarrow> None | _ # cs \<Rightarrow> strstr pat cs)"

declare strstr.simps [simp del]

lemma strstr_here: "take (length pat) s = pat \<Longrightarrow> strstr pat s = Some s"
  by (simp add: strstr.simps [of pat s])

section \<open>Integers and their decimal text\<close>

definition int32 :: "int \<Rightarrow> int" where
  "int32 i = (i + 2 ^ 31) mod 2 ^ 32 - 2 ^ 31"

definition size_t_of_int :: "int \<Rightarrow> nat" where
  "size_t_of_int i = nat (i mod 2 ^ 64)"

lemma int32_id: "- (2 ^ 31) \<le> i \<Longrightarrow> i < 2 ^ 31 \<Longrightarrow> int32 i = i"
  by (simp add: int32_def)

lemma size_t_of_int_id: "0 \<le> i \<Longrightarrow> i < 2 ^ 64 \<Longrightarrow> size_t_of_int i = nat i"
  by (simp add: size_t_of_int_def)

text \<open>\<open>atoi\<close> as glibc has it: \<open>(int) strtol(s, NULL, 10)\<close>, which skips white space, reads an
  optional sign and the digits that follow, saturates at the bounds of \<open>long\<close> and is cut to 32 bits.\<close>

fun digits_val :: "int \<Rightarrow> string \<Rightarrow> int" where
  "digits_val acc [] = acc"
| "digits_val acc (c # cs) = (if isdigit c then digits_val (acc * 10 + (int (byte c) - 48)) cs else acc)"

definition strtol10 :: "string \<Rightarrow> int" where
  "strtol10 s =
     (let t = dropWhile isspace s;
          v = (case t of
                 [] \<Rightarrow> 0
               | c # cs \<Rightarrow> (if c = CHR ''-'' then - digits_val 0 cs
                           else if c = CHR ''+'' then digits_val 0 cs
                           else digits_val 0 t))
      in max (- (2 ^ 63)) (min (2 ^ 63 - 1) v))"

definition atoi :: "string \<Rightarrow> int" where
  "atoi s = int32 (strtol10 s)"

text \<open>The text \<open>printf("%d")\<close> writes.\<close>

definition digit_char :: "nat \<Rightarrow> char" where
  "digit_char d = char_of (48 + d)"

fun show_nat :: "nat \<Rightarrow> string" where
  "show_nat n = (if n < 10 then [digit_char n] else show_nat (n div 10) @ [digit_char (n mod 10)])"

declare show_nat.simps [simp del]

definition show_int :: "int \<Rightarrow> string" where
  "show_int i = (if i < 0 then CHR ''-'' # show_nat (nat (- i)) else show_nat (nat i))"

lemma byte_digit_char: "d < 10 \<Longrightarrow> byte (digit_char d) = 48 + d"
  by (simp add: byte_def digit_char_def)

lemma isdigit_digit_char: "d < 10 \<Longrightarrow> isdigit (digit_char d)"
  by (simp add: isdigit_def byte_digit_char)

lemma show_nat_digits: "\<forall>c \<in> set (show_nat n). isdigit c"
proof (induction n rule: show_nat.induct)
  case (1 n)
  then show ?case
    by (subst show_nat.simps) (auto simp: isdigit_digit_char)
qed

lemma show_nat_nonempty: "show_nat n \<noteq> []"
  by (subst show_nat.simps) simp

lemma digits_val_append:
  "\<forall>c \<in> set s. isdigit c \<Longrightarrow> digits_val acc (s @ t) = digits_val (digits_val acc s) t"
  by (induction s arbitrary: acc) auto

lemma digits_val_show_nat: "digits_val 0 (show_nat n) = int n"
proof (induction n rule: show_nat.induct)
  case (1 n)
  show ?case
  proof (cases "n < 10")
    case True
    then show ?thesis
      by (subst show_nat.simps) (simp add: isdigit_digit_char byte_digit_char)
  next
    case False
    with 1 have IH: "digits_val 0 (show_nat (n div 10)) = int (n div 10)" by simp
    have "digits_val 0 (show_nat n) = digits_val (int (n div 10)) [digit_char (n mod 10)]"
      using False by (subst show_nat.simps) (simp add: digits_val_append [OF show_nat_digits] IH)
    also have "\<dots> = int (n div 10) * 10 + int (n mod 10)"
      by (simp add: isdigit_digit_char byte_digit_char)
    also have "\<dots> = int (n div 10 * 10 + n mod 10)"
      by (simp only: of_nat_add of_nat_mult of_nat_numeral)
    finally show ?thesis by (simp only: div_mult_mod_eq)
  qed
qed

lemma isdigit_not_sign: "isdigit c \<Longrightarrow> c \<noteq> CHR ''-'' \<and> c \<noteq> CHR ''+'' \<and> \<not> isspace c \<and> c \<noteq> NUL"
  by (auto simp: isdigit_def isspace_def byte_def)

lemma strtol10_digits:
  assumes "s \<noteq> []" "\<forall>c \<in> set s. isdigit c"
  shows "strtol10 s = max (- (2 ^ 63)) (min (2 ^ 63 - 1) (digits_val 0 s))"
proof -
  obtain c cs where s: "s = c # cs" using assms(1) by (cases s) auto
  with assms(2) have "isdigit c" by simp
  note c = isdigit_not_sign [OF this]
  have "dropWhile isspace s = s" using s c by simp
  then show ?thesis using s c by (simp add: strtol10_def Let_def)
qed

lemma atoi_show_nat:
  assumes "int n < 2 ^ 31"
  shows "atoi (show_nat n) = int n"
proof -
  have "strtol10 (show_nat n) = max (- (2 ^ 63)) (min (2 ^ 63 - 1) (int n))"
    using strtol10_digits [OF show_nat_nonempty show_nat_digits] by (simp add: digits_val_show_nat)
  with assms show ?thesis by (simp add: atoi_def int32_id)
qed

lemma NUL_notin_show_nat: "NUL \<notin> set (show_nat n)"
  using show_nat_digits isdigit_not_sign by blast

section \<open>Lists\<close>

lemma takeWhile_all_append: "\<forall>c \<in> set t. P c \<Longrightarrow> takeWhile P (t @ u) = t @ takeWhile P u"
  by (induction t) auto

lemma find_snoc:
  "find P (xs @ [y]) = (case find P xs of Some x \<Rightarrow> Some x | None \<Rightarrow> if P y then Some y else None)"
  by (induction xs) auto

lemma nth_append_mid: "i = length u \<Longrightarrow> (u @ x # v) ! i = x"
  by simp

lemma update_mid: "i = length u \<Longrightarrow> (u @ x # v)[i := y] = u @ y # v"
  by simp

lemma drop_at: "i = length u \<Longrightarrow> drop i (u @ v) = v"
  by simp

end
