(* ===== verification/Pool.thy ===== *)
theory Pool
  imports Prelude "HOL-Library.Multiset"
begin

text \<open>
  The memory pool of \<open>src/pool.c\<close> and the two allocators built on it, \<open>src/buf.c\<close> and
  \<open>src/array.c\<close>.

  A pool is its two linked lists, head first: the blocks handed out and the cleanup handlers.
  \<open>malloc\<close> is the environment: every operation that calls it takes the address it returned
  (\<open>None\<close> for \<open>NULL\<close>). Destroying a pool is the sequence of calls it makes.

  The pool never hands out a null pointer for a positive size (\<open>pool_alloc\<close> adds the size of its
  node header to what \<open>malloc\<close> returned, without looking at it), so the \<open>== NULL\<close> tests of its
  callers are dead code: either \<open>malloc\<close> succeeded, or the first write to the block is a wild one.
  The theories above therefore describe the runs in which \<open>malloc\<close> succeeds.
\<close>

section \<open>The pool\<close>

type_synonym addr = nat

record pool_cleanup_node =
  cleanup_addr :: addr
  cleanup :: nat
  ctx :: nat

record pool =
  self :: addr
  head :: "addr list"
  cleanup_head :: "pool_cleanup_node list"

definition sizeof_pool_node :: nat where
  "sizeof_pool_node = 8"

definition pool_create :: "addr option \<Rightarrow> pool option" where
  "pool_create m = map_option (\<lambda>a. \<lparr>self = a, head = [], cleanup_head = []\<rparr>) m"

text \<open>\<open>pool_alloc\<close>: the pointer it returns, as an address (0 is \<open>NULL\<close>), and the pool.\<close>

definition pool_alloc :: "pool option \<Rightarrow> int \<Rightarrow> addr option \<Rightarrow> addr \<times> pool option" where
  "pool_alloc thiz sz m = (case thiz of
       None \<Rightarrow> (0, None)
     | Some t \<Rightarrow>
         if sz \<le> 0 then (0, thiz)
         else (case m of
             Some a \<Rightarrow> (a + sizeof_pool_node, Some (t\<lparr>head := a # head t\<rparr>))
           | None \<Rightarrow> (sizeof_pool_node, thiz)))"

text \<open>Writing to the block at \<open>p\<close> is fine exactly when \<open>malloc\<close> had returned one.\<close>

definition write_block :: "addr option \<Rightarrow> 'a \<Rightarrow> 'a res" where
  "write_block m x = (case m of Some _ \<Rightarrow> Ret x | None \<Rightarrow> Crash Out_Of_Bounds)"

definition pool_calloc :: "pool option \<Rightarrow> int \<Rightarrow> addr option \<Rightarrow> (addr \<times> pool option) res" where
  "pool_calloc thiz sz m =
     (if thiz = None \<or> sz \<le> 0 then Ret (0, thiz)
      else let (p, thiz') = pool_alloc thiz sz m
           in if p \<noteq> 0 then write_block m (p, thiz') else Ret (p, thiz'))"

definition pool_add_cleanup ::
  "pool option \<Rightarrow> nat option \<Rightarrow> nat \<Rightarrow> addr option \<Rightarrow> bool \<times> pool option" where
  "pool_add_cleanup thiz f c m = (case (thiz, f) of
       (Some t, Some g) \<Rightarrow>
         (case m of
            Some a \<Rightarrow>
              (True, Some (t\<lparr>cleanup_head := \<lparr>cleanup_addr = a, cleanup = g, ctx = c\<rparr> # cleanup_head t\<rparr>))
          | None \<Rightarrow> (False, thiz))
     | _ \<Rightarrow> (False, thiz))"

definition pool_reset :: "pool option \<Rightarrow> bool" where
  "pool_reset thiz = (thiz \<noteq> None)"

datatype pool_event = Run nat nat | Free addr

definition cleanup_events :: "pool_cleanup_node \<Rightarrow> pool_event list" where
  "cleanup_events c = [Run (cleanup c) (ctx c), Free (cleanup_addr c)]"

definition pool_destroy :: "pool option \<Rightarrow> bool \<times> pool_event list" where
  "pool_destroy thiz = (case thiz of
       None \<Rightarrow> (False, [])
     | Some t \<Rightarrow> (True, concat (map cleanup_events (cleanup_head t)) @ map Free (head t) @ [Free (self t)]))"

text \<open>The string copies: the text found at the pointer they return.\<close>

definition pool_strdup :: "pool option \<Rightarrow> string option \<Rightarrow> addr option \<Rightarrow> (string option \<times> pool option) res" where
  "pool_strdup thiz str m = (case (str, thiz) of
       (Some s, Some _) \<Rightarrow>
         (let (p, thiz') = pool_alloc thiz (int (length s) + 1) m
          in if p = 0 then Ret (None, thiz') else write_block m (Some s, thiz'))
     | _ \<Rightarrow> Ret (None, thiz))"

definition str_of_opt :: "string option \<Rightarrow> str_t" where
  "str_of_opt s = (case s of None \<Rightarrow> null_str | Some t \<Rightarrow> server_string t)"

definition pool_strdup2 ::
  "pool option \<Rightarrow> str_t \<Rightarrow> string option \<Rightarrow> addr option \<Rightarrow> (bool \<times> str_t \<times> pool option) res" where
  "pool_strdup2 thiz out str m =
     (if str = None \<or> thiz = None then Ret (False, out, thiz)
      else bnd (pool_strdup thiz str m) (\<lambda>(s, thiz'). Ret (True, str_of_opt s, thiz')))"

definition pool_strndup ::
  "pool option \<Rightarrow> string option \<Rightarrow> int \<Rightarrow> addr option \<Rightarrow> (string option \<times> pool option) res" where
  "pool_strndup thiz str n m = (case (str, thiz) of
       (Some s, Some _) \<Rightarrow>
         if n \<le> 0 then Ret (None, thiz)
         else (let (p, thiz') = pool_alloc thiz (n + 1) m
               in if p = 0 then Ret (None, thiz')
                  else if int (length s) < n then Crash Out_Of_Bounds
                  else write_block m (Some (take (nat n) s), thiz'))
     | _ \<Rightarrow> Ret (None, thiz))"

section \<open>Using a pool\<close>

datatype pool_op = Alloc int "addr option" | Add_Cleanup nat nat "addr option"

fun pool_op_run :: "pool \<Rightarrow> pool_op \<Rightarrow> pool" where
  "pool_op_run t (Alloc n m) = the (snd (pool_alloc (Some t) n m))"
| "pool_op_run t (Add_Cleanup g c m) = the (snd (pool_add_cleanup (Some t) (Some g) c m))"

fun pool_run :: "pool \<Rightarrow> pool_op list \<Rightarrow> pool" where
  "pool_run t [] = t"
| "pool_run t (x # xs) = pool_run (pool_op_run t x) xs"

text \<open>What \<open>malloc\<close> returned to the pool, and the handlers that were registered, in call order.\<close>

fun op_mallocs :: "pool_op \<Rightarrow> addr list" where
  "op_mallocs (Alloc n m) = (if n \<le> 0 then [] else case m of None \<Rightarrow> [] | Some a \<Rightarrow> [a])"
| "op_mallocs (Add_Cleanup g c m) = (case m of None \<Rightarrow> [] | Some a \<Rightarrow> [a])"

fun op_cleanups :: "pool_op \<Rightarrow> (nat \<times> nat) list" where
  "op_cleanups (Alloc n m) = []"
| "op_cleanups (Add_Cleanup g c m) = (case m of None \<Rightarrow> [] | Some a \<Rightarrow> [(g, c)])"

fun runs_of :: "pool_event list \<Rightarrow> (nat \<times> nat) list" where
  "runs_of [] = []"
| "runs_of (Run f c # es) = (f, c) # runs_of es"
| "runs_of (Free a # es) = runs_of es"

fun frees_of :: "pool_event list \<Rightarrow> addr list" where
  "frees_of [] = []"
| "frees_of (Run f c # es) = frees_of es"
| "frees_of (Free a # es) = a # frees_of es"

lemma runs_of_append [simp]: "runs_of (xs @ ys) = runs_of xs @ runs_of ys"
  by (induction xs rule: runs_of.induct) auto

lemma frees_of_append [simp]: "frees_of (xs @ ys) = frees_of xs @ frees_of ys"
  by (induction xs rule: frees_of.induct) auto

lemma runs_of_Free [simp]: "runs_of (map Free as) = []"
  by (induction as) auto

lemma frees_of_Free [simp]: "frees_of (map Free as) = as"
  by (induction as) auto

lemma runs_of_cleanups:
  "runs_of (concat (map cleanup_events cs)) = map (\<lambda>c. (cleanup c, ctx c)) cs"
  by (induction cs) (auto simp: cleanup_events_def)

lemma frees_of_cleanups:
  "frees_of (concat (map cleanup_events cs)) = map cleanup_addr cs"
  by (induction cs) (auto simp: cleanup_events_def)

lemma pool_op_run_shape:
  "self (pool_op_run t x) = self t"
  "mset (head (pool_op_run t x)) + mset (map cleanup_addr (cleanup_head (pool_op_run t x)))
     = mset (head t) + mset (map cleanup_addr (cleanup_head t)) + mset (op_mallocs x)"
  "map (\<lambda>c. (cleanup c, ctx c)) (cleanup_head (pool_op_run t x))
     = rev (op_cleanups x) @ map (\<lambda>c. (cleanup c, ctx c)) (cleanup_head t)"
  by (cases x; auto simp: pool_alloc_def pool_add_cleanup_def split: option.splits)+

lemma pool_run_shape:
  "self (pool_run t xs) = self t
   \<and> mset (head (pool_run t xs)) + mset (map cleanup_addr (cleanup_head (pool_run t xs)))
       = mset (head t) + mset (map cleanup_addr (cleanup_head t)) + mset (concat (map op_mallocs xs))
   \<and> map (\<lambda>c. (cleanup c, ctx c)) (cleanup_head (pool_run t xs))
       = rev (concat (map op_cleanups xs)) @ map (\<lambda>c. (cleanup c, ctx c)) (cleanup_head t)"
proof (induction xs arbitrary: t)
  case (Cons x xs)
  show ?case
    using Cons.IH [of "pool_op_run t x"] pool_op_run_shape [of t x] by (simp add: ac_simps)
qed simp

lemma frees_pool_destroy:
  "mset (frees_of (snd (pool_destroy (Some t))))
     = mset (head t) + mset (map cleanup_addr (cleanup_head t)) + {#self t#}"
  by (simp add: pool_destroy_def frees_of_cleanups)

lemma runs_pool_destroy:
  "runs_of (snd (pool_destroy (Some t))) = map (\<lambda>c. (cleanup c, ctx c)) (cleanup_head t)"
  by (simp add: pool_destroy_def runs_of_cleanups)

text \<open>The last handler's call comes before the first pool block goes: no handler sees a freed block.\<close>

lemma pool_destroy_blocks_last:
  "\<exists>es. snd (pool_destroy (Some t)) = es @ map Free (head t) @ [Free (self t)]
        \<and> runs_of es = runs_of (snd (pool_destroy (Some t)))
        \<and> set (frees_of es) = set (map cleanup_addr (cleanup_head t))"
  by (intro exI [of _ "concat (map cleanup_events (cleanup_head t))"])
    (simp add: pool_destroy_def frees_of_cleanups)

text \<open>C15: Destroying a pool after any sequence of allocations and registrations calls every
  registered cleanup handler exactly once, the latest first, and frees exactly the blocks that
  \<open>malloc\<close> had given to the pool (handed-out blocks, handler nodes and the pool itself), each once.\<close>

theorem pool_destroy_complete:
  assumes "pool_create (Some a) = Some t"
  shows "runs_of (snd (pool_destroy (Some (pool_run t xs)))) = rev (concat (map op_cleanups xs))
    \<and> mset (frees_of (snd (pool_destroy (Some (pool_run t xs)))))
          = mset (concat (map op_mallocs xs)) + {#a#}"
proof -
  from assms have "head t = []" "cleanup_head t = []" "self t = a"
    by (auto simp: pool_create_def)
  with pool_run_shape [of t xs] show ?thesis
    by (simp add: runs_pool_destroy frees_pool_destroy)
qed

theorem pool_destroy_complete_witness:
  "runs_of (snd (pool_destroy (Some (pool_run \<lparr>self = 100, head = [], cleanup_head = []\<rparr>
      [Alloc 5 (Some 200), Add_Cleanup 1 7 (Some 300), Alloc 0 None, Add_Cleanup 2 8 (Some 400)]))))
     = [(2, 8), (1, 7)]"
  using pool_destroy_complete [of 100 "\<lparr>self = 100, head = [], cleanup_head = []\<rparr>"
      "[Alloc 5 (Some 200), Add_Cleanup 1 7 (Some 300), Alloc 0 None, Add_Cleanup 2 8 (Some 400)]"]
  by (simp add: pool_create_def)

text \<open>A failing \<open>malloc\<close> is never reported: for a positive size \<open>pool_alloc\<close> returns a non-null
  pointer whatever \<open>malloc\<close> did, so \<open>pool_calloc\<close> and \<open>pool_strdup\<close> write through a wild pointer
  when memory runs out instead of returning \<open>NULL\<close>, and their callers' null tests never fire.\<close>

lemma pool_alloc_hides_oom:
  assumes "0 < sz"
  shows "fst (pool_alloc (Some t) sz m) \<noteq> 0
    \<and> pool_alloc (Some t) sz None = (sizeof_pool_node, Some t)
    \<and> pool_calloc (Some t) sz None = Crash Out_Of_Bounds
    \<and> pool_strdup (Some t) (Some s) None = Crash Out_Of_Bounds"
  using assms
  by (auto simp: pool_alloc_def pool_calloc_def pool_strdup_def write_block_def sizeof_pool_node_def
      split: option.splits)

section \<open>Buffers\<close>

text \<open>
  A \<open>buf_t\<close> holds four pointers into one block. The block made by \<open>buf_create\<close> is zero-filled;
  the buffers here name the block by its index in the heap of the pool they come from, and the
  pointers are offsets into it. \<open>buf_create\<close> returns the heap with the new block at its end.
\<close>

record buf_t =
  blk :: nat
  buf_start :: nat
  buf_end :: nat
  buf_pos :: nat
  buf_last :: nat

definition sizeof_buf :: int where
  "sizeof_buf = 32"

definition buf_create :: "heap \<Rightarrow> int \<Rightarrow> (buf_t \<times> heap) res" where
  "buf_create h sz = assert_then (0 \<le> sz)
     (Ret (\<lparr>blk = length h, buf_start = 0, buf_end = nat sz, buf_pos = 0, buf_last = 0\<rparr>,
           h @ [replicate (nat sz) NUL]))"

section \<open>Dynamic arrays\<close>

text \<open>
  \<open>elts\<close> holds the slots 0 to \<open>count - 1\<close>, the initialised ones, in a block of \<open>nalloc\<close> slots.
  Growing copies the block; writing a slot the block does not have is out of bounds.
\<close>

record 'a array_t =
  elts :: "'a list"
  nalloc :: nat

definition array_count :: "'a array_t \<Rightarrow> nat" where
  "array_count a = length (elts a)"

definition array_create :: "int \<Rightarrow> 'a array_t res" where
  "array_create n = assert_then (0 < n) (Ret \<lparr>elts = [], nalloc = nat n\<rparr>)"

definition array_push :: "'a array_t \<Rightarrow> 'a \<Rightarrow> 'a array_t res" where
  "array_push a x =
     (let n = (if array_count a = nalloc a then nalloc a + nalloc a div 2 else nalloc a)
      in if array_count a < n then Ret (a\<lparr>elts := elts a @ [x], nalloc := n\<rparr>) else Crash Out_Of_Bounds)"

definition array_ok :: "'a array_t \<Rightarrow> bool" where
  "array_ok a \<longleftrightarrow> 2 \<le> nalloc a \<and> array_count a \<le> nalloc a"

lemma array_create_ok: "2 \<le> n \<Longrightarrow> \<exists>a. array_create n = Ret a \<and> array_ok a \<and> elts a = []"
  by (auto simp: array_create_def array_ok_def array_count_def)

lemma array_push_ok:
  "array_ok a \<Longrightarrow> \<exists>b. array_push a x = Ret b \<and> array_ok b \<and> elts b = elts a @ [x]"
  by (auto simp: array_push_def array_ok_def array_count_def Let_def)

text \<open>The interface the header tables and the configuration rely on: a list that grows at its end.\<close>

locale grow_array =
  fixes create :: "int \<Rightarrow> 'v res"
    and push :: "'v \<Rightarrow> 'a \<Rightarrow> 'v res"
    and list :: "'v \<Rightarrow> 'a list"
    and ok :: "'v \<Rightarrow> bool"
  assumes create_law: "2 \<le> n \<Longrightarrow> \<exists>v. create n = Ret v \<and> ok v \<and> list v = []"
    and push_law: "ok v \<Longrightarrow> \<exists>w. push v x = Ret w \<and> ok w \<and> list w = list v @ [x]"
begin

fun push_all :: "'v \<Rightarrow> 'a list \<Rightarrow> 'v res" where
  "push_all v [] = Ret v"
| "push_all v (x # xs) = bnd (push v x) (\<lambda>w. push_all w xs)"

lemma push_all_list: "ok v \<Longrightarrow> \<exists>w. push_all v xs = Ret w \<and> ok w \<and> list w = list v @ xs"
proof (induction xs arbitrary: v)
  case (Cons x xs)
  obtain w where "push v x = Ret w" "ok w" "list w = list v @ [x]"
    using push_law [OF Cons.prems] by blast
  with Cons.IH [of w] show ?case by auto
qed simp

lemma create_push_all: "2 \<le> n \<Longrightarrow> \<exists>w. bnd (create n) (\<lambda>v. push_all v xs) = Ret w \<and> ok w \<and> list w = xs"
proof -
  assume "2 \<le> n"
  then obtain v where "create n = Ret v" "ok v" "list v = []" using create_law by blast
  with push_all_list [of v xs] show ?thesis by auto
qed

end

interpretation pool_array: grow_array array_create array_push elts array_ok
  by unfold_locales (erule array_create_ok array_push_ok)+

text \<open>Any number of pushes onto an array created with room for at least two elements succeeds and
  yields the pushed elements in order.\<close>

lemma array_push_sequence:
  assumes "2 \<le> n"
  shows "\<exists>w. bnd (array_create n) (\<lambda>v. pool_array.push_all v xs) = Ret w \<and> elts w = xs"
  by (metis pool_array.create_push_all [OF assms])

text \<open>An array created with room for one element never grows (\<open>1 + 1 / 2\<close> is 1): its second push
  writes outside the block.\<close>

lemma array_push_one_overflows:
  "bnd (array_create 1) (\<lambda>a. bnd (array_push a x) (\<lambda>b. array_push b y)) = Crash Out_Of_Bounds"
  by (simp add: array_create_def array_push_def array_count_def)

end
