(* ===== verification/Utils.thy ===== *)
theory Utils
  imports Pool
begin

unbundle bit_operations_syntax

text \<open>
  The helpers of \<open>src/utils.c\<close>: the tokenizer that cuts a buffer in place, sockets with the two
  loops around \<open>recv\<close> and \<open>send\<close>, the 16-bit little-endian writer, opening sockets and reading a
  file. Sockets are the environment: a socket carries what its \<open>recv\<close> and \<open>send\<close> calls will return.
\<close>

section \<open>Tokens\<close>

text \<open>The macro \<open>IS_DELIM\<close>; \<open>strchr\<close> also finds the terminating NUL.\<close>

definition IS_DELIM :: "(char \<Rightarrow> bool) option \<Rightarrow> string option \<Rightarrow> char \<Rightarrow> bool" where
  "IS_DELIM f s c \<longleftrightarrow>
     (case f of Some g \<Rightarrow> g c | None \<Rightarrow> False) \<or>
     (case s of Some d \<Rightarrow> c \<in> set d \<or> c = NUL | None \<Rightarrow> False)"

text \<open>\<open>get_token(str, buf, f, delim)\<close> on the block \<open>m\<close> with \<open>*buf\<close> at offset \<open>p\<close>: the token (offset and
  length, \<open>None\<close> for the return value 0), the block with the NUL written behind it, the new \<open>*buf\<close>.\<close>

definition get_token ::
  "(char \<Rightarrow> bool) option \<Rightarrow> string option \<Rightarrow> region \<Rightarrow> nat \<Rightarrow> ((nat \<times> nat) option \<times> region \<times> nat) res" where
  "get_token f delim m p =
     bnd (scan_while (\<lambda>c. c \<noteq> NUL \<and> IS_DELIM f delim c) m p) (\<lambda>q.
     bnd (load m q) (\<lambda>c.
       if c = NUL then Ret (None, m, p)
       else bnd (scan_while (\<lambda>c. c \<noteq> NUL \<and> \<not> IS_DELIM f delim c) m (Suc q)) (\<lambda>e.
            bnd (store m e NUL) (\<lambda>m'. Ret (Some (q, e - q), m', Suc e)))))"

text \<open>With a NUL ahead the tokenizer stays inside the block. It either finds nothing but delimiters
  up to the NUL, or cuts out a non-empty token by writing one NUL.\<close>

lemma get_token_safe:
  assumes "nul_from m p"
  shows "get_token f d m p = Ret (None, m, p) \<or>
    (\<exists>q e. get_token f d m p = Ret (Some (q, e - q), m[e := NUL], Suc e)
      \<and> p \<le> q \<and> q < e \<and> e < length m \<and> m ! q \<noteq> NUL \<and> \<not> IS_DELIM f d (m ! q)
      \<and> (\<forall>i. q < i \<and> i < e \<longrightarrow> m ! i \<noteq> NUL \<and> \<not> IS_DELIM f d (m ! i))
      \<and> (m ! e = NUL \<or> IS_DELIM f d (m ! e)) \<and> nul_from m e)"
proof -
  let ?D = "\<lambda>c. c \<noteq> NUL \<and> IS_DELIM f d c" and ?N = "\<lambda>c. c \<noteq> NUL \<and> \<not> IS_DELIM f d c"
  obtain q where q: "scan_while ?D m p = Ret q" "p \<le> q" "q < length m" "\<not> ?D (m ! q)" "nul_from m q"
    using scan_while_Ret [OF assms, of ?D] by auto
  show ?thesis
  proof (cases "m ! q = NUL")
    case True
    with q show ?thesis by (simp add: get_token_def load_def)
  next
    case False
    with q(5) have "nul_from m (Suc q)" by (rule nul_from_Suc)
    then obtain e where e: "scan_while ?N m (Suc q) = Ret e" "Suc q \<le> e" "e < length m" "\<not> ?N (m ! e)"
      "\<forall>i. Suc q \<le> i \<and> i < e \<longrightarrow> ?N (m ! i)" "nul_from m e"
      using scan_while_Ret [of m "Suc q" ?N] by auto
    have "get_token f d m p = Ret (Some (q, e - q), m[e := NUL], Suc e)"
      using q(1,3) False e(1,3) by (simp add: get_token_def load_def store_def)
    with q e False show ?thesis by auto
  qed
qed

text \<open>On well-formed text the token is exactly the run of non-delimiters.\<close>

lemma get_token_append:
  assumes "\<forall>c \<in> set sp. c \<noteq> NUL \<and> IS_DELIM f d c"
    and "t \<noteq> []" and "\<forall>c \<in> set t. c \<noteq> NUL \<and> \<not> IS_DELIM f d c"
    and "x = NUL \<or> IS_DELIM f d x"
  shows "get_token f d (u @ sp @ t @ x # v) (length u) =
    Ret (Some (length u + length sp, length t), u @ sp @ t @ NUL # v, Suc (length u + length sp + length t))"
proof -
  let ?m = "u @ sp @ t @ x # v"
  let ?D = "\<lambda>c. c \<noteq> NUL \<and> IS_DELIM f d c" and ?N = "\<lambda>c. c \<noteq> NUL \<and> \<not> IS_DELIM f d c"
  obtain a t' where t: "t = a # t'" using assms(2) by (cases t) auto
  have "scan_while ?D (u @ sp @ a # (t' @ x # v)) (length u) = Ret (length u + length sp)"
    by (rule scan_while_append) (use assms t in auto)
  then have 1: "scan_while ?D ?m (length u) = Ret (length u + length sp)" using t by simp
  have "scan_while ?N ((u @ sp @ [a]) @ t' @ x # v) (length (u @ sp @ [a]))
          = Ret (length (u @ sp @ [a]) + length t')"
    by (rule scan_while_append) (use assms t in auto)
  then have 2: "scan_while ?N ?m (Suc (length u + length sp)) = Ret (length u + length sp + length t)"
    using t by simp
  have 3: "load ?m (length u + length sp) = Ret a" using t by (simp add: load_def nth_append)
  have 4: "store ?m (length u + length sp + length t) NUL = Ret (u @ sp @ t @ NUL # v)"
    by (simp add: store_def list_update_append)
  have "a \<noteq> NUL" using assms(3) t by simp
  then show ?thesis
    unfolding get_token_def by (simp add: 1 2 3 4)
qed

section \<open>Sockets\<close>

datatype errno = E_OK | EINTR | EAGAIN | E_Other

datatype rcv = Data string | Recv_Error errno

datatype snd_result = Sent nat | Send_Error errno

text \<open>
  What the peer and the kernel do to one socket: \<open>inbox\<close> lists the results of the \<open>recv\<close> calls to
  come (at its end the peer has closed the connection: \<open>recv\<close> returns 0), \<open>sends\<close> those of the \<open>send\<close>
  calls (at its end every \<open>send\<close> takes all it is given), \<open>outbox\<close> the bytes sent so far. \<open>errno\<close> is set
  by a failing call and left alone by a successful one.
\<close>

record sock =
  inbox :: "rcv list"
  sends :: "snd_result list"
  outbox :: string
  sock_errno :: errno

text \<open>The loop \<open>while ((count = recv(fd, p, n, 0)) <= 0 && errno == EINTR)\<close>: \<open>count\<close>, the bytes
  received, and what is left. A \<open>recv\<close> that returns 0 does not set \<open>errno\<close>: with a stale \<open>EINTR\<close> the
  loop runs on, for ever when nothing more can arrive.\<close>

fun recv_retry :: "nat \<Rightarrow> rcv list \<Rightarrow> errno \<Rightarrow> (int \<times> string \<times> rcv list \<times> errno) res" where
  "recv_retry n [] er = (if er = EINTR then Crash Diverges else Ret (0, [], [], er))"
| "recv_retry n (Recv_Error e # r) er =
     (if e = EINTR then recv_retry n r e else Ret (- 1, [], r, e))"
| "recv_retry n (Data d # r) er =
     (if n = 0 then (if er = EINTR then Crash Diverges else Ret (0, [], Data d # r, er))
      else if d = [] then (if er = EINTR then recv_retry n r er else Ret (0, [], r, er))
      else let k = min n (length d)
           in Ret (int k, take k d, (if k < length d then Data (drop k d) # r else r), er))"

text \<open>\<open>nwrite\<close>: 1 when everything was sent, with the bytes that went out.\<close>

fun nwrite_loop :: "string \<Rightarrow> snd_result list \<Rightarrow> errno \<Rightarrow> bool \<times> string \<times> snd_result list \<times> errno" where
  "nwrite_loop [] ss er = (True, [], ss, er)"
| "nwrite_loop b [] er = (True, b, [], er)"
| "nwrite_loop b (Send_Error e # ss) er =
     (if e = EINTR \<or> e = EAGAIN then nwrite_loop b ss e else (False, [], ss, e))"
| "nwrite_loop b (Sent k # ss) er =
     (if k = 0 then (if er = EINTR \<or> er = EAGAIN then nwrite_loop b ss er else (False, [], ss, er))
      else let (r, out, ss', er') = nwrite_loop (drop k b) ss er in (r, take k b @ out, ss', er'))"

definition nwrite :: "sock \<Rightarrow> string \<Rightarrow> (bool \<times> sock) res" where
  "nwrite s b = assert_then (b \<noteq> [])
     (let (r, out, ss, er) = nwrite_loop b (sends s) (sock_errno s)
      in Ret (r, s\<lparr>sends := ss, outbox := outbox s @ out, sock_errno := er\<rparr>))"

lemma nwrite_loop_sent:
  "nwrite_loop b ss er = (r, out, ss', er') \<Longrightarrow> (if r then out = b else \<exists>t. b = out @ t \<and> t \<noteq> [])"
proof (induction b ss er arbitrary: r out ss' er' rule: nwrite_loop.induct)
  case (4 b0 bs k ss er)
  let ?b = "b0 # bs"
  show ?case
  proof (cases "k = 0")
    case True
    with 4 show ?thesis by (auto split: if_splits)
  next
    case False
    obtain r1 o1 s1 e1 where rec: "nwrite_loop (drop k ?b) ss er = (r1, o1, s1, e1)"
      by (metis prod_cases4)
    with 4(3) False have "r = r1" "out = take k ?b @ o1" by simp_all
    moreover have "if r1 then o1 = drop k ?b else \<exists>t. drop k ?b = o1 @ t \<and> t \<noteq> []"
      using 4(2) [OF False rec] .
    ultimately show ?thesis by (metis append_take_drop_id append_assoc)
  qed
qed (auto split: if_splits)

lemma nwrite_Ret:
  assumes "b \<noteq> []"
  shows "\<exists>r s' out. nwrite s b = Ret (r, s') \<and> outbox s' = outbox s @ out \<and> inbox s' = inbox s
    \<and> (if r then out = b else \<exists>t. b = out @ t \<and> t \<noteq> [])"
proof -
  obtain r out ss er where rec: "nwrite_loop b (sends s) (sock_errno s) = (r, out, ss, er)"
    by (metis prod_cases4)
  show ?thesis
    using assms nwrite_loop_sent [OF rec] rec by (simp add: nwrite_def)
qed



section \<open>Little-endian sizes\<close>

definition uint16_little_endian :: "16 word \<Rightarrow> string" where
  "uint16_little_endian w = [char_of (unat (w AND 0xff)), char_of (unat (drop_bit 8 w AND 0xff))]"

text \<open>The reader of the other side (the uwsgi protocol).\<close>

definition le16 :: "char \<Rightarrow> char \<Rightarrow> 16 word" where
  "le16 a b = of_nat (byte a + 256 * byte b)"

lemma unat_low_byte: "unat (w AND 0xff :: 16 word) = unat w mod 256"
proof -
  have "w AND 0xff = w AND mask 8" by (simp add: mask_eq_exp_minus_1)
  also have "\<dots> = take_bit 8 w" by (simp add: take_bit_eq_mask)
  finally show ?thesis by (simp add: take_bit_eq_mod unat_mod_distrib)
qed

lemma le16_roundtrip: "uint16_little_endian w = [a, b] \<Longrightarrow> le16 a b = w"
proof -
  assume "uint16_little_endian w = [a, b]"
  then have ab: "a = char_of (unat (w AND 0xff))" "b = char_of (unat (drop_bit 8 w AND 0xff))"
    by (simp_all add: uint16_little_endian_def)
  have w: "unat w < 65536" using unsigned_less [of w, where 'a = nat] by simp
  have lo: "unat (w AND 0xff) = unat w mod 256" by (rule unat_low_byte)
  have "unat (drop_bit 8 w) = unat w div 256"
    by (simp add: drop_bit_eq_div unat_div_distrib)
  then have hi: "unat (drop_bit 8 w AND 0xff) = unat w div 256"
    using w by (simp add: unat_low_byte)
  have "byte a + 256 * byte b = unat w"
    using w by (simp add: ab lo hi byte_def)
  then show ?thesis by (simp add: le16_def)
qed

lemma length_uint16_little_endian [simp]: "length (uint16_little_endian w) = 2"
  by (simp add: uint16_little_endian_def)

section \<open>Opening sockets\<close>

text \<open>The descriptors the calls leave open. Each system call's result is given.\<close>

definition connect_remote :: "int \<Rightarrow> bool \<Rightarrow> int \<times> int list" where
  "connect_remote socket_fd connect_ok =
     (if socket_fd < 0 then (- 1, [])
      else if \<not> connect_ok then (- 1, [])
      else (socket_fd, [socket_fd]))"

definition open_listen_fd :: "int \<Rightarrow> int \<Rightarrow> int \<Rightarrow> bool \<Rightarrow> bool \<Rightarrow> bool \<Rightarrow> (int \<times> int list) res" where
  "open_listen_fd port backlog socket_fd setsockopt_ok bind_ok listen_ok =
     assert_then (0 \<le> port \<and> 0 < backlog)
       (Ret (if socket_fd < 0 then (- 1, [])
             else if \<not> setsockopt_ok then (- 1, [socket_fd])
             else if \<not> bind_ok then (- 1, [])
             else if \<not> listen_ok then (- 1, [])
             else (socket_fd, [socket_fd])))"

text \<open>\<open>open_listen_fd\<close> returns a descriptor exactly when all four calls succeed, and a failing call
  leaves no descriptor open except \<open>setsockopt\<close>, whose failure leaks the socket.\<close>

lemma open_listen_fd_leak:
  assumes "0 \<le> port" "0 < backlog" "open_listen_fd port backlog fd so b l = Ret (r, fds)"
  shows "(0 \<le> r \<longleftrightarrow> 0 \<le> fd \<and> so \<and> b \<and> l) \<and> (0 \<le> r \<longrightarrow> r = fd \<and> fds = [fd])
    \<and> (r < 0 \<longrightarrow> (fds = [] \<or> fds = [fd])) \<and> (r < 0 \<and> fds = [fd] \<longleftrightarrow> 0 \<le> fd \<and> \<not> so)"
  using assms by (auto simp: open_listen_fd_def split: if_splits)

section \<open>Reading a file\<close>

text \<open>The file as \<open>fopen\<close>, \<open>stat\<close> and \<open>fread\<close> see it: \<open>None\<close> when it does not open.\<close>

definition read_file :: "string option \<Rightarrow> bool \<Rightarrow> region option" where
  "read_file content stat_ok = (case content of
       None \<Rightarrow> None
     | Some c \<Rightarrow> (if stat_ok then Some (c @ [NUL]) else None))"

end
