(* ===== verification/Http.thy ===== *)
theory Http
  imports Utils
begin

text \<open>
  \<open>src/http.h\<close> and \<open>src/http.c\<close>: the shared HTTP data, the table of status lines and of error pages
  with their binary searches, the content types, and the header table (\<open>http_header_set\<close>,
  \<open>http_header_str\<close> and their relatives).
\<close>

section \<open>Header names\<close>

definition XWP_SERVER_VER :: string where
  "XWP_SERVER_VER = ''xwp server 0.1''"

definition http_header_names :: "str_t list" where
  "http_header_names =
    [server_string ''Connection'', server_string ''Date'', server_string ''Server'',
     server_string ''Host'', server_string ''Content-Type'', server_string ''Content-Length'',
     server_string ''Keep-Alive'', server_string ''Close'', server_string XWP_SERVER_VER,
     server_string ''Expect'']"

definition HTTP_HEADER_CONNECTION :: str_t where "HTTP_HEADER_CONNECTION = http_header_names ! 0"
definition HTTP_HEADER_SERVER :: str_t where "HTTP_HEADER_SERVER = http_header_names ! 2"
definition HTTP_HEADER_HOST :: str_t where "HTTP_HEADER_HOST = http_header_names ! 3"
definition HTTP_HEADER_CONTENT_TYPE :: str_t where "HTTP_HEADER_CONTENT_TYPE = http_header_names ! 4"
definition HTTP_HEADER_CONTENT_LEN :: str_t where "HTTP_HEADER_CONTENT_LEN = http_header_names ! 5"
definition HTTP_HEADER_KEEPALIVE :: str_t where "HTTP_HEADER_KEEPALIVE = http_header_names ! 6"
definition HTTP_HEADER_CLOSE :: str_t where "HTTP_HEADER_CLOSE = http_header_names ! 7"
definition HTTP_HEADER_XWP_VER :: str_t where "HTTP_HEADER_XWP_VER = http_header_names ! 8"
definition HTTP_HEADER_EXPECT :: str_t where "HTTP_HEADER_EXPECT = http_header_names ! 9"

lemmas header_name_defs = HTTP_HEADER_CONNECTION_def HTTP_HEADER_SERVER_def HTTP_HEADER_HOST_def
  HTTP_HEADER_CONTENT_TYPE_def HTTP_HEADER_CONTENT_LEN_def HTTP_HEADER_KEEPALIVE_def
  HTTP_HEADER_CLOSE_def HTTP_HEADER_XWP_VER_def HTTP_HEADER_EXPECT_def http_header_names_def

section \<open>Status lines\<close>

definition http_status_infos :: "(int \<times> string) list" where
  "http_status_infos =
    [(200, ''200 OK''),
     (201, ''201 Created''),
     (202, ''202 Accepted''),
     (204, ''204 No Content''),
     (206, ''206 Partial Content''),
     (301, ''301 Moved Permanently''),
     (302, ''302 Moved Temporarily''),
     (303, ''303 See Other''),
     (304, ''304 Not Modified''),
     (307, ''307 Temporary Redirect''),
     (400, ''400 Bad Request''),
     (401, ''401 Unauthorized''),
     (402, ''402 Payment Required''),
     (403, ''403 Forbidden''),
     (404, ''404 Not Found''),
     (405, ''405 Not Allowed''),
     (406, ''406 Not Acceptable''),
     (408, ''408 Request Time-out''),
     (409, ''409 Conflict''),
     (410, ''410 Gone''),
     (411, ''411 Length Required''),
     (412, ''412 Precondition Failed''),
     (413, ''413 Request Entity Too Large''),
     (415, ''415 Unsupported Media Type''),
     (416, ''416 Requested Range Not Satisfiable''),
     (500, ''500 Internal Server Error''),
     (501, ''501 Method Not Implemented''),
     (502, ''502 Bad Gateway''),
     (503, ''503 Service Temporarily Unavailable''),
     (504, ''504 Gateway Time-out''),
     (507, ''507 Insufficient Storage'')]"

text \<open>The binary search both tables are searched with. \<open>high\<close> starts at the number of entries, one
  past the last index, so the search can read behind the table.\<close>

function bsearch :: "(int \<times> 'b) list \<Rightarrow> int \<Rightarrow> int \<Rightarrow> int \<Rightarrow> 'b option res" where
  "bsearch tbl status low high =
     (if low \<le> high then
        let mid = (low + high) div 2 in
        if mid < 0 \<or> int (length tbl) \<le> mid then Crash Out_Of_Bounds
        else if fst (tbl ! nat mid) = status then Ret (Some (snd (tbl ! nat mid)))
        else if fst (tbl ! nat mid) < status then bsearch tbl status (mid + 1) high
        else bsearch tbl status low (mid - 1)
      else Ret None)"
  by pat_completeness auto
termination
  by (relation "measure (\<lambda>(tbl, status, low, high). nat (high - low + 1))") auto

declare bsearch.simps [simp del]

definition http_status_line :: "int \<Rightarrow> string res" where
  "http_status_line status =
     bnd (bsearch http_status_infos status 0 (int (length http_status_infos))) (\<lambda>r. case r of
       Some line \<Rightarrow> Ret line
     | None \<Rightarrow> Crash Assert_Failed)"

section \<open>Error pages\<close>

definition http_error_full_tail :: string where
  "http_error_full_tail =
     ''<hr><center>'' @ XWP_SERVER_VER @ ''</center>'' @ CRLF @ ''</body>'' @ CRLF @ ''</html>'' @ CRLF"

definition page_html :: "string \<Rightarrow> string \<Rightarrow> string \<Rightarrow> string" where
  "page_html title h1 rest =
     ''<html>'' @ CRLF @ ''<head><title>'' @ title @ ''</title></head>'' @ CRLF
     @ ''<body bgcolor='' @ [CHR 0x22] @ ''white'' @ [CHR 0x22] @ ''>'' @ CRLF
     @ ''<center><h1>'' @ h1 @ ''</h1></center>'' @ CRLF @ rest"

definition http_error_pages_3xx :: "(nat \<times> string) list" where
  "http_error_pages_3xx =
    [(301, page_html ''301 Moved Permanently'' ''301 Moved Permanently'' []),
     (302, page_html ''302 Found'' ''302 Found'' []),
     (303, page_html ''303 See Other'' ''303 See Other'' []),
     (307, page_html ''307 Temporary Redirect'' ''307 Temporary Redirect'' [])]"

definition http_error_pages_40x :: "(nat \<times> string) list" where
  "http_error_pages_40x =
    [(400, page_html ''400 Bad Request'' ''400 Bad Request'' []),
     (401, page_html ''401 Authorization Required'' ''401 Authorization Required'' []),
     (402, page_html ''402 Payment Required'' ''402 Payment Required'' []),
     (403, page_html ''403 Forbidden'' ''403 Forbidden'' []),
     (404, page_html ''404 Not Found'' ''404 Not Found'' []),
     (405, page_html ''405 Not Allowed'' ''405 Not Allowed'' []),
     (406, page_html ''406 Not Acceptable'' ''406 Not Acceptable'' []),
     (408, page_html ''408 Request Time-out'' ''408 Request Time-out'' []),
     (409, page_html ''409 Conflict'' ''409 Conflict'' [])]"

definition http_error_pages_41x :: "(nat \<times> string) list" where
  "http_error_pages_41x =
    [(410, page_html ''410 Gone'' ''410 Gone'' []),
     (411, page_html ''411 Length Required'' ''411 Length Required'' []),
     (412, page_html ''412 Precondition Failed'' ''412 Precondition Failed'' []),
     (413, page_html ''413 Request Entity Too Large'' ''413 Request Entity Too Large'' []),
     (414, page_html ''414 Request-URI Too Large'' ''414 Request-URI Too Large'' []),
     (415, page_html ''415 Unsupported Media Type'' ''415 Unsupported Media Type'' []),
     (416, page_html ''416 Requested Range Not Satisfiable'' ''416 Requested Range Not Satisfiable'' [])]"

definition http_error_pages_49x :: "(nat \<times> string) list" where
  "http_error_pages_49x =
    [(494, page_html ''400 Request Header Or Cookie Too Large'' ''400 Bad Request'' (''<center>Request Header Or Cookie Too Large</center>'' @ CRLF)),
     (495, page_html ''400 The SSL certificate error'' ''400 Bad Request'' (''<center>The SSL certificate error</center>'' @ CRLF)),
     (496, page_html ''400 No required SSL certificate was sent'' ''400 Bad Request'' (''<center>No required SSL certificate was sent</center>'' @ CRLF)),
     (497, page_html ''400 The plain HTTP request was sent to HTTPS port'' ''400 Bad Request'' (''<center>The plain HTTP request was sent to HTTPS port</center>'' @ CRLF))]"

definition http_error_pages_5xx :: "(nat \<times> string) list" where
  "http_error_pages_5xx =
    [(500, page_html ''500 Internal Server Error'' ''500 Internal Server Error'' []),
     (501, page_html ''501 Method Not Implemented'' ''501 Method Not Implemented'' []),
     (502, page_html ''502 Bad Gateway'' ''502 Bad Gateway'' []),
     (503, page_html ''503 Service Temporarily Unavailable'' ''503 Service Temporarily Unavailable'' []),
     (504, page_html ''504 Gateway Time-out'' ''504 Gateway Time-out'' []),
     (507, page_html ''507 Insufficient Storage'' ''507 Insufficient Storage'' [])]"

definition http_error_page_text :: "nat \<Rightarrow> string" where
  "http_error_page_text n = the (map_of (http_error_pages_3xx @ http_error_pages_40x
     @ http_error_pages_41x @ http_error_pages_49x @ http_error_pages_5xx) n)"

definition http_error_pages :: "(int \<times> string) list" where
  "http_error_pages = map (\<lambda>(s, n). (s, http_error_page_text n))
    [(301, 301), (302, 302), (303, 303), (307, 307), (400, 400), (401, 401), (402, 402),
     (403, 403), (404, 404), (405, 405), (406, 406), (408, 408), (409, 409),
     (410, 410), (411, 411), (412, 412), (413, 413), (414, 414), (415, 415),
     (416, 416), (494, 494), (495, 495), (496, 496), (497, 497), (404, 404),
     (500, 500), (501, 501), (502, 502), (503, 503), (504, 504), (507, 507)]"

text \<open>\<open>http_error_page\<close>: the text of the page it builds (\<open>None\<close> for \<open>NULL\<close>); \<open>ret_page->len\<close> is its length.\<close>

definition http_error_page :: "int \<Rightarrow> string option \<Rightarrow> string option res" where
  "http_error_page status err_msg =
     bnd (bsearch http_error_pages status 0 (int (length http_error_pages))) (\<lambda>page. case page of
       None \<Rightarrow> Ret None
     | Some pg \<Rightarrow> Ret (Some (pg @ (case err_msg of Some e \<Rightarrow> e | None \<Rightarrow> []) @ http_error_full_tail)))"

section \<open>Content types\<close>

definition content_types :: "(string \<times> string) list" where
  "content_types =
    [([], ''application/octet-stream''),
     (''exe'', ''application/octet-stream''),
     (''js'', ''text/html''),
     (''gif'', ''image/gif''),
     (''bmp'', ''image/x-xbitmap''),
     (''jpg'', ''image/jpeg''),
     (''png'', ''image/png''),
     (''ico'', ''image/x-icon''),
     (''htm'', ''text/html''),
     (''asp'', ''text/html''),
     (''php'', ''text/html''),
     (''html'', ''text/html''),
     (''mht'', ''text/html''),
     (''xml'', ''text/xml''),
     (''txt'', ''text/plain''),
     (''c'', ''text/plain''),
     (''cpp'', ''text/plain''),
     (''hpp'', ''text/plain''),
     (''h'', ''text/plain''),
     (''lrc'', ''text/plain''),
     (''pdf'', ''application/pdf''),
     (''avi'', ''video/avi''),
     (''css'', ''text/css''),
     (''swf'', ''application/x-shockwave-flash''),
     (''flv'', ''application/x-shockwave-flash''),
     (''xls'', ''application/vnd.ms-excel''),
     (''doc'', ''application/vnd.ms-word''),
     (''mid'', ''audio/midi''),
     (''mp3'', ''audio/mpeg''),
     (''ogg'', ''audio/ogg''),
     (''rm'', ''application/vnd.rn-realmedia''),
     (''rmvb'', ''application/vnd.rn-realmedia''),
     (''wav'', ''audio/wav''),
     (''wmv'', ''video/x-ms-wmv''),
     (''zip'', ''application/x-tar''),
     (''rar'', ''application/x-tar''),
     (''7z'', ''application/x-tar''),
     (''tar'', ''application/x-tar''),
     (''gz'', ''application/x-tar'')]"

definition http_content_type :: "string option \<Rightarrow> string" where
  "http_content_type extension = (case extension of
       None \<Rightarrow> ''text/html''
     | Some e \<Rightarrow> (case map_of content_types e of Some t \<Rightarrow> t | None \<Rightarrow> ''text/html''))"

section \<open>The header table\<close>

record http_header_t =
  hname :: str_t
  hvalue :: str_t

type_synonym headers = "http_header_t array_t"

text \<open>The loop of \<open>http_header_set\<close>: the table with the first header replaced whose name starts with
  the given name, and whether there is one.\<close>

fun header_replace :: "heap \<Rightarrow> str_t \<Rightarrow> str_t \<Rightarrow> http_header_t list \<Rightarrow> (http_header_t list \<times> bool) res" where
  "header_replace h name value [] = Ret ([], False)"
| "header_replace h name value (x # xs) =
     bnd (deref h (data name)) (\<lambda>n.
     bnd (deref h (data (hname x))) (\<lambda>m.
       if strncmp_eq (len name) n m then Ret (x\<lparr>hvalue := value\<rparr> # xs, True)
       else bnd (header_replace h name value xs) (\<lambda>(ys, found). Ret (x # ys, found))))"

definition http_header_set :: "heap \<Rightarrow> headers \<Rightarrow> str_t \<Rightarrow> str_t \<Rightarrow> headers res" where
  "http_header_set h t name value =
     bnd (header_replace h name value (elts t)) (\<lambda>(ys, found).
       if found then Ret (t\<lparr>elts := ys\<rparr>)
       else array_push t \<lparr>hname = name, hvalue = value\<rparr>)"

text \<open>\<open>http_header_set2\<close> takes C strings and compares whole names.\<close>

fun header_replace2 :: "heap \<Rightarrow> string \<Rightarrow> string \<Rightarrow> http_header_t list \<Rightarrow> (http_header_t list \<times> bool) res" where
  "header_replace2 h name value [] = Ret ([], False)"
| "header_replace2 h name value (x # xs) =
     bnd (deref h (data (hname x))) (\<lambda>m.
       if name = m then Ret (x\<lparr>hvalue := server_string value\<rparr> # xs, True)
       else bnd (header_replace2 h name value xs) (\<lambda>(ys, found). Ret (x # ys, found)))"

definition http_header_set2 :: "heap \<Rightarrow> headers \<Rightarrow> string \<Rightarrow> string \<Rightarrow> headers res" where
  "http_header_set2 h t name value =
     bnd (header_replace2 h name value (elts t)) (\<lambda>(ys, found).
       if found then Ret (t\<lparr>elts := ys\<rparr>)
       else array_push t \<lparr>hname = server_string name, hvalue = server_string value\<rparr>)"

fun header_find :: "heap \<Rightarrow> str_t \<Rightarrow> http_header_t list \<Rightarrow> str_t option res" where
  "header_find h name [] = Ret None"
| "header_find h name (x # xs) =
     bnd (deref h (data name)) (\<lambda>n.
     bnd (deref h (data (hname x))) (\<lambda>m.
       if strncasecmp_eq (len name) n m then Ret (Some (hvalue x)) else header_find h name xs))"

definition http_header_str :: "heap \<Rightarrow> headers \<Rightarrow> str_t \<Rightarrow> str_t option res" where
  "http_header_str h t name = header_find h name (elts t)"

definition http_header_int :: "heap \<Rightarrow> headers \<Rightarrow> str_t \<Rightarrow> int res" where
  "http_header_int h t name =
     bnd (http_header_str h t name) (\<lambda>v. case v of
       None \<Rightarrow> Ret (- 1)
     | Some s \<Rightarrow> bnd (deref h (data s)) (\<lambda>x. Ret (atoi x)))"

definition http_header_equal :: "heap \<Rightarrow> headers \<Rightarrow> str_t \<Rightarrow> str_t \<Rightarrow> bool res" where
  "http_header_equal h t name value =
     bnd (http_header_str h t name) (\<lambda>v. case v of
       None \<Rightarrow> Ret False
     | Some s \<Rightarrow> bnd (deref h (data s)) (\<lambda>a. bnd (deref h (data value)) (\<lambda>b.
         Ret (strncasecmp_eq (len s) a b))))"

section \<open>Correctness of the binary search\<close>

definition keys_sorted :: "(int \<times> 'b) list \<Rightarrow> bool" where
  "keys_sorted tbl \<longleftrightarrow> sorted_wrt (<) (map fst tbl)"

lemma keys_sorted_nth: "keys_sorted tbl \<Longrightarrow> i < j \<Longrightarrow> j < length tbl \<Longrightarrow> fst (tbl ! i) < fst (tbl ! j)"
  by (auto simp: keys_sorted_def sorted_wrt_iff_nth_less)

lemma keys_sorted_distinct: "keys_sorted tbl \<Longrightarrow> distinct (map fst tbl)"
  by (simp add: keys_sorted_def strict_sorted_iff)

lemma keys_sorted_mono: "keys_sorted tbl \<Longrightarrow> i \<le> j \<Longrightarrow> j < length tbl \<Longrightarrow> fst (tbl ! i) \<le> fst (tbl ! j)"
  by (cases "i = j") (auto dest: keys_sorted_nth [of tbl i j])

lemma bsearch_found:
  assumes "keys_sorted tbl" "0 \<le> low" "high \<le> int (length tbl)"
    and "\<And>i. i < length tbl \<Longrightarrow> int i < low \<Longrightarrow> fst (tbl ! i) < s"
    and "\<And>i. i < length tbl \<Longrightarrow> high < int i \<Longrightarrow> s < fst (tbl ! i)"
    and "\<exists>i < length tbl. s \<le> fst (tbl ! i)"
  shows "bsearch tbl s low high = Ret (map_of tbl s)"
  using assms
proof (induction tbl s low high rule: bsearch.induct)
  case (1 tbl s low high)
  note p = "1.prems"
  show ?case
  proof (cases "low \<le> high")
    case False
    have "s \<notin> fst ` set tbl"
    proof
      assume "s \<in> fst ` set tbl"
      then obtain i where i: "i < length tbl" "fst (tbl ! i) = s" by (auto simp: in_set_conv_nth)
      with p(4) [of i] p(5) [of i] False show False by (cases "int i < low") auto
    qed
    with False show ?thesis by (simp add: bsearch.simps [of tbl s low high] map_of_eq_None_iff [symmetric])
  next
    case True
    define mid where "mid = (low + high) div 2"
    have m: "low \<le> mid" "mid \<le> high" using True by (auto simp: mid_def)
    obtain k where k: "k < length tbl" "s \<le> fst (tbl ! k)" using p(6) by blast
    have in_tbl: "\<not> (mid < 0 \<or> int (length tbl) \<le> mid)"
    proof
      assume "mid < 0 \<or> int (length tbl) \<le> mid"
      with m p(2,3) have "low = int (length tbl)" by (auto simp: mid_def)
      with p(4) [of k] k show False by simp
    qed
    then obtain j where j: "mid = int j" "j < length tbl" using p(2) m by (metis nat_0_le nat_less_iff linorder_not_less order_trans)
    show ?thesis
    proof (cases "fst (tbl ! j) = s")
      case eq: True
      then have "map_of tbl s = Some (snd (tbl ! j))"
        using j keys_sorted_distinct [OF p(1)] by (metis map_of_eq_Some_iff nth_mem prod.collapse)
      with eq True in_tbl j show ?thesis
        by (simp add: bsearch.simps [of tbl s low high] Let_def flip: mid_def)
    next
      case ne: False
      show ?thesis
      proof (cases "fst (tbl ! j) < s")
        case lt: True
        have "bsearch tbl s (mid + 1) high = Ret (map_of tbl s)"
        proof (rule "1.IH"(1) [OF True mid_def in_tbl])
          show "fst (tbl ! nat mid) \<noteq> s" "fst (tbl ! nat mid) < s" using ne lt j by auto
          fix i assume "i < length tbl" "int i < mid + 1"
          with keys_sorted_mono [OF p(1), of i j] j lt show "fst (tbl ! i) < s" by auto
        qed (use p m in auto)
        with True in_tbl j ne lt show ?thesis
          by (simp add: bsearch.simps [of tbl s low high] Let_def flip: mid_def)
      next
        case gt: False
        have "bsearch tbl s low (mid - 1) = Ret (map_of tbl s)"
        proof (rule "1.IH"(2) [OF True mid_def in_tbl])
          show "fst (tbl ! nat mid) \<noteq> s" "\<not> fst (tbl ! nat mid) < s" using ne gt j by auto
          fix i assume "i < length tbl" "mid - 1 < int i"
          with keys_sorted_mono [OF p(1), of j i] j ne gt show "s < fst (tbl ! i)" by auto
        qed (use p m in auto)
        with True in_tbl j ne gt show ?thesis
          by (simp add: bsearch.simps [of tbl s low high] Let_def flip: mid_def)
      qed
    qed
  qed
qed

lemma bsearch_beyond:
  assumes "0 \<le> low" "low \<le> int (length tbl)" "\<And>i. i < length tbl \<Longrightarrow> fst (tbl ! i) < s"
  shows "bsearch tbl s low (int (length tbl)) = Crash Out_Of_Bounds"
  using assms
proof (induction "nat (int (length tbl) - low)" arbitrary: low rule: less_induct)
  case less
  define mid where "mid = (low + int (length tbl)) div 2"
  show ?case
  proof (cases "int (length tbl) \<le> mid")
    case True
    with less.prems show ?thesis
      by (simp add: bsearch.simps [of tbl s low] Let_def flip: mid_def)
  next
    case False
    with less.prems have m: "low \<le> mid" "mid < int (length tbl)" by (auto simp: mid_def)
    then have "fst (tbl ! nat mid) < s" using less.prems by auto
    moreover have "bsearch tbl s (mid + 1) (int (length tbl)) = Crash Out_Of_Bounds"
      by (rule less.hyps) (use m less.prems in auto)
    ultimately show ?thesis
      using m less.prems(1,2) by (simp add: bsearch.simps [of tbl s low] Let_def flip: mid_def)
  qed
qed

lemma keys_sorted_status: "keys_sorted http_status_infos"
  by (simp add: keys_sorted_def http_status_infos_def)

lemma status_max: "x \<in> set http_status_infos \<Longrightarrow> fst x \<le> 507"
  by (auto simp: http_status_infos_def)

lemma http_status_line_cases:
  "http_status_line s =
     (if 507 < s then Crash Out_Of_Bounds
      else case map_of http_status_infos s of Some line \<Rightarrow> Ret line | None \<Rightarrow> Crash Assert_Failed)"
proof (cases "507 < s")
  case True
  have "bsearch http_status_infos s 0 (int (length http_status_infos)) = Crash Out_Of_Bounds"
  proof (rule bsearch_beyond)
    fix i assume "i < length http_status_infos"
    then show "fst (http_status_infos ! i) < s" using True status_max [OF nth_mem] by fastforce
  qed auto
  with True show ?thesis by (simp add: http_status_line_def)
next
  case False
  have "bsearch http_status_infos s 0 (int (length http_status_infos)) = Ret (map_of http_status_infos s)"
  proof (rule bsearch_found [OF keys_sorted_status])
    have "30 < length http_status_infos \<and> fst (http_status_infos ! 30) = 507"
      by (simp add: http_status_infos_def)
    with False show "\<exists>i < length http_status_infos. s \<le> fst (http_status_infos ! i)" by fastforce
  qed auto
  with False show ?thesis by (simp add: http_status_line_def)
qed

lemma http_status_line_listed: "map_of http_status_infos s = Some line \<Longrightarrow> http_status_line s = Ret line"
  using status_max [of "(s, line)"] by (auto simp: http_status_line_cases dest: map_of_SomeD)

text \<open>C32: \<open>http_status_line\<close> finds the line of every status of its table; for a status between the
  first and the last entry that the table does not list it runs into \<open>assert(0)\<close>, and for every
  status above 507 it reads behind the table.\<close>

theorem http_status_line_correct:
  "http_status_line s =
     (if 507 < s then Crash Out_Of_Bounds
      else case map_of http_status_infos s of Some line \<Rightarrow> Ret line | None \<Rightarrow> Crash Assert_Failed)"
  by (rule http_status_line_cases)

text \<open>The table of error pages is not sorted (404 stands once more between 497 and 500), so the search
  is checked entry by entry.\<close>

lemma http_error_pages_search:
  "list_all (\<lambda>(s, pg). bsearch http_error_pages s 0 (int (length http_error_pages)) = Ret (Some pg))
     http_error_pages"
  by (simp add: http_error_pages_def bsearch.simps)

lemma http_error_page_listed:
  assumes "(s, pg) \<in> set http_error_pages"
  shows "http_error_page s err = Ret (Some (pg @ (case err of Some e \<Rightarrow> e | None \<Rightarrow> []) @ http_error_full_tail))"
proof -
  have "bsearch http_error_pages s 0 (int (length http_error_pages)) = Ret (Some pg)"
    using http_error_pages_search assms by (auto simp: list_all_iff)
  then show ?thesis by (simp add: http_error_page_def)
qed

text \<open>For every status that has an error page the server builds that page: the page of the status,
  the error message if there is one, and the common tail.\<close>

lemma http_error_page_correct:
  assumes "(s, pg) \<in> set http_error_pages"
  shows "http_error_page s err = Ret (Some (pg @ (case err of Some e \<Rightarrow> e | None \<Rightarrow> []) @ http_error_full_tail))"
  by (rule http_error_page_listed [OF assms])

section \<open>Correctness of the header table\<close>

text \<open>A \<open>str_t\<close> is well formed when its length is that of the C string it points to.\<close>

definition str_ok :: "heap \<Rightarrow> str_t \<Rightarrow> bool" where
  "str_ok h s \<longleftrightarrow> (\<exists>t. deref h (data s) = Ret t \<and> len s = length t)"

definition text_of :: "heap \<Rightarrow> str_t \<Rightarrow> string" where
  "text_of h s = (case deref h (data s) of Ret t \<Rightarrow> t | Crash e \<Rightarrow> [])"

lemma str_okD: "str_ok h s \<Longrightarrow> deref h (data s) = Ret (text_of h s) \<and> len s = length (text_of h s)"
  by (auto simp: str_ok_def text_of_def)

lemma str_ok_server_string [simp]: "str_ok h (server_string t)" "text_of h (server_string t) = t"
  by (simp_all add: str_ok_def text_of_def)

text \<open>The lookups match a header whose name merely starts with the wanted one, so they behave like a
  map only on names none of which starts, up to case, with another.\<close>

definition prefix_free :: "string set \<Rightarrow> bool" where
  "prefix_free N \<longleftrightarrow> (\<forall>n \<in> N. \<forall>m \<in> N. strncasecmp_eq (length n) n m \<longrightarrow> n = m)"

definition header_texts :: "heap \<Rightarrow> http_header_t list \<Rightarrow> string list" where
  "header_texts h xs = map (\<lambda>x. text_of h (hname x)) xs"

definition headers_ok :: "heap \<Rightarrow> headers \<Rightarrow> bool" where
  "headers_ok h t \<longleftrightarrow> array_ok t \<and> (\<forall>x \<in> set (elts t). str_ok h (hname x))
     \<and> distinct (header_texts h (elts t))"

lemma prefix_free_mono: "prefix_free N \<Longrightarrow> M \<subseteq> N \<Longrightarrow> prefix_free M"
  by (auto simp: prefix_free_def)

lemma strncmp_imp_casecmp: "strncmp_eq n a b \<Longrightarrow> strncasecmp_eq n a b"
  by (metis strncmp_eq_take strncasecmp_eq_take take_map)

lemma prefix_free_cmp:
  assumes "prefix_free N" "n \<in> N" "m \<in> N"
  shows "strncmp_eq (length n) n m \<longleftrightarrow> m = n" "strncasecmp_eq (length n) n m \<longleftrightarrow> m = n"
  using assms strncmp_imp_casecmp [of "length n" n m] by (auto simp: prefix_free_def)

lemma header_replace_spec:
  assumes "str_ok h name" "\<forall>x \<in> set xs. str_ok h (hname x)"
    and "prefix_free (insert (text_of h name) (set (header_texts h xs)))" "distinct (header_texts h xs)"
  shows "header_replace h name value xs =
    Ret (map (\<lambda>x. if text_of h (hname x) = text_of h name then x\<lparr>hvalue := value\<rparr> else x) xs,
         text_of h name \<in> set (header_texts h xs))"
  using assms
proof (induction xs)
  case (Cons x xs)
  let ?n = "text_of h name" and ?m = "text_of h (hname x)"
  have pf: "prefix_free (insert ?n (set (header_texts h xs)))"
    using Cons.prems(3) by (rule prefix_free_mono) (auto simp: header_texts_def)
  note IH = Cons.IH [OF Cons.prems(1) _ pf]
  have c: "strncmp_eq (length ?n) ?n ?m \<longleftrightarrow> ?m = ?n"
    using prefix_free_cmp(1) [OF Cons.prems(3)] by (simp add: header_texts_def)
  have d: "deref h (data name) = Ret ?n" "len name = length ?n" "deref h (data (hname x)) = Ret ?m"
    using Cons.prems(1,2) by (simp_all add: str_okD)
  show ?case
  proof (cases "?m = ?n")
    case True
    with Cons.prems(4) have "?n \<notin> set (header_texts h xs)" by (auto simp: header_texts_def)
    then have "map (\<lambda>x. if text_of h (hname x) = ?n then x\<lparr>hvalue := value\<rparr> else x) xs = xs"
      by (induction xs) (auto simp: header_texts_def)
    with True c d show ?thesis by (simp add: header_texts_def)
  next
    case False
    with c d IH Cons.prems show ?thesis by (simp add: header_texts_def)
  qed
qed (simp add: header_texts_def)

lemma header_find_spec:
  assumes "str_ok h name" "\<forall>x \<in> set xs. str_ok h (hname x)"
    and "prefix_free (insert (text_of h name) (set (header_texts h xs)))"
  shows "header_find h name xs = Ret (map_option hvalue (find (\<lambda>x. text_of h (hname x) = text_of h name) xs))"
  using assms
proof (induction xs)
  case (Cons x xs)
  let ?n = "text_of h name" and ?m = "text_of h (hname x)"
  have pf: "prefix_free (insert ?n (set (header_texts h xs)))"
    using Cons.prems(3) by (rule prefix_free_mono) (auto simp: header_texts_def)
  have c: "strncasecmp_eq (length ?n) ?n ?m \<longleftrightarrow> ?m = ?n"
    using prefix_free_cmp(2) [OF Cons.prems(3)] by (simp add: header_texts_def)
  have "deref h (data name) = Ret ?n" "len name = length ?n" "deref h (data (hname x)) = Ret ?m"
    using Cons.prems(1,2) by (simp_all add: str_okD)
  with c Cons.IH [OF Cons.prems(1) _ pf] Cons.prems(2) show ?case by simp
qed simp

lemma find_map_update:
  "find (\<lambda>x. text_of h (hname x) = n) (map (\<lambda>x. if text_of h (hname x) = k then x\<lparr>hvalue := v\<rparr> else x) xs)
     = map_option (\<lambda>x. if n = k then x\<lparr>hvalue := v\<rparr> else x) (find (\<lambda>x. text_of h (hname x) = n) xs)"
  by (induction xs) auto

lemma find_texts_None: "n \<notin> set (header_texts h xs) \<Longrightarrow> find (\<lambda>x. text_of h (hname x) = n) xs = None"
  by (auto simp: find_None_iff header_texts_def)

lemma find_texts_Some: "n \<in> set (header_texts h xs) \<Longrightarrow> \<exists>x. find (\<lambda>x. text_of h (hname x) = n) xs = Some x"
  by (induction xs) (auto simp: header_texts_def)

lemma header_texts_update:
  "header_texts h (map (\<lambda>x. if text_of h (hname x) = k then x\<lparr>hvalue := v\<rparr> else x) xs) = header_texts h xs"
  by (auto simp: header_texts_def)

text \<open>Setting a header: the table stays well formed, the name is in it, and afterwards the value is
  found under that name while every other lookup is unchanged.\<close>

lemma http_header_set_spec:
  assumes ok: "headers_ok h t" "str_ok h name"
    and pf: "prefix_free (insert (text_of h name) (set (header_texts h (elts t))))"
  shows "\<exists>t'. http_header_set h t name value = Ret t' \<and> headers_ok h t'
    \<and> set (header_texts h (elts t')) = insert (text_of h name) (set (header_texts h (elts t)))
    \<and> (\<forall>n. find (\<lambda>x. text_of h (hname x) = n) (elts t') =
          (if n = text_of h name
           then Some (case find (\<lambda>x. text_of h (hname x) = n) (elts t) of
                        Some x \<Rightarrow> x\<lparr>hvalue := value\<rparr> | None \<Rightarrow> \<lparr>hname = name, hvalue = value\<rparr>)
           else find (\<lambda>x. text_of h (hname x) = n) (elts t)))"
proof -
  let ?n = "text_of h name" and ?xs = "elts t"
  let ?ys = "map (\<lambda>x. if text_of h (hname x) = ?n then x\<lparr>hvalue := value\<rparr> else x) ?xs"
  have names: "\<forall>x \<in> set ?xs. str_ok h (hname x)" and arr: "array_ok t"
    and dist: "distinct (header_texts h ?xs)"
    using ok(1) by (auto simp: headers_ok_def)
  have rep: "header_replace h name value ?xs = Ret (?ys, ?n \<in> set (header_texts h ?xs))"
    by (rule header_replace_spec [OF ok(2) names pf dist])
  show ?thesis
  proof (cases "?n \<in> set (header_texts h ?xs)")
    case True
    obtain x where "find (\<lambda>x. text_of h (hname x) = ?n) ?xs = Some x"
      using find_texts_Some [OF True] by blast
    moreover have "array_ok (t\<lparr>elts := ?ys\<rparr>)"
      using arr by (simp add: array_ok_def array_count_def)
    moreover have "\<forall>x \<in> set ?ys. str_ok h (hname x)"
      using names by auto
    moreover have "map_option (\<lambda>x. if n = ?n then x\<lparr>hvalue := value\<rparr> else x) f = f" if "n \<noteq> ?n" for n f
      using that by (cases f) auto
    ultimately show ?thesis
      using True dist rep
      by (auto simp: http_header_set_def headers_ok_def header_texts_update find_map_update)
  next
    case False
    obtain t' where t': "array_push t \<lparr>hname = name, hvalue = value\<rparr> = Ret t'" "array_ok t'"
      "elts t' = ?xs @ [\<lparr>hname = name, hvalue = value\<rparr>]"
      using array_push_ok [OF arr] by blast
    have "find (\<lambda>x. text_of h (hname x) = n) (elts t') =
        (case find (\<lambda>x. text_of h (hname x) = n) ?xs of Some x \<Rightarrow> Some x
         | None \<Rightarrow> if n = ?n then Some \<lparr>hname = name, hvalue = value\<rparr> else None)" for n
      unfolding t'(3) by (auto simp: find_snoc split: option.splits)
    moreover have "find (\<lambda>x. text_of h (hname x) = ?n) ?xs = None"
      by (rule find_texts_None [OF False])
    moreover have "headers_ok h t'"
      using t' names dist False ok(2) by (auto simp: headers_ok_def header_texts_def)
    ultimately show ?thesis
      using False rep t' by (auto simp: http_header_set_def header_texts_def split: option.splits)
  qed
qed

text \<open>The contract of a header table: a map from names to values, as long as the names in play do not
  get in each other's way.\<close>

locale header_map =
  fixes put :: "'t \<Rightarrow> 'k \<Rightarrow> 'v \<Rightarrow> 't res"
    and get :: "'t \<Rightarrow> 'k \<Rightarrow> 'v option res"
    and key :: "'k \<Rightarrow> 'n" and keys :: "'t \<Rightarrow> 'n set"
    and ok :: "'t \<Rightarrow> bool" and key_ok :: "'k \<Rightarrow> bool" and apart :: "'n set \<Rightarrow> bool"
  assumes apart_mono: "apart N \<Longrightarrow> M \<subseteq> N \<Longrightarrow> apart M"
    and get_absent: "ok t \<Longrightarrow> key_ok k \<Longrightarrow> apart (insert (key k) (keys t)) \<Longrightarrow> key k \<notin> keys t \<Longrightarrow> get t k = Ret None"
    and put_law: "ok t \<Longrightarrow> key_ok k \<Longrightarrow> apart (insert (key k) (keys t)) \<Longrightarrow>
      \<exists>t'. put t k v = Ret t' \<and> ok t' \<and> keys t' = insert (key k) (keys t)
        \<and> (\<forall>k'. key_ok k' \<longrightarrow> apart (insert (key k') (keys t')) \<longrightarrow>
              get t' k' = (if key k' = key k then Ret (Some v) else get t k'))"
begin

fun put_all :: "'t \<Rightarrow> ('k \<times> 'v) list \<Rightarrow> 't res" where
  "put_all t [] = Ret t"
| "put_all t ((k, v) # kvs) = bnd (put t k v) (\<lambda>t'. put_all t' kvs)"

lemma put_all_law:
  assumes "ok t" "\<forall>(k, v) \<in> set kvs. key_ok k" "apart (keys t \<union> (\<lambda>(k, v). key k) ` set kvs)"
  shows "\<exists>t'. put_all t kvs = Ret t' \<and> ok t' \<and> keys t' = keys t \<union> (\<lambda>(k, v). key k) ` set kvs
    \<and> (\<forall>k. key_ok k \<longrightarrow> apart (insert (key k) (keys t')) \<longrightarrow>
          get t' k = (case map_of (rev (map (\<lambda>(k, v). (key k, v)) kvs)) (key k) of
                        Some v \<Rightarrow> Ret (Some v) | None \<Rightarrow> get t k))"
  using assms
proof (induction kvs arbitrary: t)
  case (Cons kv kvs)
  obtain k v where kv: "kv = (k, v)" by (cases kv)
  have "apart (insert (key k) (keys t))"
    using Cons.prems(3) by (rule apart_mono) (auto simp: kv)
  then obtain t1 where t1: "put t k v = Ret t1" "ok t1" "keys t1 = insert (key k) (keys t)"
    "\<And>k'. key_ok k' \<Longrightarrow> apart (insert (key k') (keys t1)) \<Longrightarrow>
       get t1 k' = (if key k' = key k then Ret (Some v) else get t k')"
    using put_law [OF Cons.prems(1), of k v] Cons.prems(2) kv by auto
  have "apart (keys t1 \<union> (\<lambda>(k, v). key k) ` set kvs)"
    using Cons.prems(3) by (rule apart_mono) (auto simp: kv t1(3))
  then obtain t2 where t2: "put_all t1 kvs = Ret t2" "ok t2"
    "keys t2 = keys t1 \<union> (\<lambda>(k, v). key k) ` set kvs"
    "\<And>k'. key_ok k' \<Longrightarrow> apart (insert (key k') (keys t2)) \<Longrightarrow>
       get t2 k' = (case map_of (rev (map (\<lambda>(k, v). (key k, v)) kvs)) (key k') of
                      Some v \<Rightarrow> Ret (Some v) | None \<Rightarrow> get t1 k')"
    using Cons.IH [OF t1(2)] Cons.prems(2) by force
  have "get t2 k' = (case map_of (rev (map (\<lambda>(k, v). (key k, v)) (kv # kvs))) (key k') of
                       Some v \<Rightarrow> Ret (Some v) | None \<Rightarrow> get t k')"
    if "key_ok k'" "apart (insert (key k') (keys t2))" for k'
  proof -
    have "apart (insert (key k') (keys t1))"
      using that(2) by (rule apart_mono) (auto simp: t2(3))
    with that t1(4) t2(4) show ?thesis
      by (auto simp: kv map_add_def split: option.splits)
  qed
  with t1 t2 kv show ?case by auto
qed simp

end

interpretation header_table: header_map "http_header_set h" "http_header_str h" "text_of h"
  "\<lambda>t. set (header_texts h (elts t))" "headers_ok h" "str_ok h" prefix_free
  for h :: heap
proof unfold_locales
  fix N M assume "prefix_free N" "M \<subseteq> N"
  then show "prefix_free M" by (rule prefix_free_mono)
next
  fix t k
  assume a: "headers_ok h t" "str_ok h k" "prefix_free (insert (text_of h k) (set (header_texts h (elts t))))"
    "text_of h k \<notin> set (header_texts h (elts t))"
  then have "\<forall>x \<in> set (elts t). str_ok h (hname x)" by (simp add: headers_ok_def)
  with header_find_spec [OF a(2) _ a(3)] find_texts_None [OF a(4)] show "http_header_str h t k = Ret None"
    by (simp add: http_header_str_def)
next
  fix t k v
  assume a: "headers_ok h t" "str_ok h k" "prefix_free (insert (text_of h k) (set (header_texts h (elts t))))"
  then obtain t' where t': "http_header_set h t k v = Ret t'" "headers_ok h t'"
    "set (header_texts h (elts t')) = insert (text_of h k) (set (header_texts h (elts t)))"
    "\<And>n. find (\<lambda>x. text_of h (hname x) = n) (elts t') =
       (if n = text_of h k
        then Some (case find (\<lambda>x. text_of h (hname x) = n) (elts t) of
                     Some x \<Rightarrow> x\<lparr>hvalue := v\<rparr> | None \<Rightarrow> \<lparr>hname = k, hvalue = v\<rparr>)
        else find (\<lambda>x. text_of h (hname x) = n) (elts t))"
    using http_header_set_spec [OF a] by blast
  have "http_header_str h t' k' = (if text_of h k' = text_of h k then Ret (Some v) else http_header_str h t k')"
    if k': "str_ok h k'" "prefix_free (insert (text_of h k') (set (header_texts h (elts t'))))" for k'
  proof -
    have "prefix_free (insert (text_of h k') (set (header_texts h (elts t))))"
      using k'(2) by (rule prefix_free_mono) (auto simp: t'(3))
    moreover have "\<forall>x \<in> set (elts t'). str_ok h (hname x)" "\<forall>x \<in> set (elts t). str_ok h (hname x)"
      using t'(2) a(1) by (simp_all add: headers_ok_def)
    ultimately show ?thesis
      using header_find_spec [OF k'(1)] k'(2) t'(4)
      by (auto simp: http_header_str_def split: option.splits)
  qed
  with t' show "\<exists>t'. http_header_set h t k v = Ret t' \<and> headers_ok h t'
      \<and> set (header_texts h (elts t')) = insert (text_of h k) (set (header_texts h (elts t)))
      \<and> (\<forall>k'. str_ok h k' \<longrightarrow> prefix_free (insert (text_of h k') (set (header_texts h (elts t')))) \<longrightarrow>
            http_header_str h t' k' = (if text_of h k' = text_of h k then Ret (Some v) else http_header_str h t k'))"
    by blast
qed

text \<open>C31: Starting from an empty table, any sequence of \<open>http_header_set\<close> calls with well-formed names
  none of which starts (up to case) with another succeeds, and \<open>http_header_str\<close> then returns for
  every such name the value set last under it, and nothing for a name never set.\<close>

theorem http_header_lookup_after_sets:
  assumes "array_create 24 = Ret t" "\<forall>(k, v) \<in> set kvs. str_ok h k" "str_ok h k"
    and "prefix_free (insert (text_of h k) ((\<lambda>(k, v). text_of h k) ` set kvs))"
  shows "\<exists>t'. header_table.put_all h t kvs = Ret t'
    \<and> http_header_str h t' k = Ret (map_of (rev (map (\<lambda>(k, v). (text_of h k, v)) kvs)) (text_of h k))"
proof -
  have t: "headers_ok h t" "elts t = []"
    using assms(1) by (auto simp: array_create_def headers_ok_def array_ok_def array_count_def header_texts_def)
  have pf: "prefix_free (set (header_texts h (elts t)) \<union> (\<lambda>(k, v). text_of h k) ` set kvs)"
    using assms(4) by (rule prefix_free_mono) (auto simp: t header_texts_def)
  obtain t' where t': "header_table.put_all h t kvs = Ret t'"
    "set (header_texts h (elts t')) = (\<lambda>(k, v). text_of h k) ` set kvs"
    "\<forall>k. str_ok h k \<longrightarrow> prefix_free (insert (text_of h k) (set (header_texts h (elts t')))) \<longrightarrow>
       http_header_str h t' k = (case map_of (rev (map (\<lambda>(k, v). (text_of h k, v)) kvs)) (text_of h k) of
          Some v \<Rightarrow> Ret (Some v) | None \<Rightarrow> http_header_str h t k)"
    using header_table.put_all_law [OF t(1) assms(2) pf] t(2) by (auto simp: header_texts_def)
  with assms(3,4) t(2) show ?thesis
    by (auto simp: http_header_str_def split: option.splits)
qed

theorem http_header_lookup_after_sets_witness:
  "\<exists>t'. header_table.put_all [] \<lparr>elts = [], nalloc = 24\<rparr>
        [(HTTP_HEADER_HOST, server_string ''a''), (HTTP_HEADER_SERVER, server_string ''b''),
         (HTTP_HEADER_HOST, server_string ''c'')] = Ret t'
    \<and> http_header_str [] t' HTTP_HEADER_HOST =
        Ret (map_of (rev (map (\<lambda>(k, v). (text_of [] k, v))
          [(HTTP_HEADER_HOST, server_string ''a''), (HTTP_HEADER_SERVER, server_string ''b''),
           (HTTP_HEADER_HOST, server_string ''c'')])) (text_of [] HTTP_HEADER_HOST))"
  by (rule http_header_lookup_after_sets)
    (simp_all add: array_create_def header_name_defs prefix_free_def strncasecmp_eq_take cchar_defs)

end
