(* ===== verification/Conf_Types.thy ===== *)
theory Conf_Types
  imports Pool
begin

text \<open>
  The configuration data of \<open>src/conf.h\<close> (with the handler configuration of \<open>src/module_uwsgi.c\<close>).
  A handler (\<open>module_t\<close>) is one of the two modules the repository builds; the back pointers to the
  parents are the nesting of the records.
\<close>

record module_uwsgi_conf_t =
  uwsgi_ip :: str_t
  uwsgi_port :: "16 word"
  modifier1 :: "8 word"
  modifier2 :: "8 word"

datatype module_t = Module_Default | Module_Uwsgi module_uwsgi_conf_t

text \<open>What a module library tells about itself; its constructor is one of the two.\<close>

datatype module_create_func = Module_Default_Create | Module_Uwsgi_Create

record module_so_conf_t =
  so_name :: str_t
  so_author :: str_t
  so_description :: str_t
  so_version :: str_t
  module_create :: module_create_func

record vhost_loc_conf_t =
  loc_root :: str_t
  pattern_str :: str_t
  handler_name :: str_t
  handler :: module_t

record vhost_conf_t =
  vhost_name :: str_t
  vhost_root :: str_t
  locs :: "vhost_loc_conf_t array_t"

record conf_t =
  request_pool_size :: int
  connection_timeout :: int
  client_header_size :: int
  large_client_header_size :: int
  content_body_buf_size :: int
  max_content_len :: int
  conf_ip :: str_t
  conf_port :: int
  conf_root :: str_t
  default_page :: str_t
  max_threads :: int
  worker_num :: int
  module_sos :: "module_so_conf_t array_t"
  vhosts :: "vhost_conf_t array_t"
  default_vhost :: vhost_conf_t

end
