(* ===== verification/Http_Parse.thy ===== *)
theory Http_Parse
  imports Http Conf_Types
begin

text \<open>
  The request structure of \<open>src/http.h\<close> and the parsers of \<open>src/http_request.c\<close> (lines 12 to 438):
  the URL state machine, the request line, the header lines and the status line. They work in place:
  a parser gets the heap of the request's pool, the block of the header buffer and the offsets its
  pointers have there, and the strings it stores in the request point into that block.
\<close>

section \<open>The request\<close>

datatype http_method_e = HTTP_METHOD_GET | HTTP_METHOD_POST | HTTP_METHOD_HEAD | HTTP_METHOD_PUT

datatype http_version_e = HTTP_VERSION_10 | HTTP_VERSION_11

datatype http_process_state_e =
    HTTP_PROCESS_STAT_NONE
  | HTTP_PROCESS_STAT_REQUEST_LINE
  | HTTP_PROCESS_STAT_HEADER_LINE
  | HTTP_PROCESS_STAT_CONTENT_BODY
  | HTTP_PROCESS_STAT_STATUS_LINE

record url_t =
  unparsed_url :: str_t
  schema :: str_t
  host :: str_t
  port :: int
  path :: str_t
  query_string :: str_t

record http_headers_in_t =
  in_headers :: headers
  header_host :: "str_t option"
  header_content_type :: "str_t option"
  header_content_len :: "str_t option"
  in_content_len :: int

record http_headers_out_t =
  out_headers :: headers
  out_content_len :: int

record http_content_body_t =
  content_len :: int
  content :: "buf_t option"
  content_fd :: int

text \<open>An upstream of the uwsgi module (\<open>upstream_uwsgi_priv_t\<close> of \<open>src/module_uwsgi.c\<close>): its descriptor, whether it
  is being processed, and the socket behind the descriptor.\<close>

record upstream_t =
  up_fd :: int
  up_running :: bool
  up_sock :: sock

text \<open>\<open>mem\<close> and \<open>bufs\<close> are the blocks and the \<open>buf_t\<close> structures allocated from the request's pool;
  \<open>header_buf\<close> points to one of the latter.\<close>

record http_request_t =
  mem :: heap
  bufs :: "buf_t list"
  remote_ip :: str_t
  remote_port :: "16 word"
  state :: http_process_state_e
  method_str :: str_t
  req_method :: http_method_e
  url :: url_t
  version_str :: str_t
  version :: http_version_e
  status :: int
  keep_alive :: bool
  header_buf :: "nat option"
  headers_in :: http_headers_in_t
  headers_out :: http_headers_out_t
  body_in :: http_content_body_t
  body_out :: http_content_body_t
  upstream :: "upstream_t option"
  err_msg :: "string option"

definition HTTP_STATUS_START :: int where "HTTP_STATUS_START = 100"
definition HTTP_STATUS_OK :: int where "HTTP_STATUS_OK = 200"
definition HTTP_STATUS_SPECIAL_RESPONSE :: int where "HTTP_STATUS_SPECIAL_RESPONSE = 300"
definition HTTP_STATUS_BAD_REQUEST :: int where "HTTP_STATUS_BAD_REQUEST = 400"
definition HTTP_STATUS_FORBIDDEN :: int where "HTTP_STATUS_FORBIDDEN = 403"
definition HTTP_STATUS_NOT_FOUND :: int where "HTTP_STATUS_NOT_FOUND = 404"
definition HTTP_STATUS_CLOSE :: int where "HTTP_STATUS_CLOSE = 444"
definition HTTP_STATUS_INTERNAL_SERVER_ERROR :: int where "HTTP_STATUS_INTERNAL_SERVER_ERROR = 500"
definition HTTP_STATUS_BAD_GATEWAY :: int where "HTTP_STATUS_BAD_GATEWAY = 502"
definition HTTP_STATUS_END :: int where "HTTP_STATUS_END = 599"

lemmas http_status_defs = HTTP_STATUS_START_def HTTP_STATUS_OK_def HTTP_STATUS_SPECIAL_RESPONSE_def
  HTTP_STATUS_BAD_REQUEST_def HTTP_STATUS_FORBIDDEN_def HTTP_STATUS_NOT_FOUND_def
  HTTP_STATUS_CLOSE_def HTTP_STATUS_INTERNAL_SERVER_ERROR_def HTTP_STATUS_BAD_GATEWAY_def
  HTTP_STATUS_END_def

text \<open>\<open>http_request_create\<close>: the structure is zero-filled, then initialised. \<open>ip\<close> is the text
  \<open>inet_ntop\<close> makes of the peer's address, \<open>sin_port\<close> its port as it stands in the address.\<close>

definition null_url :: url_t where
  "null_url = \<lparr>unparsed_url = null_str, schema = null_str, host = null_str, port = 0,
     path = null_str, query_string = null_str\<rparr>"

definition http_request_create :: "string \<Rightarrow> 16 word \<Rightarrow> http_request_t res" where
  "http_request_create ip sin_port =
     bnd (array_create 24) (\<lambda>hin.
     bnd (array_create 24) (\<lambda>hout.
     Ret \<lparr>mem = [], bufs = [], remote_ip = server_string ip, remote_port = sin_port,
          state = HTTP_PROCESS_STAT_NONE, method_str = null_str, req_method = HTTP_METHOD_GET,
          url = null_url, version_str = null_str, version = HTTP_VERSION_10,
          status = HTTP_STATUS_OK, keep_alive = False, header_buf = None,
          headers_in = \<lparr>in_headers = hin, header_host = None, header_content_type = None,
             header_content_len = None, in_content_len = 0\<rparr>,
          headers_out = \<lparr>out_headers = hout, out_content_len = 0\<rparr>,
          body_in = \<lparr>content_len = 0, content = None, content_fd = - 1\<rparr>,
          body_out = \<lparr>content_len = 0, content = None, content_fd = - 1\<rparr>,
          upstream = None, err_msg = None\<rparr>))"

text \<open>The request a fresh connection starts with (peer 127.0.0.1).\<close>

definition fresh_request :: http_request_t where
  "fresh_request = (case http_request_create ''127.0.0.1'' 0 of Ret r \<Rightarrow> r)"

lemma http_request_create_Ret: "http_request_create ip p = Ret r \<Longrightarrow>
    mem r = [] \<and> bufs r = [] \<and> state r = HTTP_PROCESS_STAT_NONE \<and> status r = HTTP_STATUS_OK
    \<and> elts (in_headers (headers_in r)) = [] \<and> elts (out_headers (headers_out r)) = []
    \<and> array_ok (in_headers (headers_in r)) \<and> array_ok (out_headers (headers_out r))
    \<and> upstream r = None \<and> version_str r = null_str"
  by (auto simp: http_request_create_def array_create_def array_ok_def array_count_def)

lemma http_request_create_returns: "\<exists>r. http_request_create ip p = Ret r"
  by (simp add: http_request_create_def array_create_def)

lemma fresh_request_eq: "http_request_create ''127.0.0.1'' 0 = Ret fresh_request"
  by (simp add: fresh_request_def http_request_create_def array_create_def)

datatype http_parse = HTTP_PARSE_DONE | HTTP_PARSE_FAIL | HTTP_PARSE_AGAIN

section \<open>Lines\<close>

definition find_next_eol :: "region \<Rightarrow> nat \<Rightarrow> nat option res" where
  "find_next_eol m p =
     bnd (scan_while (\<lambda>c. c \<noteq> LF \<and> c \<noteq> NUL) m p) (\<lambda>q.
     bnd (load m q) (\<lambda>c. Ret (if c = NUL then None else Some q)))"

section \<open>The URL\<close>

text \<open>The macro \<open>is_character\<close>: letters (a \<open>char\<close> above 127 is negative and stays so).\<close>

definition is_character :: "char \<Rightarrow> bool" where
  "is_character c \<longleftrightarrow> byte c < 128 \<and> 97 \<le> (or (byte c) 32) \<and> or (byte c) 32 \<le> 122"

datatype url_state = STAT_START | STAT_SCHEMA | STAT_SCHEMA_SLASH | STAT_HOST | STAT_PORT
  | STAT_PATH | STAT_QUERY_STRING | STAT_DONE

record url_marks =
  schema_start :: "nat option"
  schema_end :: "nat option"
  host_start :: "nat option"
  host_end :: "nat option"
  path_start :: "nat option"
  path_end :: "nat option"
  query_start :: "nat option"
  query_end :: "nat option"
  port_start :: "nat option"
  port_end :: "nat option"

definition no_marks :: url_marks where
  "no_marks = \<lparr>schema_start = None, schema_end = None, host_start = None, host_end = None,
     path_start = None, path_end = None, query_start = None, query_end = None,
     port_start = None, port_end = None\<rparr>"

text \<open>One round of the loop; \<open>None\<close> is \<open>return HTTP_PARSE_FAIL\<close>.\<close>

fun url_step :: "url_state \<Rightarrow> url_marks \<Rightarrow> nat \<Rightarrow> char \<Rightarrow> (url_state \<times> url_marks) option res" where
  "url_step STAT_START k p c =
     (if isspace c then Ret (Some (STAT_START, k))
      else if is_character c then Ret (Some (STAT_SCHEMA, k\<lparr>schema_start := Some p\<rparr>))
      else if c = CHR ''/'' then Ret (Some (STAT_PATH, k\<lparr>path_start := Some p\<rparr>))
      else Ret None)"
| "url_step STAT_SCHEMA k p c =
     (if is_character c then Ret (Some (STAT_SCHEMA, k))
      else if c = CHR '':'' then Ret (Some (STAT_SCHEMA_SLASH, k\<lparr>schema_end := Some p\<rparr>))
      else Ret None)"
| "url_step STAT_SCHEMA_SLASH k p c =
     (if c = CHR ''/'' then Ret (Some (STAT_SCHEMA_SLASH, k))
      else if is_character c then Ret (Some (STAT_HOST, k\<lparr>host_start := Some p\<rparr>))
      else Ret None)"
| "url_step STAT_HOST k p c =
     (if is_character c then Ret (Some (STAT_HOST, k))
      else if isdigit c \<or> c = CHR ''.'' \<or> c = CHR ''-'' then Ret (Some (STAT_HOST, k))
      else if c = CHR '':'' then
        Ret (Some (STAT_PORT, k\<lparr>host_end := Some p, port_start := Some (p + 1)\<rparr>))
      else if c = CHR ''/'' then
        Ret (Some (STAT_PATH, k\<lparr>host_end := Some p, path_start := Some p\<rparr>))
      else Ret None)"
| "url_step STAT_PORT k p c =
     (if isdigit c then Ret (Some (STAT_PORT, k))
      else if c = CHR ''/'' then
        Ret (Some (STAT_PATH, k\<lparr>port_end := Some p, path_start := Some p\<rparr>))
      else if isspace c then Ret (Some (STAT_DONE, k\<lparr>port_end := Some p\<rparr>))
      else Ret None)"
| "url_step STAT_PATH k p c =
     (if c = CHR ''?'' then
        Ret (Some (STAT_QUERY_STRING, k\<lparr>path_end := Some p, query_start := Some (p + 1)\<rparr>))
      else if c = CHR ''#'' then Ret (Some (STAT_DONE, k\<lparr>path_end := Some p\<rparr>))
      else if isspace c then Ret (Some (STAT_DONE, k\<lparr>path_end := Some p\<rparr>))
      else Ret (Some (STAT_PATH, k)))"
| "url_step STAT_QUERY_STRING k p c =
     (if c = CHR ''#'' \<or> isspace c then Ret (Some (STAT_DONE, k\<lparr>query_end := Some p\<rparr>))
      else Ret (Some (STAT_QUERY_STRING, k)))"
| "url_step STAT_DONE k p c = Crash Assert_Failed"

function url_loop :: "region \<Rightarrow> nat \<Rightarrow> nat \<Rightarrow> url_state \<Rightarrow> url_marks \<Rightarrow> url_marks option res" where
  "url_loop m p e st k =
     (if p < e then
        bnd (load m p) (\<lambda>c.
          if c = NUL then Ret (Some k)
          else bnd (url_step st k p c) (\<lambda>r. case r of
              None \<Rightarrow> Ret None
            | Some (st', k') \<Rightarrow> if st' = STAT_DONE then Ret (Some k') else url_loop m (Suc p) e st' k'))
      else Ret (Some k))"
  by pat_completeness auto
termination
  by (relation "measure (\<lambda>(m, p, e, st, k). e - p)") auto

declare url_loop.simps [simp del]

text \<open>\<open>url->port = strtod(port_start, ...)\<close>: what follows \<open>port_start\<close> are the digits of the port and a
  byte that ends a number, so \<open>strtod\<close> reads the digits; a value beyond \<open>int\<close> is converted to
  \<open>INT_MIN\<close>, as the x86-64 conversion does.\<close>

definition strtod_int :: "string \<Rightarrow> int" where
  "strtod_int s = (let v = digits_val 0 s in if v < 2 ^ 31 then v else - (2 ^ 31))"

text \<open>The assignments after the loop. \<open>e\<close> is \<open>url_str_end\<close>, \<open>b\<close> the block of the buffer.\<close>

definition url_set_schema :: "nat \<Rightarrow> url_marks \<Rightarrow> region \<Rightarrow> url_t \<Rightarrow> (bool \<times> region \<times> url_t) res" where
  "url_set_schema b k m u = (case schema_start k of
       None \<Rightarrow> Ret (True, m, u)
     | Some s \<Rightarrow> (case schema_end k of
           None \<Rightarrow> Ret (False, m, u)
         | Some q \<Rightarrow> bnd (store m q NUL) (\<lambda>m'.
             Ret (True, m', u\<lparr>schema := \<lparr>data = At b s, len = q - s\<rparr>\<rparr>))))"

definition url_set_host :: "url_marks \<Rightarrow> region \<Rightarrow> url_t \<Rightarrow> (bool \<times> region \<times> url_t) res" where
  "url_set_host k m u = (case host_start k of
       None \<Rightarrow> Ret (True, m, u)
     | Some s \<Rightarrow> (case host_end k of
           None \<Rightarrow> Ret (False, m, u)
         | Some q \<Rightarrow>
             Ret (True, m, u\<lparr>host := \<lparr>data = Lit (take (q - s) (drop s m)), len = q - s\<rparr>\<rparr>)))"

definition url_set_port :: "url_marks \<Rightarrow> region \<Rightarrow> url_t \<Rightarrow> (bool \<times> region \<times> url_t) res" where
  "url_set_port k m u = (case port_start k of
       None \<Rightarrow> Ret (True, m, u\<lparr>port := 80\<rparr>)
     | Some s \<Rightarrow> (case port_end k of
           None \<Rightarrow> Ret (False, m, u)
         | Some q \<Rightarrow> Ret (True, m, u\<lparr>port := strtod_int (drop s m)\<rparr>)))"

definition url_set_path :: "nat \<Rightarrow> nat \<Rightarrow> url_marks \<Rightarrow> region \<Rightarrow> url_t \<Rightarrow> (bool \<times> region \<times> url_t) res" where
  "url_set_path b e k m u = (case path_start k of
       None \<Rightarrow> Ret (True, m, u)
     | Some s \<Rightarrow> (let q = (case path_end k of Some x \<Rightarrow> x | None \<Rightarrow> e) in
         bnd (store m q NUL) (\<lambda>m'. Ret (True, m', u\<lparr>path := \<lparr>data = At b s, len = q - s\<rparr>\<rparr>))))"

definition url_set_query :: "nat \<Rightarrow> nat \<Rightarrow> url_marks \<Rightarrow> region \<Rightarrow> url_t \<Rightarrow> (bool \<times> region \<times> url_t) res" where
  "url_set_query b e k m u = (case query_start k of
       None \<Rightarrow> Ret (True, m, u)
     | Some s \<Rightarrow> (let q = (case query_end k of Some x \<Rightarrow> x | None \<Rightarrow> e) in
         bnd (store m q NUL) (\<lambda>m'. Ret (True, m', u\<lparr>query_string := \<lparr>data = At b s, len = q - s\<rparr>\<rparr>))))"

text \<open>Sequencing with the early \<open>return HTTP_PARSE_FAIL\<close>.\<close>

definition url_then ::
  "(bool \<times> region \<times> url_t) res \<Rightarrow> (region \<Rightarrow> url_t \<Rightarrow> (bool \<times> region \<times> url_t) res) \<Rightarrow> (bool \<times> region \<times> url_t) res" where
  "url_then x f = bnd x (\<lambda>(ok, m, u). if ok then f m u else Ret (False, m, u))"

definition http_parse_url :: "nat \<Rightarrow> region \<Rightarrow> url_t \<Rightarrow> nat \<times> nat \<Rightarrow> (bool \<times> region \<times> url_t) res" where
  "http_parse_url b m u tok = (case tok of (s, l) \<Rightarrow>
     (let e = s + l;
          u0 = u\<lparr>unparsed_url := \<lparr>data = (if l = 0 then Null else Lit (take l (drop s m))), len = l\<rparr>\<rparr>
      in bnd (url_loop m s e STAT_START no_marks) (\<lambda>r. case r of
           None \<Rightarrow> Ret (False, m, u0)
         | Some k \<Rightarrow>
             url_then (url_set_schema b k m u0) (\<lambda>m u.
             url_then (url_set_host k m u) (\<lambda>m u.
             url_then (url_set_port k m u) (\<lambda>m u.
             url_then (url_set_path b e k m u) (\<lambda>m u.
             url_set_query b e k m u)))))))"

section \<open>The request line\<close>

text \<open>The block a buffer of the request points into, and putting back both after a parser ran.\<close>

definition buf_mem :: "http_request_t \<Rightarrow> nat \<Rightarrow> region" where
  "buf_mem r i = mem r ! blk (bufs r ! i)"

definition set_buf_mem :: "nat \<Rightarrow> region \<Rightarrow> http_request_t \<Rightarrow> http_request_t" where
  "set_buf_mem i m r = r\<lparr>mem := (mem r)[blk (bufs r ! i) := m]\<rparr>"

definition set_buf :: "nat \<Rightarrow> (buf_t \<Rightarrow> buf_t) \<Rightarrow> http_request_t \<Rightarrow> http_request_t" where
  "set_buf i f r = r\<lparr>bufs := (bufs r)[i := f (bufs r ! i)]\<rparr>"

text \<open>\<open>request->version\<close> from the version token: the text behind the first \<open>HTTP/\<close>.\<close>

definition parse_version :: "string \<Rightarrow> http_version_e option" where
  "parse_version s = (case strstr ''HTTP/'' s of
       None \<Rightarrow> None
     | Some t \<Rightarrow> (if drop 5 t = ''1.0'' then Some HTTP_VERSION_10
                 else if drop 5 t = ''1.1'' then Some HTTP_VERSION_11 else None))"

text \<open>\<open>request->method\<close> from the method token, compared on the length of the token.\<close>

definition parse_method :: "string \<Rightarrow> http_method_e option" where
  "parse_method s =
     (if strncasecmp_eq (length s) s ''GET'' then Some HTTP_METHOD_GET
      else if strncasecmp_eq (length s) s ''POST'' then Some HTTP_METHOD_POST
      else if strncasecmp_eq (length s) s ''HEAD'' then Some HTTP_METHOD_HEAD
      else if strncasecmp_eq (length s) s ''PUT'' then Some HTTP_METHOD_PUT
      else None)"

definition token_text :: "region \<Rightarrow> nat \<times> nat \<Rightarrow> string" where
  "token_text m tok = cstr_at m (fst tok)"

definition str_of_token :: "nat \<Rightarrow> nat \<times> nat \<Rightarrow> str_t" where
  "str_of_token b tok = \<lparr>data = At b (fst tok), len = snd tok\<rparr>"

text \<open>What follows the three \<open>get_token\<close> calls, all of which succeeded.\<close>

definition request_line_fields ::
  "nat \<Rightarrow> nat \<times> nat \<Rightarrow> nat \<times> nat \<Rightarrow> nat \<times> nat \<Rightarrow> http_request_t \<Rightarrow> (http_parse \<times> http_request_t) res" where
  "request_line_fields i mt ut vt r =
     (let b = blk (bufs r ! i); m = buf_mem r i; r1 = r\<lparr>version_str := str_of_token b vt\<rparr> in
      case parse_version (token_text m vt) of
        None \<Rightarrow> Ret (HTTP_PARSE_FAIL, r1)
      | Some v \<Rightarrow>
          (let r2 = r1\<lparr>version := v\<rparr> in
           case parse_method (token_text m mt) of
             None \<Rightarrow> Ret (HTTP_PARSE_FAIL, r2)
           | Some d \<Rightarrow>
               (let r3 = r2\<lparr>req_method := d, method_str := str_of_token b mt\<rparr> in
                bnd (http_parse_url b m (url r3) ut) (\<lambda>(ok, m', u).
                  Ret (if ok then HTTP_PARSE_DONE else HTTP_PARSE_FAIL,
                       set_buf_mem i m' (r3\<lparr>url := u\<rparr>))))))"

definition http_parse_request_line :: "http_request_t \<Rightarrow> nat \<Rightarrow> (http_parse \<times> http_request_t) res" where
  "http_parse_request_line r i =
     (let m = buf_mem r i in
      bnd (scan_upto (\<lambda>c. isspace c \<and> c \<noteq> NUL) m (buf_pos (bufs r ! i)) (buf_last (bufs r ! i))) (\<lambda>p.
      let r0 = set_buf i (\<lambda>x. x\<lparr>buf_pos := p\<rparr>) r in
      bnd (find_next_eol m p) (\<lambda>eol. case eol of
        None \<Rightarrow> Ret (HTTP_PARSE_AGAIN, r0)
      | Some e \<Rightarrow>
          bnd (get_token (Some isspace) None m p) (\<lambda>(t1, m1, p1).
          bnd (get_token (Some isspace) None m1 p1) (\<lambda>(t2, m2, p2).
          bnd (get_token (Some isspace) None m2 p2) (\<lambda>(t3, m3, p3).
          let r1 = set_buf_mem i m3 r0 in
          case (t1, t2, t3) of
            (Some mt, Some ut, Some vt) \<Rightarrow>
              request_line_fields i mt ut vt (set_buf i (\<lambda>x. x\<lparr>buf_pos := e + 1\<rparr>) r1)
          | _ \<Rightarrow> Ret (HTTP_PARSE_FAIL, r1)))))))"

section \<open>The status line of a backend's response\<close>

definition http_parse_status_line :: "http_request_t \<Rightarrow> nat \<Rightarrow> (http_parse \<times> http_request_t) res" where
  "http_parse_status_line r i =
     (let m = buf_mem r i in
      bnd (scan_upto (\<lambda>c. isspace c \<and> c \<noteq> NUL) m (buf_pos (bufs r ! i)) (buf_last (bufs r ! i))) (\<lambda>p.
      let r0 = set_buf i (\<lambda>x. x\<lparr>buf_pos := p\<rparr>) r in
      bnd (find_next_eol m p) (\<lambda>eol. case eol of
        None \<Rightarrow> Ret (HTTP_PARSE_AGAIN, r0)
      | Some e \<Rightarrow>
          bnd (get_token (Some isspace) None m p) (\<lambda>(t1, m1, p1).
          bnd (get_token (Some isspace) None m1 p1) (\<lambda>(t2, m2, p2).
          let r1 = set_buf_mem i m2 r0 in
          case (t1, t2) of
            (Some _, Some st) \<Rightarrow>
              (let n = atoi (token_text m2 st);
                   r2 = (set_buf i (\<lambda>x. x\<lparr>buf_pos := e + 1\<rparr>) r1)\<lparr>status := n\<rparr>
               in if n < HTTP_STATUS_START \<or> n > HTTP_STATUS_END then Ret (HTTP_PARSE_FAIL, r2)
                  else Ret (HTTP_PARSE_DONE, r2))
          | _ \<Rightarrow> Ret (HTTP_PARSE_FAIL, r1))))))"

section \<open>Header lines\<close>

text \<open>The loop that trims the spaces behind a name: the length that remains.\<close>

fun trim_len :: "region \<Rightarrow> nat \<Rightarrow> nat \<Rightarrow> nat" where
  "trim_len m q 0 = 0"
| "trim_len m q (Suc n) = (if isspace (m ! (q + n)) then trim_len m q n else Suc n)"

text \<open>One round of the loop of \<open>http_parse_header_line\<close>: it breaks with a result, or goes on at an
  offset.\<close>

datatype header_step = Header_Break http_parse heap nat headers | Header_Next heap nat headers

text \<open>The value of a header: \<open>NULL\<close> for an empty one, else the text up to the end of line, which is
  overwritten with a NUL. With a name that ran over the end of line \<open>p\<close> is behind \<open>e\<close> and the
  length wraps around.\<close>

definition header_value :: "nat \<Rightarrow> region \<Rightarrow> nat \<Rightarrow> nat \<Rightarrow> (str_t \<times> region) res" where
  "header_value b m p e =
     (if p = e then Ret (null_str, m)
      else bnd (load m (e - 1)) (\<lambda>c.
        if c = CR then bnd (store m (e - 1) NUL) (\<lambda>m'.
          Ret (\<lparr>data = At b p, len = size_t_of_int (int e - 1 - int p)\<rparr>, m'))
        else bnd (store m e NUL) (\<lambda>m'.
          Ret (\<lparr>data = At b p, len = size_t_of_int (int e - int p)\<rparr>, m'))))"

text \<open>A line that is neither empty nor blank, from its first non-space byte \<open>p\<close> on (lines 344 to 399).\<close>

definition header_line_field :: "heap \<Rightarrow> nat \<Rightarrow> nat \<Rightarrow> nat \<Rightarrow> headers \<Rightarrow> header_step res" where
  "header_line_field h b p e t =
     bnd (get_token None (Some '':'') (h ! b) p) (\<lambda>(tok, m1, p2). case tok of
       None \<Rightarrow> Ret (Header_Break HTTP_PARSE_FAIL (h[b := m1]) p2 t)
     | Some (q, l) \<Rightarrow>
         bnd (store m1 (q + trim_len m1 q l) NUL) (\<lambda>m2.
         let name = \<lparr>data = At b q, len = trim_len m1 q l\<rparr> in
         bnd (scan_upto (\<lambda>c. isspace c \<and> c \<noteq> NUL) m2 p2 e) (\<lambda>p3.
         bnd (load m2 p3) (\<lambda>c3.
         if c3 = NUL then Ret (Header_Break HTTP_PARSE_FAIL (h[b := m2]) p3 t)
         else
         bnd (header_value b m2 p3 e) (\<lambda>(value, m3).
         bnd (http_header_set (h[b := m3]) t name value) (\<lambda>t'.
         Ret (Header_Next (h[b := m3]) (e + 1) t')))))))"

text \<open>A line that is not empty, ending at \<open>e\<close> (lines 330 to 399).\<close>

definition header_line_nonempty :: "heap \<Rightarrow> nat \<Rightarrow> nat \<Rightarrow> nat \<Rightarrow> headers \<Rightarrow> header_step res" where
  "header_line_nonempty h b p e t =
     bnd (scan_upto (\<lambda>c. isspace c \<and> c \<noteq> NUL) (h ! b) p e) (\<lambda>p1.
     bnd (load (h ! b) p1) (\<lambda>c1.
     if c1 = NUL then Ret (Header_Break HTTP_PARSE_FAIL h p1 t)
     else if p1 = e then Ret (Header_Next h (e + 1) t)
     else header_line_field h b p1 e t))"

definition header_line_step :: "heap \<Rightarrow> nat \<Rightarrow> nat \<Rightarrow> headers \<Rightarrow> header_step res" where
  "header_line_step h b p t =
     bnd (find_next_eol (h ! b) p) (\<lambda>eol. case eol of
       None \<Rightarrow> Ret (Header_Break HTTP_PARSE_AGAIN h p t)
     | Some e \<Rightarrow>
         if e = p \<or> (e = p + 1 \<and> h ! b ! p = CR \<and> h ! b ! e = LF) then
           Ret (Header_Break HTTP_PARSE_DONE h (e + 1) t)
         else header_line_nonempty h b p e t)"

lemma find_next_eol_ge: "find_next_eol m p = Ret (Some e) \<Longrightarrow> p \<le> e"
  by (auto simp: find_next_eol_def dest: scan_while_RetD split: if_splits)

lemma header_line_field_Next: "header_line_field h b p e t = Ret (Header_Next h' p' t') \<Longrightarrow> p' = e + 1"
  by (auto simp: header_line_field_def Let_def split: option.splits if_splits prod.splits)

lemma header_line_step_Next: "header_line_step h b p t = Ret (Header_Next h' p' t') \<Longrightarrow> p < p'"
  by (auto simp: header_line_step_def header_line_nonempty_def split: option.splits if_splits
      dest!: find_next_eol_ge header_line_field_Next)

function header_loop :: "heap \<Rightarrow> nat \<Rightarrow> nat \<Rightarrow> nat \<Rightarrow> headers \<Rightarrow> (http_parse \<times> heap \<times> nat \<times> headers) res" where
  "header_loop h b p e t =
     (if p < e then
        bnd (header_line_step h b p t) (\<lambda>s. case s of
          Header_Break x h' p' t' \<Rightarrow> Ret (x, h', p', t')
        | Header_Next h' p' t' \<Rightarrow> header_loop h' b p' e t')
      else Ret (HTTP_PARSE_AGAIN, h, p, t))"
  by pat_completeness auto
termination
  by (relation "measure (\<lambda>(h, b, p, e, t). e - p)") (auto dest: header_line_step_Next)

declare header_loop.simps [simp del]

definition http_parse_header_line ::
  "http_request_t \<Rightarrow> nat \<Rightarrow> headers \<Rightarrow> (http_parse \<times> http_request_t \<times> headers) res" where
  "http_parse_header_line r i t =
     (let x = bufs r ! i in
      bnd (header_loop (mem r) (blk x) (buf_pos x) (buf_last x) t) (\<lambda>(res, h, p, t').
        Ret (res, set_buf i (\<lambda>x. x\<lparr>buf_pos := p\<rparr>) (r\<lparr>mem := h\<rparr>), t')))"

end
