(* ===== verification/Request_Line.thy ===== *)
theory Request_Line
  imports Http_Parse
begin

text \<open>
  Correctness of the request-line parser and of the URL state machine on the text a client sends:
  a well-formed request line is taken apart into exactly its parts.
\<close>

definition token_ok :: "string \<Rightarrow> bool" where
  "token_ok t \<longleftrightarrow> t \<noteq> [] \<and> (\<forall>c \<in> set t. c \<noteq> NUL \<and> \<not> isspace c)"

definition path_ok :: "string \<Rightarrow> bool" where
  "path_ok t \<longleftrightarrow> (\<exists>u. t = CHR ''/'' # u) \<and>
     (\<forall>c \<in> set t. c \<noteq> NUL \<and> \<not> isspace c \<and> c \<noteq> CHR ''?'' \<and> c \<noteq> CHR ''#'')"

definition query_ok :: "string \<Rightarrow> bool" where
  "query_ok t \<longleftrightarrow> (\<forall>c \<in> set t. c \<noteq> NUL \<and> \<not> isspace c \<and> c \<noteq> CHR ''#'')"

text \<open>The request target: a path and, after a question mark, possibly a query.\<close>

definition target :: "string \<Rightarrow> string option \<Rightarrow> string" where
  "target p q = p @ (case q of None \<Rightarrow> [] | Some s \<Rightarrow> CHR ''?'' # s)"

lemma token_ok_NUL: "token_ok t \<Longrightarrow> NUL \<notin> set t"
  by (auto simp: token_ok_def)

lemma token_ok_no_eol: "token_ok t \<Longrightarrow> \<forall>c \<in> set t. c \<noteq> LF \<and> c \<noteq> NUL"
  unfolding token_ok_def using isspace_sep(3) by metis

lemma token_ok_target:
  assumes "path_ok p" "\<forall>s. q = Some s \<longrightarrow> query_ok s"
  shows "token_ok (target p q)"
proof -
  have "\<not> isspace (CHR ''?'')" by (simp add: isspace_def)
  with assms show ?thesis
    by (cases q) (auto simp: token_ok_def target_def path_ok_def query_ok_def)
qed

section \<open>The URL state machine on a target\<close>

lemma url_loop_skip:
  assumes "\<And>c k p. c \<in> set t \<Longrightarrow> url_step st k p c = Ret (Some (st, k))"
    and "NUL \<notin> set t" "st \<noteq> STAT_DONE" "length u + length t \<le> e"
  shows "url_loop (u @ t @ w) (length u) e st k = url_loop (u @ t @ w) (length u + length t) e st k"
  using assms
proof (induction t arbitrary: u)
  case (Cons c t)
  have "url_loop (u @ (c # t) @ w) (length u) e st k = url_loop (u @ (c # t) @ w) (Suc (length u)) e st k"
    using Cons.prems by (subst url_loop.simps) (auto simp: load_def nth_append)
  also have "\<dots> = url_loop ((u @ [c]) @ t @ w) (length (u @ [c])) e st k" by simp
  also have "\<dots> = url_loop ((u @ [c]) @ t @ w) (length (u @ [c]) + length t) e st k"
    by (rule Cons.IH) (use Cons.prems in auto)
  finally show ?case by simp
qed simp

lemma url_loop_end: "url_loop m e e st k = Ret (Some k)"
  by (simp add: url_loop.simps [of m e])

lemma is_character_slash: "\<not> is_character (CHR ''/'')"
  by (simp add: is_character_def byte_def)

lemma url_loop_path:
  assumes "path_ok p" "length u + length p \<le> e"
  shows "url_loop (u @ p @ w) (length u) e STAT_START no_marks =
    url_loop (u @ p @ w) (length u + length p) e STAT_PATH (no_marks\<lparr>path_start := Some (length u)\<rparr>)"
proof -
  obtain p' where p: "p = CHR ''/'' # p'" using assms(1) by (auto simp: path_ok_def)
  let ?k = "no_marks\<lparr>path_start := Some (length u)\<rparr>"
  have "url_loop (u @ p @ w) (length u) e STAT_START no_marks
      = url_loop ((u @ [CHR ''/'']) @ p' @ w) (length (u @ [CHR ''/''])) e STAT_PATH ?k"
    using assms p by (subst url_loop.simps) (auto simp: load_def nth_append is_character_slash isspace_def)
  also have "\<dots> = url_loop ((u @ [CHR ''/'']) @ p' @ w) (length (u @ [CHR ''/'']) + length p') e STAT_PATH ?k"
    by (rule url_loop_skip) (use assms p in \<open>auto simp: path_ok_def\<close>)
  finally show ?thesis using p by simp
qed

lemma url_loop_target:
  assumes "path_ok p" "\<forall>s. q = Some s \<longrightarrow> query_ok s" "e = length u + length (target p q)"
  shows "url_loop (u @ target p q @ w) (length u) e STAT_START no_marks = Ret (Some
    (no_marks\<lparr>path_start := Some (length u),
              path_end := (case q of None \<Rightarrow> None | Some s \<Rightarrow> Some (length u + length p)),
              query_start := (case q of None \<Rightarrow> None | Some s \<Rightarrow> Some (length u + length p + 1))\<rparr>))"
proof (cases q)
  case None
  with url_loop_path [OF assms(1), of u e w] assms(3) show ?thesis
    by (simp add: target_def url_loop_end no_marks_def)
next
  case (Some s)
  let ?m = "u @ target p q @ w"
  have m: "?m = u @ p @ (CHR ''?'' # s @ w)" by (simp add: target_def Some)
  let ?k = "no_marks\<lparr>path_start := Some (length u)\<rparr>"
  let ?k' = "?k\<lparr>path_end := Some (length u + length p), query_start := Some (length u + length p + 1)\<rparr>"
  have e: "length u + length p < e" using assms(3) by (simp add: target_def Some)
  have "url_loop ?m (length u) e STAT_START no_marks = url_loop ?m (length u + length p) e STAT_PATH ?k"
    unfolding m by (rule url_loop_path [OF assms(1)]) (use e in simp)
  also have "\<dots> = url_loop ?m (Suc (length u + length p)) e STAT_QUERY_STRING ?k'"
    unfolding m using e by (subst url_loop.simps) (auto simp: load_def nth_append)
  also have "\<dots> = url_loop ((u @ p @ [CHR ''?'']) @ s @ w) (length (u @ p @ [CHR ''?''])) e STAT_QUERY_STRING ?k'"
    unfolding m by simp
  also have "\<dots> = url_loop ((u @ p @ [CHR ''?'']) @ s @ w) (length (u @ p @ [CHR ''?'']) + length s) e STAT_QUERY_STRING ?k'"
    by (rule url_loop_skip) (use assms Some in \<open>auto simp: query_ok_def target_def\<close>)
  also have "\<dots> = Ret (Some ?k')"
    using assms(3) Some by (simp add: target_def url_loop_end add.assoc)
  finally show ?thesis by (simp add: Some no_marks_def)
qed

text \<open>What \<open>http_parse_url\<close> stores: the path and the query point into the buffer, where NULs now end them.\<close>

definition url_result :: "nat \<Rightarrow> nat \<Rightarrow> string \<Rightarrow> string option \<Rightarrow> url_t \<Rightarrow> url_t" where
  "url_result b s p q u = u\<lparr>
     unparsed_url := server_string (target p q), port := 80,
     path := \<lparr>data = At b s, len = length p\<rparr>,
     query_string := (case q of None \<Rightarrow> query_string u
       | Some x \<Rightarrow> \<lparr>data = At b (s + length p + 1), len = length x\<rparr>)\<rparr>"

definition target_cut :: "string \<Rightarrow> string option \<Rightarrow> string" where
  "target_cut p q = p @ (case q of None \<Rightarrow> [] | Some s \<Rightarrow> NUL # s)"

lemma length_target_cut: "length (target_cut p q) = length (target p q)"
  by (simp add: target_cut_def target_def split: option.splits)

lemma http_parse_url_target:
  assumes "path_ok p" "\<forall>s. q = Some s \<longrightarrow> query_ok s"
  shows "http_parse_url b (v @ target p q @ NUL # w) u (length v, length (target p q)) =
    Ret (True, v @ target_cut p q @ NUL # w, url_result b (length v) p q u)"
proof -
  have ne: "length (target p q) \<noteq> 0" using assms(1) by (auto simp: target_def path_ok_def)
  note loop = url_loop_target [OF assms refl, of v "NUL # w"]
  show ?thesis
  proof (cases q)
    case None
    have "store (v @ p @ NUL # w) (length v + length p) NUL = Ret (v @ p @ NUL # w)"
      by (simp add: store_def list_update_append)
    with loop None ne show ?thesis
      by (simp add: http_parse_url_def Let_def url_then_def url_set_schema_def url_set_host_def
          url_set_port_def url_set_path_def url_set_query_def no_marks_def url_result_def
          target_cut_def target_def server_string_def)
  next
    case (Some s)
    have 1: "store (v @ p @ CHR ''?'' # s @ NUL # w) (length v + length p) NUL = Ret (v @ p @ NUL # s @ NUL # w)"
      by (simp add: store_def list_update_append)
    have 2: "store (v @ p @ NUL # s @ NUL # w) (length v + Suc (length p + length s)) NUL
        = Ret (v @ p @ NUL # s @ NUL # w)"
      by (simp add: store_def list_update_append)
    from loop Some ne 1 2 show ?thesis
      by (simp add: http_parse_url_def Let_def url_then_def url_set_schema_def url_set_host_def
          url_set_port_def url_set_path_def url_set_query_def no_marks_def url_result_def
          target_cut_def target_def server_string_def)
  qed
qed

section \<open>The request line\<close>

lemma not_delim_space: "IS_DELIM (Some isspace) None c = isspace c"
  by (simp add: IS_DELIM_def)

lemma get_token_word:
  assumes "token_ok t" "isspace x \<or> x = NUL"
  shows "get_token (Some isspace) None (u @ t @ x # v) (length u) =
    Ret (Some (length u, length t), u @ t @ NUL # v, Suc (length u + length t))"
  using get_token_append [of "[]" "Some isspace" None t x u v] assms
  by (auto simp: not_delim_space token_ok_def)

lemma find_next_eol_append:
  assumes "\<forall>c \<in> set t. c \<noteq> LF \<and> c \<noteq> NUL"
  shows "find_next_eol (u @ t @ LF # v) (length u) = Ret (Some (length u + length t))"
proof -
  have "scan_while (\<lambda>c. c \<noteq> LF \<and> c \<noteq> NUL) (u @ t @ LF # v) (length u) = Ret (length u + length t)"
    by (rule scan_while_append) (use assms in auto)
  then show ?thesis by (simp add: find_next_eol_def load_def nth_append)
qed

text \<open>The bytes of a request line and what the parser leaves of them in the buffer.\<close>

definition request_line :: "string \<Rightarrow> string \<Rightarrow> string \<Rightarrow> string" where
  "request_line mt tg vs = mt @ CHR '' '' # tg @ CHR '' '' # vs @ CRLF"

definition request_line_cut :: "string \<Rightarrow> string \<Rightarrow> string \<Rightarrow> string" where
  "request_line_cut mt tg vs = mt @ NUL # tg @ NUL # vs @ [NUL, LF]"

lemma request_line_tokens:
  assumes "token_ok mt" "token_ok tg" "token_ok vs"
  shows "bnd (get_token (Some isspace) None (u @ request_line mt tg vs @ w) (length u)) (\<lambda>(t1, m1, p1).
         bnd (get_token (Some isspace) None m1 p1) (\<lambda>(t2, m2, p2).
         bnd (get_token (Some isspace) None m2 p2) (\<lambda>(t3, m3, p3). f t1 t2 t3 m3))) =
    f (Some (length u, length mt)) (Some (length u + length mt + 1, length tg))
      (Some (length u + length mt + length tg + 2, length vs)) (u @ request_line_cut mt tg vs @ w)"
proof -
  have 1: "get_token (Some isspace) None (u @ request_line mt tg vs @ w) (length u) =
      Ret (Some (length u, length mt), u @ mt @ NUL # tg @ CHR '' '' # vs @ CRLF @ w, Suc (length u + length mt))"
    using get_token_word [OF assms(1), of "CHR '' ''" u "tg @ CHR '' '' # vs @ CRLF @ w"]
    by (simp add: request_line_def)
  have 2: "get_token (Some isspace) None (u @ mt @ NUL # tg @ CHR '' '' # vs @ CRLF @ w) (Suc (length u + length mt)) =
      Ret (Some (length u + length mt + 1, length tg), u @ mt @ NUL # tg @ NUL # vs @ CRLF @ w,
           Suc (Suc (length u + length mt + length tg)))"
    using get_token_word [OF assms(2), of "CHR '' ''" "u @ mt @ [NUL]" "vs @ CRLF @ w"] by simp
  have 3: "get_token (Some isspace) None (u @ mt @ NUL # tg @ NUL # vs @ CRLF @ w) (Suc (Suc (length u + length mt + length tg))) =
      Ret (Some (length u + length mt + length tg + 2, length vs), u @ mt @ NUL # tg @ NUL # vs @ NUL # LF # w,
           Suc (Suc (Suc (length u + length mt + length tg + length vs))))"
    using get_token_word [OF assms(3), of CR "u @ mt @ NUL # tg @ [NUL]" "LF # w"]
    by (simp add: CRLF_def add.assoc)
  show ?thesis by (simp add: 1 2 3 request_line_cut_def)
qed

text \<open>The request after a successful parse of the line at the buffer's position.\<close>

definition request_line_done ::
  "http_request_t \<Rightarrow> nat \<Rightarrow> string \<Rightarrow> string \<Rightarrow> string \<Rightarrow> string option \<Rightarrow> string \<Rightarrow> string
     \<Rightarrow> http_method_e \<Rightarrow> http_version_e \<Rightarrow> http_request_t" where
  "request_line_done r i u mt p q vs w d v =
     (let b = blk (bufs r ! i); n = length u; t = length (target p q) in
      set_buf i (\<lambda>x. x\<lparr>buf_pos := n + length mt + t + length vs + 4\<rparr>)
      (r\<lparr>mem := (mem r)[b := u @ request_line_cut mt (target_cut p q) vs @ w],
         req_method := d, method_str := \<lparr>data = At b n, len = length mt\<rparr>,
         version := v, version_str := \<lparr>data = At b (n + length mt + t + 2), len = length vs\<rparr>,
         url := url_result b (n + length mt + 1) p q (url r)\<rparr>))"

lemma http_parse_request_line_done:
  assumes buf: "i < length (bufs r)" "blk (bufs r ! i) < length (mem r)"
      "buf_pos (bufs r ! i) = length u" "buf_mem r i = u @ request_line mt (target p q) vs @ w"
    and wf: "token_ok mt" "path_ok p" "\<forall>s. q = Some s \<longrightarrow> query_ok s" "token_ok vs"
    and fields: "parse_method mt = Some d" "parse_version vs = Some v"
  shows "http_parse_request_line r i = Ret (HTTP_PARSE_DONE, request_line_done r i u mt p q vs w d v)"
proof -
  let ?t = "target p q" and ?b = "blk (bufs r ! i)"
  have tg: "token_ok ?t" by (rule token_ok_target [OF wf(2,3)])
  let ?m = "u @ request_line mt ?t vs @ w"
  obtain c mt' where mt: "mt = c # mt'" "\<not> isspace c" using wf(1) by (cases mt) (auto simp: token_ok_def)
  have skip: "scan_upto (\<lambda>c. isspace c \<and> c \<noteq> NUL) ?m (length u) (buf_last (bufs r ! i)) = Ret (length u)"
    using mt by (subst scan_upto.simps) (simp add: request_line_def nth_append)
  have "\<forall>c \<in> set (mt @ CHR '' '' # ?t @ CHR '' '' # vs @ [CR]). c \<noteq> LF \<and> c \<noteq> NUL"
    using token_ok_no_eol [OF wf(1)] token_ok_no_eol [OF wf(4)] token_ok_no_eol [OF tg]
    by (simp add: ball_Un)
  define a c e where "a = length u + length mt + 1" and "c = length u + length mt + length ?t + 2"
    and "e = length u + length mt + length ?t + length vs + 3"
  note ace = a_def c_def e_def
  from find_next_eol_append [OF \<open>\<forall>c \<in> set (mt @ _). c \<noteq> LF \<and> c \<noteq> NUL\<close>, of u w]
  have eol: "find_next_eol ?m (length u) = Ret (Some e)"
    by (simp add: request_line_def CRLF_def add_ac ace)
  let ?m3 = "u @ request_line_cut mt ?t vs @ w"
  have texts: "cstr_at ?m3 (length u) = mt" "cstr_at ?m3 c = vs"
    using cstr_at_append [of mt u "?t @ NUL # vs @ [NUL, LF] @ w"]
      cstr_at_append [of vs "u @ mt @ NUL # ?t @ [NUL]" "LF # w"]
      token_ok_NUL [OF wf(1)] token_ok_NUL [OF wf(4)]
    by (simp_all add: request_line_cut_def add_ac ace)
  have purl: "http_parse_url ?b ?m3 z (a, length ?t) =
      Ret (True, u @ request_line_cut mt (target_cut p q) vs @ w, url_result ?b a p q z)" for z
    using http_parse_url_target [OF wf(2,3), of ?b "u @ mt @ [NUL]" "vs @ [NUL, LF] @ w" z]
    by (simp add: request_line_cut_def ace)
  note toks = request_line_tokens [OF wf(1) tg wf(4), of u w, folded a_def c_def]
  have "http_parse_request_line r i = request_line_fields i (length u, length mt) (a, length ?t) (c, length vs)
      (set_buf i (\<lambda>x. x\<lparr>buf_pos := e + 1\<rparr>) (set_buf_mem i ?m3 (set_buf i (\<lambda>x. x\<lparr>buf_pos := length u\<rparr>) r)))"
    unfolding http_parse_request_line_def by (simp add: buf(3,4) skip eol Let_def toks)
  also have "\<dots> = Ret (HTTP_PARSE_DONE, r\<lparr>mem := (mem r)[?b := u @ request_line_cut mt (target_cut p q) vs @ w],
      bufs := (bufs r)[i := (bufs r ! i)\<lparr>buf_pos := e + 1\<rparr>],
      method_str := \<lparr>data = At ?b (length u), len = length mt\<rparr>, req_method := d,
      url := url_result ?b a p q (url r),
      version_str := \<lparr>data = At ?b c, len = length vs\<rparr>, version := v\<rparr>)"
    using buf(1,2)
    by (simp add: request_line_fields_def buf_mem_def set_buf_mem_def set_buf_def token_text_def
        str_of_token_def texts fields purl Let_def)
  also have "\<dots> = Ret (HTTP_PARSE_DONE, request_line_done r i u mt p q vs w d v)"
    by (cases r) (simp add: request_line_done_def set_buf_def Let_def ace add_ac)
  finally show ?thesis .
qed

text \<open>C16: A well-formed request line \<open>METHOD /path?query HTTP/1.x CRLF\<close> standing at the buffer's
  position is parsed to completion: the request's method, version, path, query and unparsed URL are
  exactly the parts of the line, the port is 80, and the buffer stands behind the line.\<close>

theorem request_line_roundtrip:
  assumes buf: "i < length (bufs r)" "blk (bufs r ! i) < length (mem r)"
      "buf_pos (bufs r ! i) = length u" "buf_mem r i = u @ request_line mt (target p q) vs @ w"
    and wf: "token_ok mt" "path_ok p" "\<forall>s. q = Some s \<longrightarrow> query_ok s" "token_ok vs"
    and fields: "parse_method mt = Some d" "parse_version vs = Some v"
  shows "\<exists>r'. http_parse_request_line r i = Ret (HTTP_PARSE_DONE, r')
    \<and> req_method r' = d \<and> version r' = v
    \<and> deref (mem r') (data (method_str r')) = Ret mt
    \<and> deref (mem r') (data (version_str r')) = Ret vs
    \<and> deref (mem r') (data (unparsed_url (url r'))) = Ret (target p q)
    \<and> deref (mem r') (data (path (url r'))) = Ret p \<and> len (path (url r')) = length p
    \<and> (\<forall>s. q = Some s \<longrightarrow> deref (mem r') (data (query_string (url r'))) = Ret s)
    \<and> port (url r') = 80
    \<and> buf_pos (bufs r' ! i) = length u + length (request_line mt (target p q) vs)"
proof -
  let ?r' = "request_line_done r i u mt p q vs w d v" and ?b = "blk (bufs r ! i)"
  let ?m = "u @ request_line_cut mt (target_cut p q) vs @ w"
  have fin: "http_parse_request_line r i = Ret (HTTP_PARSE_DONE, ?r')"
    by (rule http_parse_request_line_done [OF buf wf fields])
  have nul: "NUL \<notin> set mt" "NUL \<notin> set vs" "NUL \<notin> set p" "\<And>s. q = Some s \<Longrightarrow> NUL \<notin> set s"
    using wf by (auto simp: token_ok_def path_ok_def query_ok_def)
  have at: "deref ((mem r)[?b := x @ t @ NUL # y]) (At ?b (length x)) = Ret t" if "NUL \<notin> set t" for x t y
    using that buf(2) by (simp add: nul_from_def cstr_at_append)
  have 1: "deref ((mem r)[?b := ?m]) (At ?b (length u)) = Ret mt"
    using at [OF nul(1), of u] by (simp add: request_line_cut_def)
  have 2: "deref ((mem r)[?b := ?m]) (At ?b (length u + length mt + length (target p q) + 2)) = Ret vs"
    using at [OF nul(2), of "u @ mt @ NUL # target_cut p q @ [NUL]" "LF # w"]
    by (simp add: request_line_cut_def length_target_cut add_ac del: deref_simps)
  have 3: "deref ((mem r)[?b := ?m]) (At ?b (length u + length mt + 1)) = Ret p"
    using at [OF nul(3), of "u @ mt @ [NUL]"]
    by (cases q) (simp_all add: request_line_cut_def target_cut_def del: deref_simps)
  have 4: "deref ((mem r)[?b := ?m]) (At ?b (length u + length mt + 1 + length p + 1)) = Ret s" if "q = Some s" for s
    using at [OF nul(4) [OF that], of "u @ mt @ NUL # p @ [NUL]"] that
    by (simp add: request_line_cut_def target_cut_def add_ac del: deref_simps)
  show ?thesis
    using fin 1 2 3 4 buf(1)
    by (intro exI [of _ ?r'])
      (auto simp: request_line_done_def url_result_def Let_def set_buf_def request_line_def CRLF_def
        simp del: deref_simps(3))
qed

text \<open>A request whose header buffer holds the given bytes.\<close>

definition request_with :: "string \<Rightarrow> http_request_t" where
  "request_with s = fresh_request\<lparr>mem := [s @ [NUL]], header_buf := Some 0,
     bufs := [\<lparr>blk = 0, buf_start = 0, buf_end = length s, buf_pos = 0, buf_last = length s\<rparr>]\<rparr>"

theorem request_line_roundtrip_witness:
  "\<exists>r'. http_parse_request_line (request_with (request_line ''GET'' (target ''/blog'' (Some ''id=7'')) ''HTTP/1.1'')) 0
      = Ret (HTTP_PARSE_DONE, r')
    \<and> req_method r' = HTTP_METHOD_GET \<and> version r' = HTTP_VERSION_11
    \<and> deref (mem r') (data (path (url r'))) = Ret ''/blog''
    \<and> deref (mem r') (data (query_string (url r'))) = Ret ''id=7''"
proof -
  let ?r = "request_with (request_line ''GET'' (target ''/blog'' (Some ''id=7'')) ''HTTP/1.1'')"
  have "\<exists>r'. http_parse_request_line ?r 0 = Ret (HTTP_PARSE_DONE, r')
    \<and> req_method r' = HTTP_METHOD_GET \<and> version r' = HTTP_VERSION_11
    \<and> deref (mem r') (data (method_str r')) = Ret ''GET''
    \<and> deref (mem r') (data (version_str r')) = Ret ''HTTP/1.1''
    \<and> deref (mem r') (data (unparsed_url (url r'))) = Ret (target ''/blog'' (Some ''id=7''))
    \<and> deref (mem r') (data (path (url r'))) = Ret ''/blog'' \<and> len (path (url r')) = length ''/blog''
    \<and> (\<forall>s. Some ''id=7'' = Some s \<longrightarrow> deref (mem r') (data (query_string (url r'))) = Ret s)
    \<and> port (url r') = 80
    \<and> buf_pos (bufs r' ! 0) = length ([] :: string) + length (request_line ''GET'' (target ''/blog'' (Some ''id=7'')) ''HTTP/1.1'')"
    by (rule request_line_roundtrip [where w = "[NUL]"])
      (simp_all add: request_with_def buf_mem_def token_ok_def path_ok_def query_ok_def isspace_def
        parse_method_def strncasecmp_eq_def cchar_defs parse_version_def strstr_here)
  then show ?thesis by blast
qed

end
