(* ===== verification/Http_Process.thy ===== *)
theory Http_Process
  imports Header_Lines Utils
begin

text \<open>
  Reading a request or a backend's response from a socket (\<open>src/http_request.c\<close>, lines 441 to 934): the
  header buffers, the loops that receive and parse until a part is complete, and the content body.
  A connection's socket is a \<open>sock\<close>; every function returns the request and the socket it leaves.
\<close>

section \<open>Copying into buffers\<close>

text \<open>Reading byte \<open>k\<close> behind a pointer; what \<open>printf\<close> shows of a string (the C library prints \<open>(null)\<close> for a null
  pointer); \<open>sprintf\<close> into a block, which ends the text with a NUL.\<close>

definition ptr_byte :: "heap \<Rightarrow> ptr \<Rightarrow> nat \<Rightarrow> char res" where
  "ptr_byte h p k = (case p of
       Null \<Rightarrow> Crash Null_Deref
     | Lit s \<Rightarrow> load (s @ [NUL]) k
     | At b q \<Rightarrow> (if b < length h then load (h ! b) (q + k) else Crash Out_Of_Bounds))"

definition printf_str :: "heap \<Rightarrow> ptr \<Rightarrow> string res" where
  "printf_str h p = (case p of Null \<Rightarrow> Ret ''(null)'' | _ \<Rightarrow> deref h p)"

definition sprintf_at :: "region \<Rightarrow> nat \<Rightarrow> string \<Rightarrow> region res" where
  "sprintf_at m p t = write_at m p (t @ [NUL])"

text \<open>\<open>recv(fd, buf->last, buf->end - buf->last, 0)\<close> with its retry loop: the size is computed from two
  pointers and converted to \<open>size_t\<close>; what arrives is written at \<open>last\<close>.\<close>

definition recv_into :: "nat \<Rightarrow> http_request_t \<Rightarrow> sock \<Rightarrow> (int \<times> http_request_t \<times> sock) res" where
  "recv_into i r s =
     (let x = bufs r ! i in
      bnd (recv_retry (size_t_of_int (int (buf_end x) - int (buf_last x))) (inbox s) (sock_errno s))
        (\<lambda>(count, d, ib, er).
        bnd (write_at (buf_mem r i) (buf_last x) d) (\<lambda>m.
        Ret (count, set_buf_mem i m r, s\<lparr>inbox := ib, sock_errno := er\<rparr>))))"

text \<open>What is still to come on a socket, as a measure: every successful \<open>recv\<close> makes it smaller.\<close>

fun rcv_size :: "rcv \<Rightarrow> nat" where
  "rcv_size (Data d) = Suc (length d)"
| "rcv_size (Recv_Error e) = 1"

definition inbox_size :: "sock \<Rightarrow> nat" where
  "inbox_size s = sum_list (map rcv_size (inbox s))"

lemma recv_retry_smaller:
  "recv_retry n ib er = Ret (n', d, ib', er') \<Longrightarrow> 0 < n' \<Longrightarrow>
     sum_list (map rcv_size ib') < sum_list (map rcv_size ib)"
  by (induction n ib er rule: recv_retry.induct) (auto simp: Let_def split: if_splits)

lemma recv_into_smaller:
  "recv_into i r s = Ret (n, r', s') \<Longrightarrow> 0 < n \<Longrightarrow> inbox_size s' < inbox_size s"
  by (auto simp: recv_into_def inbox_size_def Let_def dest!: recv_retry_smaller)

section \<open>Header buffers\<close>

definition new_buf :: "int \<Rightarrow> http_request_t \<Rightarrow> (nat \<times> http_request_t) res" where
  "new_buf sz r = bnd (buf_create (mem r) sz) (\<lambda>(x, h).
     Ret (length (bufs r), r\<lparr>mem := h, bufs := bufs r @ [x]\<rparr>))"

text \<open>One byte is set aside at the end of the buffer for a NUL.\<close>

definition reserve_nul :: "nat \<Rightarrow> http_request_t \<Rightarrow> http_request_t res" where
  "reserve_nul i r =
     (let x = bufs r ! i in
      if buf_end x = 0 then Crash Out_Of_Bounds
      else bnd (store (buf_mem r i) (buf_end x - 1) NUL) (\<lambda>m.
        Ret (set_buf i (\<lambda>x. x\<lparr>buf_end := buf_end x - 1\<rparr>) (set_buf_mem i m r))))"

definition http_alloc_client_header_buf :: "conf_t \<Rightarrow> http_request_t \<Rightarrow> http_request_t res" where
  "http_alloc_client_header_buf c r =
     bnd (new_buf (int32 (client_header_size c + 1)) r) (\<lambda>(i, r1).
     reserve_nul i (r1\<lparr>header_buf := Some i\<rparr>))"

text \<open>The request gets the large buffer, but the pointer \<open>header_buf\<close> the rest of the function works on
  is the old one: the old buffer loses its last byte, and its own data is copied to its start while
  its end of data moves up. (\<open>memcpy\<close> on overlapping ranges is read as a copy.)\<close>

definition http_alloc_large_client_header_buf :: "conf_t \<Rightarrow> http_request_t \<Rightarrow> (bool \<times> http_request_t) res" where
  "http_alloc_large_client_header_buf c r = (case header_buf r of
       None \<Rightarrow> Crash Null_Deref
     | Some i \<Rightarrow>
        (let x = bufs r ! i in
         if large_client_header_size c \<le> int (buf_end x) - int (buf_start x) then Ret (False, r)
         else
           let rest_len = int (buf_last x) - int (buf_pos x); old_pos = buf_pos x in
           bnd (new_buf (int32 (large_client_header_size c + 1)) r) (\<lambda>(j, r1).
           bnd (reserve_nul i (r1\<lparr>header_buf := Some j\<rparr>)) (\<lambda>r2.
           if 0 < rest_len then
             bnd (bytes_at (buf_mem r2 i) old_pos (nat rest_len)) (\<lambda>d.
             bnd (write_at (buf_mem r2 i) (buf_start x) d) (\<lambda>m.
             Ret (True, set_buf i (\<lambda>x. x\<lparr>buf_last := buf_last x + nat rest_len\<rparr>) (set_buf_mem i m r2))))
           else Ret (True, r2)))))"

section \<open>Receiving and parsing until a part is complete\<close>

text \<open>The loop shared by the three functions below: \<open>parse\<close> works on the buffer \<open>i\<close>, the one the
  request had when the function was entered.\<close>

function line_loop ::
  "(http_request_t \<Rightarrow> nat \<Rightarrow> (http_parse \<times> http_request_t) res) \<Rightarrow> conf_t \<Rightarrow> nat
     \<Rightarrow> http_request_t \<Rightarrow> sock \<Rightarrow> (bool \<times> http_request_t \<times> sock) res" where
  "line_loop parse c i r s =
     bnd (parse r i) (\<lambda>(x, r1). case x of
       HTTP_PARSE_DONE \<Rightarrow> Ret (True, r1, s)
     | HTTP_PARSE_FAIL \<Rightarrow> Ret (False, r1\<lparr>status := HTTP_STATUS_BAD_REQUEST\<rparr>, s)
     | HTTP_PARSE_AGAIN \<Rightarrow>
         bnd (if buf_last (bufs r1 ! i) = buf_end (bufs r1 ! i) then http_alloc_large_client_header_buf c r1
              else Ret (True, r1)) (\<lambda>(ok, r2).
         if \<not> ok then Ret (False, r2\<lparr>status := HTTP_STATUS_INTERNAL_SERVER_ERROR\<rparr>, s)
         else bnd (recv_into i r2 s) (\<lambda>(count, r3, s').
           if count \<le> 0 then Ret (False, r3\<lparr>status := HTTP_STATUS_CLOSE\<rparr>, s')
           else line_loop parse c i (set_buf i (\<lambda>x. x\<lparr>buf_last := buf_last x + nat count\<rparr>) r3) s')))"
  by pat_completeness auto
termination
  by (relation "measure (\<lambda>(parse, c, i, r, s). inbox_size s)") (auto dest: recv_into_smaller)

declare line_loop.simps [simp del]

datatype http_process_phase = HTTP_PROCESS_PHASE_REQUEST | HTTP_PROCESS_PHASE_RESPONSE

definition http_process_request_line :: "conf_t \<Rightarrow> http_request_t \<Rightarrow> sock \<Rightarrow> (bool \<times> http_request_t \<times> sock) res" where
  "http_process_request_line c r s = assert_then (state r = HTTP_PROCESS_STAT_NONE)
     (bnd (http_alloc_client_header_buf c r) (\<lambda>r1.
      let r2 = r1\<lparr>state := HTTP_PROCESS_STAT_REQUEST_LINE\<rparr> in
      line_loop http_parse_request_line c (the (header_buf r2)) r2 s))"

text \<open>\<open>http_parse_header_line\<close> on the table of a phase, which it changes in place.\<close>

definition phase_headers :: "http_process_phase \<Rightarrow> http_request_t \<Rightarrow> headers" where
  "phase_headers ph r = (case ph of
       HTTP_PROCESS_PHASE_REQUEST \<Rightarrow> in_headers (headers_in r)
     | HTTP_PROCESS_PHASE_RESPONSE \<Rightarrow> out_headers (headers_out r))"

definition set_phase_headers :: "http_process_phase \<Rightarrow> headers \<Rightarrow> http_request_t \<Rightarrow> http_request_t" where
  "set_phase_headers ph t r = (case ph of
       HTTP_PROCESS_PHASE_REQUEST \<Rightarrow> r\<lparr>headers_in := (headers_in r)\<lparr>in_headers := t\<rparr>\<rparr>
     | HTTP_PROCESS_PHASE_RESPONSE \<Rightarrow> r\<lparr>headers_out := (headers_out r)\<lparr>out_headers := t\<rparr>\<rparr>)"

definition parse_phase_header_line ::
  "http_process_phase \<Rightarrow> http_request_t \<Rightarrow> nat \<Rightarrow> (http_parse \<times> http_request_t) res" where
  "parse_phase_header_line ph r i =
     bnd (http_parse_header_line r i (phase_headers ph r)) (\<lambda>(x, r', t). Ret (x, set_phase_headers ph t r'))"

text \<open>\<open>strncasecmp\<close> on pointers: with a length of 0 nothing is read.\<close>

definition strncasecmp_ptr :: "heap \<Rightarrow> ptr \<Rightarrow> string \<Rightarrow> nat \<Rightarrow> bool res" where
  "strncasecmp_ptr h p t n =
     (if n = 0 then Ret True else bnd (deref h p) (\<lambda>x. Ret (strncasecmp_eq n x t)))"

text \<open>What the request's headers say about the body and about keeping the connection (lines 645 to 684).\<close>

definition headers_in_content :: "http_request_t \<Rightarrow> http_request_t res" where
  "headers_in_content r =
     (let t = in_headers (headers_in r); h = mem r in
      bnd (http_header_str h t HTTP_HEADER_HOST) (\<lambda>ho.
      bnd (http_header_str h t HTTP_HEADER_CONTENT_TYPE) (\<lambda>ct.
      bnd (http_header_str h t HTTP_HEADER_CONTENT_LEN) (\<lambda>cl.
      bnd (http_header_int h t HTTP_HEADER_CONTENT_LEN) (\<lambda>n.
      Ret (r\<lparr>headers_in := (headers_in r)\<lparr>header_host := ho, header_content_type := ct,
             header_content_len := cl, in_content_len := (if n < 0 then 0 else n)\<rparr>\<rparr>))))))"

definition headers_in_keep_alive :: "http_request_t \<Rightarrow> http_request_t res" where
  "headers_in_keep_alive r =
     bnd (http_header_str (mem r) (in_headers (headers_in r)) HTTP_HEADER_KEEPALIVE) (\<lambda>v. case v of
       None \<Rightarrow> Ret (r\<lparr>keep_alive := (version r = HTTP_VERSION_11)\<rparr>)
     | Some k \<Rightarrow> bnd (strncasecmp_ptr (mem r) (data k) ''CLOSE'' (len k)) (\<lambda>cl.
         Ret (r\<lparr>keep_alive := \<not> cl\<rparr>)))"

definition continue_line :: string where
  "continue_line = ''HTTP/1.1 100 Continue'' @ CRLF @ CRLF"

definition headers_in_expect :: "http_request_t \<Rightarrow> sock \<Rightarrow> (bool \<times> http_request_t \<times> sock) res" where
  "headers_in_expect r s =
     bnd (http_header_str (mem r) (in_headers (headers_in r)) HTTP_HEADER_EXPECT) (\<lambda>v. case v of
       None \<Rightarrow> Ret (True, r, s)
     | Some e \<Rightarrow> bnd (deref (mem r) (data e)) (\<lambda>x.
         if strcasecmp_eq x ''100-continue'' then
           bnd (nwrite s continue_line) (\<lambda>(ok, s'). Ret (ok, r, s'))
         else Ret (True, r, s)))"

definition headers_in_done :: "http_request_t \<Rightarrow> sock \<Rightarrow> (bool \<times> http_request_t \<times> sock) res" where
  "headers_in_done r s =
     bnd (headers_in_content r) (\<lambda>r1. bnd (headers_in_keep_alive r1) (\<lambda>r2. headers_in_expect r2 s))"

definition headers_out_done :: "http_request_t \<Rightarrow> sock \<Rightarrow> (bool \<times> http_request_t \<times> sock) res" where
  "headers_out_done r s =
     bnd (http_header_int (mem r) (out_headers (headers_out r)) HTTP_HEADER_CONTENT_LEN) (\<lambda>n.
     Ret (True, r\<lparr>headers_out := (headers_out r)\<lparr>out_content_len := n\<rparr>\<rparr>, s))"

definition http_process_header_line ::
  "conf_t \<Rightarrow> http_process_phase \<Rightarrow> http_request_t \<Rightarrow> sock \<Rightarrow> (bool \<times> http_request_t \<times> sock) res" where
  "http_process_header_line c ph r s =
     assert_then ((ph = HTTP_PROCESS_PHASE_REQUEST \<and> state r = HTTP_PROCESS_STAT_REQUEST_LINE)
                \<or> (ph = HTTP_PROCESS_PHASE_RESPONSE \<and> state r = HTTP_PROCESS_STAT_STATUS_LINE))
     (case header_buf r of
        None \<Rightarrow> Crash Null_Deref
      | Some i \<Rightarrow>
          bnd (line_loop (parse_phase_header_line ph) c i (r\<lparr>state := HTTP_PROCESS_STAT_HEADER_LINE\<rparr>) s)
            (\<lambda>(ok, r1, s1).
            if \<not> ok then Ret (False, r1, s1)
            else if ph = HTTP_PROCESS_PHASE_REQUEST then headers_in_done r1 s1
            else headers_out_done r1 s1))"

definition http_process_status_line :: "conf_t \<Rightarrow> http_request_t \<Rightarrow> sock \<Rightarrow> (bool \<times> http_request_t \<times> sock) res" where
  "http_process_status_line c r s = assert_then (state r = HTTP_PROCESS_STAT_CONTENT_BODY)
     (bnd (http_alloc_client_header_buf c r) (\<lambda>r1.
      let r2 = r1\<lparr>state := HTTP_PROCESS_STAT_STATUS_LINE\<rparr> in
      line_loop http_parse_status_line c (the (header_buf r2)) r2 s))"

section \<open>The content body\<close>

text \<open>A body that ends when the peer closes the connection (lines 773 to 838): when the buffer is full a
  larger one takes over what it holds.\<close>

definition grow_body_buf :: "conf_t \<Rightarrow> nat \<Rightarrow> http_request_t \<Rightarrow> (nat \<times> http_request_t) option res" where
  "grow_body_buf c k r =
     (let x = bufs r ! k; n = int (buf_last x) - int (buf_pos x) in
      if max_content_len c < n then Ret None
      else
        bnd (new_buf (if n < content_body_buf_size c then content_body_buf_size c else int32 (n + n div 2)) r)
          (\<lambda>(j, r1).
        bnd (bytes_at (buf_mem r1 k) (buf_pos x) (nat n)) (\<lambda>d.
        bnd (write_at (buf_mem r1 j) (buf_last (bufs r1 ! j)) d) (\<lambda>m.
        Ret (Some (j, set_buf j (\<lambda>y. y\<lparr>buf_last := buf_last y + nat n\<rparr>) (set_buf_mem j m r1)))))))"

function until_close_loop ::
  "conf_t \<Rightarrow> http_content_body_t \<Rightarrow> nat \<Rightarrow> http_request_t \<Rightarrow> sock
     \<Rightarrow> (bool \<times> http_content_body_t \<times> http_request_t \<times> sock) res" where
  "until_close_loop c cb k r s =
     bnd (if buf_last (bufs r ! k) = buf_end (bufs r ! k) then grow_body_buf c k r else Ret (Some (k, r)))
       (\<lambda>g. case g of
         None \<Rightarrow> Ret (False, cb, r\<lparr>status := HTTP_STATUS_BAD_REQUEST\<rparr>, s)
       | Some (j, r1) \<Rightarrow>
           bnd (recv_into j r1 s) (\<lambda>(count, r2, s').
           if count < 0 then Ret (False, cb, r2\<lparr>status := HTTP_STATUS_CLOSE\<rparr>, s')
           else if count = 0 then Ret (True, cb\<lparr>content := Some (bufs r2 ! j)\<rparr>, r2, s')
           else until_close_loop c (cb\<lparr>content_len := int32 (content_len cb + count)\<rparr>) j
                  (set_buf j (\<lambda>y. y\<lparr>buf_last := buf_last y + nat count\<rparr>) r2) s'))"
  by pat_completeness auto
termination
  by (relation "measure (\<lambda>(c, cb, k, r, s). inbox_size s)") (auto dest: recv_into_smaller)

declare until_close_loop.simps [simp del]

text \<open>The buffer of a body of known length: the header buffer when what is left of it has room,
  a new one that takes over what was received already otherwise (lines 855 to 891).\<close>

definition sized_body_buf :: "nat \<Rightarrow> int \<Rightarrow> http_request_t \<Rightarrow> (nat \<times> http_request_t) res" where
  "sized_body_buf i n r =
     (let x = bufs r ! i in
      if int (buf_end x) - int (buf_pos x) < n then
        bnd (new_buf n r) (\<lambda>(j, r1).
        let rest = size_t_of_int (int (buf_last x) - int (buf_pos x)) in
        if 0 < rest then
          bnd (bytes_at (buf_mem r1 i) (buf_pos x) rest) (\<lambda>d.
          bnd (write_at (buf_mem r1 j) (buf_start (bufs r1 ! j)) d) (\<lambda>m.
          Ret (j, set_buf j (\<lambda>y. y\<lparr>buf_last := buf_last y + rest\<rparr>) (set_buf_mem j m r1))))
        else Ret (j, r1))
      else
        Ret (length (bufs r), r\<lparr>bufs := bufs r @ [x\<lparr>buf_start := buf_pos x\<rparr>]\<rparr>))"

function body_loop ::
  "http_content_body_t \<Rightarrow> int \<Rightarrow> nat \<Rightarrow> int \<Rightarrow> http_request_t \<Rightarrow> sock
     \<Rightarrow> (bool \<times> http_content_body_t \<times> http_request_t \<times> sock) res" where
  "body_loop cb n j got r s =
     (if n \<le> got then
        assert_then (content_fd cb < 0) (Ret (True, cb\<lparr>content := Some (bufs r ! j), content_len := n\<rparr>, r, s))
      else
        bnd (recv_into j r s) (\<lambda>(count, r1, s').
        if count \<le> 0 then Ret (False, cb, r1\<lparr>status := HTTP_STATUS_CLOSE\<rparr>, s')
        else
          let r2 = set_buf j (\<lambda>y. y\<lparr>buf_last := buf_last y + nat count\<rparr>) r1; got' = int32 (got + count) in
          assert_then (\<not> (got' < n \<and> buf_end (bufs r2 ! j) = buf_last (bufs r2 ! j)))
            (body_loop cb n j got' r2 s')))"
  by pat_completeness auto
termination
  by (relation "measure (\<lambda>(cb, n, j, got, r, s). inbox_size s)") (auto dest: recv_into_smaller)

declare body_loop.simps [simp del]

definition http_process_content_body ::
  "conf_t \<Rightarrow> http_request_t \<Rightarrow> sock \<Rightarrow> http_content_body_t \<Rightarrow> int
     \<Rightarrow> (bool \<times> http_content_body_t \<times> http_request_t \<times> sock) res" where
  "http_process_content_body c r s cb n = assert_then (state r = HTTP_PROCESS_STAT_HEADER_LINE)
     (let r0 = r\<lparr>state := HTTP_PROCESS_STAT_CONTENT_BODY\<rparr> in
      if req_method r0 = HTTP_METHOD_HEAD then Ret (True, cb, r0, s)
      else case header_buf r0 of
        None \<Rightarrow> Crash Null_Deref
      | Some i \<Rightarrow>
          if n < 0 then
            until_close_loop c
              (cb\<lparr>content_len := int (buf_last (bufs r0 ! i)) - int (buf_pos (bufs r0 ! i))\<rparr>) i r0 s
          else if n = 0 then Ret (True, cb, r0, s)
          else if max_content_len c < n then Ret (False, cb, r0\<lparr>status := HTTP_STATUS_BAD_REQUEST\<rparr>, s)
          else bnd (sized_body_buf i n r0) (\<lambda>(j, r1).
            body_loop cb n j (int (buf_last (bufs r1 ! j)) - int (buf_pos (bufs r1 ! j))) r1 s))"

end
