(* ===== verification/Module_Default.thy ===== *)
theory Module_Default
  imports Http_Process
begin

text \<open>
  The module interface of \<open>src/module.h\<close> and the default module (\<open>src/module_default.c\<close>), which serves files
  from the root of a location. The file system is an argument: what \<open>stat\<close> and \<open>open\<close> say of a path.
\<close>

datatype module_result = HTTP_MODULE_PROCESS_DONE | HTTP_MODULE_PROCESS_UPSTREAM

text \<open>What a path names: its type and mode bits, its size, and the result of \<open>open\<close>. A path that
  \<open>stat\<close> does not find is not in the map.\<close>

record file_t =
  f_dir :: bool
  f_reg :: bool
  f_rusr :: bool
  f_size :: int
  f_open :: int

type_synonym file_system = "string \<rightharpoonup> file_t"

text \<open>\<open>strrchr(path, '.')\<close>, and the text behind the dot.\<close>

definition extension_of :: "string \<Rightarrow> string option" where
  "extension_of s = (if CHR ''.'' \<in> set s then Some (rev (takeWhile (\<lambda>c. c \<noteq> CHR ''.'') (rev s))) else None)"

text \<open>The file a request names: the location's root and the request's path, or the default page for \<open>/\<close>,
  printed into a block of their lengths and two bytes more.\<close>

definition default_path :: "conf_t \<Rightarrow> vhost_loc_conf_t \<Rightarrow> http_request_t \<Rightarrow> string res" where
  "default_path c lc r =
     (let up = path (url r) in
      bnd (if len up = 1 then bnd (ptr_byte (mem r) (data up) 0) (\<lambda>ch. Ret (ch = CHR ''/'')) else Ret False) (\<lambda>slash.
      let rp = (if slash then default_page c else up) in
      bnd (printf_str (mem r) (data (loc_root lc))) (\<lambda>a.
      bnd (printf_str (mem r) (data rp)) (\<lambda>b.
      bnd (sprintf_at (replicate (len (loc_root lc) + len rp + 2) NUL) 0 (a @ b)) (\<lambda>m.
      Ret (cstr_at m 0))))))"

definition module_default_handle_request ::
  "file_system \<Rightarrow> conf_t \<Rightarrow> vhost_loc_conf_t \<Rightarrow> http_request_t \<Rightarrow> (module_result \<times> http_request_t) res" where
  "module_default_handle_request files c lc r =
     (if req_method r \<noteq> HTTP_METHOD_GET then
        Ret (HTTP_MODULE_PROCESS_DONE, r\<lparr>status := HTTP_STATUS_BAD_REQUEST\<rparr>)
      else bnd (default_path c lc r) (\<lambda>p. case files p of
          None \<Rightarrow> Ret (HTTP_MODULE_PROCESS_DONE, r\<lparr>status := HTTP_STATUS_NOT_FOUND\<rparr>)
        | Some f \<Rightarrow>
            if f_dir f \<or> \<not> (f_reg f \<and> f_rusr f) then
              Ret (HTTP_MODULE_PROCESS_DONE, r\<lparr>status := HTTP_STATUS_FORBIDDEN\<rparr>)
            else if f_open f < 0 then
              Ret (HTTP_MODULE_PROCESS_DONE, r\<lparr>status := HTTP_STATUS_NOT_FOUND\<rparr>)
            else
              (let r1 = r\<lparr>body_out := (body_out r)\<lparr>content_fd := f_open f, content_len := int32 (f_size f)\<rparr>\<rparr> in
               bnd (deref (mem r1) (data (path (url r1)))) (\<lambda>u.
               let ct = server_string (http_content_type (extension_of u)) in
               bnd (http_header_set (mem r1) (out_headers (headers_out r1)) HTTP_HEADER_CONTENT_TYPE ct) (\<lambda>t.
               Ret (HTTP_MODULE_PROCESS_DONE,
                    r1\<lparr>headers_out := (headers_out r1)\<lparr>out_headers := t\<rparr>, status := HTTP_STATUS_OK\<rparr>))))))"

section \<open>What the module serves\<close>

lemma extension_of_append:
  assumes "CHR ''.'' \<notin> set e"
  shows "extension_of (s @ CHR ''.'' # e) = Some e"
proof -
  have "\<forall>c \<in> set (rev e). c \<noteq> CHR ''.''" using assms by auto
  from takeWhile_all_append [OF this, of "CHR ''.'' # rev s"] show ?thesis by (simp add: extension_of_def)
qed

text \<open>A string that can be read and holds its whole text.\<close>

definition str_wf :: "heap \<Rightarrow> str_t \<Rightarrow> bool" where
  "str_wf h s \<longleftrightarrow> str_ok h s \<and> NUL \<notin> set (text_of h s)"

lemma str_wfD:
  "str_wf h s \<Longrightarrow> deref h (data s) = Ret (text_of h s) \<and> printf_str h (data s) = Ret (text_of h s)
     \<and> len s = length (text_of h s) \<and> NUL \<notin> set (text_of h s)"
  by (auto simp: str_wf_def printf_str_def dest: str_okD split: ptr.splits)

lemma ptr_byte_text:
  assumes "str_ok h s" "k < len s"
  shows "ptr_byte h (data s) k = Ret (text_of h s ! k)"
proof (cases "data s")
  case (At b q)
  have d: "deref h (data s) = Ret (text_of h s)" "len s = length (text_of h s)" using str_okD [OF assms(1)] by auto
  with At have b: "b < length h" "nul_from (h ! b) q" "text_of h s = cstr_at (h ! b) q" by (auto split: if_splits)
  have "length (cstr_at (h ! b) q) \<le> length (drop q (h ! b))" unfolding cstr_at_def by (rule length_takeWhile_le)
  then have "q + k < length (h ! b)" using assms(2) d(2) b(3) by simp
  moreover have "cstr_at (h ! b) q ! k = h ! b ! (q + k)"
    using assms(2) d(2) b(3) calculation by (simp add: cstr_at_def takeWhile_nth)
  ultimately show ?thesis using At b by (simp add: ptr_byte_def load_def)
qed (use assms in \<open>auto simp: str_ok_def text_of_def ptr_byte_def load_def nth_append\<close>)

text \<open>The path of the file a request names.\<close>

definition served_path :: "conf_t \<Rightarrow> vhost_loc_conf_t \<Rightarrow> http_request_t \<Rightarrow> string" where
  "served_path c lc r = text_of (mem r) (loc_root lc) @
     (let p = text_of (mem r) (path (url r)) in if p = ''/'' then text_of (mem r) (default_page c) else p)"

lemma sprintf_cstr:
  assumes "NUL \<notin> set t" "length t < n"
  shows "\<exists>m. sprintf_at (replicate n NUL) 0 t = Ret m \<and> cstr_at m 0 = t"
  using assms cstr_at_append [OF assms(1), of "[]"] by (simp add: sprintf_at_def write_at_def)

lemma default_path_Ret:
  assumes p: "str_wf (mem r) (path (url r))" and o: "str_wf (mem r) (loc_root lc)" "str_wf (mem r) (default_page c)"
  shows "default_path c lc r = Ret (served_path c lc r)"
proof -
  let ?p = "text_of (mem r) (path (url r))"
  have slash: "(if len (path (url r)) = 1 then bnd (ptr_byte (mem r) (data (path (url r))) 0) (\<lambda>ch. Ret (ch = CHR ''/''))
      else Ret False) = Ret (?p = ''/'')"
    using ptr_byte_text [of "mem r" "path (url r)" 0] p str_wfD [OF p]
    by (cases ?p) (auto simp: str_wf_def)
  obtain rp where rp: "rp = (if ?p = ''/'' then default_page c else path (url r))" by blast
  have wf: "str_wf (mem r) rp" using p o by (simp add: rp)
  let ?t = "text_of (mem r) (loc_root lc) @ text_of (mem r) rp"
  obtain m where "sprintf_at (replicate (length ?t + 2) NUL) 0 ?t = Ret m" "cstr_at m 0 = ?t"
    using sprintf_cstr [of ?t "length ?t + 2"] str_wfD [OF o(1)] str_wfD [OF wf] by auto
  moreover have "served_path c lc r = ?t" by (simp add: served_path_def rp Let_def)
  ultimately show ?thesis
    using str_wfD [OF o(1)] str_wfD [OF wf] slash
    by (cases "?p = ''/''") (simp_all add: default_path_def Let_def rp)
qed

text \<open>C18: The default module answers a GET for a path it can read without a crash, and as the file system says:
  404 when the file is missing or does not open, 403 when it is a directory or not a readable regular
  file, and otherwise 200 with the descriptor, the size, and the content type of the path's extension.
  The file is the location's root and the path, or the default page for \<open>/\<close>.\<close>

theorem module_default_serves:
  assumes m: "req_method r = HTTP_METHOD_GET" and o: "elts (out_headers (headers_out r)) = []" "array_ok (out_headers (headers_out r))"
    and p: "str_wf (mem r) (path (url r))" "str_wf (mem r) (loc_root lc)" "str_wf (mem r) (default_page c)"
  shows "\<exists>r'. module_default_handle_request files c lc r = Ret (HTTP_MODULE_PROCESS_DONE, r') \<and>
    (case files (served_path c lc r) of
       None \<Rightarrow> r' = r\<lparr>status := HTTP_STATUS_NOT_FOUND\<rparr>
     | Some f \<Rightarrow>
         if f_dir f \<or> \<not> f_reg f \<or> \<not> f_rusr f then r' = r\<lparr>status := HTTP_STATUS_FORBIDDEN\<rparr>
         else if f_open f < 0 then r' = r\<lparr>status := HTTP_STATUS_NOT_FOUND\<rparr>
         else status r' = HTTP_STATUS_OK \<and> content_fd (body_out r') = f_open f
           \<and> content_len (body_out r') = int32 (f_size f)
           \<and> elts (out_headers (headers_out r')) = [\<lparr>hname = HTTP_HEADER_CONTENT_TYPE,
               hvalue = server_string (http_content_type (extension_of (text_of (mem r) (path (url r)))))\<rparr>])"
proof -
  note d = default_path_Ret [OF p] and u = str_wfD [OF p(1)]
  have push: "\<exists>t. http_header_set h (out_headers (headers_out r)) n v = Ret t \<and> elts t = [\<lparr>hname = n, hvalue = v\<rparr>]" for h n v
    using array_push_ok [OF o(2), of "\<lparr>hname = n, hvalue = v\<rparr>"] o(1) by (auto simp: http_header_set_def)
  show ?thesis
  proof (cases "files (served_path c lc r)")
    case None
    with m d show ?thesis by (simp add: module_default_handle_request_def)
  next
    case (Some f)
    obtain t where "http_header_set (mem r) (out_headers (headers_out r)) HTTP_HEADER_CONTENT_TYPE
        (server_string (http_content_type (extension_of (text_of (mem r) (path (url r)))))) = Ret t"
      "elts t = [\<lparr>hname = HTTP_HEADER_CONTENT_TYPE,
         hvalue = server_string (http_content_type (extension_of (text_of (mem r) (path (url r)))))\<rparr>]"
      using push by blast
    with Some m d u show ?thesis by (simp add: module_default_handle_request_def Let_def)
  qed
qed

text \<open>A location serving \<open>/srv\<close>, a file system with one readable page, and requests for it.\<close>

definition sample_loc :: vhost_loc_conf_t where
  "sample_loc = \<lparr>loc_root = server_string ''/srv'', pattern_str = server_string ''.*'',
     handler_name = server_string ''default'', handler = Module_Default\<rparr>"

definition sample_vhost :: vhost_conf_t where
  "sample_vhost = \<lparr>vhost_name = server_string ''a'', vhost_root = server_string ''/srv'',
     locs = \<lparr>elts = [sample_loc], nalloc = 16\<rparr>\<rparr>"

definition sample_conf :: conf_t where
  "sample_conf = \<lparr>request_pool_size = 4096, connection_timeout = 60, client_header_size = 256,
     large_client_header_size = 1024, content_body_buf_size = 1024, max_content_len = 65536,
     conf_ip = server_string ''127.0.0.1'', conf_port = 8080, conf_root = server_string ''/srv'',
     default_page = server_string ''index.html'', max_threads = 4, worker_num = 1,
     module_sos = \<lparr>elts = [], nalloc = 16\<rparr>, vhosts = \<lparr>elts = [sample_vhost], nalloc = 16\<rparr>,
     default_vhost = sample_vhost\<rparr>"

definition sample_files :: file_system where
  "sample_files = [''/srv/a.css'' \<mapsto> \<lparr>f_dir = False, f_reg = True, f_rusr = True, f_size = 10, f_open = 7\<rparr>]"

theorem module_default_serves_witness:
  "\<exists>r'. module_default_handle_request sample_files sample_conf sample_loc
      (fresh_request\<lparr>url := null_url\<lparr>path := server_string ''/a.css''\<rparr>\<rparr>) = Ret (HTTP_MODULE_PROCESS_DONE, r')
    \<and> status r' = 200 \<and> content_fd (body_out r') = 7
    \<and> elts (out_headers (headers_out r')) = [\<lparr>hname = HTTP_HEADER_CONTENT_TYPE, hvalue = server_string ''text/css''\<rparr>]"
proof -
  let ?r = "fresh_request\<lparr>url := null_url\<lparr>path := server_string ''/a.css''\<rparr>\<rparr>"
  have f: "sample_files (served_path sample_conf sample_loc ?r)
      = Some \<lparr>f_dir = False, f_reg = True, f_rusr = True, f_size = 10, f_open = 7\<rparr>"
    by (simp add: sample_files_def served_path_def sample_loc_def)
  have x: "http_content_type (extension_of (text_of (mem ?r) (path (url ?r)))) = ''text/css''"
    by (simp add: extension_of_def http_content_type_def content_types_def)
  have "req_method ?r = HTTP_METHOD_GET" "elts (out_headers (headers_out ?r)) = []" "array_ok (out_headers (headers_out ?r))"
    "str_wf (mem ?r) (path (url ?r))" "str_wf (mem ?r) (loc_root sample_loc)" "str_wf (mem ?r) (default_page sample_conf)"
    by (simp_all add: fresh_request_def http_request_create_def array_create_def array_ok_def array_count_def
        str_wf_def sample_loc_def sample_conf_def)
  from module_default_serves [OF this, of sample_files] f x show ?thesis
    by (auto simp: HTTP_STATUS_OK_def)
qed

end
