(* ===== verification/Module_Uwsgi.thy ===== *)
theory Module_Uwsgi
  imports Module_Default
begin

text \<open>
  The uwsgi module (\<open>src/module_uwsgi.c\<close>): the packet it builds for the backend, the exchange with the
  backend, and the interface of \<open>src/upstream.h\<close>. The packet is built in place, in a block whose size is
  computed first, in 16 bits; the backend is the socket of the request's upstream.
\<close>

section \<open>The packet\<close>

definition uwsgi_put16 :: "region \<Rightarrow> nat \<Rightarrow> nat \<Rightarrow> region res" where
  "uwsgi_put16 m p n = write_at m p (uint16_little_endian (of_nat n))"

text \<open>\<open>value == NULL\<close> is \<open>None\<close>.\<close>

definition upstream_uwsgi_add_param ::
  "heap \<Rightarrow> region \<Rightarrow> nat \<Rightarrow> str_t \<Rightarrow> str_t option \<Rightarrow> (region \<times> nat) res" where
  "upstream_uwsgi_add_param h m p name value = assert_then (data name \<noteq> Null \<and> 0 < len name)
     (bnd (ptr_byte h (data name) (len name)) (\<lambda>a.
      bnd (ptr_byte h (data name) (len name - 1)) (\<lambda>b.
      assert_then (a = NUL \<and> b \<noteq> NUL)
      (bnd (uwsgi_put16 m p (len name)) (\<lambda>m1.
       bnd (printf_str h (data name)) (\<lambda>n.
       bnd (sprintf_at m1 (p + 2) n) (\<lambda>m2.
       let p2 = p + 2 + len name in
       case value of
         Some v \<Rightarrow>
           if 0 < len v then
             bnd (ptr_byte h (data v) (len v)) (\<lambda>a.
             bnd (ptr_byte h (data v) (len v - 1)) (\<lambda>b.
             assert_then (a = NUL \<and> b \<noteq> NUL)
             (bnd (uwsgi_put16 m2 p2 (len v)) (\<lambda>m3.
              bnd (printf_str h (data v)) (\<lambda>t.
              bnd (sprintf_at m3 (p2 + 2) t) (\<lambda>m4.
              Ret (m4, p2 + 2 + len v)))))))
           else bnd (uwsgi_put16 m2 p2 0) (\<lambda>m3. Ret (m3, p2 + 2))
       | None \<Rightarrow> bnd (uwsgi_put16 m2 p2 0) (\<lambda>m3. Ret (m3, p2 + 2))))))))) "

text \<open>The parameters in the order in which \<open>upstream_uwsgi_process\<close> adds them.\<close>

definition uwsgi_params :: "conf_t \<Rightarrow> vhost_conf_t \<Rightarrow> vhost_loc_conf_t \<Rightarrow> http_request_t \<Rightarrow> (string \<times> str_t option) list" where
  "uwsgi_params c vh lc r =
     [(''QUERY_STRING'', Some (query_string (url r))),
      (''REQUEST_METHOD'', Some (method_str r)),
      (''CONTENT_TYPE'', header_content_type (headers_in r)),
      (''CONTENT_LENGTH'', header_content_len (headers_in r)),
      (''REQUEST_URI'', Some (path (url r))),
      (''PATH_INFO'', Some (unparsed_url (url r))),
      (''DOCUMENT_ROOT'', Some (loc_root lc)),
      (''SERVER_PROTOCOL'', Some (version_str r)),
      (''SERVER_SOFTWARE'', Some (server_string XWP_SERVER_VER)),
      (''REMOTE_ADDR'', Some (remote_ip r)),
      (''SERVER_ADDR'', Some (conf_ip c)),
      (''SERVER_PORT'', Some (server_string (show_int (conf_port c)))),
      (''SERVER_NAME'', Some (vhost_name vh))]"

fun uwsgi_add_params ::
  "heap \<Rightarrow> (string \<times> str_t option) list \<Rightarrow> region \<Rightarrow> nat \<Rightarrow> (region \<times> nat) res" where
  "uwsgi_add_params h [] m p = Ret (m, p)"
| "uwsgi_add_params h ((n, v) # ps) m p =
     bnd (upstream_uwsgi_add_param h m p (server_string n) v) (\<lambda>(m', p'). uwsgi_add_params h ps m' p')"

text \<open>The headers that are passed under another name already. The second comparison uses the length of the
  name \<open>Content-Type\<close>.\<close>

definition uwsgi_skip_header :: "string \<Rightarrow> bool" where
  "uwsgi_skip_header n \<longleftrightarrow> strncasecmp_eq (length ''Content-Type'') n ''Content-Type''
     \<or> strncasecmp_eq (length ''Content-Type'') n ''Content-Length''"

text \<open>The loop that rewrites the name behind \<open>HTTP_\<close> up to its NUL.\<close>

definition cgi_char :: "char \<Rightarrow> char" where
  "cgi_char ch = (if ch = CHR ''-'' then CHR ''_'' else if islower ch then toupper ch else ch)"

definition uwsgi_add_header :: "heap \<Rightarrow> http_header_t \<Rightarrow> region \<Rightarrow> nat \<Rightarrow> (region \<times> nat) res" where
  "uwsgi_add_header h x m p =
     bnd (deref h (data (hname x))) (\<lambda>n.
     if uwsgi_skip_header n then Ret (m, p)
     else
       bnd (uwsgi_put16 m p (len (hname x) + 5)) (\<lambda>m1.
       bnd (sprintf_at m1 (p + 2) (''HTTP_'' @ map cgi_char n)) (\<lambda>m2.
       let p2 = p + 2 + (5 + length n) in
       if 0 < len (hvalue x) then
         bnd (uwsgi_put16 m2 p2 (len (hvalue x))) (\<lambda>m3.
         bnd (printf_str h (data (hvalue x))) (\<lambda>t.
         bnd (sprintf_at m3 (p2 + 2) t) (\<lambda>m4.
         Ret (m4, p2 + 2 + length t))))
       else bnd (uwsgi_put16 m2 p2 0) (\<lambda>m3. Ret (m3, p2 + 2)))))"

fun uwsgi_add_headers :: "heap \<Rightarrow> http_header_t list \<Rightarrow> region \<Rightarrow> nat \<Rightarrow> (region \<times> nat) res" where
  "uwsgi_add_headers h [] m p = Ret (m, p)"
| "uwsgi_add_headers h (x # xs) m p =
     bnd (uwsgi_add_header h x m p) (\<lambda>(m', p'). uwsgi_add_headers h xs m' p')"

section \<open>Its size\<close>

definition opt_len :: "str_t option \<Rightarrow> nat" where
  "opt_len v = (case v of None \<Rightarrow> 0 | Some s \<Rightarrow> len s)"

text \<open>The sizes added before the loop, in the order of the code, and the loop.\<close>

definition uwsgi_fixed_sizes :: "conf_t \<Rightarrow> vhost_conf_t \<Rightarrow> vhost_loc_conf_t \<Rightarrow> http_request_t \<Rightarrow> nat list" where
  "uwsgi_fixed_sizes c vh lc r =
     [length ''QUERY_STRING'' + len (query_string (url r)) + 4,
      length ''REQUEST_METHOD'' + len (method_str r) + 4,
      length ''CONTENT_TYPE'' + opt_len (header_content_type (headers_in r)) + 4,
      length ''CONTENT_LENGTH'' + opt_len (header_content_len (headers_in r)) + 4,
      length ''REQUEST_URI'' + len (unparsed_url (url r)) + 4,
      length ''PATH_INFO'' + len (path (url r)) + 4,
      length ''DOCUMENT_ROOT'' + len (loc_root lc) + 4,
      length ''SERVER_PROTOCOL'' + len (version_str r) + 4,
      length ''SERVER_SOFTWARE'' + length XWP_SERVER_VER + 4,
      length ''REMOTE_ADDR'' + len (remote_ip r) + 4,
      length ''SERVER_ADDR'' + len (conf_ip c) + 4,
      length ''SERVER_PORT'' + length (show_int (conf_port c)) + 4,
      length ''SERVER_NAME'' + len (vhost_name vh) + 4]"

fun uwsgi_header_sizes :: "heap \<Rightarrow> http_header_t list \<Rightarrow> nat list res" where
  "uwsgi_header_sizes h [] = Ret []"
| "uwsgi_header_sizes h (x # xs) =
     bnd (deref h (data (hname x))) (\<lambda>n.
     bnd (uwsgi_header_sizes h xs) (\<lambda>ns.
     Ret (if uwsgi_skip_header n then ns else (5 + len (hname x) + len (hvalue x) + 4) # ns)))"

definition upstream_uwsgi_calc_packet_len ::
  "conf_t \<Rightarrow> vhost_conf_t \<Rightarrow> vhost_loc_conf_t \<Rightarrow> http_request_t \<Rightarrow> 16 word res" where
  "upstream_uwsgi_calc_packet_len c vh lc r =
     bnd (uwsgi_header_sizes (mem r) (elts (in_headers (headers_in r)))) (\<lambda>ns.
     Ret (foldl (\<lambda>(d :: 16 word) n. d + of_nat n) 0 (uwsgi_fixed_sizes c vh lc r @ ns)))"

section \<open>The exchange with the backend\<close>

text \<open>The packet, up to the assertion on its length (lines 182 to 262).\<close>

definition uwsgi_packet ::
  "module_uwsgi_conf_t \<Rightarrow> conf_t \<Rightarrow> vhost_conf_t \<Rightarrow> vhost_loc_conf_t \<Rightarrow> http_request_t \<Rightarrow> string res" where
  "uwsgi_packet mc c vh lc r =
     bnd (upstream_uwsgi_calc_packet_len c vh lc r) (\<lambda>datasize.
     let m = replicate (unat datasize + 4 + 1) NUL in
     bnd (write_at m 0 (char_of (unat (modifier1 mc)) # uint16_little_endian datasize @ [char_of (unat (modifier2 mc))])) (\<lambda>m0.
     bnd (uwsgi_add_params (mem r) (uwsgi_params c vh lc r) m0 4) (\<lambda>(m1, p1).
     bnd (uwsgi_add_headers (mem r) (elts (in_headers (headers_in r))) m1 p1) (\<lambda>(m2, p2).
     assert_then (p2 = unat datasize + 4) (Ret (take (unat datasize + 4) m2))))))"

text \<open>The body of the request, when it has one.\<close>

definition uwsgi_send_body :: "http_request_t \<Rightarrow> sock \<Rightarrow> (bool \<times> sock) res" where
  "uwsgi_send_body r s =
     (if content_len (body_in r) \<le> 0 then Ret (True, s)
      else case content (body_in r) of
        None \<Rightarrow> Crash Null_Deref
      | Some x \<Rightarrow>
          bnd (bytes_at (mem r ! blk x) (buf_pos x) (nat (content_len (body_in r)))) (\<lambda>d. nwrite s d))"

text \<open>The response: status line, headers, body. \<open>ret\<close> is what the last checked call returned; that of
  \<open>http_process_content_body\<close> is not looked at.\<close>

definition uwsgi_read_response :: "conf_t \<Rightarrow> http_request_t \<Rightarrow> sock \<Rightarrow> (bool \<times> http_request_t \<times> sock) res" where
  "uwsgi_read_response c r s =
     bnd (http_process_status_line c r s) (\<lambda>(ok1, r1, s1).
     if \<not> ok1 then Ret (False, r1, s1)
     else bnd (http_process_header_line c HTTP_PROCESS_PHASE_RESPONSE r1 s1) (\<lambda>(ok2, r2, s2).
     if \<not> ok2 then Ret (False, r2, s2)
     else bnd (http_process_content_body c r2 s2 (body_out r2) (out_content_len (headers_out r2))) (\<lambda>(ok3, cb, r3, s3).
     Ret (True, r3\<lparr>body_out := cb\<rparr>, s3))))"

definition uwsgi_exchange ::
  "module_uwsgi_conf_t \<Rightarrow> conf_t \<Rightarrow> vhost_conf_t \<Rightarrow> vhost_loc_conf_t \<Rightarrow> http_request_t \<Rightarrow> sock
     \<Rightarrow> (bool \<times> http_request_t \<times> sock) res" where
  "uwsgi_exchange mc c vh lc r s =
     bnd (uwsgi_packet mc c vh lc r) (\<lambda>pk.
     bnd (nwrite s pk) (\<lambda>(ok1, s1).
     if \<not> ok1 then Ret (False, r, s1)
     else bnd (uwsgi_send_body r s1) (\<lambda>(ok2, s2).
     if \<not> ok2 then Ret (False, r, s2)
     else uwsgi_read_response c r s2)))"

text \<open>At \<open>DONE\<close> any failure has become a bad gateway, and the descriptor is closed.\<close>

definition upstream_uwsgi_process ::
  "module_uwsgi_conf_t \<Rightarrow> conf_t \<Rightarrow> vhost_conf_t \<Rightarrow> vhost_loc_conf_t \<Rightarrow> http_request_t \<Rightarrow> http_request_t res" where
  "upstream_uwsgi_process mc c vh lc r = (case upstream r of
       None \<Rightarrow> Crash Null_Deref
     | Some u \<Rightarrow>
         bnd (uwsgi_exchange mc c vh lc (r\<lparr>upstream := Some (u\<lparr>up_running := True\<rparr>)\<rparr>) (up_sock u)) (\<lambda>(ret, r1, s1).
         let r2 = (if ret then r1 else r1\<lparr>status := HTTP_STATUS_BAD_GATEWAY\<rparr>) in
         Ret (r2\<lparr>upstream := Some \<lparr>up_fd = - 1, up_running = False, up_sock = s1\<rparr>\<rparr>)))"

text \<open>\<open>upstream_abort\<close>: from another thread, it closes the descriptor of a running upstream and waits until that has
  stopped; here its effect on one that is not running.\<close>

definition upstream_uwsgi_abort :: "upstream_t \<Rightarrow> upstream_t res" where
  "upstream_uwsgi_abort u = (if 0 \<le> up_fd u \<and> up_running u then Crash Diverges else Ret u)"

text \<open>Creating the upstream: \<open>socket_fd\<close> and \<open>connect_ok\<close> are the results of \<open>socket\<close> and \<open>connect\<close>, \<open>s\<close> the
  socket that is connected then.\<close>

definition upstream_uwsgi_create :: "int \<Rightarrow> bool \<Rightarrow> sock \<Rightarrow> http_request_t \<Rightarrow> upstream_t option \<times> http_request_t" where
  "upstream_uwsgi_create socket_fd connect_ok s r =
     (let fd = fst (connect_remote socket_fd connect_ok) in
      if fd < 0 then (None, r\<lparr>status := HTTP_STATUS_BAD_GATEWAY\<rparr>)
      else (Some \<lparr>up_fd = fd, up_running = False, up_sock = s\<rparr>, r))"

definition module_uwsgi_handle_request ::
  "int \<Rightarrow> bool \<Rightarrow> sock \<Rightarrow> http_request_t \<Rightarrow> (module_result \<times> http_request_t) res" where
  "module_uwsgi_handle_request socket_fd connect_ok s r =
     (case upstream_uwsgi_create socket_fd connect_ok s r of
        (None, r1) \<Rightarrow> assert_then (HTTP_STATUS_SPECIAL_RESPONSE < status r1) (Ret (HTTP_MODULE_PROCESS_DONE, r1))
      | (Some u, r1) \<Rightarrow> Ret (HTTP_MODULE_PROCESS_UPSTREAM, r1\<lparr>upstream := Some u\<rparr>))"

end
