(* ===== verification/Connection.thy ===== *)
theory Connection
  imports Module_Uwsgi
begin

text \<open>
  A connection (\<open>src/connection.c\<close>): receiving a request, choosing the virtual host and the location, running
  the handler, sending the response, and the loop that serves one request after another on a connection
  that is kept alive. This theory is the thread that runs the connection; what the guard thread does to
  it is in \<open>Server\<close>.
\<close>

section \<open>State\<close>

datatype connection_state_e =
    CONNECTION_REUSEABLE
  | CONNECTION_RUNNING
  | CONNECTION_BEFORE_REUSEABLE
  | CONNECTION_UNREUSEABLE

text \<open>\<open>request_pool\<close> says whether the connection holds a pool for its request. The socket of the peer is that of
  the descriptor.\<close>

record connection_t =
  conn_state :: connection_state_e
  timedout :: bool
  conn_fd :: int
  start_time :: int
  request_pool :: bool
  conn_r :: "http_request_t option"
  conn_sock :: sock

text \<open>What the program asks of its surroundings: the file system and the bytes behind the descriptors opened
  from it, \<open>regexec\<close>, the address of the peer, the time, and for a request the result of connecting to a
  backend.\<close>

record env =
  env_files :: file_system
  env_file_data :: "int \<Rightarrow> string"
  env_regexec :: "string \<Rightarrow> string \<Rightarrow> bool"
  env_peer_ip :: string
  env_peer_port :: "16 word"
  env_time :: int
  env_backend :: "http_request_t \<Rightarrow> int \<times> bool \<times> sock"

section \<open>Receiving a request\<close>

definition connection_gen_request :: "conf_t \<Rightarrow> http_request_t \<Rightarrow> sock \<Rightarrow> (http_request_t \<times> sock) res" where
  "connection_gen_request c r s =
     bnd (http_process_request_line c r s) (\<lambda>(ok1, r1, s1).
     if \<not> ok1 then Ret (r1, s1)
     else bnd (http_process_header_line c HTTP_PROCESS_PHASE_REQUEST r1 s1) (\<lambda>(ok2, r2, s2).
     if \<not> ok2 then Ret (r2, s2)
     else bnd (http_process_content_body c r2 s2 (body_in r2) (in_content_len (headers_in r2))) (\<lambda>(ok3, cb, r3, s3).
     Ret (r3\<lparr>body_in := cb\<rparr>, s3))))"

section \<open>Sending the response\<close>

definition connection_response_headers_len :: "http_request_t \<Rightarrow> nat res" where
  "connection_response_headers_len r =
     bnd (http_status_line (status r)) (\<lambda>line.
     Ret (length ''HTTP/1.x '' + length line + 2
          + sum_list (map (\<lambda>x. len (hname x) + len (hvalue x) + 4) (elts (out_headers (headers_out r)))) + 2))"

text \<open>\<open>snprintf(buf + p, n, ...)\<close>: at most \<open>n - 1\<close> bytes of the text and a NUL.\<close>

definition snprintf_at :: "region \<Rightarrow> nat \<Rightarrow> nat \<Rightarrow> string \<Rightarrow> region res" where
  "snprintf_at m p n t = (if n = 0 then Ret m else write_at m p (take (n - 1) t @ [NUL]))"

fun response_header_lines ::
  "heap \<Rightarrow> nat \<Rightarrow> http_header_t list \<Rightarrow> region \<Rightarrow> nat \<Rightarrow> (region \<times> nat) res" where
  "response_header_lines h tot [] m num = Ret (m, num)"
| "response_header_lines h tot (x # xs) m num =
     bnd (printf_str h (data (hname x))) (\<lambda>n.
     bnd (printf_str h (data (hvalue x))) (\<lambda>v.
     let t = n @ '': '' @ v @ CRLF in
     bnd (snprintf_at m num (size_t_of_int (int tot - int num)) t) (\<lambda>m'.
     response_header_lines h tot xs m' (num + length t))))"

text \<open>The headers the server adds (lines 71 to 94).\<close>

definition response_set_headers :: "http_request_t \<Rightarrow> headers res" where
  "response_set_headers r =
     bnd (http_header_set (mem r) (out_headers (headers_out r)) HTTP_HEADER_CONNECTION
            (if keep_alive r then HTTP_HEADER_KEEPALIVE else HTTP_HEADER_CLOSE)) (\<lambda>t1.
     bnd (http_header_set (mem r) t1 HTTP_HEADER_SERVER HTTP_HEADER_XWP_VER) (\<lambda>t2.
     http_header_set (mem r) t2 HTTP_HEADER_CONTENT_LEN
       (server_string (if 0 < content_len (body_out r) then show_int (content_len (body_out r)) else ''0''))))"

text \<open>The head of the response, up to the assertion on its length (lines 96 to 123).\<close>

definition response_head :: "http_request_t \<Rightarrow> string res" where
  "response_head r =
     bnd (connection_response_headers_len r) (\<lambda>total.
     bnd (http_status_line (status r)) (\<lambda>line.
     bnd (printf_str (mem r) (data (version_str r))) (\<lambda>ver.
     let t = ver @ '' '' @ line @ CRLF in
     bnd (snprintf_at (replicate total NUL) 0 total t) (\<lambda>m1.
     bnd (response_header_lines (mem r) total (elts (out_headers (headers_out r))) m1 (length t)) (\<lambda>(m2, num).
     bnd (write_at m2 num CRLF) (\<lambda>m3.
     assert_then (num + 2 = total) (Ret (take (num + 2) m3))))))))"

text \<open>\<open>sendfile\<close>: a failing call sends nothing, a short one is not repeated.\<close>

definition sendfile :: "sock \<Rightarrow> string \<Rightarrow> bool \<times> sock" where
  "sendfile s d = (case sends s of
       [] \<Rightarrow> (True, s\<lparr>outbox := outbox s @ d\<rparr>)
     | Sent k # ss \<Rightarrow> (True, s\<lparr>sends := ss, outbox := outbox s @ take k d\<rparr>)
     | Send_Error e # ss \<Rightarrow> (False, s\<lparr>sends := ss, sock_errno := e\<rparr>))"

definition response_send_body :: "env \<Rightarrow> http_request_t \<Rightarrow> sock \<Rightarrow> (bool \<times> http_request_t \<times> sock) res" where
  "response_send_body e r s =
     (let b = body_out r in
      assert_then (\<not> (0 \<le> content_fd b \<and> content b \<noteq> None))
      (if 0 \<le> content_fd b then
         (let (ok, s') = sendfile s (take (nat (content_len b)) (env_file_data e (content_fd b)))
          in Ret (ok, r\<lparr>body_out := b\<lparr>content_fd := - 1\<rparr>\<rparr>, s'))
       else case content b of
         None \<Rightarrow> Ret (True, r, s)
       | Some x \<Rightarrow>
           bnd (bytes_at (mem r ! blk x) (buf_pos x) (nat (content_len b))) (\<lambda>d.
           bnd (nwrite s d) (\<lambda>(ok, s'). Ret (ok, r, s')))))"

definition connection_send_response :: "env \<Rightarrow> http_request_t \<Rightarrow> sock \<Rightarrow> (bool \<times> http_request_t \<times> sock) res" where
  "connection_send_response e r s =
     bnd (response_set_headers r) (\<lambda>t.
     let r1 = r\<lparr>headers_out := (headers_out r)\<lparr>out_headers := t\<rparr>\<rparr> in
     bnd (response_head r1) (\<lambda>hd.
     bnd (nwrite s hd) (\<lambda>(ok, s1).
     if \<not> ok then Ret (False, r1, s1) else response_send_body e r1 s1)))"

section \<open>Choosing and running the handler\<close>

fun find_vhost :: "heap \<Rightarrow> ptr \<Rightarrow> vhost_conf_t list \<Rightarrow> vhost_conf_t option res" where
  "find_vhost h p [] = Ret None"
| "find_vhost h p (v # vs) =
     bnd (deref h (data (vhost_name v))) (\<lambda>n.
     bnd (strncasecmp_ptr h p n (len (vhost_name v))) (\<lambda>eq.
     if eq then Ret (Some v) else find_vhost h p vs))"

definition request_vhost :: "conf_t \<Rightarrow> http_request_t \<Rightarrow> vhost_conf_t res" where
  "request_vhost c r = (case header_host (headers_in r) of
       None \<Rightarrow> Ret (default_vhost c)
     | Some ho \<Rightarrow> bnd (find_vhost (mem r) (data ho) (elts (vhosts c))) (\<lambda>v.
         Ret (case v of Some x \<Rightarrow> x | None \<Rightarrow> default_vhost c)))"

text \<open>\<open>regexec\<close> on the pattern of each location; reading a null path is a crash.\<close>

fun find_loc :: "env \<Rightarrow> heap \<Rightarrow> ptr \<Rightarrow> vhost_loc_conf_t list \<Rightarrow> vhost_loc_conf_t option res" where
  "find_loc e h p [] = Ret None"
| "find_loc e h p (l # ls) =
     bnd (deref h (data (pattern_str l))) (\<lambda>pat.
     bnd (deref h p) (\<lambda>t.
     if env_regexec e pat t then Ret (Some l) else find_loc e h p ls))"

definition module_process ::
  "env \<Rightarrow> conf_t \<Rightarrow> vhost_loc_conf_t \<Rightarrow> http_request_t \<Rightarrow> (module_result \<times> http_request_t) res" where
  "module_process e c lc r = (case handler lc of
       Module_Default \<Rightarrow> module_default_handle_request (env_files e) c lc r
     | Module_Uwsgi mc \<Rightarrow> (case env_backend e r of (fd, ok, s) \<Rightarrow> module_uwsgi_handle_request fd ok s r))"

definition upstream_process :: "conf_t \<Rightarrow> vhost_conf_t \<Rightarrow> vhost_loc_conf_t \<Rightarrow> http_request_t \<Rightarrow> http_request_t res" where
  "upstream_process c vh lc r = (case handler lc of
       Module_Default \<Rightarrow> Crash Null_Deref
     | Module_Uwsgi mc \<Rightarrow> upstream_uwsgi_process mc c vh lc r)"

definition connection_process_request :: "env \<Rightarrow> conf_t \<Rightarrow> http_request_t \<Rightarrow> http_request_t res" where
  "connection_process_request e c r =
     bnd (request_vhost c r) (\<lambda>vh.
     bnd (find_loc e (mem r) (data (path (url r))) (elts (locs vh))) (\<lambda>l. case l of
       None \<Rightarrow> Ret (r\<lparr>status := HTTP_STATUS_BAD_REQUEST\<rparr>)
     | Some lc \<Rightarrow>
         bnd (module_process e c lc r) (\<lambda>(ret, r1). case ret of
           HTTP_MODULE_PROCESS_DONE \<Rightarrow> Ret r1
         | HTTP_MODULE_PROCESS_UPSTREAM \<Rightarrow> upstream_process c vh lc r1)))"

section \<open>Error responses\<close>

definition connection_special_response :: "http_request_t \<Rightarrow> http_request_t res" where
  "connection_special_response r =
     (if 0 < content_len (body_out r) then Ret r
      else bnd (http_error_page (status r) (err_msg r)) (\<lambda>pg.
        let r1 = (case pg of
            None \<Rightarrow> r
          | Some t \<Rightarrow> r\<lparr>mem := mem r @ [t],
              body_out := (body_out r)\<lparr>content_len := int (length t),
                content := Some \<lparr>blk = length (mem r), buf_start = 0, buf_end = length t, buf_pos = 0,
                  buf_last = length t\<rparr>\<rparr>\<rparr>)
        in Ret (if HTTP_STATUS_BAD_REQUEST \<le> status r1 then r1\<lparr>keep_alive := False\<rparr> else r1)))"

section \<open>The life of a connection\<close>

definition connection_create :: "sock \<Rightarrow> connection_t" where
  "connection_create s = \<lparr>conn_state = CONNECTION_REUSEABLE, timedout = False, conn_fd = - 1, start_time = 0,
     request_pool = False, conn_r = None, conn_sock = s\<rparr>"

definition abort_upstream :: "http_request_t \<Rightarrow> http_request_t res" where
  "abort_upstream r = (case upstream r of
       None \<Rightarrow> Ret r
     | Some u \<Rightarrow> bnd (upstream_uwsgi_abort u) (\<lambda>_. Ret (r\<lparr>upstream := None\<rparr>)))"

definition connection_finalize_request :: "env \<Rightarrow> connection_t \<Rightarrow> (bool \<times> connection_t) res" where
  "connection_finalize_request e cn = (case conn_r cn of
       None \<Rightarrow> Crash Null_Deref
     | Some r \<Rightarrow>
         bnd (if timedout cn then Ret cn
              else bnd (abort_upstream r) (\<lambda>r1. Ret (cn\<lparr>start_time := env_time e, conn_r := Some r1\<rparr>))) (\<lambda>cn1.
         if timedout cn1 then Ret (False, cn1)
         else bnd (http_request_create (env_peer_ip e) (env_peer_port e)) (\<lambda>r2.
           Ret (True, cn1\<lparr>request_pool := True, conn_r := Some r2\<rparr>))))"

definition connection_reusable :: "connection_t \<Rightarrow> bool \<Rightarrow> connection_t res" where
  "connection_reusable cn reusable = assert_then (conn_state cn = CONNECTION_BEFORE_REUSEABLE)
     (bnd (case conn_r cn of None \<Rightarrow> Ret None | Some r \<Rightarrow> bnd (abort_upstream r) (\<lambda>r1. Ret (Some r1))) (\<lambda>_.
      Ret (cn\<lparr>timedout := False, start_time := 0, conn_fd := - 1, request_pool := False, conn_r := None,
              conn_state := (if reusable then CONNECTION_REUSEABLE else CONNECTION_UNREUSEABLE)\<rparr>)))"

definition connection_close :: "connection_t \<Rightarrow> connection_t res" where
  "connection_close cn = connection_reusable (cn\<lparr>conn_state := CONNECTION_BEFORE_REUSEABLE\<rparr>) False"

text \<open>One round of the loop of \<open>connection_run\<close>: whether to go on, the request and the socket. The first
  component is \<open>False\<close> for every \<open>break\<close>.\<close>

definition connection_round :: "env \<Rightarrow> conf_t \<Rightarrow> connection_t \<Rightarrow> (bool \<times> connection_t) res" where
  "connection_round e c cn = assert_then (conn_state cn = CONNECTION_RUNNING)
     (case conn_r cn of
        None \<Rightarrow> Crash Null_Deref
      | Some r \<Rightarrow>
          bnd (connection_gen_request c r (conn_sock cn)) (\<lambda>(r1, s1).
          if status r1 < HTTP_STATUS_SPECIAL_RESPONSE \<and> timedout cn then
            Ret (False, cn\<lparr>conn_r := Some r1, conn_sock := s1\<rparr>)
          else
          bnd (if HTTP_STATUS_SPECIAL_RESPONSE \<le> status r1 then Ret r1
               else connection_process_request e c r1) (\<lambda>r2.
          if status r2 = HTTP_STATUS_CLOSE then Ret (False, cn\<lparr>conn_r := Some r2, conn_sock := s1\<rparr>)
          else
            bnd (if HTTP_STATUS_SPECIAL_RESPONSE \<le> status r2 then connection_special_response r2 else Ret r2) (\<lambda>r3.
            bnd (connection_send_response e r3 s1) (\<lambda>(ok, r4, s2).
            let cn1 = cn\<lparr>conn_r := Some r4, conn_sock := s2\<rparr> in
            if \<not> ok \<or> \<not> keep_alive r4 \<or> timedout cn1 then Ret (False, cn1)
            else connection_finalize_request e cn1)))))"

text \<open>The loop, with fuel; \<open>connection_run_ends\<close> (in \<open>Connection_Run\<close>) says how much is enough.\<close>

fun connection_loop :: "nat \<Rightarrow> env \<Rightarrow> conf_t \<Rightarrow> connection_t \<Rightarrow> connection_t res" where
  "connection_loop 0 e c cn = Crash Diverges"
| "connection_loop (Suc n) e c cn =
     (if timedout cn then Ret cn
      else bnd (connection_round e c cn) (\<lambda>(more, cn'). if more then connection_loop n e c cn' else Ret cn'))"

definition connection_run :: "nat \<Rightarrow> env \<Rightarrow> conf_t \<Rightarrow> int \<Rightarrow> connection_t \<Rightarrow> connection_t res" where
  "connection_run n e c fd cn = assert_then (0 \<le> fd \<and> conn_state cn = CONNECTION_REUSEABLE)
     (bnd (http_request_create (env_peer_ip e) (env_peer_port e)) (\<lambda>r.
      bnd (connection_loop n e c (cn\<lparr>request_pool := True, conn_r := Some r, start_time := env_time e,
             conn_fd := fd, conn_state := CONNECTION_RUNNING\<rparr>)) (\<lambda>cn'.
      connection_reusable (cn'\<lparr>conn_state := CONNECTION_BEFORE_REUSEABLE\<rparr>) True)))"

end
