(* ===== verification/Uwsgi_Packet.thy ===== *)
theory Uwsgi_Packet
  imports Module_Uwsgi
begin

text \<open>
  The packet for the backend is well formed: built in place in a block of the precomputed size, it is
  exactly the encoding of the request's variables, and a uwsgi reader decodes it to them.
\<close>

section \<open>The encoding\<close>

definition uwsgi_enc :: "string \<times> string \<Rightarrow> string" where
  "uwsgi_enc v = uint16_little_endian (of_nat (length (fst v))) @ fst v
     @ uint16_little_endian (of_nat (length (snd v))) @ snd v"

lemma length_uwsgi_enc [simp]: "length (uwsgi_enc v) = length (fst v) + length (snd v) + 4"
  by (simp add: uwsgi_enc_def)

text \<open>The reader of the protocol.\<close>

function uwsgi_dec :: "string \<Rightarrow> (string \<times> string) list option" where
  "uwsgi_dec [] = Some []"
| "uwsgi_dec [a] = None"
| "uwsgi_dec (a # b # x) =
     (let n = unat (le16 a b); y = drop n x in
      case y of
        c # d # z \<Rightarrow>
          (let k = unat (le16 c d) in
           if length z < k then None
           else map_option (\<lambda>vs. (take n x, take k z) # vs) (uwsgi_dec (drop k z)))
      | _ \<Rightarrow> None)"
  by pat_completeness auto
termination
proof (relation "measure length", goal_cases)
  case (2 a b x n y y1 z1 c z k)
  have "length (drop n x) = Suc (Suc (length z))" using 2 by (metis length_Cons)
  then have "length z < length x" by (simp add: length_drop)
  then show ?case by simp
qed simp

lemma le16_of_nat:
  assumes "n < 65536"
  shows "\<exists>a b. uint16_little_endian (of_nat n) = [a, b] \<and> unat (le16 a b) = n"
proof -
  obtain a b where ab: "uint16_little_endian (of_nat n) = [a, b]" by (simp add: uint16_little_endian_def)
  have "unat (of_nat n :: 16 word) = n" using assms by (simp add: unsigned_of_nat take_bit_nat_eq_self)
  with le16_roundtrip [OF ab] ab show ?thesis by auto
qed

lemma uwsgi_dec_enc:
  assumes "length (fst v) < 65536" "length (snd v) < 65536"
  shows "uwsgi_dec (uwsgi_enc v @ x) = map_option (\<lambda>vs. v # vs) (uwsgi_dec x)"
proof -
  obtain a b where 1: "uint16_little_endian (of_nat (length (fst v))) = [a, b]" "unat (le16 a b) = length (fst v)"
    using le16_of_nat [OF assms(1)] by blast
  obtain c d where 2: "uint16_little_endian (of_nat (length (snd v))) = [c, d]" "unat (le16 c d) = length (snd v)"
    using le16_of_nat [OF assms(2)] by blast
  show ?thesis by (simp add: uwsgi_enc_def 1 2 Let_def)
qed

lemma uwsgi_dec_concat:
  "\<forall>v \<in> set vs. length (fst v) < 65536 \<and> length (snd v) < 65536 \<Longrightarrow>
     uwsgi_dec (concat (map uwsgi_enc vs)) = Some vs"
  by (induction vs) (simp_all add: uwsgi_dec_enc)

section \<open>Writing it in place\<close>

lemma write_at_take:
  assumes "p + length d \<le> length m"
  shows "\<exists>m'. write_at m p d = Ret m' \<and> length m' = length m \<and> take (p + length d) m' = take p m @ d"
  using assms by (simp add: write_at_def)

lemma sprintf_at_take:
  assumes "p + length t < length m"
  shows "\<exists>m'. sprintf_at m p t = Ret m' \<and> length m' = length m \<and> take (p + length t) m' = take p m @ t"
  using assms by (simp add: sprintf_at_def write_at_def)

text \<open>A value that is absent, empty, or a whole string.\<close>

definition val_ok :: "heap \<Rightarrow> str_t option \<Rightarrow> bool" where
  "val_ok h v \<longleftrightarrow> (case v of None \<Rightarrow> True | Some s \<Rightarrow> len s = 0 \<or> str_wf h s)"

definition val_text :: "heap \<Rightarrow> str_t option \<Rightarrow> string" where
  "val_text h v = (case v of None \<Rightarrow> [] | Some s \<Rightarrow> if len s = 0 then [] else text_of h s)"

lemma length_takeWhile_less: "x \<in> set xs \<Longrightarrow> length (takeWhile (\<lambda>y. y \<noteq> x) xs) < length xs"
  by (induction xs) auto

lemma ptr_byte_end:
  assumes "str_wf h s"
  shows "ptr_byte h (data s) (len s) = Ret NUL"
proof (cases "data s")
  case (At b q)
  have t: "deref h (data s) = Ret (text_of h s)" "len s = length (text_of h s)" using str_wfD [OF assms] by auto
  then have b: "b < length h" "nul_from (h ! b) q" "text_of h s = cstr_at (h ! b) q" using At by (auto split: if_splits)
  have "length (cstr_at (h ! b) q) < length (drop q (h ! b))"
    using b(2) unfolding cstr_at_def nul_from_def by (rule length_takeWhile_less)
  then have "q + len s < length (h ! b)" "drop q (h ! b) ! len s = NUL"
    using t(2) b(3) nth_length_takeWhile [of "\<lambda>c. c \<noteq> NUL" "drop q (h ! b)"] by (auto simp: cstr_at_def)
  then show ?thesis using At b(1) by (simp add: ptr_byte_def load_def)
qed (use str_wfD [OF assms] in \<open>auto simp: ptr_byte_def load_def nth_append\<close>)

lemma ptr_byte_last:
  assumes "str_wf h s" "0 < len s"
  shows "\<exists>b. ptr_byte h (data s) (len s - 1) = Ret b \<and> b \<noteq> NUL"
proof -
  have "len s - 1 < length (text_of h s)" "NUL \<notin> set (text_of h s)" using str_wfD [OF assms(1)] assms(2) by auto
  then have "text_of h s ! (len s - 1) \<noteq> NUL" by (metis nth_mem)
  then show ?thesis using ptr_byte_text [of h s "len s - 1"] assms by (auto simp: str_wf_def)
qed

lemma str_wf_server_string: "str_wf h (server_string n) \<longleftrightarrow> NUL \<notin> set n"
  by (simp add: str_wf_def)

lemma add_param_take:
  assumes n: "n \<noteq> []" "NUL \<notin> set n" and v: "val_ok h v"
    and room: "p + length (uwsgi_enc (n, val_text h v)) < length m"
  shows "\<exists>m'. upstream_uwsgi_add_param h m p (server_string n) v
      = Ret (m', p + length (uwsgi_enc (n, val_text h v)))
    \<and> length m' = length m \<and> take (p + length (uwsgi_enc (n, val_text h v))) m' = take p m @ uwsgi_enc (n, val_text h v)"
proof -
  let ?t = "val_text h v" and ?s = "server_string n"
  have wf: "str_wf h ?s" using n by (simp add: str_wf_server_string)
  obtain b where b: "ptr_byte h (data ?s) (len ?s - 1) = Ret b" "b \<noteq> NUL"
    using ptr_byte_last [OF wf] n(1) by auto
  obtain m1 where m1: "uwsgi_put16 m p (length n) = Ret m1" "length m1 = length m"
    "take (p + 2) m1 = take p m @ uint16_little_endian (of_nat (length n))"
    using write_at_take [of p "uint16_little_endian (of_nat (length n))" m] room by (auto simp: uwsgi_put16_def)
  obtain m2 where m2: "sprintf_at m1 (p + 2) n = Ret m2" "length m2 = length m" "take (p + 2 + length n) m2 = take (p + 2) m1 @ n"
    using sprintf_at_take [of "p + 2" n m1] room m1(2) by auto
  let ?p = "p + 2 + length n"
  obtain m3 where m3: "uwsgi_put16 m2 ?p (length ?t) = Ret m3" "length m3 = length m"
    "take (?p + 2) m3 = take ?p m2 @ uint16_little_endian (of_nat (length ?t))"
    using write_at_take [of ?p "uint16_little_endian (of_nat (length ?t))" m2] room m2(2) by (auto simp: uwsgi_put16_def)
  have enc: "take p m @ uwsgi_enc (n, ?t) = take (?p + 2) m3 @ ?t"
    by (simp only: uwsgi_enc_def m3(3) m2(3) m1(3) append_assoc fst_conv snd_conv)
  note name = ptr_byte_end [OF wf] b m1(1) m2(1) str_wfD [OF wf] n(1)
  show ?thesis
  proof (cases "?t = []")
    case True
    then have "v = None \<or> (\<exists>s. v = Some s \<and> len s = 0)"
      using v str_wfD by (fastforce simp: val_text_def val_ok_def split: option.splits if_splits)
    then have "upstream_uwsgi_add_param h m p ?s v = Ret (m3, ?p + 2)"
      using name m3(1) True by (auto simp: upstream_uwsgi_add_param_def Let_def)
    with True enc m3(2) show ?thesis by (simp add: add_ac eval_nat_numeral)
  next
    case False
    then obtain s where s: "v = Some s" "0 < len s" "?t = text_of h s" "str_wf h s"
      using v by (auto simp: val_text_def val_ok_def split: option.splits if_splits)
    obtain b' where b': "ptr_byte h (data s) (len s - 1) = Ret b'" "b' \<noteq> NUL" using ptr_byte_last [OF s(4,2)] by blast
    obtain m4 where m4: "sprintf_at m3 (?p + 2) ?t = Ret m4" "length m4 = length m"
      "take (?p + 2 + length ?t) m4 = take (?p + 2) m3 @ ?t"
      using sprintf_at_take [of "?p + 2" ?t m3] room m3(2) by auto
    have "upstream_uwsgi_add_param h m p ?s v = Ret (m4, ?p + 2 + length ?t)"
      using name b' ptr_byte_end [OF s(4)] m3(1) m4(1) s str_wfD [OF s(4)]
      by (simp add: upstream_uwsgi_add_param_def Let_def)
    with m4(2,3) enc show ?thesis by (simp add: add_ac eval_nat_numeral)
  qed
qed

lemma add_params_take:
  assumes "\<forall>(n, v) \<in> set ps. n \<noteq> [] \<and> NUL \<notin> set n \<and> val_ok h v"
    and "p + length (concat (map (\<lambda>(n, v). uwsgi_enc (n, val_text h v)) ps)) < length m"
  shows "\<exists>m'. uwsgi_add_params h ps m p = Ret (m', p + length (concat (map (\<lambda>(n, v). uwsgi_enc (n, val_text h v)) ps)))
    \<and> length m' = length m
    \<and> take (p + length (concat (map (\<lambda>(n, v). uwsgi_enc (n, val_text h v)) ps))) m'
        = take p m @ concat (map (\<lambda>(n, v). uwsgi_enc (n, val_text h v)) ps)"
  using assms
proof (induction ps arbitrary: m p)
  case (Cons q ps)
  obtain n v where q: "q = (n, v)" by (cases q)
  let ?e = "uwsgi_enc (n, val_text h v)" and ?c = "concat (map (\<lambda>(n, v). uwsgi_enc (n, val_text h v)) ps)"
  have room: "p + length ?e < length m" using Cons.prems(2) by (simp add: q)
  obtain m1 where m1: "upstream_uwsgi_add_param h m p (server_string n) v = Ret (m1, p + length ?e)"
    "length m1 = length m" "take (p + length ?e) m1 = take p m @ ?e"
    using add_param_take [of n h v p m] Cons.prems(1) room by (auto simp: q)
  obtain m2 where m2: "uwsgi_add_params h ps m1 (p + length ?e) = Ret (m2, p + length ?e + length ?c)"
    "length m2 = length m1" "take (p + length ?e + length ?c) m2 = take (p + length ?e) m1 @ ?c"
    using Cons.IH [of "p + length ?e" m1] Cons.prems m1(2) by (auto simp: q)
  have len: "p + length (concat (map (\<lambda>(n, v). uwsgi_enc (n, val_text h v)) (q # ps))) = p + length ?e + length ?c"
    by (simp add: q)
  have A: "uwsgi_add_params h (q # ps) m p = Ret (m2, p + length ?e + length ?c)" using m1(1) m2(1) by (simp add: q)
  have B: "length m2 = length m" using m1(2) m2(2) by simp
  have C: "take (p + length ?e + length ?c) m2 = take p m @ concat (map (\<lambda>(n, v). uwsgi_enc (n, val_text h v)) (q # ps))"
    unfolding m2(3) m1(3) by (simp add: q)
  show ?case unfolding len by (intro exI [of _ m2] conjI A B C)
qed simp

text \<open>A request header as a variable.\<close>

definition header_var :: "heap \<Rightarrow> http_header_t \<Rightarrow> string \<times> string" where
  "header_var h x = (''HTTP_'' @ map cgi_char (text_of h (hname x)), val_text h (Some (hvalue x)))"

definition header_ok :: "heap \<Rightarrow> http_header_t \<Rightarrow> bool" where
  "header_ok h x \<longleftrightarrow> str_wf h (hname x) \<and> val_ok h (Some (hvalue x))"

definition passed_headers :: "heap \<Rightarrow> http_header_t list \<Rightarrow> http_header_t list" where
  "passed_headers h xs = filter (\<lambda>x. \<not> uwsgi_skip_header (text_of h (hname x))) xs"

lemma add_header_take:
  assumes ok: "header_ok h x" "\<not> uwsgi_skip_header (text_of h (hname x))"
    and room: "p + length (uwsgi_enc (header_var h x)) < length m"
  shows "\<exists>m'. uwsgi_add_header h x m p = Ret (m', p + length (uwsgi_enc (header_var h x)))
    \<and> length m' = length m \<and> take (p + length (uwsgi_enc (header_var h x))) m' = take p m @ uwsgi_enc (header_var h x)"
proof -
  let ?n = "text_of h (hname x)" and ?t = "val_text h (Some (hvalue x))"
  let ?N = "''HTTP_'' @ map cgi_char ?n"
  have wf: "str_wf h (hname x)" "val_ok h (Some (hvalue x))" using ok(1) by (simp_all add: header_ok_def)
  note wn = str_wfD [OF wf(1)]
  have lN: "length ?N = len (hname x) + 5" using wn by simp
  obtain m1 where m1: "uwsgi_put16 m p (len (hname x) + 5) = Ret m1" "length m1 = length m"
    "take (p + 2) m1 = take p m @ uint16_little_endian (of_nat (length ?N))"
    using write_at_take [of p "uint16_little_endian (of_nat (length ?N))" m] room
    unfolding lN by (auto simp: uwsgi_put16_def header_var_def)
  obtain m2 where m2: "sprintf_at m1 (p + 2) ?N = Ret m2" "length m2 = length m"
    "take (p + 2 + length ?N) m2 = take (p + 2) m1 @ ?N"
    using sprintf_at_take [of "p + 2" ?N m1] room m1(2) by (auto simp: header_var_def)
  let ?p = "p + 2 + length ?N"
  obtain m3 where m3: "uwsgi_put16 m2 ?p (length ?t) = Ret m3" "length m3 = length m"
    "take (?p + 2) m3 = take ?p m2 @ uint16_little_endian (of_nat (length ?t))"
    using write_at_take [of ?p "uint16_little_endian (of_nat (length ?t))" m2] room m2(2)
    by (auto simp: uwsgi_put16_def header_var_def)
  have enc: "take p m @ uwsgi_enc (header_var h x) = take (?p + 2) m3 @ ?t"
    by (simp only: uwsgi_enc_def header_var_def m3(3) m2(3) m1(3) append_assoc fst_conv snd_conv)
  have p: "p + 2 + (5 + length ?n) = ?p" by simp
  have len: "p + length (uwsgi_enc (header_var h x)) = ?p + 2 + length ?t" by (simp add: header_var_def)
  have step: "uwsgi_add_header h x m p = (if 0 < len (hvalue x) then
         bnd (uwsgi_put16 m2 ?p (len (hvalue x))) (\<lambda>m3. bnd (printf_str h (data (hvalue x))) (\<lambda>t.
         bnd (sprintf_at m3 (?p + 2) t) (\<lambda>m4. Ret (m4, ?p + 2 + length t))))
       else bnd (uwsgi_put16 m2 ?p 0) (\<lambda>m3. Ret (m3, ?p + 2)))"
    using wn ok(2) m1(1) m2(1) unfolding uwsgi_add_header_def p [symmetric] by (simp add: Let_def)
  show ?thesis
  proof (cases "0 < len (hvalue x)")
    case False
    then have t: "?t = []" by (simp add: val_text_def)
    have "uwsgi_add_header h x m p = Ret (m3, ?p + 2)"
      unfolding step using False m3(1) unfolding t by simp
    moreover have "take (?p + 2) m3 = take (?p + 2) m3 @ ?t" by (simp add: t)
    moreover have "?p + 2 + length ?t = ?p + 2" by (simp add: t)
    ultimately show ?thesis unfolding len enc using m3(2) by metis
  next
    case True
    then have t: "?t = text_of h (hvalue x)" "str_wf h (hvalue x)" using wf(2) by (auto simp: val_text_def val_ok_def)
    obtain m4 where m4: "sprintf_at m3 (?p + 2) ?t = Ret m4" "length m4 = length m"
      "take (?p + 2 + length ?t) m4 = take (?p + 2) m3 @ ?t"
      using sprintf_at_take [of "?p + 2" ?t m3] room m3(2) len by auto
    have "uwsgi_add_header h x m p = Ret (m4, ?p + 2 + length ?t)"
      unfolding step using True m3(1) m4(1) str_wfD [OF t(2)] unfolding t(1) by simp
    then show ?thesis unfolding len enc using m4(2,3) by blast
  qed
qed

lemma add_headers_take:
  assumes "\<forall>x \<in> set xs. header_ok h x"
    and "p + length (concat (map (\<lambda>x. uwsgi_enc (header_var h x)) (passed_headers h xs))) < length m"
  shows "\<exists>m'. uwsgi_add_headers h xs m p
      = Ret (m', p + length (concat (map (\<lambda>x. uwsgi_enc (header_var h x)) (passed_headers h xs)))) \<and> length m' = length m
    \<and> take (p + length (concat (map (\<lambda>x. uwsgi_enc (header_var h x)) (passed_headers h xs)))) m'
        = take p m @ concat (map (\<lambda>x. uwsgi_enc (header_var h x)) (passed_headers h xs))"
  using assms
proof (induction xs arbitrary: m p)
  case (Cons x xs)
  let ?e = "uwsgi_enc (header_var h x)" and ?c = "concat (map (\<lambda>x. uwsgi_enc (header_var h x)) (passed_headers h xs))"
  have x: "header_ok h x" using Cons.prems(1) by simp
  show ?case
  proof (cases "uwsgi_skip_header (text_of h (hname x))")
    case True
    then have "uwsgi_add_header h x m p = Ret (m, p)"
      using x str_wfD [of h "hname x"] by (simp add: uwsgi_add_header_def header_ok_def)
    moreover have "passed_headers h (x # xs) = passed_headers h xs" using True by (simp add: passed_headers_def)
    ultimately show ?thesis using Cons.IH [of p m] Cons.prems by simp
  next
    case False
    then have ph: "passed_headers h (x # xs) = x # passed_headers h xs" by (simp add: passed_headers_def)
    have "p + length ?e < length m" using Cons.prems(2) by (simp add: ph)
    then obtain m1 where m1: "uwsgi_add_header h x m p = Ret (m1, p + length ?e)" "length m1 = length m"
      "take (p + length ?e) m1 = take p m @ ?e"
      using add_header_take [OF x False] by blast
    have r1: "p + length ?e + length ?c < length m1" "\<forall>x \<in> set xs. header_ok h x"
      using Cons.prems m1(2) by (simp_all add: ph)
    obtain m2 where m2: "uwsgi_add_headers h xs m1 (p + length ?e) = Ret (m2, p + length ?e + length ?c)"
      "length m2 = length m1" "take (p + length ?e + length ?c) m2 = take (p + length ?e) m1 @ ?c"
      using Cons.IH [OF r1(2,1)] by blast
    have len: "p + length (concat (map (\<lambda>x. uwsgi_enc (header_var h x)) (passed_headers h (x # xs))))
        = p + length ?e + length ?c" by (simp add: ph)
    have A: "uwsgi_add_headers h (x # xs) m p = Ret (m2, p + length ?e + length ?c)" using m1(1) m2(1) by simp
    have B: "length m2 = length m" using m1(2) m2(2) by simp
    have C: "take (p + length ?e + length ?c) m2
        = take p m @ concat (map (\<lambda>x. uwsgi_enc (header_var h x)) (passed_headers h (x # xs)))"
      unfolding m2(3) m1(3) by (simp add: ph)
    show ?thesis unfolding len by (intro exI [of _ m2] conjI A B C)
  qed
qed (simp add: passed_headers_def)

section \<open>The packet\<close>

text \<open>The variables of a request, and when they can be passed on.\<close>

definition uwsgi_vars :: "conf_t \<Rightarrow> vhost_conf_t \<Rightarrow> vhost_loc_conf_t \<Rightarrow> http_request_t \<Rightarrow> (string \<times> string) list" where
  "uwsgi_vars c vh lc r = map (\<lambda>(n, v). (n, val_text (mem r) v)) (uwsgi_params c vh lc r)
     @ map (header_var (mem r)) (passed_headers (mem r) (elts (in_headers (headers_in r))))"

definition uwsgi_ready :: "conf_t \<Rightarrow> vhost_conf_t \<Rightarrow> vhost_loc_conf_t \<Rightarrow> http_request_t \<Rightarrow> bool" where
  "uwsgi_ready c vh lc r \<longleftrightarrow> (\<forall>(n, v) \<in> set (uwsgi_params c vh lc r). val_ok (mem r) v)
     \<and> (\<forall>x \<in> set (elts (in_headers (headers_in r))). header_ok (mem r) x)"

definition uwsgi_size :: "conf_t \<Rightarrow> vhost_conf_t \<Rightarrow> vhost_loc_conf_t \<Rightarrow> http_request_t \<Rightarrow> nat" where
  "uwsgi_size c vh lc r = length (concat (map uwsgi_enc (uwsgi_vars c vh lc r)))"

lemma uwsgi_param_names: "(n, v) \<in> set (uwsgi_params c vh lc r) \<Longrightarrow> n \<noteq> [] \<and> NUL \<notin> set n"
  by (auto simp: uwsgi_params_def)

lemma val_text_len: "val_ok h v \<Longrightarrow> length (val_text h v) = opt_len v"
  by (auto simp: val_ok_def val_text_def opt_len_def dest: str_wfD split: option.splits)

lemma foldl_of_nat: "foldl (\<lambda>(d :: 16 word) n. d + of_nat n) d ns = d + of_nat (sum_list ns)"
  by (induction ns arbitrary: d) (simp_all add: add.assoc)

lemma header_sizes:
  assumes "\<forall>x \<in> set xs. header_ok h x"
  shows "\<exists>ns. uwsgi_header_sizes h xs = Ret ns
    \<and> sum_list ns = length (concat (map (\<lambda>x. uwsgi_enc (header_var h x)) (passed_headers h xs)))"
  using assms
proof (induction xs)
  case (Cons x xs)
  then obtain ns where ns: "uwsgi_header_sizes h xs = Ret ns"
    "sum_list ns = length (concat (map (\<lambda>x. uwsgi_enc (header_var h x)) (passed_headers h xs)))" by auto
  have wf: "str_wf h (hname x)" "val_ok h (Some (hvalue x))" using Cons.prems by (auto simp: header_ok_def)
  have "length (val_text h (Some (hvalue x))) = len (hvalue x)" using val_text_len [OF wf(2)] by (simp add: opt_len_def)
  with ns str_wfD [OF wf(1)] show ?case by (simp add: passed_headers_def header_var_def)
qed (simp add: passed_headers_def)

lemma fixed_sizes:
  assumes "\<forall>(n, v) \<in> set (uwsgi_params c vh lc r). val_ok (mem r) v"
  shows "sum_list (uwsgi_fixed_sizes c vh lc r)
    = length (concat (map (\<lambda>(n, v). uwsgi_enc (n, val_text (mem r) v)) (uwsgi_params c vh lc r)))"
proof -
  have l: "length (val_text (mem r) v) = opt_len v" if "(n, v) \<in> set (uwsgi_params c vh lc r)" for n v
    using assms that val_text_len by blast
  have "length (concat (map (\<lambda>(n, v). uwsgi_enc (n, val_text (mem r) v)) ps)) = sum_list (map (\<lambda>(n, v). length n + opt_len v + 4) ps)"
    if "set ps \<subseteq> set (uwsgi_params c vh lc r)" for ps
    using that by (induction ps) (auto simp: l)
  from this [OF subset_refl] show ?thesis
    by (simp add: uwsgi_params_def uwsgi_fixed_sizes_def opt_len_def)
qed

lemma concat_enc_vars:
  "concat (map uwsgi_enc (uwsgi_vars c vh lc r)) =
     concat (map (\<lambda>(n, v). uwsgi_enc (n, val_text (mem r) v)) (uwsgi_params c vh lc r))
   @ concat (map (\<lambda>x. uwsgi_enc (header_var (mem r) x)) (passed_headers (mem r) (elts (in_headers (headers_in r)))))"
  by (simp add: uwsgi_vars_def comp_def split_def)

lemma calc_packet_len:
  assumes "uwsgi_ready c vh lc r"
  shows "upstream_uwsgi_calc_packet_len c vh lc r = Ret (of_nat (uwsgi_size c vh lc r))"
proof -
  obtain ns where ns: "uwsgi_header_sizes (mem r) (elts (in_headers (headers_in r))) = Ret ns"
    "sum_list ns = length (concat (map (\<lambda>x. uwsgi_enc (header_var (mem r) x)) (passed_headers (mem r) (elts (in_headers (headers_in r))))))"
    using header_sizes assms unfolding uwsgi_ready_def by blast
  have "sum_list (uwsgi_fixed_sizes c vh lc r @ ns) = uwsgi_size c vh lc r"
    using fixed_sizes [of c vh lc r] assms ns(2) by (simp add: uwsgi_size_def concat_enc_vars uwsgi_ready_def)
  then show ?thesis
    unfolding upstream_uwsgi_calc_packet_len_def ns(1) by (simp only: bnd_Ret foldl_of_nat add_0)
qed

lemma uwsgi_packet_Ret:
  assumes ready: "uwsgi_ready c vh lc r" and small: "uwsgi_size c vh lc r < 65536"
  shows "uwsgi_packet mc c vh lc r = Ret (char_of (unat (modifier1 mc))
      # uint16_little_endian (of_nat (uwsgi_size c vh lc r)) @ char_of (unat (modifier2 mc))
      # concat (map uwsgi_enc (uwsgi_vars c vh lc r)))"
proof -
  let ?n = "uwsgi_size c vh lc r" and ?h = "mem r" and ?xs = "elts (in_headers (headers_in r))"
  let ?a = "concat (map (\<lambda>(n, v). uwsgi_enc (n, val_text ?h v)) (uwsgi_params c vh lc r))"
  let ?b = "concat (map (\<lambda>x. uwsgi_enc (header_var ?h x)) (passed_headers ?h ?xs))"
  let ?hd = "char_of (unat (modifier1 mc)) # uint16_little_endian (of_nat ?n) @ [char_of (unat (modifier2 mc))]"
  have sz: "?n = length ?a + length ?b" by (simp only: uwsgi_size_def concat_enc_vars length_append)
  have un: "unat (of_nat ?n :: 16 word) = ?n" using small by (simp add: unsigned_of_nat take_bit_nat_eq_self)
  obtain m0 where m0: "write_at (replicate (?n + 4 + 1) NUL) 0 ?hd = Ret m0" "length m0 = ?n + 5" "take 4 m0 = ?hd"
    using write_at_take [of 0 ?hd "replicate (?n + 4 + 1) NUL"] by auto
  have ps: "\<forall>(n, v) \<in> set (uwsgi_params c vh lc r). n \<noteq> [] \<and> NUL \<notin> set n \<and> val_ok ?h v"
    using ready uwsgi_param_names by (fastforce simp: uwsgi_ready_def)
  have room1: "4 + length ?a < length m0" using m0(2) sz by simp
  obtain m1 where m1: "uwsgi_add_params ?h (uwsgi_params c vh lc r) m0 4 = Ret (m1, 4 + length ?a)"
    "length m1 = length m0" "take (4 + length ?a) m1 = take 4 m0 @ ?a"
    using add_params_take [OF ps room1] by blast
  have hs: "\<forall>x \<in> set ?xs. header_ok ?h x" using ready by (simp add: uwsgi_ready_def)
  have room2: "4 + length ?a + length ?b < length m1" using m0(2) m1(2) sz by simp
  obtain m2 where m2: "uwsgi_add_headers ?h ?xs m1 (4 + length ?a) = Ret (m2, 4 + length ?a + length ?b)"
    "take (4 + length ?a + length ?b) m2 = take (4 + length ?a) m1 @ ?b"
    using add_headers_take [OF hs room2] by blast
  have "take (?n + 4) m2 = ?hd @ ?a @ ?b"
    using m2(2) m1(3) m0(3) sz by (simp add: add_ac)
  moreover have "4 + length ?a + length ?b = ?n + 4" using sz by simp
  ultimately have "uwsgi_packet mc c vh lc r = Ret (?hd @ ?a @ ?b)"
    unfolding uwsgi_packet_def calc_packet_len [OF ready] bnd_Ret Let_def un m0(1) m1(1) prod.case m2(1) by simp
  then show ?thesis by (simp add: concat_enc_vars)
qed

lemma var_le_size:
  "v \<in> set vs \<Longrightarrow> length (snd v) \<le> length (concat (map uwsgi_enc vs))"
  "v \<in> set vs \<Longrightarrow> length (fst v) \<le> length (concat (map uwsgi_enc vs))"
  by (induction vs) auto

lemma vars_small:
  assumes "length (concat (map uwsgi_enc vs)) < 65536" "v \<in> set vs"
  shows "length (fst v) < 65536 \<and> length (snd v) < 65536"
  using var_le_size [OF assms(2)] assms(1) by simp


text \<open>A request for \<open>/app\<close> as the parser leaves it, with one header that is passed on.\<close>

definition sample_request :: http_request_t where
  "sample_request = fresh_request\<lparr>method_str := server_string ''GET'', version_str := server_string ''HTTP/1.1'',
     url := null_url\<lparr>path := server_string ''/app'', unparsed_url := server_string ''/app''\<rparr>,
     headers_in := (headers_in fresh_request)\<lparr>in_headers := \<lparr>elts = [\<lparr>hname = server_string ''X-Id'',
       hvalue = server_string ''7''\<rparr>], nalloc = 24\<rparr>\<rparr>\<rparr>"

lemma sample_request_ready: "uwsgi_ready sample_conf sample_vhost sample_loc sample_request"
  by (auto simp: uwsgi_ready_def uwsgi_params_def sample_request_def sample_conf_def sample_loc_def sample_vhost_def
      fresh_request_def http_request_create_def array_create_def val_ok_def header_ok_def str_wf_server_string
      null_url_def XWP_SERVER_VER_def show_int_def NUL_notin_show_nat)

lemma sample_request_size: "uwsgi_size sample_conf sample_vhost sample_loc sample_request < 65536"
  by (simp add: uwsgi_size_def uwsgi_vars_def uwsgi_params_def sample_request_def sample_conf_def sample_loc_def
      sample_vhost_def fresh_request_def http_request_create_def array_create_def null_url_def XWP_SERVER_VER_def
      show_int_def show_nat.simps val_text_def passed_headers_def header_var_def uwsgi_skip_header_def
      strncasecmp_eq_def cchar_defs)


section \<open>Packets that are too large\<close>

lemma add_param_pos:
  "upstream_uwsgi_add_param h m p n v = Ret (m', p') \<Longrightarrow> p' = p + len n + opt_len v + 4"
  by (auto simp: upstream_uwsgi_add_param_def assert_then_Ret Let_def opt_len_def split: option.splits if_splits)

lemma add_params_pos:
  "uwsgi_add_params h ps m p = Ret (m', p') \<Longrightarrow> p' = p + sum_list (map (\<lambda>(n, v). length n + opt_len v + 4) ps)"
proof (induction ps arbitrary: m p)
  case (Cons q ps)
  then obtain m1 p1 where 1: "upstream_uwsgi_add_param h m p (server_string (fst q)) (snd q) = Ret (m1, p1)"
    "uwsgi_add_params h ps m1 p1 = Ret (m', p')" by (cases q) auto
  from Cons.IH [OF 1(2)] add_param_pos [OF 1(1)] show ?case by (simp add: split_def)
qed simp

lemma add_header_pos:
  assumes "header_ok h x" "uwsgi_add_header h x m p = Ret (m', p')"
  shows "p' = p + (if uwsgi_skip_header (text_of h (hname x)) then 0 else length (uwsgi_enc (header_var h x)))"
proof -
  have wf: "str_wf h (hname x)" "val_ok h (Some (hvalue x))" using assms(1) by (auto simp: header_ok_def)
  have "printf_str h (data (hvalue x)) = Ret (text_of h (hvalue x))" if "0 < len (hvalue x)"
    using that wf(2) str_wfD by (auto simp: val_ok_def)
  with assms(2) str_wfD [OF wf(1)] show ?thesis
    by (auto simp: uwsgi_add_header_def Let_def header_var_def val_text_def split: if_splits)
qed

lemma add_headers_pos:
  assumes "\<forall>x \<in> set xs. header_ok h x" "uwsgi_add_headers h xs m p = Ret (m', p')"
  shows "p' = p + length (concat (map (\<lambda>x. uwsgi_enc (header_var h x)) (passed_headers h xs)))"
  using assms
proof (induction xs arbitrary: m p)
  case (Cons x xs)
  then obtain m1 p1 where 1: "uwsgi_add_header h x m p = Ret (m1, p1)" "uwsgi_add_headers h xs m1 p1 = Ret (m', p')" by auto
  have "p' = p1 + length (concat (map (\<lambda>x. uwsgi_enc (header_var h x)) (passed_headers h xs)))"
    by (rule Cons.IH [OF _ 1(2)]) (use Cons.prems(1) in simp)
  with add_header_pos [OF _ 1(1)] Cons.prems(1) show ?case by (simp add: passed_headers_def)
qed (simp add: passed_headers_def)

text \<open>A request whose variables encode to 64 KiB or more (a large cookie, a long URL) never gets a packet: the
  size computed in 16 bits wraps around, and building the packet overflows the block that is too small
  or trips the assertion on the length. Either way the worker process dies.\<close>

lemma uwsgi_packet_too_large:
  assumes ready: "uwsgi_ready c vh lc r" and large: "65536 \<le> uwsgi_size c vh lc r"
  shows "\<exists>e. uwsgi_packet mc c vh lc r = Crash e"
proof (cases "uwsgi_packet mc c vh lc r")
  case (Ret pk)
  let ?n = "uwsgi_size c vh lc r" and ?xs = "elts (in_headers (headers_in r))"
  let ?d = "of_nat ?n :: 16 word"
  obtain m0 m1 p1 m2 where w: "uwsgi_add_params (mem r) (uwsgi_params c vh lc r) m0 4 = Ret (m1, p1)"
    "uwsgi_add_headers (mem r) ?xs m1 p1 = Ret (m2, unat ?d + 4)"
    using Ret by (auto simp: uwsgi_packet_def calc_packet_len [OF ready] Let_def assert_then_Ret)
  have p1: "p1 = 4 + length (concat (map (\<lambda>(n, v). uwsgi_enc (n, val_text (mem r) v)) (uwsgi_params c vh lc r)))"
    using add_params_pos [OF w(1)] fixed_sizes [of c vh lc r] ready
    by (simp add: uwsgi_ready_def uwsgi_params_def uwsgi_fixed_sizes_def opt_len_def)
  have "unat ?d + 4 = p1 + length (concat (map (\<lambda>x. uwsgi_enc (header_var (mem r) x)) (passed_headers (mem r) ?xs)))"
    using add_headers_pos [OF _ w(2)] ready by (simp add: uwsgi_ready_def)
  then have "unat ?d = ?n" by (simp add: p1 uwsgi_size_def concat_enc_vars)
  moreover have "unat ?d < 65536" using unsigned_less [of ?d, where 'a = nat] by simp
  ultimately show ?thesis using large by simp
qed simp

text \<open>The same request with a cookie of 64 KiB.\<close>

definition large_request :: http_request_t where
  "large_request = sample_request\<lparr>headers_in := (headers_in sample_request)\<lparr>in_headers := \<lparr>elts =
     [\<lparr>hname = server_string ''Cookie'', hvalue = server_string (replicate 65536 (CHR ''x''))\<rparr>], nalloc = 24\<rparr>\<rparr>\<rparr>"

end
