(* ===== verification/Response.thy ===== *)
theory Response
  imports Connection Uwsgi_Packet
begin

text \<open>
  The response a connection sends: the head is built in a block of the precomputed length and is exactly
  the status line and the header lines, provided the request's version has the eight characters the
  computation assumes. When it has not, as after a malformed request line, the worker dies.
\<close>

section \<open>The head\<close>

definition header_line_text :: "heap \<Rightarrow> http_header_t \<Rightarrow> string" where
  "header_line_text h x = text_of h (hname x) @ '': '' @ text_of h (hvalue x) @ CRLF"

definition head_text :: "http_request_t \<Rightarrow> string \<Rightarrow> string \<Rightarrow> string" where
  "head_text r ver line = ver @ '' '' @ line @ CRLF
     @ concat (map (header_line_text (mem r)) (elts (out_headers (headers_out r)))) @ CRLF"

definition out_headers_wf :: "http_request_t \<Rightarrow> bool" where
  "out_headers_wf r \<longleftrightarrow>
     (\<forall>x \<in> set (elts (out_headers (headers_out r))). str_wf (mem r) (hname x) \<and> str_wf (mem r) (hvalue x))"

lemma snprintf_at_fits:
  assumes "length t < n" "p + length t < length m" "n < 2 ^ 64"
  shows "\<exists>m'. snprintf_at m p n t = Ret m' \<and> length m' = length m \<and> take (p + length t) m' = take p m @ t"
  using assms by (simp add: snprintf_at_def write_at_def)

lemma header_line_text_len: "length (header_line_text h x) = length (text_of h (hname x)) + length (text_of h (hvalue x)) + 4"
  by (simp add: header_line_text_def CRLF_def)

text \<open>The lines are written one after the other; the last byte of the block stays free for the NUL.\<close>

lemma response_header_lines_take:
  assumes "\<forall>x \<in> set xs. str_wf h (hname x) \<and> str_wf h (hvalue x)"
    and "length m = tot" "tot < 2 ^ 64" "num + length (concat (map (header_line_text h) xs)) < tot"
  shows "\<exists>m'. response_header_lines h tot xs m num = Ret (m', num + length (concat (map (header_line_text h) xs)))
    \<and> length m' = tot
    \<and> take (num + length (concat (map (header_line_text h) xs))) m' = take num m @ concat (map (header_line_text h) xs)"
  using assms
proof (induction xs arbitrary: m num)
  case (Cons x xs)
  let ?t = "header_line_text h x" and ?c = "concat (map (header_line_text h) xs)"
  have wf: "str_wf h (hname x)" "str_wf h (hvalue x)" using Cons.prems(1) by auto
  have room: "num + length ?t + length ?c < tot" using Cons.prems(4) by simp
  have sz: "size_t_of_int (int tot - int num) = tot - num" using room Cons.prems(3) by (simp add: size_t_of_int_id)
  have fits: "length ?t < tot - num" "num + length ?t < length m" "tot - num < 2 ^ 64"
    using room Cons.prems(2,3) by linarith+
  obtain m1 where m1: "snprintf_at m num (tot - num) ?t = Ret m1" "length m1 = tot" "take (num + length ?t) m1 = take num m @ ?t"
    using snprintf_at_fits [OF fits] Cons.prems(2) by auto
  obtain m2 where m2: "response_header_lines h tot xs m1 (num + length ?t) = Ret (m2, num + length ?t + length ?c)"
    "length m2 = tot" "take (num + length ?t + length ?c) m2 = take (num + length ?t) m1 @ ?c"
    using Cons.IH [of m1 "num + length ?t"] Cons.prems(1,3) m1(2) room by auto
  have len: "num + length (concat (map (header_line_text h) (x # xs))) = num + length ?t + length ?c" by simp
  have A: "response_header_lines h tot (x # xs) m num = Ret (m2, num + length ?t + length ?c)"
    using str_wfD [OF wf(1)] str_wfD [OF wf(2)] sz m1(1) m2(1)
    by (simp add: Let_def header_line_text_def)
  have C: "take (num + length ?t + length ?c) m2 = take num m @ concat (map (header_line_text h) (x # xs))"
    unfolding m2(3) m1(3) by simp
  show ?case unfolding len by (intro exI [of _ m2] conjI A m2(2) C)
qed simp

lemma sum_header_lens:
  assumes "\<forall>x \<in> set xs. str_wf h (hname x) \<and> str_wf h (hvalue x)"
  shows "sum_list (map (\<lambda>x. len (hname x) + len (hvalue x) + 4) xs) = length (concat (map (header_line_text h) xs))"
  using assms
proof (induction xs)
  case (Cons x xs)
  then show ?case using str_wfD [of h "hname x"] str_wfD [of h "hvalue x"] by (simp add: header_line_text_len)
qed simp

lemma response_headers_len_eq:
  assumes "out_headers_wf r" "http_status_line (status r) = Ret line" "length ver = 8"
  shows "connection_response_headers_len r = Ret (length (head_text r ver line))"
  using assms sum_header_lens [of "elts (out_headers (headers_out r))" "mem r"]
  by (simp add: connection_response_headers_len_def head_text_def out_headers_wf_def CRLF_def)

lemma response_head_Ret:
  assumes wf: "out_headers_wf r" and line: "http_status_line (status r) = Ret line"
    and ver: "str_wf (mem r) (version_str r)" "length (text_of (mem r) (version_str r)) = 8"
    and small: "length (head_text r (text_of (mem r) (version_str r)) line) < 2 ^ 64"
  shows "response_head r = Ret (head_text r (text_of (mem r) (version_str r)) line)"
proof -
  let ?v = "text_of (mem r) (version_str r)" and ?xs = "elts (out_headers (headers_out r))"
  let ?T = "length (head_text r ?v line)" and ?t = "?v @ '' '' @ line @ CRLF"
  let ?c = "concat (map (header_line_text (mem r)) ?xs)"
  have T: "?T = length ?t + length ?c + 2" by (simp add: head_text_def CRLF_def)
  obtain m1 where m1: "snprintf_at (replicate ?T NUL) 0 ?T ?t = Ret m1" "length m1 = ?T" "take (length ?t) m1 = ?t"
    using snprintf_at_fits [of ?t ?T 0 "replicate ?T NUL"] T small by auto
  have room: "length ?t + length ?c < ?T" using T by simp
  obtain m2 where m2: "response_header_lines (mem r) ?T ?xs m1 (length ?t) = Ret (m2, length ?t + length ?c)"
    "length m2 = ?T" "take (length ?t + length ?c) m2 = take (length ?t) m1 @ ?c"
    using response_header_lines_take [OF wf [unfolded out_headers_wf_def] m1(2) small room] by blast
  have fits: "length ?t + length ?c + length CRLF \<le> length m2" using m2(2) T by (simp add: CRLF_def)
  obtain m3 where m3: "write_at m2 (length ?t + length ?c) CRLF = Ret m3"
    "take (length ?t + length ?c + length CRLF) m3 = take (length ?t + length ?c) m2 @ CRLF"
    using write_at_take [OF fits] by blast
  have fin: "take (length ?t + length ?c + 2) m3 = head_text r ?v line"
    using m3(2) m2(3) m1(3) by (simp add: head_text_def CRLF_def)
  have "response_head r = assert_then (length ?t + length ?c + 2 = ?T) (Ret (take (length ?t + length ?c + 2) m3))"
    unfolding response_head_def response_headers_len_eq [OF wf line ver(2)] line bnd_Ret
    using str_wfD [OF ver(1)] m1(1) m2(1) m3(1) by (simp add: Let_def)
  with fin T show ?thesis by simp
qed

text \<open>A version shorter than eight characters leaves the head shorter than its block.\<close>

lemma response_head_short:
  assumes wf: "out_headers_wf r" and line: "http_status_line (status r) = Ret line"
    and ver: "printf_str (mem r) (data (version_str r)) = Ret v" "length v < 8"
    and small: "length (head_text r (replicate 8 NUL) line) < 2 ^ 64"
  shows "response_head r = Crash Assert_Failed"
proof -
  let ?xs = "elts (out_headers (headers_out r))"
  let ?T = "length (head_text r (replicate 8 NUL) line)" and ?t = "v @ '' '' @ line @ CRLF"
  let ?c = "concat (map (header_line_text (mem r)) ?xs)"
  have T: "length ?t + length ?c + 2 < ?T" using ver(2) by (simp add: head_text_def CRLF_def)
  have fits: "length ?t < ?T" "0 + length ?t < length (replicate ?T NUL)" "?T < 2 ^ 64" using T small by simp_all
  obtain m1 where m1: "snprintf_at (replicate ?T NUL) 0 ?T ?t = Ret m1" "length m1 = ?T"
    using snprintf_at_fits [OF fits] by auto
  have room: "length ?t + length ?c < ?T" using T by simp
  obtain m2 where m2: "response_header_lines (mem r) ?T ?xs m1 (length ?t) = Ret (m2, length ?t + length ?c)" "length m2 = ?T"
    using response_header_lines_take [OF wf [unfolded out_headers_wf_def] m1(2) small room] by blast
  have fits2: "length ?t + length ?c + length CRLF \<le> length m2" using m2(2) T by (simp add: CRLF_def)
  obtain m3 where m3: "write_at m2 (length ?t + length ?c) CRLF = Ret m3" using write_at_take [OF fits2] by blast
  have L: "connection_response_headers_len r = Ret ?T" by (rule response_headers_len_eq [OF wf line]) simp
  have "response_head r = assert_then (length ?t + length ?c + 2 = ?T) (Ret (take (length ?t + length ?c + 2) m3))"
    unfolding response_head_def L line bnd_Ret
    using ver(1) m1(1) m2(1) m3(1) by (simp add: Let_def)
  with T show ?thesis by simp
qed

section \<open>The headers the server adds\<close>

lemma header_replace_elts:
  "header_replace h n v xs = Ret (ys, f) \<Longrightarrow> y \<in> set ys \<Longrightarrow> y \<in> set xs \<or> (\<exists>x \<in> set xs. y = x\<lparr>hvalue := v\<rparr>)"
proof (induction xs arbitrary: ys f)
  case (Cons x xs)
  then show ?case by (auto split: if_splits)
qed simp

lemma http_header_set_elts:
  assumes "http_header_set h t n v = Ret t'" "y \<in> set (elts t')"
  shows "y \<in> set (elts t) \<or> (\<exists>x \<in> set (elts t). y = x\<lparr>hvalue := v\<rparr>) \<or> y = \<lparr>hname = n, hvalue = v\<rparr>"
proof -
  from assms(1) obtain ys f where r: "header_replace h n v (elts t) = Ret (ys, f)"
    "(if f then Ret (t\<lparr>elts := ys\<rparr>) else array_push t \<lparr>hname = n, hvalue = v\<rparr>) = Ret t'"
    by (auto simp: http_header_set_def)
  with assms(2) header_replace_elts [OF r(1), of y] show ?thesis
    by (auto simp: array_push_def Let_def split: if_splits)
qed

definition table_wf :: "heap \<Rightarrow> headers \<Rightarrow> bool" where
  "table_wf h t \<longleftrightarrow> array_ok t \<and> (\<forall>x \<in> set (elts t). str_wf h (hname x) \<and> str_wf h (hvalue x))"

lemma http_header_set_wf:
  assumes "table_wf h t" "str_wf h n" "str_wf h v"
  shows "\<exists>t'. http_header_set h t n v = Ret t' \<and> table_wf h t'"
proof -
  have "names_ok h t" using assms(1) str_wfD by (fastforce simp: names_ok_def table_wf_def is_ret_iff)
  moreover have "is_ret (deref h (data n))" using str_wfD [OF assms(2)] by simp
  ultimately obtain t' where t': "http_header_set h t n v = Ret t'" "names_ok h t'"
    using http_header_set_safe by blast
  then have "table_wf h t'"
    using http_header_set_elts [OF t'(1)] assms by (fastforce simp: table_wf_def names_ok_def)
  with t'(1) show ?thesis by blast
qed

definition conn_value :: "http_request_t \<Rightarrow> str_t" where
  "conn_value r = (if keep_alive r then HTTP_HEADER_KEEPALIVE else HTTP_HEADER_CLOSE)"

definition clen_value :: "http_request_t \<Rightarrow> str_t" where
  "clen_value r = server_string (if 0 < content_len (body_out r) then show_int (content_len (body_out r)) else ''0'')"

lemma header_values_wf:
  "str_wf h HTTP_HEADER_CONNECTION" "str_wf h HTTP_HEADER_SERVER" "str_wf h HTTP_HEADER_CONTENT_LEN"
  "str_wf h HTTP_HEADER_XWP_VER" "str_wf h (conn_value r)" "str_wf h (clen_value r)"
  by (simp_all add: conn_value_def clen_value_def header_name_defs str_wf_server_string XWP_SERVER_VER_def
      show_int_def NUL_notin_show_nat)

lemma response_set_headers_wf:
  assumes "table_wf (mem r) (out_headers (headers_out r))"
  shows "\<exists>t. response_set_headers r = Ret t \<and> table_wf (mem r) t"
proof -
  note hw = header_values_wf(1-4) [of "mem r"] header_values_wf(5,6) [of "mem r" r]
  obtain t1 where t1: "http_header_set (mem r) (out_headers (headers_out r)) HTTP_HEADER_CONNECTION (conn_value r) = Ret t1"
    "table_wf (mem r) t1" using http_header_set_wf [OF assms hw(1,5)] by blast
  obtain t2 where t2: "http_header_set (mem r) t1 HTTP_HEADER_SERVER HTTP_HEADER_XWP_VER = Ret t2" "table_wf (mem r) t2"
    using http_header_set_wf [OF t1(2) hw(2,4)] by blast
  obtain t3 where t3: "http_header_set (mem r) t2 HTTP_HEADER_CONTENT_LEN (clen_value r) = Ret t3" "table_wf (mem r) t3"
    using http_header_set_wf [OF t2(2) hw(3,6)] by blast
  show ?thesis
    using t1(1) t2(1) t3 unfolding response_set_headers_def conn_value_def clen_value_def by auto
qed

text \<open>With names that do not get in each other's way the three headers are found in the response.\<close>

definition added_headers :: "http_request_t \<Rightarrow> (str_t \<times> str_t) list" where
  "added_headers r = [(HTTP_HEADER_CONNECTION, conn_value r), (HTTP_HEADER_SERVER, HTTP_HEADER_XWP_VER),
     (HTTP_HEADER_CONTENT_LEN, clen_value r)]"

lemma response_set_headers_put_all:
  "response_set_headers r = header_table.put_all (mem r) (out_headers (headers_out r)) (added_headers r)"
proof -
  have "bnd x Ret = x" for x :: "headers res" by (cases x) simp_all
  then show ?thesis by (simp add: response_set_headers_def added_headers_def conn_value_def clen_value_def)
qed

lemma response_set_headers_found:
  assumes ok: "headers_ok (mem r) (out_headers (headers_out r))"
    and pf: "prefix_free (set (header_texts (mem r) (elts (out_headers (headers_out r))))
      \<union> {''Connection'', ''Server'', ''Content-Length''})"
    and t: "response_set_headers r = Ret t"
  shows "http_header_str (mem r) t HTTP_HEADER_CONNECTION = Ret (Some (conn_value r))
    \<and> http_header_str (mem r) t HTTP_HEADER_CONTENT_LEN = Ret (Some (clen_value r))"
proof -
  have names: "(\<lambda>(k, v). text_of (mem r) k) ` set (added_headers r) = {''Connection'', ''Server'', ''Content-Length''}"
    by (auto simp: added_headers_def header_name_defs)
  have keys: "\<forall>(k, v) \<in> set (added_headers r). str_ok (mem r) k"
    by (simp add: added_headers_def header_name_defs)
  obtain t' where t': "header_table.put_all (mem r) (out_headers (headers_out r)) (added_headers r) = Ret t'"
    "set (header_texts (mem r) (elts t'))
      = set (header_texts (mem r) (elts (out_headers (headers_out r)))) \<union> {''Connection'', ''Server'', ''Content-Length''}"
    "\<And>k. str_ok (mem r) k \<Longrightarrow> prefix_free (insert (text_of (mem r) k) (set (header_texts (mem r) (elts t')))) \<Longrightarrow>
       http_header_str (mem r) t' k = (case map_of (rev (map (\<lambda>(k, v). (text_of (mem r) k, v)) (added_headers r))) (text_of (mem r) k) of
          Some v \<Rightarrow> Ret (Some v) | None \<Rightarrow> http_header_str (mem r) (out_headers (headers_out r)) k)"
    using header_table.put_all_law [OF ok keys pf [folded names]] unfolding names by blast
  have "t' = t" using t t'(1) response_set_headers_put_all by simp
  moreover have "insert ''Connection'' (set (header_texts (mem r) (elts t'))) = set (header_texts (mem r) (elts t'))"
    "insert ''Content-Length'' (set (header_texts (mem r) (elts t'))) = set (header_texts (mem r) (elts t'))"
    using t'(2) by auto
  ultimately show ?thesis
    using t'(3) [of HTTP_HEADER_CONNECTION] t'(3) [of HTTP_HEADER_CONTENT_LEN] pf t'(2)
    by (simp add: header_name_defs added_headers_def)
qed

section \<open>The whole response\<close>

definition with_headers :: "headers \<Rightarrow> http_request_t \<Rightarrow> http_request_t" where
  "with_headers t r = r\<lparr>headers_out := (headers_out r)\<lparr>out_headers := t\<rparr>\<rparr>"

text \<open>The bytes of the body, and when they can be sent: a file or a buffer, not both, and a buffer is not empty.\<close>

definition response_body :: "env \<Rightarrow> http_request_t \<Rightarrow> string" where
  "response_body e r = (let b = body_out r in
     if 0 \<le> content_fd b then take (nat (content_len b)) (env_file_data e (content_fd b))
     else case content b of None \<Rightarrow> [] | Some x \<Rightarrow> take (nat (content_len b)) (drop (buf_pos x) (mem r ! blk x)))"

definition body_ready :: "http_request_t \<Rightarrow> bool" where
  "body_ready r \<longleftrightarrow> (let b = body_out r in case content b of
       None \<Rightarrow> True
     | Some x \<Rightarrow> content_fd b < 0 \<and> 0 < content_len b \<and> buf_pos x + nat (content_len b) \<le> length (mem r ! blk x))"

lemma nwrite_all: "b \<noteq> [] \<Longrightarrow> sends s = [] \<Longrightarrow> nwrite s b = Ret (True, s\<lparr>outbox := outbox s @ b\<rparr>)"
  by (cases b) (simp_all add: nwrite_def)

lemma response_send_body_Ret:
  assumes "body_ready r" "sends s = []"
  shows "\<exists>r' s'. response_send_body e r s = Ret (True, r', s') \<and> s' = s\<lparr>outbox := outbox s @ response_body e r\<rparr>
    \<and> keep_alive r' = keep_alive r \<and> upstream r' = upstream r"
proof (cases "content (body_out r)")
  case None
  with assms show ?thesis
    by (auto simp: response_send_body_def response_body_def sendfile_def Let_def)
next
  case (Some x)
  let ?n = "nat (content_len (body_out r))"
  have b: "content_fd (body_out r) < 0" "0 < ?n" "buf_pos x + ?n \<le> length (mem r ! blk x)"
    using assms(1) Some by (auto simp: body_ready_def Let_def)
  let ?d = "take ?n (drop (buf_pos x) (mem r ! blk x))"
  have "?d \<noteq> []" using b by auto
  with nwrite_all [OF this assms(2)] Some b show ?thesis
    by (simp add: response_send_body_def response_body_def Let_def bytes_at_def)
qed

lemma with_headers_body: "response_body e (with_headers t r) = response_body e r" "body_ready (with_headers t r) = body_ready r"
  by (simp_all add: with_headers_def response_body_def body_ready_def Let_def split: option.splits)

lemma send_response_bytes:
  assumes t: "response_set_headers r = Ret t" "out_headers_wf (with_headers t r)"
    and line: "http_status_line (status r) = Ret line"
    and ver: "str_wf (mem r) (version_str r)" "text_of (mem r) (version_str r) = v" "length v = 8"
    and body: "body_ready r" "sends s = []" and small: "length (head_text (with_headers t r) v line) < 2 ^ 64"
  shows "\<exists>r'. connection_send_response e r s
      = Ret (True, r', s\<lparr>outbox := outbox s @ head_text (with_headers t r) v line @ response_body e r\<rparr>)
    \<and> keep_alive r' = keep_alive r \<and> upstream r' = upstream r"
proof -
  let ?r = "with_headers t r"
  have f: "mem ?r = mem r" "version_str ?r = version_str r" "status ?r = status r" "keep_alive ?r = keep_alive r" "upstream ?r = upstream r"
    by (simp_all add: with_headers_def)
  have head: "response_head ?r = Ret (head_text ?r v line)"
    using response_head_Ret [OF t(2), of line] line ver small unfolding f by auto
  have ne: "head_text ?r v line \<noteq> []" by (simp add: head_text_def CRLF_def)
  let ?s = "s\<lparr>outbox := outbox s @ head_text ?r v line\<rparr>"
  obtain r' s' where "response_send_body e ?r ?s = Ret (True, r', s')" "s' = ?s\<lparr>outbox := outbox ?s @ response_body e ?r\<rparr>"
    "keep_alive r' = keep_alive ?r" "upstream r' = upstream ?r"
    using response_send_body_Ret [of ?r ?s e] body by (auto simp: with_headers_body)
  then show ?thesis
    using t(1) head nwrite_all [OF ne body(2)]
    by (simp add: connection_send_response_def Let_def with_headers_def [symmetric] with_headers_body f)
qed


text \<open>An answer without a body, for a connection that is kept.\<close>

definition answered_request :: "str_t \<Rightarrow> int \<Rightarrow> http_request_t" where
  "answered_request ver st = fresh_request\<lparr>version_str := ver, status := st, keep_alive := True\<rparr>"

definition sample_env :: env where
  "sample_env = \<lparr>env_files = sample_files, env_file_data = (\<lambda>fd. ''body { }'' @ CRLF), env_regexec = (\<lambda>pat t. pat = ''.*''),
     env_peer_ip = ''127.0.0.1'', env_peer_port = 0, env_time = 0,
     env_backend = (\<lambda>r. (- 1, False, \<lparr>inbox = [], sends = [], outbox = [], sock_errno = E_OK\<rparr>))\<rparr>"

lemma answered_request_table:
  "out_headers (headers_out (answered_request ver st)) = \<lparr>elts = [], nalloc = 24\<rparr>" "mem (answered_request ver st) = []"
  "status (answered_request ver st) = st" "version_str (answered_request ver st) = ver"
  "content (body_out (answered_request ver st)) = None" "content_len (body_out (answered_request ver st)) = 0"
  "keep_alive (answered_request ver st)"
  by (simp_all add: answered_request_def fresh_request_def http_request_create_def array_create_def)

lemma answered_request_headers:
  assumes "response_set_headers (answered_request ver st) = Ret t"
  shows "elts t = [\<lparr>hname = HTTP_HEADER_CONNECTION, hvalue = HTTP_HEADER_KEEPALIVE\<rparr>,
    \<lparr>hname = HTTP_HEADER_SERVER, hvalue = HTTP_HEADER_XWP_VER\<rparr>, \<lparr>hname = HTTP_HEADER_CONTENT_LEN, hvalue = server_string ''0''\<rparr>]"
  using assms by (auto simp: response_set_headers_def answered_request_table http_header_set_def header_name_defs
      array_push_def array_count_def)


text \<open>A request without a version (one with a malformed request line): the length is computed for a version of
  eight characters, but \<open>(null)\<close> is printed, and the assertion on the length fails.\<close>

lemma no_version_aborts:
  assumes tab: "table_wf (mem r) (out_headers (headers_out r))"
    and line: "http_status_line (status r) = Ret line" and ver: "version_str r = null_str"
    and small: "\<And>t. response_set_headers r = Ret t \<Longrightarrow> length (head_text (with_headers t r) (replicate 8 NUL) line) < 2 ^ 64"
  shows "connection_send_response e r s = Crash Assert_Failed"
proof -
  obtain t where t: "response_set_headers r = Ret t" "table_wf (mem r) t"
    using response_set_headers_wf [OF tab(1)] by blast
  let ?r = "with_headers t r"
  have wf: "out_headers_wf ?r" using t(2) by (simp add: out_headers_wf_def table_wf_def with_headers_def)
  have "response_head ?r = Crash Assert_Failed"
    by (rule response_head_short [OF wf, of line "''(null)''"])
      (use line ver small [OF t(1)] in \<open>simp_all add: with_headers_def printf_str_def\<close>)
  with t(1) show ?thesis by (simp add: connection_send_response_def Let_def with_headers_def [symmetric])
qed

end
