(* ===== verification/Receive.thy ===== *)
theory Receive
  imports Http_Process "HOL-Library.Sublist"
begin

text \<open>
  Receiving a message in pieces. The loop of the three \<open>http_process_*_line\<close> functions is verified once,
  for any parser that asks for more on an incomplete message and finishes on a complete one (the locale
  \<open>line_parser\<close>); the request line, the header block and the status line are three such parsers. The
  results say that the outcome does not depend on how the network cuts the bytes into pieces.
\<close>

section \<open>The stream of a socket\<close>

fun rcv_bytes :: "rcv \<Rightarrow> string" where
  "rcv_bytes (Data d) = d"
| "rcv_bytes (Recv_Error e) = []"

definition arriving :: "rcv list \<Rightarrow> string" where
  "arriving ib = concat (map rcv_bytes ib)"

text \<open>Data comes in non-empty pieces, and the only error is an interrupted call.\<close>

definition inbox_ok :: "rcv list \<Rightarrow> bool" where
  "inbox_ok ib \<longleftrightarrow> (\<forall>x \<in> set ib. case x of Data d \<Rightarrow> d \<noteq> [] | Recv_Error e \<Rightarrow> e = EINTR)"

lemma arriving_simps [simp]: "arriving [] = []" "arriving (x # ib) = rcv_bytes x @ arriving ib"
  by (simp_all add: arriving_def)

lemma inbox_ok_Cons [simp]:
  "inbox_ok []" "inbox_ok (Data d # ib) \<longleftrightarrow> d \<noteq> [] \<and> inbox_ok ib"
  "inbox_ok (Recv_Error e # ib) \<longleftrightarrow> e = EINTR \<and> inbox_ok ib"
  by (auto simp: inbox_ok_def)

text \<open>What a call to \<open>recv\<close> can do, whatever the peer and the kernel do.\<close>

lemma recv_retry_cases:
  "recv_retry n ib er = Crash Diverges \<or>
   (\<exists>m d ib' er'. recv_retry n ib er = Ret (m, d, ib', er') \<and> arriving ib = d @ arriving ib' \<and> length d \<le> n
      \<and> (m \<le> 0 \<and> d = [] \<or> m = int (length d) \<and> d \<noteq> []))"
proof (induction n ib er rule: recv_retry.induct)
  case (3 n d r er)
  let ?k = "min n (length d)"
  consider "n = 0" | "n \<noteq> 0" "d = []" | "n \<noteq> 0" "d \<noteq> []" by blast
  then show ?case
  proof cases
    case 3
    then have "recv_retry n (Data d # r) er
        = Ret (int (length (take ?k d)), take ?k d, (if ?k < length d then Data (drop ?k d) # r else r), er)"
      by (auto simp: Let_def)
    moreover have "take ?k d \<noteq> []" "length (take ?k d) \<le> n" using 3 by auto
    moreover have "arriving (Data d # r) = take ?k d @ arriving (if ?k < length d then Data (drop ?k d) # r else r)"
      by (auto simp: min_def)
    ultimately show ?thesis by blast
  qed (use 3 in auto)
qed auto

lemma recv_retry_data:
  assumes "inbox_ok ib" "arriving ib \<noteq> []" "0 < n"
  shows "\<exists>m d ib' er'. recv_retry n ib er = Ret (m, d, ib', er') \<and> 0 < m \<and> inbox_ok ib'"
  using assms
proof (induction n ib er rule: recv_retry.induct)
  case (3 n d r er)
  then show ?case by (auto simp: Let_def min_def)
qed auto

section \<open>A buffer in use\<close>

text \<open>Buffer \<open>i\<close> of a request with the bytes \<open>u\<close> behind its position, the unread bytes \<open>d\<close>, and room for
  \<open>k\<close> more in what follows (\<open>z\<close>); in a header buffer that is the zero fill, the sentinel included.\<close>

definition buf_valid :: "http_request_t \<Rightarrow> nat \<Rightarrow> bool" where
  "buf_valid r i \<longleftrightarrow> i < length (bufs r) \<and> blk (bufs r ! i) < length (mem r)"

definition filled :: "nat \<Rightarrow> string \<Rightarrow> string \<Rightarrow> string \<Rightarrow> nat \<Rightarrow> http_request_t \<Rightarrow> http_request_t" where
  "filled i u d z k r =
     r\<lparr>mem := (mem r)[blk (bufs r ! i) := u @ d @ z],
       bufs := (bufs r)[i := \<lparr>blk = blk (bufs r ! i), buf_start = buf_start (bufs r ! i),
          buf_end = length u + length d + k, buf_pos = length u, buf_last = length u + length d\<rparr>]\<rparr>"

definition loaded :: "nat \<Rightarrow> string \<Rightarrow> string \<Rightarrow> nat \<Rightarrow> http_request_t \<Rightarrow> http_request_t" where
  loaded_filled: "loaded i u d k r = filled i u d (replicate (Suc k) NUL) k r"

lemmas loaded_def = loaded_filled [unfolded filled_def]

lemma filled_buf [simp]:
  assumes "buf_valid r i"
  shows "buf_mem (filled i u d z k r) i = u @ d @ z"
    "bufs (filled i u d z k r) ! i = \<lparr>blk = blk (bufs r ! i), buf_start = buf_start (bufs r ! i),
       buf_end = length u + length d + k, buf_pos = length u, buf_last = length u + length d\<rparr>"
    "buf_valid (filled i u d z k r) i"
  using assms by (simp_all add: filled_def buf_valid_def buf_mem_def)

lemma loaded_buf [simp]:
  assumes "buf_valid r i"
  shows "buf_mem (loaded i u d k r) i = u @ d @ replicate (Suc k) NUL"
    "bufs (loaded i u d k r) ! i = \<lparr>blk = blk (bufs r ! i), buf_start = buf_start (bufs r ! i),
       buf_end = length u + length d + k, buf_pos = length u, buf_last = length u + length d\<rparr>"
    "buf_valid (loaded i u d k r) i"
  using assms by (simp_all add: loaded_def buf_valid_def buf_mem_def)

lemma loaded_loaded [simp]: "buf_valid r i \<Longrightarrow> loaded i u d k (loaded i u' d' k' r) = loaded i u d k r"
  by (simp add: loaded_def buf_valid_def)

lemma loaded_fields [simp]:
  "state (loaded i u d k r) = state r" "header_buf (loaded i u d k r) = header_buf r"
  "headers_in (loaded i u d k r) = headers_in r" "headers_out (loaded i u d k r) = headers_out r"
  "version (loaded i u d k r) = version r" "req_method (loaded i u d k r) = req_method r"
  "status (loaded i u d k r) = status r" "url (loaded i u d k r) = url r"
  "length (bufs (loaded i u d k r)) = length (bufs r)" "length (mem (loaded i u d k r)) = length (mem r)"
  by (simp_all add: loaded_def)

text \<open>The effect of a \<open>recv\<close> on such a buffer.\<close>

lemma recv_into_filled:
  assumes v: "buf_valid r i" and k: "k \<le> length z" "k < 2 ^ 64"
  shows "recv_into i (filled i u d z k r) s = Crash Diverges \<and> \<not> (inbox_ok (inbox s) \<and> arriving (inbox s) \<noteq> [] \<and> 0 < k) \<or>
    (\<exists>m e r1 s'. recv_into i (filled i u d z k r) s = Ret (m, r1, s') \<and> length e \<le> k
      \<and> (m \<le> 0 \<and> e = [] \<and> r1 = filled i u d z k r \<or> m = int (length e) \<and> e \<noteq> []
         \<and> set_buf i (\<lambda>x. x\<lparr>buf_last := buf_last x + nat m\<rparr>) r1 = filled i u (d @ e) (drop (length e) z) (k - length e) r)
      \<and> arriving (inbox s) = e @ arriving (inbox s') \<and> outbox s' = outbox s \<and> sends s' = sends s
      \<and> (inbox_ok (inbox s) \<and> arriving (inbox s) \<noteq> [] \<and> 0 < k \<longrightarrow> 0 < m \<and> inbox_ok (inbox s')))"
proof -
  let ?r = "filled i u d z k r"
  have n: "size_t_of_int (int (buf_end (bufs ?r ! i)) - int (buf_last (bufs ?r ! i))) = k"
    using v k by (simp add: size_t_of_int_id)
  consider (div) "recv_retry k (inbox s) (sock_errno s) = Crash Diverges"
    | (ret) m e ib' er' where "recv_retry k (inbox s) (sock_errno s) = Ret (m, e, ib', er')"
        "arriving (inbox s) = e @ arriving ib'" "length e \<le> k" "m \<le> 0 \<and> e = [] \<or> m = int (length e) \<and> e \<noteq> []"
    using recv_retry_cases by metis
  then show ?thesis
  proof cases
    case div
    then have "\<not> (inbox_ok (inbox s) \<and> arriving (inbox s) \<noteq> [] \<and> 0 < k)"
      using recv_retry_data [of "inbox s" k "sock_errno s"] by auto
    with div show ?thesis using n by (simp add: recv_into_def Let_def)
  next
    case ret
    let ?m = "u @ d @ e @ drop (length e) z"
    have "write_at (u @ d @ z) (length u + length d) e = Ret ?m"
      using write_at_append [of e z "u @ d"] ret(3) k(1) by simp
    then have eq: "recv_into i ?r s = Ret (m, set_buf_mem i ?m ?r, s\<lparr>inbox := ib', sock_errno := er'\<rparr>)"
      using n ret(1) v by (simp add: recv_into_def Let_def)
    have "set_buf_mem i ?m ?r = ?r" if "e = []"
      using that v by (simp add: filled_def set_buf_mem_def buf_valid_def)
    moreover have "set_buf i (\<lambda>x. x\<lparr>buf_last := buf_last x + nat m\<rparr>) (set_buf_mem i ?m ?r)
        = filled i u (d @ e) (drop (length e) z) (k - length e) r" if "m = int (length e)"
      using that v ret(3) by (simp add: filled_def set_buf_def set_buf_mem_def buf_valid_def add.assoc)
    moreover have "0 < m \<and> inbox_ok ib'" if "inbox_ok (inbox s)" "arriving (inbox s) \<noteq> []" "0 < k"
      using recv_retry_data [OF that, of "sock_errno s"] ret(1) by auto
    ultimately show ?thesis
      using eq ret(2,3,4)
      by (intro disjI2 exI [of _ m] exI [of _ e] exI [of _ "set_buf_mem i ?m ?r"]
          exI [of _ "s\<lparr>inbox := ib', sock_errno := er'\<rparr>"]) auto
  qed
qed

lemma recv_into_loaded:
  assumes v: "buf_valid r i" and ib: "inbox_ok (inbox s)" "arriving (inbox s) \<noteq> []"
    and k: "0 < k" "k < 2 ^ 64"
  shows "\<exists>e r1 s'. recv_into i (loaded i u d k r) s = Ret (int (length e), r1, s') \<and> e \<noteq> [] \<and> length e \<le> k
    \<and> set_buf i (\<lambda>x. x\<lparr>buf_last := buf_last x + nat (int (length e))\<rparr>) r1 = loaded i u (d @ e) (k - length e) r
    \<and> inbox_ok (inbox s') \<and> arriving (inbox s) = e @ arriving (inbox s')
    \<and> outbox s' = outbox s \<and> sends s' = sends s"
proof -
  let ?z = "replicate (Suc k) NUL"
  obtain m e r1 s' where m: "recv_into i (filled i u d ?z k r) s = Ret (m, r1, s')" "length e \<le> k"
    "m \<le> 0 \<and> e = [] \<and> r1 = filled i u d ?z k r \<or> m = int (length e) \<and> e \<noteq> []
     \<and> set_buf i (\<lambda>x. x\<lparr>buf_last := buf_last x + nat m\<rparr>) r1 = filled i u (d @ e) (drop (length e) ?z) (k - length e) r"
    "arriving (inbox s) = e @ arriving (inbox s')" "outbox s' = outbox s" "sends s' = sends s"
    "0 < m" "inbox_ok (inbox s')"
    using recv_into_filled [OF v, of k ?z u d s] ib k by auto
  moreover have "drop (length e) ?z = replicate (Suc (k - length e)) NUL" using m(2) by (simp only: drop_replicate Suc_diff_le)
  ultimately show ?thesis unfolding loaded_filled by auto
qed

section \<open>Any parser of complete messages\<close>

text \<open>
  \<open>Inv r d k\<close>: the request when \<open>d\<close> is what has arrived of the message and what follows it, and \<open>k\<close> bytes
  of room are left; \<open>Post r w k\<close>: the request when the message is parsed and \<open>w\<close> is unread.
\<close>

locale line_parser =
  fixes parse :: "http_request_t \<Rightarrow> nat \<Rightarrow> (http_parse \<times> http_request_t) res"
    and i :: nat and msg :: string
    and Inv :: "http_request_t \<Rightarrow> string \<Rightarrow> nat \<Rightarrow> bool"
    and Post :: "http_request_t \<Rightarrow> string \<Rightarrow> nat \<Rightarrow> bool"
  assumes more: "Inv r d k \<Longrightarrow> strict_prefix d msg \<Longrightarrow>
        \<exists>u d' r'. parse r i = Ret (HTTP_PARSE_AGAIN, loaded i u d' k r') \<and> buf_valid r' i
          \<and> (\<forall>e j. e \<noteq> [] \<longrightarrow> Inv (loaded i u (d' @ e) j r') (d @ e) j)"
    and complete: "Inv r (msg @ w) k \<Longrightarrow> \<exists>r'. parse r i = Ret (HTTP_PARSE_DONE, r') \<and> Post r' w k"
begin

lemma line_loop_complete:
  assumes "Inv r d k" "d @ arriving (inbox s) = msg @ w" "length msg \<le> length d + k" "k < 2 ^ 64"
    and "inbox_ok (inbox s)"
  shows "\<exists>r' s' w' k'. line_loop parse c i r s = Ret (True, r', s') \<and> Post r' w' k'
    \<and> w = w' @ arriving (inbox s') \<and> length msg + length w' + k' = length d + k
    \<and> inbox_ok (inbox s') \<and> outbox s' = outbox s \<and> sends s' = sends s"
  using assms
proof (induction "inbox_size s" arbitrary: r d k s rule: less_induct)
  case less
  show ?case
  proof (cases "length msg \<le> length d")
    case True
    then obtain w' where w': "d = msg @ w'"
      using less.prems(2) by (metis append_eq_append_conv_if append_eq_conv_conj)
    obtain r' where "parse r i = Ret (HTTP_PARSE_DONE, r')" "Post r' w' k"
      using complete less.prems(1) w' by blast
    then have "line_loop parse c i r s = Ret (True, r', s)" by (simp add: line_loop.simps [of parse c i r])
    moreover have "w = w' @ arriving (inbox s)" using less.prems(2) w' by simp
    moreover have "length msg + length w' + k = length d + k" using w' by simp
    ultimately show ?thesis using \<open>Post r' w' k\<close> less.prems(5) by blast
  next
    case False
    have "take (length d) (msg @ w) = d" using less.prems(2) by (metis append_eq_conv_conj)
    then have "strict_prefix d msg"
      using False by (metis append_eq_conv_conj length_take less_or_eq_imp_le min.absorb2 nat_le_linear
          nat_less_le prefix_order.less_le take_append take_is_prefix diff_is_0_eq take_0 append_Nil2)
    then obtain u d' r' where p: "parse r i = Ret (HTTP_PARSE_AGAIN, loaded i u d' k r')" "buf_valid r' i"
      "\<And>e j. e \<noteq> [] \<Longrightarrow> Inv (loaded i u (d' @ e) j r') (d @ e) j"
      using more less.prems(1) by blast
    have k: "0 < k" using False less.prems(3) by simp
    have ar: "arriving (inbox s) \<noteq> []"
    proof
      assume "arriving (inbox s) = []"
      with less.prems(2) have "length d = length msg + length w" by (metis append_Nil2 length_append)
      with False show False by simp
    qed
    obtain e r1 s' where e: "recv_into i (loaded i u d' k r') s = Ret (int (length e), r1, s')" "e \<noteq> []"
      "length e \<le> k" "set_buf i (\<lambda>x. x\<lparr>buf_last := buf_last x + nat (int (length e))\<rparr>) r1
         = loaded i u (d' @ e) (k - length e) r'"
      "inbox_ok (inbox s')" "arriving (inbox s) = e @ arriving (inbox s')" "outbox s' = outbox s" "sends s' = sends s"
      using recv_into_loaded [OF p(2) less.prems(5) ar k less.prems(4)] by blast
    have pos: "0 < int (length e)" using e(2) by simp
    have step: "line_loop parse c i r s = line_loop parse c i (loaded i u (d' @ e) (k - length e) r') s'"
      using p(1,2) k e(1,4) pos e(2) by (simp add: line_loop.simps [of parse c i r])
    have st: "(d @ e) @ arriving (inbox s') = msg @ w" using less.prems(2) e(6) by simp
    have rm: "length msg \<le> length (d @ e) + (k - length e)" "k - length e < 2 ^ 64"
      using less.prems(3,4) e(3) by simp_all
    note less.hyps [OF recv_into_smaller [OF e(1) pos] p(3) [OF e(2)] st rm e(5)]
    with step e(3,7,8) show ?thesis by auto
  qed
qed

end

lemma strict_prefix_same [simp]: "strict_prefix (x @ y) (x @ z) \<longleftrightarrow> strict_prefix y z"
  by (simp add: strict_prefix_def)

lemma strict_prefix_no_eol:
  assumes "strict_prefix d (t @ [LF])" "\<forall>c \<in> set t. c \<noteq> LF \<and> c \<noteq> NUL"
  shows "\<forall>c \<in> set d. c \<noteq> LF \<and> c \<noteq> NUL"
proof -
  have "prefix d t" using assms(1) by (metis prefix_snoc strict_prefix_def)
  then show ?thesis using assms(2) by (blast dest: set_mono_prefix)
qed

lemma find_next_eol_none:
  assumes "\<forall>c \<in> set d. c \<noteq> LF \<and> c \<noteq> NUL"
  shows "find_next_eol (u @ d @ NUL # v) (length u) = Ret None"
proof -
  have "scan_while (\<lambda>c. c \<noteq> LF \<and> c \<noteq> NUL) (u @ d @ NUL # v) (length u) = Ret (length u + length d)"
    by (rule scan_while_append) (use assms in auto)
  then show ?thesis by (simp add: find_next_eol_def load_def nth_append)
qed

section \<open>The request line in pieces\<close>

definition request_wf ::
  "string \<Rightarrow> string \<Rightarrow> string option \<Rightarrow> string \<Rightarrow> http_method_e \<Rightarrow> http_version_e \<Rightarrow> bool" where
  "request_wf mt p q vs d v \<longleftrightarrow> token_ok mt \<and> path_ok p \<and> (\<forall>s. q = Some s \<longrightarrow> query_ok s) \<and> token_ok vs
     \<and> parse_method mt = Some d \<and> parse_version vs = Some v"

text \<open>The fields set by the parser, with their offsets in the block.\<close>

definition request_line_set ::
  "nat \<Rightarrow> nat \<Rightarrow> string \<Rightarrow> string \<Rightarrow> string option \<Rightarrow> string \<Rightarrow> http_method_e \<Rightarrow> http_version_e
     \<Rightarrow> http_request_t \<Rightarrow> http_request_t" where
  "request_line_set b n mt p q vs d v r =
     r\<lparr>req_method := d, method_str := \<lparr>data = At b n, len = length mt\<rparr>, version := v,
       version_str := \<lparr>data = At b (n + length mt + length (target p q) + 2), len = length vs\<rparr>,
       url := url_result b (n + length mt + 1) p q (url r)\<rparr>"

lemma request_line_done_loaded:
  assumes "buf_valid r i"
  shows "request_line_done (loaded i u (request_line mt (target p q) vs @ w) k r) i u mt p q vs
      (w @ replicate (Suc k) NUL) d v
    = loaded i (u @ request_line_cut mt (target_cut p q) vs) w k
        (request_line_set (blk (bufs r ! i)) (length u) mt p q vs d v r)"
  using assms
  by (cases r) (simp add: request_line_done_def request_line_set_def loaded_def set_buf_def buf_valid_def Let_def
      request_line_def request_line_cut_def CRLF_def length_target_cut add_ac eval_nat_numeral)

lemma request_line_again:
  assumes "buf_valid r i" "request_wf mt p q vs d v" "strict_prefix x (request_line mt (target p q) vs)"
  shows "http_parse_request_line (loaded i u x k r) i = Ret (HTTP_PARSE_AGAIN, loaded i u x k r)"
proof -
  note wf = assms(2) [unfolded request_wf_def]
  have tg: "token_ok (target p q)" using token_ok_target wf by blast
  let ?t = "mt @ CHR '' '' # target p q @ CHR '' '' # vs @ [CR]"
  have line: "request_line mt (target p q) vs = ?t @ [LF]" by (simp add: request_line_def CRLF_def)
  have "\<forall>c \<in> set ?t. c \<noteq> LF \<and> c \<noteq> NUL"
    using token_ok_no_eol [of mt] token_ok_no_eol [of vs] token_ok_no_eol [OF tg] wf by (simp add: ball_Un)
  with assms(3) have x: "\<forall>c \<in> set x. c \<noteq> LF \<and> c \<noteq> NUL" unfolding line by (rule strict_prefix_no_eol)
  have eol: "find_next_eol (u @ x @ replicate (Suc k) NUL) (length u) = Ret None"
    using find_next_eol_none [OF x] by simp
  obtain a mt' where "mt = a # mt'" "\<not> isspace a" using wf by (cases mt) (auto simp: token_ok_def)
  then have first: "\<not> isspace ((x @ replicate (Suc k) NUL) ! 0)"
    using assms(3) by (cases x) (auto simp: request_line_def)
  have skip: "scan_upto (\<lambda>c. isspace c \<and> c \<noteq> NUL) (u @ x @ replicate (Suc k) NUL) (length u) e = Ret (length u)" for e
    using first by (subst scan_upto.simps) (simp add: nth_append_right del: replicate.simps)
  have "set_buf i (\<lambda>y. y\<lparr>buf_pos := length u\<rparr>) (loaded i u x k r) = loaded i u x k r"
    using assms(1) by (simp add: set_buf_def loaded_def buf_valid_def)
  with eol skip assms(1) show ?thesis
    by (simp add: http_parse_request_line_def Let_def del: replicate.simps)
qed

interpretation request_line_parser: line_parser http_parse_request_line i "request_line mt (target p q) vs"
  "\<lambda>r x k. buf_valid r0 i \<and> request_wf mt p q vs d v \<and> r = loaded i u x k r0"
  "\<lambda>r w k. r = loaded i (u @ request_line_cut mt (target_cut p q) vs) w k
     (request_line_set (blk (bufs r0 ! i)) (length u) mt p q vs d v r0)"
  for i mt p q vs d v u r0
proof unfold_locales
  fix r x k
  assume "buf_valid r0 i \<and> request_wf mt p q vs d v \<and> r = loaded i u x k r0"
    "strict_prefix x (request_line mt (target p q) vs)"
  then show "\<exists>u' x' r'. http_parse_request_line r i = Ret (HTTP_PARSE_AGAIN, loaded i u' x' k r') \<and> buf_valid r' i
      \<and> (\<forall>e j. e \<noteq> [] \<longrightarrow> buf_valid r0 i \<and> request_wf mt p q vs d v \<and> loaded i u' (x' @ e) j r' = loaded i u (x @ e) j r0)"
    using request_line_again by blast
next
  fix r w k
  assume a: "buf_valid r0 i \<and> request_wf mt p q vs d v \<and> r = loaded i u (request_line mt (target p q) vs @ w) k r0"
  let ?L = "loaded i u (request_line mt (target p q) vs @ w) k r0"
  have v: "buf_valid ?L i" using a by simp
  have "http_parse_request_line ?L i
      = Ret (HTTP_PARSE_DONE, request_line_done ?L i u mt p q vs (w @ replicate (Suc k) NUL) d v)"
    by (rule http_parse_request_line_done)
      (use v a in \<open>simp_all add: buf_valid_def [of ?L] request_wf_def del: replicate.simps\<close>)
  with a request_line_done_loaded [of r0 i] show
    "\<exists>r'. http_parse_request_line r i = Ret (HTTP_PARSE_DONE, r')
       \<and> r' = loaded i (u @ request_line_cut mt (target_cut p q) vs) w k
           (request_line_set (blk (bufs r0 ! i)) (length u) mt p q vs d v r0)"
    by simp
qed

section \<open>The status line in pieces\<close>

definition status_line :: "string \<Rightarrow> string \<Rightarrow> string \<Rightarrow> string" where
  "status_line vs st ms = vs @ CHR '' '' # st @ CHR '' '' # ms @ CRLF"

definition status_line_cut :: "string \<Rightarrow> string \<Rightarrow> string \<Rightarrow> string" where
  "status_line_cut vs st ms = vs @ NUL # st @ NUL # ms @ CRLF"

definition status_wf :: "string \<Rightarrow> string \<Rightarrow> string \<Rightarrow> bool" where
  "status_wf vs st ms \<longleftrightarrow> token_ok vs \<and> token_ok st \<and> (\<forall>c \<in> set ms. c \<noteq> LF \<and> c \<noteq> NUL)
     \<and> HTTP_STATUS_START \<le> atoi st \<and> atoi st \<le> HTTP_STATUS_END"

lemma status_line_body:
  assumes "status_wf vs st ms"
  shows "\<exists>x. status_line vs st ms = x @ [LF] \<and> (\<forall>c \<in> set x. c \<noteq> LF \<and> c \<noteq> NUL)
    \<and> length x = length vs + length st + length ms + 3"
proof -
  let ?x = "vs @ CHR '' '' # st @ CHR '' '' # ms @ [CR]"
  have "\<forall>c \<in> set ?x. c \<noteq> LF \<and> c \<noteq> NUL"
    using assms token_ok_no_eol [of vs] token_ok_no_eol [of st] by (simp add: status_wf_def ball_Un)
  moreover have "status_line vs st ms = ?x @ [LF]" by (simp add: status_line_def CRLF_def)
  ultimately show ?thesis by (intro exI [of _ ?x]) simp
qed

lemma no_skip:
  assumes "token_ok t" "prefix x (t @ y)"
  shows "scan_upto (\<lambda>c. isspace c \<and> c \<noteq> NUL) (u @ x @ replicate (Suc k) NUL) (length u) e = Ret (length u)"
proof -
  obtain a t' where "t = a # t'" "\<not> isspace a" using assms(1) by (cases t) (auto simp: token_ok_def)
  then have "\<not> isspace ((x @ replicate (Suc k) NUL) ! 0)" using assms(2) by (cases x) auto
  then show ?thesis by (subst scan_upto.simps) (simp add: nth_append_right del: replicate.simps)
qed

lemma status_line_again:
  assumes "buf_valid r i" "status_wf vs st ms" "strict_prefix x (status_line vs st ms)"
  shows "http_parse_status_line (loaded i u x k r) i = Ret (HTTP_PARSE_AGAIN, loaded i u x k r)"
proof -
  have x: "\<forall>c \<in> set x. c \<noteq> LF \<and> c \<noteq> NUL"
    using status_line_body [OF assms(2)] assms(3) strict_prefix_no_eol by metis
  have eol: "find_next_eol (u @ x @ replicate (Suc k) NUL) (length u) = Ret None"
    using find_next_eol_none [OF x] by simp
  have skip: "scan_upto (\<lambda>c. isspace c \<and> c \<noteq> NUL) (u @ x @ replicate (Suc k) NUL) (length u) e = Ret (length u)" for e
    by (rule no_skip [of vs]) (use assms(2,3) in \<open>auto simp: status_wf_def status_line_def strict_prefix_def\<close>)
  have "set_buf i (\<lambda>y. y\<lparr>buf_pos := length u\<rparr>) (loaded i u x k r) = loaded i u x k r"
    using assms(1) by (simp add: set_buf_def loaded_def buf_valid_def)
  with eol skip assms(1) show ?thesis
    by (simp add: http_parse_status_line_def Let_def del: replicate.simps)
qed

lemma status_line_complete:
  assumes "buf_valid r i" "status_wf vs st ms"
  shows "http_parse_status_line (loaded i u (status_line vs st ms @ w) k r) i
    = Ret (HTTP_PARSE_DONE, loaded i (u @ status_line_cut vs st ms) w k (r\<lparr>status := atoi st\<rparr>))"
proof -
  let ?L = "loaded i u (status_line vs st ms @ w) k r"
  let ?m = "u @ (status_line vs st ms @ w) @ replicate (Suc k) NUL"
  note wf = assms(2) [unfolded status_wf_def]
  have skip: "scan_upto (\<lambda>c. isspace c \<and> c \<noteq> NUL) ?m (length u) e = Ret (length u)" for e
    by (rule no_skip [of vs _ "CHR '' '' # st @ CHR '' '' # ms @ CRLF @ w"]) (use wf in \<open>auto simp: status_line_def\<close>)
  define e where "e = length u + length vs + length st + length ms + 3"
  have eol: "find_next_eol ?m (length u) = Ret (Some e)"
  proof -
    obtain x where x: "status_line vs st ms = x @ [LF]" "\<forall>c \<in> set x. c \<noteq> LF \<and> c \<noteq> NUL"
      "length x = length vs + length st + length ms + 3"
      using status_line_body [OF assms(2)] by blast
    show ?thesis
      using find_next_eol_append [OF x(2), of u "w @ replicate (Suc k) NUL"] x(1,3) by (simp add: e_def add.assoc)
  qed
  let ?z = "ms @ CRLF @ w @ replicate (Suc k) NUL"
  have 1: "get_token (Some isspace) None ?m (length u)
      = Ret (Some (length u, length vs), u @ vs @ NUL # st @ CHR '' '' # ?z, Suc (length u + length vs))"
    using get_token_word [of vs "CHR '' ''" u "st @ CHR '' '' # ?z"] wf by (simp add: status_line_def)
  have 2: "get_token (Some isspace) None (u @ vs @ NUL # st @ CHR '' '' # ?z) (Suc (length u + length vs))
      = Ret (Some (Suc (length u + length vs), length st), u @ vs @ NUL # st @ NUL # ?z,
          Suc (Suc (length u + length vs + length st)))"
    using get_token_word [of st "CHR '' ''" "u @ vs @ [NUL]" ?z] wf by simp
  have 3: "cstr_at (u @ vs @ NUL # st @ NUL # ?z) (Suc (length u + length vs)) = st"
    using cstr_at_append [of st "u @ vs @ [NUL]" ?z] token_ok_NUL wf by auto
  have 4: "(set_buf i (\<lambda>x. x\<lparr>buf_pos := Suc e\<rparr>) (set_buf_mem i (u @ vs @ NUL # st @ NUL # ?z)
        (set_buf i (\<lambda>x. x\<lparr>buf_pos := length u\<rparr>) ?L)))\<lparr>status := atoi st\<rparr>
      = loaded i (u @ status_line_cut vs st ms) w k (r\<lparr>status := atoi st\<rparr>)"
    using assms(1)
    by (simp add: loaded_def set_buf_def set_buf_mem_def buf_valid_def status_line_def status_line_cut_def
        CRLF_def e_def add_ac eval_nat_numeral)
  show ?thesis
    unfolding http_parse_status_line_def
    using wf skip eol 1 2 3 4 by (simp add: assms(1) Let_def token_text_def del: replicate.simps)
qed

interpretation status_line_parser: line_parser http_parse_status_line i "status_line vs st ms"
  "\<lambda>r x k. buf_valid r0 i \<and> status_wf vs st ms \<and> r = loaded i u x k r0"
  "\<lambda>r w k. r = loaded i (u @ status_line_cut vs st ms) w k (r0\<lparr>status := atoi st\<rparr>)"
  for i vs st ms u r0
proof unfold_locales
  fix r x k
  assume "buf_valid r0 i \<and> status_wf vs st ms \<and> r = loaded i u x k r0" "strict_prefix x (status_line vs st ms)"
  then show "\<exists>u' x' r'. http_parse_status_line r i = Ret (HTTP_PARSE_AGAIN, loaded i u' x' k r') \<and> buf_valid r' i
      \<and> (\<forall>e j. e \<noteq> [] \<longrightarrow> buf_valid r0 i \<and> status_wf vs st ms \<and> loaded i u' (x' @ e) j r' = loaded i u (x @ e) j r0)"
    using status_line_again by blast
qed (use status_line_complete in blast)

section \<open>A fresh header buffer\<close>

text \<open>The request after \<open>http_alloc_client_header_buf\<close>: a new block, empty, with the configured room.\<close>

definition fresh_buf :: "nat \<Rightarrow> http_request_t \<Rightarrow> http_request_t" where
  "fresh_buf n r = r\<lparr>mem := mem r @ [replicate (Suc n) NUL],
     bufs := bufs r @ [\<lparr>blk = length (mem r), buf_start = 0, buf_end = n, buf_pos = 0, buf_last = 0\<rparr>],
     header_buf := Some (length (bufs r))\<rparr>"

lemma http_alloc_client_header_buf_Ret:
  assumes "client_header_size c = int n" "n < 2 ^ 31 - 1"
  shows "http_alloc_client_header_buf c r = Ret (fresh_buf n r)"
proof -
  have "int32 (client_header_size c + 1) = int n + 1" using assms by (simp add: int32_id)
  moreover have "(NUL # replicate n NUL)[n := NUL] = NUL # replicate n NUL"
    by (metis list_update_id nth_replicate replicate_Suc lessI)
  ultimately show ?thesis
    by (simp add: http_alloc_client_header_buf_def new_buf_def buf_create_def reserve_nul_def fresh_buf_def
        buf_mem_def store_def set_buf_def set_buf_mem_def Let_def nat_add_distrib)
qed

lemma fresh_buf_simps [simp]:
  "bufs (fresh_buf n r) ! length (bufs r)
     = \<lparr>blk = length (mem r), buf_start = 0, buf_end = n, buf_pos = 0, buf_last = 0\<rparr>"
  "header_buf (fresh_buf n r) = Some (length (bufs r))" "headers_in (fresh_buf n r) = headers_in r"
  "headers_out (fresh_buf n r) = headers_out r" "buf_valid (fresh_buf n r) (length (bufs r))"
  by (simp_all add: fresh_buf_def buf_valid_def)

lemma fresh_buf_loaded:
  "buf_valid (fresh_buf n r) (length (bufs r))"
  "fresh_buf n r = loaded (length (bufs r)) [] [] n (fresh_buf n r)"
  by (simp_all add: fresh_buf_def loaded_def buf_valid_def)

end
