(* ===== verification/Header_Block.thy ===== *)
theory Header_Block
  imports Receive
begin

text \<open>
  The header block of a message: well-formed lines \<open>Name: value\<close> up to an empty line. However the network
  cuts it into pieces, the header table ends up with exactly the names and values sent, in order.
\<close>

section \<open>Header lines and what the parser makes of them\<close>

definition field_ok :: "string \<times> string \<Rightarrow> bool" where
  "field_ok f \<longleftrightarrow> (case f of (n, v) \<Rightarrow>
     n \<noteq> [] \<and> (\<forall>c \<in> set n. c \<noteq> NUL \<and> c \<noteq> LF \<and> c \<noteq> CHR '':'') \<and> \<not> isspace (hd n) \<and> \<not> isspace (last n)
   \<and> v \<noteq> [] \<and> (\<forall>c \<in> set v. c \<noteq> NUL \<and> c \<noteq> LF) \<and> \<not> isspace (hd v) \<and> length v < 2 ^ 64)"

definition field_line :: "string \<times> string \<Rightarrow> string" where
  "field_line f = fst f @ CHR '':'' # CHR '' '' # snd f @ CRLF"

definition field_cut :: "string \<times> string \<Rightarrow> string" where
  "field_cut f = fst f @ NUL # CHR '' '' # snd f @ [NUL, LF]"

definition field_entry :: "nat \<Rightarrow> nat \<Rightarrow> string \<times> string \<Rightarrow> http_header_t" where
  "field_entry b p f = \<lparr>hname = \<lparr>data = At b p, len = length (fst f)\<rparr>,
     hvalue = \<lparr>data = At b (p + length (fst f) + 2), len = length (snd f)\<rparr>\<rparr>"

definition lines_text :: "(string \<times> string) list \<Rightarrow> string" where
  "lines_text fs = concat (map field_line fs)"

definition lines_cut :: "(string \<times> string) list \<Rightarrow> string" where
  "lines_cut fs = concat (map field_cut fs)"

fun table_at :: "nat \<Rightarrow> nat \<Rightarrow> (string \<times> string) list \<Rightarrow> http_header_t list" where
  "table_at b p [] = []"
| "table_at b p (f # fs) = field_entry b p f # table_at b (p + length (field_cut f)) fs"

lemma lines_simps [simp]:
  "lines_text [] = []" "lines_text (f # fs) = field_line f @ lines_text fs"
  "lines_text (fs @ gs) = lines_text fs @ lines_text gs"
  "lines_cut [] = []" "lines_cut (f # fs) = field_cut f @ lines_cut fs"
  "lines_cut (fs @ gs) = lines_cut fs @ lines_cut gs"
  by (simp_all add: lines_text_def lines_cut_def)

lemma length_field_cut [simp]: "length (field_cut f) = length (field_line f)"
  by (simp add: field_cut_def field_line_def CRLF_def)

lemma length_lines_cut [simp]: "length (lines_cut fs) = length (lines_text fs)"
  by (induction fs) auto

lemma table_at_append:
  "table_at b p (fs @ gs) = table_at b p fs @ table_at b (p + length (lines_cut fs)) gs"
  by (induction fs arbitrary: p) (simp_all add: add.assoc)

text \<open>The strings of an entry read back the name and the value.\<close>

lemma entry_texts:
  assumes "b < length h" "h ! b = u @ field_cut f @ w" "field_ok f"
  shows "deref h (data (hname (field_entry b (length u) f))) = Ret (fst f)"
    "deref h (data (hvalue (field_entry b (length u) f))) = Ret (snd f)"
proof -
  obtain n v where f: "f = (n, v)" by (cases f)
  have nv: "NUL \<notin> set n" "NUL \<notin> set v" using assms(3) by (auto simp: f field_ok_def)
  have "cstr_at (u @ n @ NUL # CHR '' '' # v @ NUL # LF # w) (length u) = n"
    by (rule cstr_at_append [OF nv(1)])
  with assms show "deref h (data (hname (field_entry b (length u) f))) = Ret (fst f)"
    by (simp add: field_entry_def field_cut_def f nul_from_def)
  have "cstr_at ((u @ n @ [NUL, CHR '' '']) @ v @ NUL # LF # w) (length (u @ n @ [NUL, CHR '' ''])) = v"
    by (rule cstr_at_append [OF nv(2)])
  with assms show "deref h (data (hvalue (field_entry b (length u) f))) = Ret (snd f)"
    by (simp add: field_entry_def field_cut_def f nul_from_def)
qed

lemma table_texts:
  assumes "b < length h" "h ! b = u @ lines_cut fs @ w" "\<forall>f \<in> set fs. field_ok f"
  shows "(\<forall>x \<in> set (table_at b (length u) fs). str_ok h (hname x) \<and> str_ok h (hvalue x))
    \<and> map (\<lambda>x. (text_of h (hname x), text_of h (hvalue x))) (table_at b (length u) fs) = fs"
  using assms
proof (induction fs arbitrary: u)
  case (Cons f fs)
  have m: "h ! b = u @ field_cut f @ (lines_cut fs @ w)" "field_ok f" using Cons.prems by simp_all
  note e = entry_texts [OF Cons.prems(1) m]
  have "str_ok h (hname (field_entry b (length u) f)) \<and> str_ok h (hvalue (field_entry b (length u) f))
      \<and> text_of h (hname (field_entry b (length u) f)) = fst f \<and> text_of h (hvalue (field_entry b (length u) f)) = snd f"
    unfolding str_ok_def text_of_def using e by (simp add: field_entry_def)
  moreover have "(\<forall>x \<in> set (table_at b (length (u @ field_cut f)) fs). str_ok h (hname x) \<and> str_ok h (hvalue x))
    \<and> map (\<lambda>x. (text_of h (hname x), text_of h (hvalue x))) (table_at b (length (u @ field_cut f)) fs) = fs"
    by (rule Cons.IH) (use Cons.prems in simp_all)
  ultimately show ?case by simp
qed simp

lemma table_names:
  assumes "b < length h" "h ! b = u @ lines_cut fs @ w" "\<forall>f \<in> set fs. field_ok f"
  shows "header_texts h (table_at b (length u) fs) = map fst fs"
proof -
  have "map fst (map (\<lambda>x. (text_of h (hname x), text_of h (hvalue x))) (table_at b (length u) fs)) = map fst fs"
    using table_texts [OF assms] by simp
  then show ?thesis by (simp add: header_texts_def comp_def)
qed

section \<open>One line\<close>

lemma trim_len_none: "n \<noteq> [] \<Longrightarrow> \<not> isspace (last n) \<Longrightarrow> trim_len (u @ n @ w) (length u) (length n) = length n"
  by (cases n rule: rev_cases) (simp_all add: nth_append)

lemma header_line_field_line:
  assumes "b < length h" "h ! b = u @ field_line f @ w" "field_ok f"
    and set: "http_header_set (h[b := u @ field_cut f @ w]) t
      \<lparr>data = At b (length u), len = length (fst f)\<rparr>
      \<lparr>data = At b (length u + length (fst f) + 2), len = length (snd f)\<rparr> = Ret t'"
  shows "header_line_field h b (length u) (length u + length (fst f) + length (snd f) + 3) t
    = Ret (Header_Next (h[b := u @ field_cut f @ w]) (length u + length (field_line f)) t')"
proof -
  obtain n v where f: "f = (n, v)" by (cases f)
  note ok = assms(3) [unfolded f field_ok_def split]
  obtain a v' where v: "v = a # v'" "\<not> isspace a" "a \<noteq> NUL" using ok by (cases v) auto
  let ?e = "length u + length n + length v + 3"
  let ?m1 = "u @ n @ NUL # CHR '' '' # v @ CR # LF # w"
  have "get_token None (Some '':'') (u @ [] @ n @ CHR '':'' # CHR '' '' # v @ CR # LF # w) (length u)
      = Ret (Some (length u + length ([] :: string), length n), u @ [] @ n @ NUL # CHR '' '' # v @ CR # LF # w,
          Suc (length u + length ([] :: string) + length n))"
    by (rule get_token_append) (use ok in \<open>auto simp: IS_DELIM_def\<close>)
  then have tok: "get_token None (Some '':'') (h ! b) (length u)
      = Ret (Some (length u, length n), ?m1, Suc (length u + length n))"
    by (simp add: assms(2) f field_line_def CRLF_def)
  have trim: "trim_len ?m1 (length u) (length n) = length n" using trim_len_none ok by simp
  have st: "store ?m1 (length u + length n) NUL = Ret ?m1"
    by (simp add: store_def list_update_append)
  have sp: "scan_upto (\<lambda>c. isspace c \<and> c \<noteq> NUL) ?m1 (Suc (length u + length n)) ?e = Ret (length u + length n + 2)"
    by (rule scan_upto_stop) (use v in \<open>auto simp: nth_append nth_Cons' eval_nat_numeral dest!: le_antisym\<close>)
  have ld: "load ?m1 (length u + length n + 2) = Ret a"
    by (simp add: load_def nth_append v(1))
  have "load ?m1 (?e - 1) = Ret CR" "store ?m1 (?e - 1) NUL = Ret (u @ field_cut f @ w)"
    by (simp_all add: load_def store_def nth_append list_update_append f field_cut_def)
  moreover have "int ?e - 1 - int (length u + length n + 2) = int (length v)" by simp
  ultimately have val: "header_value b ?m1 (length u + length n + 2) ?e =
      Ret (\<lparr>data = At b (length u + length n + 2), len = length v\<rparr>, u @ field_cut f @ w)"
    using v ok unfolding header_value_def by (simp add: size_t_of_int_id)
  have "header_line_field h b (length u) ?e t
      = Ret (Header_Next (h[b := u @ field_cut f @ w]) (?e + 1) t')"
    unfolding header_line_field_def
    using tok st sp ld val v(3) set by (simp add: trim Let_def f)
  then show ?thesis by (simp add: f field_line_def CRLF_def eval_nat_numeral)
qed

lemma field_line_body:
  "field_ok f \<Longrightarrow> \<exists>x. field_line f = x @ [LF] \<and> (\<forall>c \<in> set x. c \<noteq> LF \<and> c \<noteq> NUL)
     \<and> length x = length (fst f) + length (snd f) + 3 \<and> x \<noteq> [] \<and> x ! 0 = hd (fst f) \<and> \<not> isspace (hd (fst f))"
  by (cases f, cases "fst f")
    (auto simp: field_line_def CRLF_def field_ok_def intro!: exI [of _ "fst f @ CHR '':'' # CHR '' '' # snd f @ [CR]"])

lemma header_line_step_line:
  assumes "b < length h" "h ! b = u @ field_line f @ w" "field_ok f"
    and set: "http_header_set (h[b := u @ field_cut f @ w]) t
      \<lparr>data = At b (length u), len = length (fst f)\<rparr>
      \<lparr>data = At b (length u + length (fst f) + 2), len = length (snd f)\<rparr> = Ret t'"
  shows "header_line_step h b (length u) t
    = Ret (Header_Next (h[b := u @ field_cut f @ w]) (length u + length (field_line f)) t')"
proof -
  obtain x where x: "field_line f = x @ [LF]" "\<forall>c \<in> set x. c \<noteq> LF \<and> c \<noteq> NUL"
    "length x = length (fst f) + length (snd f) + 3" "x \<noteq> []" "x ! 0 = hd (fst f)" "\<not> isspace (hd (fst f))"
    using field_line_body [OF assms(3)] by blast
  have eol: "find_next_eol (h ! b) (length u) = Ret (Some (length u + length x))"
    using find_next_eol_append [OF x(2), of u w] assms(2) x(1) by simp
  have first: "(h ! b) ! length u = hd (fst f)" using assms(2) x by (simp add: nth_append)
  have nn: "hd (fst f) \<noteq> NUL" using assms(3) by (cases f, cases "fst f") (auto simp: field_ok_def)
  have skip: "scan_upto (\<lambda>c. isspace c \<and> c \<noteq> NUL) (h ! b) (length u) e = Ret (length u)" for e
    using first x(6) assms(2) x(1) by (subst scan_upto.simps) simp
  have "header_line_nonempty h b (length u) (length u + length x) t = header_line_field h b (length u) (length u + length x) t"
    unfolding header_line_nonempty_def using skip first nn x(3) assms(2) x(1) by (simp add: load_def)
  moreover have "hd (fst f) \<noteq> CR" using x(6) isspace_sep(2) by metis
  ultimately have "header_line_step h b (length u) t = header_line_field h b (length u) (length u + length x) t"
    unfolding header_line_step_def using eol first x(3) by simp
  then show ?thesis using header_line_field_line [OF assms] x(3) by (simp add: add.assoc)
qed

text \<open>On a table made of the lines before, the line's entry is appended.\<close>

definition fields_ok :: "(string \<times> string) list \<Rightarrow> bool" where
  "fields_ok fs \<longleftrightarrow> (\<forall>f \<in> set fs. field_ok f) \<and> distinct (map fst fs) \<and> prefix_free (set (map fst fs))"

lemma fields_ok_append1: "fields_ok (fs @ gs) \<Longrightarrow> fields_ok fs"
  by (auto simp: fields_ok_def intro: prefix_free_mono)

lemma header_set_table:
  assumes "b < length h" "h ! b = u @ lines_cut (fs @ [f]) @ w" "fields_ok (fs @ [f])"
    and t: "array_ok t" "elts t = table_at b (length u) fs"
  shows "\<exists>t'. http_header_set h t
      \<lparr>data = At b (length u + length (lines_cut fs)), len = length (fst f)\<rparr>
      \<lparr>data = At b (length u + length (lines_cut fs) + length (fst f) + 2), len = length (snd f)\<rparr> = Ret t'
    \<and> array_ok t' \<and> elts t' = table_at b (length u) (fs @ [f])"
proof -
  let ?n = "\<lparr>data = At b (length u + length (lines_cut fs)), len = length (fst f)\<rparr>"
  let ?v = "\<lparr>data = At b (length u + length (lines_cut fs) + length (fst f) + 2), len = length (snd f)\<rparr>"
  have m: "h ! b = u @ lines_cut fs @ (field_cut f @ w)" "h ! b = (u @ lines_cut fs) @ field_cut f @ w"
    and ok: "\<forall>f \<in> set fs. field_ok f" "field_ok f"
    using assms(2,3) by (auto simp: fields_ok_def)
  have names: "header_texts h (elts t) = map fst fs" "\<forall>x \<in> set (elts t). str_ok h (hname x)"
    using table_names [OF assms(1) m(1) ok(1)] table_texts [OF assms(1) m(1) ok(1)] t(2) by auto
  have n: "str_ok h ?n" "text_of h ?n = fst f"
    using entry_texts(1) [OF assms(1) m(2) ok(2)] by (simp_all add: str_ok_def text_of_def field_entry_def)
  have "prefix_free (insert (text_of h ?n) (set (header_texts h (elts t))))" "fst f \<notin> set (map fst fs)"
      "distinct (header_texts h (elts t))"
    using assms(3) by (auto simp: fields_ok_def names n simp del: length_lines_cut)
  then have rep: "header_replace h ?n ?v (elts t) =
      Ret (map (\<lambda>x. if text_of h (hname x) = fst f then x\<lparr>hvalue := ?v\<rparr> else x) (elts t), False)"
    using header_replace_spec [OF n(1) names(2)] by (simp add: n names del: length_lines_cut)
  obtain t' where "array_push t \<lparr>hname = ?n, hvalue = ?v\<rparr> = Ret t'" "array_ok t'"
    "elts t' = elts t @ [\<lparr>hname = ?n, hvalue = ?v\<rparr>]"
    using array_push_ok [OF t(1)] by blast
  with rep t(2) show ?thesis by (simp add: http_header_set_def table_at_append field_entry_def)
qed

section \<open>The block\<close>

lemma header_loop_lines:
  assumes "b < length h" "h ! b = u @ lines_cut fs @ lines_text gs @ w" "fields_ok (fs @ gs)"
    and "array_ok t" "elts t = table_at b (length u) fs"
    and "length u + length (lines_text (fs @ gs)) \<le> e"
  shows "\<exists>t'. header_loop h b (length u + length (lines_text fs)) e t
      = header_loop (h[b := u @ lines_cut (fs @ gs) @ w]) b (length u + length (lines_text (fs @ gs))) e t'
    \<and> array_ok t' \<and> elts t' = table_at b (length u) (fs @ gs)"
  using assms
proof (induction gs arbitrary: h fs t)
  case Nil
  then have "h[b := u @ lines_cut fs @ w] = h" by (metis append_Nil list_update_id lines_simps(1))
  with Nil show ?case by auto
next
  case (Cons g gs)
  let ?u = "u @ lines_cut fs" and ?h = "h[b := u @ lines_cut (fs @ [g]) @ lines_text gs @ w]"
  have m: "h ! b = ?u @ field_line g @ (lines_text gs @ w)" using Cons.prems(2) by simp
  have ok: "fields_ok (fs @ [g])" "field_ok g"
    using Cons.prems(3) fields_ok_append1 [of "fs @ [g]" gs] by (simp_all add: fields_ok_def)
  obtain t1 where t1: "http_header_set ?h t
      \<lparr>data = At b (length u + length (lines_cut fs)), len = length (fst g)\<rparr>
      \<lparr>data = At b (length u + length (lines_cut fs) + length (fst g) + 2), len = length (snd g)\<rparr> = Ret t1"
    "array_ok t1" "elts t1 = table_at b (length u) (fs @ [g])"
    using header_set_table [of b ?h u fs g "lines_text gs @ w" t] Cons.prems(1,4,5) ok(1) by auto
  have step: "header_line_step h b (length ?u) t = Ret (Header_Next ?h (length ?u + length (field_line g)) t1)"
    using header_line_step_line [OF Cons.prems(1) m ok(2), of t t1] t1(1) by simp
  have "length ?u < e" using Cons.prems(6) by (simp add: field_line_def)
  then have "header_loop h b (length ?u) e t = header_loop ?h b (length ?u + length (field_line g)) e t1"
    using step by (simp add: header_loop.simps [of h b])
  moreover have "\<exists>t'. header_loop ?h b (length u + length (lines_text (fs @ [g]))) e t1
      = header_loop (?h[b := u @ lines_cut ((fs @ [g]) @ gs) @ w]) b (length u + length (lines_text ((fs @ [g]) @ gs))) e t'
      \<and> array_ok t' \<and> elts t' = table_at b (length u) ((fs @ [g]) @ gs)"
    by (rule Cons.IH) (use Cons.prems t1 in simp_all)
  ultimately show ?case by (simp add: add.assoc)
qed

lemma header_loop_again:
  assumes "b < length h" "h ! b = u @ x @ NUL # w" "\<forall>c \<in> set x. c \<noteq> LF \<and> c \<noteq> NUL"
  shows "header_loop h b (length u) (length u + length x) t = Ret (HTTP_PARSE_AGAIN, h, length u, t)"
  using find_next_eol_none [OF assms(3), of u w] assms(2)
  by (auto simp: header_loop.simps [of h b] header_line_step_def)

lemma header_loop_empty_line:
  assumes "h ! b = u @ CRLF @ w" "length u < e"
  shows "header_loop h b (length u) e t = Ret (HTTP_PARSE_DONE, h, length u + 2, t)"
proof -
  have "find_next_eol (u @ [CR] @ LF # w) (length u) = Ret (Some (length u + length [CR]))"
    by (rule find_next_eol_append) simp
  then show ?thesis
    using assms by (simp add: header_loop.simps [of h b] header_line_step_def CRLF_def nth_append)
qed

section \<open>The block in pieces\<close>

lemma lines_prefix_split:
  assumes "strict_prefix y (lines_text fs @ CRLF)" "\<forall>f \<in> set fs. field_ok f"
  shows "\<exists>gs fs' y'. fs = gs @ fs' \<and> y = lines_text gs @ y' \<and> (\<forall>c \<in> set y'. c \<noteq> LF \<and> c \<noteq> NUL)"
  using assms
proof (induction fs arbitrary: y)
  case Nil
  then have "strict_prefix y ([CR] @ [LF])" by (simp add: CRLF_def)
  then have "\<forall>c \<in> set y. c \<noteq> LF \<and> c \<noteq> NUL" by (rule strict_prefix_no_eol) simp
  then show ?case by simp
next
  case (Cons f fs)
  show ?case
  proof (cases "prefix (field_line f) y")
    case True
    then obtain z where z: "y = field_line f @ z" by (auto simp: prefix_def)
    with Cons.prems(1) have "strict_prefix z (lines_text fs @ CRLF)" by simp
    then obtain gs fs' y' where g: "fs = gs @ fs'" "z = lines_text gs @ y'" "\<forall>c \<in> set y'. c \<noteq> LF \<and> c \<noteq> NUL"
      using Cons.IH [of z] Cons.prems(2) by auto
    then have "f # fs = (f # gs) @ fs'" "y = lines_text (f # gs) @ y'" using z by simp_all
    with g(3) show ?thesis by blast
  next
    case False
    have "prefix y (field_line f @ lines_text fs @ CRLF)" using Cons.prems(1) by simp
    with False have "strict_prefix y (field_line f)"
      using prefix_same_cases [of y _ "field_line f"] by (auto simp: strict_prefix_def)
    moreover obtain x where "field_line f = x @ [LF]" "\<forall>c \<in> set x. c \<noteq> LF \<and> c \<noteq> NUL"
      using field_line_body [of f] Cons.prems(2) by auto
    ultimately have "\<forall>c \<in> set y. c \<noteq> LF \<and> c \<noteq> NUL" using strict_prefix_no_eol by metis
    moreover have "f # fs = [] @ (f # fs)" "y = lines_text [] @ y" by simp_all
    ultimately show ?thesis by blast
  qed
qed

lemma phase_headers_simps [simp]:
  "phase_headers ph (set_phase_headers ph t r) = t"
  "phase_headers ph (loaded i u d k r) = phase_headers ph r"
  "set_phase_headers ph t (set_phase_headers ph t' r) = set_phase_headers ph t r"
  "set_phase_headers ph t (loaded i u d k r) = loaded i u d k (set_phase_headers ph t r)"
  "bufs (set_phase_headers ph t r) = bufs r" "mem (set_phase_headers ph t r) = mem r"
  "buf_valid (set_phase_headers ph t r) i = buf_valid r i"
  by (cases ph; simp add: phase_headers_def set_phase_headers_def loaded_def buf_valid_def)+

lemma parse_phase_loaded:
  assumes "buf_valid r i" "b = blk (bufs r ! i)" "L = loaded i u y k (set_phase_headers ph t r)"
    and "header_loop (mem L) b (length u) (length u + length y) t
      = Ret (x, (mem L)[b := u' @ y' @ replicate (Suc k) NUL], length u', t')"
    and "length u' + length y' = length u + length y"
  shows "parse_phase_header_line ph L i = Ret (x, loaded i u' y' k (set_phase_headers ph t' r))"
proof -
  have v: "buf_valid (set_phase_headers ph t r) i" using assms(1) by simp
  have L: "bufs L ! i = \<lparr>blk = b, buf_start = buf_start (bufs r ! i),
      buf_end = length u + length y + k, buf_pos = length u, buf_last = length u + length y\<rparr>"
    using v assms(2,3) by simp
  have "http_parse_header_line L i t = Ret (x, set_buf i (\<lambda>x. x\<lparr>buf_pos := length u'\<rparr>)
      (L\<lparr>mem := (mem L)[b := u' @ y' @ replicate (Suc k) NUL]\<rparr>), t')"
    using assms(4) by (simp add: http_parse_header_line_def L Let_def)
  moreover have "set_buf i (\<lambda>x. x\<lparr>buf_pos := length u'\<rparr>)
      (L\<lparr>mem := (mem L)[b := u' @ y' @ replicate (Suc k) NUL]\<rparr>) = loaded i u' y' k (set_phase_headers ph t r)"
    using assms(1,2,5) unfolding assms(3) by (simp add: loaded_def set_buf_def buf_valid_def)
  ultimately show ?thesis
    by (simp add: parse_phase_header_line_def assms(3))
qed

lemma header_loop_prefix:
  assumes "buf_valid r i" "b = blk (bufs r ! i)" "fields_ok (gs @ hs)" "array_ok t" "elts t = table_at b (length u) gs"
    and "L = loaded i (u @ lines_cut gs) (lines_text hs @ y) k r"
  shows "\<exists>t'. header_loop (mem L) b (length (u @ lines_cut gs)) (length (u @ lines_cut gs) + length (lines_text hs @ y)) t
      = header_loop ((mem L)[b := u @ lines_cut (gs @ hs) @ y @ replicate (Suc k) NUL]) b
          (length (u @ lines_cut (gs @ hs))) (length (u @ lines_cut (gs @ hs)) + length y) t'
    \<and> array_ok t' \<and> elts t' = table_at b (length u) (gs @ hs)"
proof -
  have b: "b < length (mem L)" "mem L ! b = u @ lines_cut gs @ lines_text hs @ y @ replicate (Suc k) NUL"
    using assms(1,2) by (simp_all add: assms(6) loaded_def buf_valid_def)
  show ?thesis
    using header_loop_lines [OF b assms(3,4,5), of "length (u @ lines_cut (gs @ hs)) + length y"]
    by (simp add: add.assoc)
qed

interpretation header_block_parser: line_parser "parse_phase_header_line ph" i "lines_text fs @ CRLF"
  "\<lambda>r x k. buf_valid r0 i \<and> fields_ok fs \<and> (\<exists>gs fs' y t. fs = gs @ fs' \<and> x = lines_text gs @ y \<and> array_ok t
     \<and> elts t = table_at (blk (bufs r0 ! i)) (length u) gs
     \<and> r = loaded i (u @ lines_cut gs) y k (set_phase_headers ph t r0))"
  "\<lambda>r w k. \<exists>t. array_ok t \<and> elts t = table_at (blk (bufs r0 ! i)) (length u) fs
     \<and> r = loaded i (u @ lines_cut fs @ CRLF) w k (set_phase_headers ph t r0)"
  for ph i fs u r0
proof unfold_locales
  let ?b = "blk (bufs r0 ! i)"
  fix r x k
  assume "buf_valid r0 i \<and> fields_ok fs \<and> (\<exists>gs fs' y t. fs = gs @ fs' \<and> x = lines_text gs @ y \<and> array_ok t
     \<and> elts t = table_at (blk (bufs r0 ! i)) (length u) gs
     \<and> r = loaded i (u @ lines_cut gs) y k (set_phase_headers ph t r0))" and sp: "strict_prefix x (lines_text fs @ CRLF)"
  then obtain gs fs' y t where a: "buf_valid r0 i" "fields_ok fs" "fs = gs @ fs'" "x = lines_text gs @ y" "array_ok t"
    "elts t = table_at ?b (length u) gs" "r = loaded i (u @ lines_cut gs) y k (set_phase_headers ph t r0)" by blast
  have fs'_ok: "\<forall>f \<in> set fs'. field_ok f" using a(2,3) by (simp add: fields_ok_def)
  have "strict_prefix y (lines_text fs' @ CRLF)" using sp a(3,4) by simp
  then obtain hs fs'' y' where h: "fs' = hs @ fs''" "y = lines_text hs @ y'" "\<forall>c \<in> set y'. c \<noteq> LF \<and> c \<noteq> NUL"
    using lines_prefix_split [of y fs'] fs'_ok by blast
  have ok: "fields_ok (gs @ hs)" using a(2,3) h(1) fields_ok_append1 [of "gs @ hs" fs''] by simp
  obtain t' where t': "header_loop (mem r) ?b (length (u @ lines_cut gs)) (length (u @ lines_cut gs) + length y) t
      = header_loop ((mem r)[?b := u @ lines_cut (gs @ hs) @ y' @ replicate (Suc k) NUL]) ?b
          (length (u @ lines_cut (gs @ hs))) (length (u @ lines_cut (gs @ hs)) + length y') t'"
    "array_ok t'" "elts t' = table_at ?b (length u) (gs @ hs)"
    using header_loop_prefix [of "set_phase_headers ph t r0" i ?b gs hs t u r y' k] a h(2) ok by auto
  have lb: "?b < length (mem r)" using a(1,7) by (simp add: buf_valid_def)
  have "header_loop (mem r) ?b (length (u @ lines_cut gs)) (length (u @ lines_cut gs) + length y) t
      = Ret (HTTP_PARSE_AGAIN, (mem r)[?b := (u @ lines_cut (gs @ hs)) @ y' @ replicate (Suc k) NUL],
          length (u @ lines_cut (gs @ hs)), t')"
    unfolding t'(1) using lb header_loop_again [where u = "u @ lines_cut (gs @ hs)" and x = y' and w = "replicate k NUL"] h(3)
    by simp
  then have "parse_phase_header_line ph r i
      = Ret (HTTP_PARSE_AGAIN, loaded i (u @ lines_cut (gs @ hs)) y' k (set_phase_headers ph t' r0))"
    using parse_phase_loaded [OF a(1) refl a(7)] h(2) by simp
  moreover have "fs = (gs @ hs) @ fs''" "x @ e = lines_text (gs @ hs) @ (y' @ e)" for e
    using a(3,4) h(1,2) by simp_all
  ultimately show "\<exists>u' d' r'. parse_phase_header_line ph r i = Ret (HTTP_PARSE_AGAIN, loaded i u' d' k r')
      \<and> buf_valid r' i \<and> (\<forall>e j. e \<noteq> [] \<longrightarrow> buf_valid r0 i \<and> fields_ok fs \<and>
         (\<exists>gs fs' y t. fs = gs @ fs' \<and> x @ e = lines_text gs @ y \<and> array_ok t
          \<and> elts t = table_at (blk (bufs r0 ! i)) (length u) gs
          \<and> loaded i u' (d' @ e) j r' = loaded i (u @ lines_cut gs) y j (set_phase_headers ph t r0)))"
    using a(1,2) t'(2,3) by (metis phase_headers_simps(7))
next
  let ?b = "blk (bufs r0 ! i)"
  fix r w k
  assume "buf_valid r0 i \<and> fields_ok fs \<and> (\<exists>gs fs' y t. fs = gs @ fs' \<and> (lines_text fs @ CRLF) @ w = lines_text gs @ y
     \<and> array_ok t \<and> elts t = table_at (blk (bufs r0 ! i)) (length u) gs
     \<and> r = loaded i (u @ lines_cut gs) y k (set_phase_headers ph t r0))"
  then obtain gs hs y t where a: "buf_valid r0 i" "fields_ok fs" "fs = gs @ hs" "lines_text fs @ CRLF @ w = lines_text gs @ y"
    "array_ok t" "elts t = table_at ?b (length u) gs" "r = loaded i (u @ lines_cut gs) y k (set_phase_headers ph t r0)"
    by auto
  have y: "y = lines_text hs @ CRLF @ w" using a(3,4) by simp
  obtain t' where t': "header_loop (mem r) ?b (length (u @ lines_cut gs)) (length (u @ lines_cut gs) + length y) t
      = header_loop ((mem r)[?b := u @ lines_cut fs @ (CRLF @ w) @ replicate (Suc k) NUL]) ?b
          (length (u @ lines_cut fs)) (length (u @ lines_cut fs) + length (CRLF @ w)) t'"
    "array_ok t'" "elts t' = table_at ?b (length u) fs"
    using header_loop_prefix [of "set_phase_headers ph t r0" i ?b gs hs t u r "CRLF @ w" k] a y by auto
  have lb: "?b < length (mem r)" using a(1,7) by (simp add: buf_valid_def)
  have "header_loop (mem r) ?b (length (u @ lines_cut gs)) (length (u @ lines_cut gs) + length y) t
      = Ret (HTTP_PARSE_DONE, (mem r)[?b := (u @ lines_cut fs @ CRLF) @ w @ replicate (Suc k) NUL],
          length (u @ lines_cut fs @ CRLF), t')"
    unfolding t'(1)
    using lb header_loop_empty_line [where u = "u @ lines_cut fs" and w = "w @ replicate (Suc k) NUL" and b = ?b]
    by (simp add: CRLF_def)
  then have "parse_phase_header_line ph r i
      = Ret (HTTP_PARSE_DONE, loaded i (u @ lines_cut fs @ CRLF) w k (set_phase_headers ph t' r0))"
    using parse_phase_loaded [OF a(1) refl a(7)] y a(3) by (simp add: add.assoc)
  with t'(2,3) show "\<exists>r'. parse_phase_header_line ph r i = Ret (HTTP_PARSE_DONE, r') \<and>
      (\<exists>t. array_ok t \<and> elts t = table_at (blk (bufs r0 ! i)) (length u) fs
        \<and> r' = loaded i (u @ lines_cut fs @ CRLF) w k (set_phase_headers ph t r0))"
    by blast
qed

end
