(* ===== verification/Message.thy ===== *)
theory Message
  imports Header_Block
begin

text \<open>
  Whole messages: the \<open>http_process_*\<close> functions on a stream of bytes cut into any pieces. Each function
  consumes exactly its part of the stream and leaves the rest for the next one.
\<close>

section \<open>The request line\<close>

text \<open>The request after its line: the buffer stands behind the line, \<open>w\<close> is unread, \<open>k\<close> bytes of room.\<close>

definition after_request_line ::
  "nat \<Rightarrow> string \<Rightarrow> string \<Rightarrow> string option \<Rightarrow> string \<Rightarrow> http_method_e \<Rightarrow> http_version_e \<Rightarrow> string \<Rightarrow> nat
     \<Rightarrow> http_request_t \<Rightarrow> http_request_t" where
  "after_request_line n mt p q vs d v w k r =
     loaded (length (bufs r)) (request_line_cut mt (target_cut p q) vs) w k
       (request_line_set (length (mem r)) 0 mt p q vs d v
          ((fresh_buf n r)\<lparr>state := HTTP_PROCESS_STAT_REQUEST_LINE\<rparr>))"

lemma http_process_request_line_pieces:
  assumes "state r = HTTP_PROCESS_STAT_NONE" "client_header_size c = int n" "n < 2 ^ 31 - 1"
    and wf: "request_wf mt p q vs d v"
    and st: "inbox_ok (inbox s)" "arriving (inbox s) = request_line mt (target p q) vs @ w"
      "length (request_line mt (target p q) vs) \<le> n"
  shows "\<exists>s' w' k. http_process_request_line c r s = Ret (True, after_request_line n mt p q vs d v w' k r, s')
    \<and> w = w' @ arriving (inbox s') \<and> inbox_ok (inbox s') \<and> outbox s' = outbox s \<and> sends s' = sends s
    \<and> length (request_line mt (target p q) vs) + length w' + k = n"
proof -
  let ?i = "length (bufs r)" and ?r = "(fresh_buf n r)\<lparr>state := HTTP_PROCESS_STAT_REQUEST_LINE\<rparr>"
  have v: "buf_valid ?r ?i" "?r = loaded ?i [] [] n ?r" "header_buf ?r = Some ?i"
    "blk (bufs ?r ! ?i) = length (mem r)"
    by (simp_all add: fresh_buf_def loaded_def buf_valid_def)
  have "http_process_request_line c r s = line_loop http_parse_request_line c ?i ?r s"
    using assms(1) http_alloc_client_header_buf_Ret [OF assms(2,3)] v(3)
    by (simp add: http_process_request_line_def Let_def)
  moreover obtain r' s' w' k where "line_loop http_parse_request_line c ?i ?r s = Ret (True, r', s')"
    "r' = loaded ?i ([] @ request_line_cut mt (target_cut p q) vs) w' k
      (request_line_set (blk (bufs ?r ! ?i)) (length ([] :: string)) mt p q vs d v ?r)"
    "w = w' @ arriving (inbox s')" "length (request_line mt (target p q) vs) + length w' + k = length ([] :: string) + n"
    "inbox_ok (inbox s')" "outbox s' = outbox s" "sends s' = sends s"
    using request_line_parser.line_loop_complete [of ?r ?i mt p q vs d v ?r "[]" "[]" n s w c] wf v st assms(3) by auto
  ultimately show ?thesis
    by (intro exI [of _ s'] exI [of _ w'] exI [of _ k]) (simp add: after_request_line_def v(4))
qed

section \<open>The header block\<close>

text \<open>What a lookup finds: the value of the first header whose name starts, up to case, with the given one.\<close>

definition header_get :: "(string \<times> string) list \<Rightarrow> string \<Rightarrow> string option" where
  "header_get fs n = map_option snd (find (\<lambda>f. strncasecmp_eq (length n) n (fst f)) fs)"

definition str_is :: "heap \<Rightarrow> str_t option \<Rightarrow> string option \<Rightarrow> bool" where
  "str_is h x v \<longleftrightarrow> (case v of None \<Rightarrow> x = None
     | Some t \<Rightarrow> (\<exists>y. x = Some y \<and> deref h (data y) = Ret t \<and> len y = length t))"

fun value_at :: "nat \<Rightarrow> nat \<Rightarrow> (string \<times> string) list \<Rightarrow> string \<Rightarrow> str_t option" where
  "value_at b p [] n = None"
| "value_at b p (f # fs) n = (if strncasecmp_eq (length n) n (fst f) then Some (hvalue (field_entry b p f))
     else value_at b (p + length (field_cut f)) fs n)"

lemma header_find_table:
  assumes "b < length h" "h ! b = u @ lines_cut fs @ w" "\<forall>f \<in> set fs. field_ok f"
  shows "header_find h (server_string n) (table_at b (length u) fs) = Ret (value_at b (length u) fs n)
    \<and> str_is h (value_at b (length u) fs n) (header_get fs n)"
  using assms
proof (induction fs arbitrary: u)
  case (Cons f fs)
  have m: "h ! b = u @ field_cut f @ (lines_cut fs @ w)" "field_ok f" using Cons.prems by simp_all
  note e = entry_texts [OF Cons.prems(1) m]
  have l: "len (hvalue (field_entry b (length u) f)) = length (snd f)" by (simp add: field_entry_def)
  have "header_find h (server_string n) (table_at b (length (u @ field_cut f)) fs)
        = Ret (value_at b (length (u @ field_cut f)) fs n)
      \<and> str_is h (value_at b (length (u @ field_cut f)) fs n) (header_get fs n)"
    by (rule Cons.IH) (use Cons.prems in simp_all)
  with e l show ?case by (auto simp: header_get_def str_is_def split: option.splits)
qed (simp add: header_get_def str_is_def)

lemma http_header_str_table:
  assumes "b < length h" "h ! b = u @ lines_cut fs @ w" "\<forall>f \<in> set fs. field_ok f"
    and "elts t = table_at b (length u) fs"
  shows "http_header_str h t (server_string n) = Ret (value_at b (length u) fs n)"
    "str_is h (value_at b (length u) fs n) (header_get fs n)"
  using header_find_table [OF assms(1-3)] assms(4) by (simp_all add: http_header_str_def)

lemma http_header_int_table:
  assumes "b < length h" "h ! b = u @ lines_cut fs @ w" "\<forall>f \<in> set fs. field_ok f"
    and "elts t = table_at b (length u) fs"
  shows "http_header_int h t (server_string n) = Ret (case header_get fs n of None \<Rightarrow> - 1 | Some x \<Rightarrow> atoi x)"
  using http_header_str_table [OF assms, of n]
  by (auto simp: http_header_int_def str_is_def split: option.splits)

text \<open>What the headers say.\<close>

definition content_len_of :: "(string \<times> string) list \<Rightarrow> int" where
  "content_len_of fs = (case header_get fs ''Content-Length'' of None \<Rightarrow> 0 | Some x \<Rightarrow> max 0 (atoi x))"

definition keep_alive_of :: "http_version_e \<Rightarrow> (string \<times> string) list \<Rightarrow> bool" where
  "keep_alive_of v fs = (case header_get fs ''Keep-Alive'' of
       None \<Rightarrow> v = HTTP_VERSION_11
     | Some x \<Rightarrow> \<not> strncasecmp_eq (length x) x ''CLOSE'')"

definition expects_continue :: "(string \<times> string) list \<Rightarrow> bool" where
  "expects_continue fs = (case header_get fs ''Expect'' of None \<Rightarrow> False | Some x \<Rightarrow> strcasecmp_eq x ''100-continue'')"

definition headers_in_at :: "nat \<Rightarrow> nat \<Rightarrow> (string \<times> string) list \<Rightarrow> headers \<Rightarrow> http_headers_in_t" where
  "headers_in_at b p fs t = \<lparr>in_headers = t, header_host = value_at b p fs ''Host'',
     header_content_type = value_at b p fs ''Content-Type'',
     header_content_len = value_at b p fs ''Content-Length'', in_content_len = content_len_of fs\<rparr>"

lemma strncasecmp_eq_0 [simp]: "strncasecmp_eq 0 a b"
  by (simp add: strncasecmp_eq_take)

lemma headers_in_done_table:
  assumes h: "b < length (mem r)" "mem r ! b = u @ lines_cut fs @ w" "\<forall>f \<in> set fs. field_ok f"
    and t: "elts (in_headers (headers_in r)) = table_at b (length u) fs"
    and s: "expects_continue fs \<Longrightarrow> sends s = []"
  shows "headers_in_done r s = Ret (True,
      r\<lparr>headers_in := headers_in_at b (length u) fs (in_headers (headers_in r)), keep_alive := keep_alive_of (version r) fs\<rparr>,
      s\<lparr>outbox := outbox s @ (if expects_continue fs then continue_line else [])\<rparr>)"
proof -
  note str = http_header_str_table [OF h t] and int = http_header_int_table [OF h t]
  let ?r1 = "r\<lparr>headers_in := headers_in_at b (length u) fs (in_headers (headers_in r))\<rparr>"
  have 1: "headers_in_content r = Ret ?r1"
    using int [of "''Content-Length''"] str(1) [of "''Host''"] str(1) [of "''Content-Type''"] str(1) [of "''Content-Length''"]
    by (cases "headers_in r") (auto simp: headers_in_content_def Let_def header_name_defs content_len_of_def
        headers_in_at_def split: option.splits)
  have 2: "headers_in_keep_alive ?r1 = Ret (?r1\<lparr>keep_alive := keep_alive_of (version r) fs\<rparr>)"
    using str [of "''Keep-Alive''"]
    by (cases "header_get fs ''Keep-Alive''") (auto simp: headers_in_keep_alive_def header_name_defs keep_alive_of_def
        str_is_def strncasecmp_ptr_def headers_in_at_def)
  let ?r2 = "?r1\<lparr>keep_alive := keep_alive_of (version r) fs\<rparr>"
  have "nwrite s continue_line = Ret (True, s\<lparr>outbox := outbox s @ continue_line\<rparr>)" if "expects_continue fs"
    using s [OF that] by (simp add: nwrite_def continue_line_def CRLF_def)
  then have "headers_in_expect ?r2 s = Ret (True, ?r2, s\<lparr>outbox := outbox s @ (if expects_continue fs then continue_line else [])\<rparr>)"
    using str [of "''Expect''"]
    by (cases "header_get fs ''Expect''")
      (auto simp: headers_in_expect_def header_name_defs expects_continue_def str_is_def headers_in_at_def)
  with 1 2 show ?thesis by (simp add: headers_in_done_def)
qed

text \<open>The loop over the header block, in either phase.\<close>

lemma header_block_pieces:
  assumes r: "buf_valid r i" "array_ok (phase_headers ph r)" "elts (phase_headers ph r) = []" and ok: "fields_ok fs"
    and st: "inbox_ok (inbox s)" "x @ arriving (inbox s) = lines_text fs @ CRLF @ w"
      "length (lines_text fs) + 2 \<le> length x + k" "k < 2 ^ 64"
  shows "\<exists>t s' w' k'. line_loop (parse_phase_header_line ph) c i (loaded i u x k r) s
      = Ret (True, loaded i (u @ lines_cut fs @ CRLF) w' k' (set_phase_headers ph t r), s')
    \<and> array_ok t \<and> elts t = table_at (blk (bufs r ! i)) (length u) fs
    \<and> w = w' @ arriving (inbox s') \<and> inbox_ok (inbox s') \<and> length (lines_text fs) + 2 + length w' + k' = length x + k
    \<and> sends s' = sends s \<and> outbox s' = outbox s"
proof -
  let ?b = "blk (bufs r ! i)"
  have r_id: "r = set_phase_headers ph (phase_headers ph r) r"
    by (cases ph; cases r) (simp_all add: set_phase_headers_def phase_headers_def)
  have inv: "buf_valid r i \<and> fields_ok fs \<and> (\<exists>gs fs' y t. fs = gs @ fs' \<and> x = lines_text gs @ y \<and> array_ok t
     \<and> elts t = table_at (blk (bufs r ! i)) (length u) gs
     \<and> loaded i u x k r = loaded i (u @ lines_cut gs) y k (set_phase_headers ph t r))"
    using r ok r_id by (intro conjI exI [of _ "[] :: (string \<times> string) list"] exI [of _ fs] exI [of _ x]
        exI [of _ "phase_headers ph r"]) auto
  have "x @ arriving (inbox s) = (lines_text fs @ CRLF) @ w" "length (lines_text fs @ CRLF) \<le> length x + k"
    using st by (simp_all add: CRLF_def)
  from header_block_parser.line_loop_complete [OF inv this st(4,1), of c]
  obtain r' s1 w' k' t where l: "line_loop (parse_phase_header_line ph) c i (loaded i u x k r) s = Ret (True, r', s1)"
    "array_ok t" "elts t = table_at ?b (length u) fs" "r' = loaded i (u @ lines_cut fs @ CRLF) w' k' (set_phase_headers ph t r)"
    "w = w' @ arriving (inbox s1)" "length (lines_text fs @ CRLF) + length w' + k' = length x + k"
    "inbox_ok (inbox s1)" "outbox s1 = outbox s" "sends s1 = sends s"
    by blast
  moreover have "length (lines_text fs) + 2 + length w' + k' = length x + k" using l(6) by (simp add: CRLF_def)
  ultimately show ?thesis by blast
qed

lemma http_process_header_line_pieces:
  assumes r: "buf_valid r i" "header_buf r = Some i" "state r = HTTP_PROCESS_STAT_REQUEST_LINE"
      "array_ok (in_headers (headers_in r))" "elts (in_headers (headers_in r)) = []"
    and ok: "fields_ok fs" "expects_continue fs \<Longrightarrow> sends s = []"
    and st: "inbox_ok (inbox s)" "x @ arriving (inbox s) = lines_text fs @ CRLF @ w"
      "length (lines_text fs) + 2 \<le> length x + k" "k < 2 ^ 64"
  shows "\<exists>t s' w' k'. http_process_header_line c HTTP_PROCESS_PHASE_REQUEST (loaded i u x k r) s
      = Ret (True, loaded i (u @ lines_cut fs @ CRLF) w' k' (r\<lparr>state := HTTP_PROCESS_STAT_HEADER_LINE,
          headers_in := headers_in_at (blk (bufs r ! i)) (length u) fs t, keep_alive := keep_alive_of (version r) fs\<rparr>), s')
    \<and> array_ok t \<and> elts t = table_at (blk (bufs r ! i)) (length u) fs
    \<and> w = w' @ arriving (inbox s') \<and> inbox_ok (inbox s') \<and> length (lines_text fs) + 2 + length w' + k' = length x + k
    \<and> sends s' = sends s \<and> outbox s' = outbox s @ (if expects_continue fs then continue_line else [])"
proof -
  let ?b = "blk (bufs r ! i)" and ?p = "parse_phase_header_line HTTP_PROCESS_PHASE_REQUEST"
  let ?r = "r\<lparr>state := HTTP_PROCESS_STAT_HEADER_LINE\<rparr>"
  have v: "buf_valid ?r i" "blk (bufs ?r ! i) = ?b" using r(1) by (simp_all add: buf_valid_def)
  have ld: "(loaded i u x k r)\<lparr>state := HTTP_PROCESS_STAT_HEADER_LINE\<rparr> = loaded i u x k ?r" by (simp add: loaded_def)
  have ph: "array_ok (phase_headers HTTP_PROCESS_PHASE_REQUEST ?r)" "elts (phase_headers HTTP_PROCESS_PHASE_REQUEST ?r) = []"
    using r(4,5) by (simp_all add: phase_headers_def)
  obtain t s1 w' k' r' where l: "line_loop ?p c i (loaded i u x k ?r) s = Ret (True, r', s1)"
    "w = w' @ arriving (inbox s1)" "length (lines_text fs) + 2 + length w' + k' = length x + k"
    "inbox_ok (inbox s1)" "outbox s1 = outbox s" "sends s1 = sends s"
    and t: "array_ok t" "elts t = table_at ?b (length u) fs"
    "r' = loaded i (u @ lines_cut fs @ CRLF) w' k' (set_phase_headers HTTP_PROCESS_PHASE_REQUEST t ?r)"
    using header_block_pieces [OF v(1) ph ok(1) st, of c u] unfolding v(2) by blast
  have b: "?b < length (mem r')" "mem r' ! ?b = u @ lines_cut fs @ (CRLF @ w' @ replicate (Suc k') NUL)"
    "in_headers (headers_in r') = t" "version r' = version r"
    using v by (simp_all add: t(3) loaded_def buf_valid_def set_phase_headers_def)
  have "headers_in_done r' s1 = Ret (True, r'\<lparr>headers_in := headers_in_at ?b (length u) fs t,
      keep_alive := keep_alive_of (version r) fs\<rparr>,
      s1\<lparr>outbox := outbox s1 @ (if expects_continue fs then continue_line else [])\<rparr>)"
    using headers_in_done_table [OF b(1,2), of s1] b(3,4) t(2) ok l(6) by (simp add: fields_ok_def)
  moreover have "r'\<lparr>headers_in := headers_in_at ?b (length u) fs t, keep_alive := keep_alive_of (version r) fs\<rparr>
      = loaded i (u @ lines_cut fs @ CRLF) w' k' (r\<lparr>state := HTTP_PROCESS_STAT_HEADER_LINE,
          headers_in := headers_in_at ?b (length u) fs t, keep_alive := keep_alive_of (version r) fs\<rparr>)"
    by (simp add: t(3) loaded_def set_phase_headers_def)
  ultimately have "http_process_header_line c HTTP_PROCESS_PHASE_REQUEST (loaded i u x k r) s
      = Ret (True, loaded i (u @ lines_cut fs @ CRLF) w' k' (r\<lparr>state := HTTP_PROCESS_STAT_HEADER_LINE,
          headers_in := headers_in_at ?b (length u) fs t, keep_alive := keep_alive_of (version r) fs\<rparr>),
        s1\<lparr>outbox := outbox s1 @ (if expects_continue fs then continue_line else [])\<rparr>)"
    using l(1) r(2,3) by (simp add: http_process_header_line_def ld)
  then show ?thesis
    using l(2-6) t(1,2)
    by (intro exI [of _ t] exI [of _ "s1\<lparr>outbox := outbox s1 @ (if expects_continue fs then continue_line else [])\<rparr>"]
        exI [of _ w'] exI [of _ k']) simp
qed

end
