(* ===== verification/Body.thy ===== *)
theory Body
  imports Message
begin

text \<open>
  The content body of a known length: \<open>http_process_content_body\<close> delivers exactly the announced bytes,
  however they arrive, never trips its assertion and never writes outside its buffer.
\<close>

section \<open>The receive loop\<close>

text \<open>The ways the loop can end: it hangs in \<open>recv\<close> (only with a stale \<open>EINTR\<close> at the end of the stream), the
  peer closes early, or the body is complete, with \<open>e\<close> what the loop received.\<close>

definition body_outcome ::
  "http_content_body_t \<Rightarrow> nat \<Rightarrow> nat \<Rightarrow> string \<Rightarrow> string \<Rightarrow> string \<Rightarrow> nat \<Rightarrow> http_request_t \<Rightarrow> sock
     \<Rightarrow> (bool \<times> http_content_body_t \<times> http_request_t \<times> sock) res \<Rightarrow> bool" where
  "body_outcome cb n j u y z k r s out \<longleftrightarrow>
     (let good = inbox_ok (inbox s) \<and> n \<le> length y + length (arriving (inbox s)) in
        (out = Crash Diverges \<and> \<not> good)
      \<or> (\<exists>r' s'. out = Ret (False, cb, r'\<lparr>status := HTTP_STATUS_CLOSE\<rparr>, s') \<and> \<not> good)
      \<or> (\<exists>e s'. let r' = filled j u (y @ e) (drop (length e) z) (k - length e) r in
           out = Ret (True, cb\<lparr>content := Some (bufs r' ! j), content_len := int n\<rparr>, r', s')
           \<and> n \<le> length y + length e \<and> length e \<le> k \<and> arriving (inbox s) = e @ arriving (inbox s')
           \<and> outbox s' = outbox s \<and> sends s' = sends s))"

lemma recv_into_filled_cases:
  assumes "buf_valid r i" "k \<le> length z" "k < 2 ^ 64"
  obtains (div) "recv_into i (filled i u d z k r) s = Crash Diverges"
      "\<not> (inbox_ok (inbox s) \<and> arriving (inbox s) \<noteq> [] \<and> 0 < k)"
  | (cls) m s' where "recv_into i (filled i u d z k r) s = Ret (m, filled i u d z k r, s')" "m \<le> 0"
      "\<not> (inbox_ok (inbox s) \<and> arriving (inbox s) \<noteq> [] \<and> 0 < k)"
  | (rcv) e r1 s' where "recv_into i (filled i u d z k r) s = Ret (int (length e), r1, s')" "e \<noteq> []" "length e \<le> k"
      "set_buf i (\<lambda>x. x\<lparr>buf_last := buf_last x + nat (int (length e))\<rparr>) r1
         = filled i u (d @ e) (drop (length e) z) (k - length e) r"
      "arriving (inbox s) = e @ arriving (inbox s')" "outbox s' = outbox s" "sends s' = sends s"
      "inbox_ok (inbox s) \<and> arriving (inbox s) \<noteq> [] \<and> 0 < k \<longrightarrow> inbox_ok (inbox s')"
  using recv_into_filled [OF assms, of u d s]
  apply (elim disjE exE conjE)
  subgoal by (rule div) auto
  subgoal for m e r1 s' by (rule cls [of m s']) auto
  subgoal for m e r1 s' by (rule rcv [of e r1 s']) auto
  done

lemma body_outcome_received:
  assumes "body_outcome cb n j u (y @ e) (drop (length e) z) (k - length e) r s' out"
    and "arriving (inbox s) = e @ arriving (inbox s')" "length e \<le> k"
    and "outbox s' = outbox s" "sends s' = sends s"
    and "inbox_ok (inbox s) \<longrightarrow> n \<le> length y + length (arriving (inbox s)) \<longrightarrow> inbox_ok (inbox s')"
  shows "body_outcome cb n j u y z k r s out"
proof -
  let ?good = "inbox_ok (inbox s) \<and> n \<le> length y + length (arriving (inbox s))"
  let ?good' = "inbox_ok (inbox s') \<and> n \<le> length (y @ e) + length (arriving (inbox s'))"
  have good: "?good \<longrightarrow> ?good'" using assms(2,6) by auto
  consider "out = Crash Diverges" "\<not> ?good'" | r' s'' where "out = Ret (False, cb, r'\<lparr>status := HTTP_STATUS_CLOSE\<rparr>, s'')" "\<not> ?good'"
    | f s'' where "let r' = filled j u ((y @ e) @ f) (drop (length f) (drop (length e) z)) (k - length e - length f) r in
         out = Ret (True, cb\<lparr>content := Some (bufs r' ! j), content_len := int n\<rparr>, r', s'')
           \<and> n \<le> length (y @ e) + length f \<and> length f \<le> k - length e \<and> arriving (inbox s') = f @ arriving (inbox s'')
           \<and> outbox s'' = outbox s' \<and> sends s'' = sends s'"
    using assms(1) unfolding body_outcome_def Let_def by blast
  then show ?thesis
  proof cases
    case 3
    then have "let r' = filled j u (y @ e @ f) (drop (length (e @ f)) z) (k - length (e @ f)) r in
         out = Ret (True, cb\<lparr>content := Some (bufs r' ! j), content_len := int n\<rparr>, r', s'')
           \<and> n \<le> length y + length (e @ f) \<and> length (e @ f) \<le> k \<and> arriving (inbox s) = (e @ f) @ arriving (inbox s'')
           \<and> outbox s'' = outbox s \<and> sends s'' = sends s"
      using assms(2-5) by (auto simp: Let_def add.commute add.assoc)
    then show ?thesis unfolding body_outcome_def Let_def by blast
  qed (use good in \<open>auto simp: body_outcome_def\<close>)
qed

lemma body_loop_outcome:
  assumes "buf_valid r j" "content_fd cb < 0" "k \<le> length z" "length y + k < 2 ^ 31" "n \<le> length y + k"
  shows "body_outcome cb n j u y z k r s (body_loop cb (int n) j (int (length y)) (filled j u y z k r) s)"
  using assms
proof (induction "inbox_size s" arbitrary: y z k s rule: less_induct)
  case less
  let ?F = "filled j u y z k r"
  show ?case
  proof (cases "n \<le> length y")
    case True
    then have "body_loop cb (int n) j (int (length y)) ?F s
        = Ret (True, cb\<lparr>content := Some (bufs ?F ! j), content_len := int n\<rparr>, ?F, s)"
      using less.prems(2) by (simp add: body_loop.simps [of cb "int n"])
    with True show ?thesis by (auto simp: body_outcome_def Let_def intro!: exI [of _ "[]"])
  next
    case False
    then have k: "0 < k" "k < 2 ^ 64" using less.prems(4,5) by auto
    have good: "arriving (inbox s) \<noteq> []" if "n \<le> length y + length (arriving (inbox s))"
      using that False by auto
    consider (div) "recv_into j ?F s = Crash Diverges" "\<not> (inbox_ok (inbox s) \<and> arriving (inbox s) \<noteq> [] \<and> 0 < k)"
      | (cls) m s' where "recv_into j ?F s = Ret (m, ?F, s')" "m \<le> 0"
          "\<not> (inbox_ok (inbox s) \<and> arriving (inbox s) \<noteq> [] \<and> 0 < k)"
      | (rcv) e r1 s' where "recv_into j ?F s = Ret (int (length e), r1, s')" "e \<noteq> []" "length e \<le> k"
          "set_buf j (\<lambda>x. x\<lparr>buf_last := buf_last x + nat (int (length e))\<rparr>) r1
             = filled j u (y @ e) (drop (length e) z) (k - length e) r"
          "arriving (inbox s) = e @ arriving (inbox s')" "outbox s' = outbox s" "sends s' = sends s"
          "inbox_ok (inbox s) \<and> arriving (inbox s) \<noteq> [] \<and> 0 < k \<longrightarrow> inbox_ok (inbox s')"
      by (rule recv_into_filled_cases [OF less.prems(1,3) k(2), of u y s])
    then show ?thesis
    proof cases
      case div
      then show ?thesis
        using False k good by (auto simp: body_loop.simps [of cb "int n"] body_outcome_def Let_def)
    next
      case cls
      then have "body_loop cb (int n) j (int (length y)) ?F s = Ret (False, cb, ?F\<lparr>status := HTTP_STATUS_CLOSE\<rparr>, s')"
        using False by (simp add: body_loop.simps [of cb "int n"])
      then show ?thesis using cls(3) k good unfolding body_outcome_def Let_def by blast
    next
      case rcv
      let ?G = "filled j u (y @ e) (drop (length e) z) (k - length e) r"
      have got: "int32 (int (length y) + int (length e)) = int (length (y @ e))"
        using less.prems(4) rcv(3) by (simp add: int32_id)
      have as: "\<not> (int (length (y @ e)) < int n \<and> buf_end (bufs ?G ! j) = buf_last (bufs ?G ! j))"
        using less.prems(1,5) rcv(3) by auto
      have "body_loop cb (int n) j (int (length y)) ?F s = body_loop cb (int n) j (int (length (y @ e))) ?G s'"
        using False rcv(1,2,4) got as by (simp add: body_loop.simps [of cb "int n" j "int (length y)"] Let_def)
      moreover have "body_outcome cb n j u (y @ e) (drop (length e) z) (k - length e) r s'
          (body_loop cb (int n) j (int (length (y @ e))) ?G s')"
      proof (rule less.hyps)
        show "inbox_size s' < inbox_size s" using recv_into_smaller [OF rcv(1)] rcv(2) by simp
      qed (use less.prems rcv(3) in auto)
      ultimately show ?thesis
        using body_outcome_received [OF _ rcv(5,3,6,7)] rcv(8) k good by metis
    qed
  qed
qed

section \<open>The buffer of the body\<close>

text \<open>Blocks other than \<open>b\<close> are not touched.\<close>

definition keeps_others :: "nat \<Rightarrow> heap \<Rightarrow> http_request_t \<Rightarrow> bool" where
  "keeps_others b h r \<longleftrightarrow> length h \<le> length (mem r) \<and> (\<forall>a < length h. a \<noteq> b \<longrightarrow> mem r ! a = h ! a)"

text \<open>Either buffer leaves what was parsed (\<open>u\<close>) in place and takes over what was received already.\<close>

definition keeps_parsed :: "nat \<Rightarrow> string \<Rightarrow> http_request_t \<Rightarrow> bool" where
  "keeps_parsed b u r \<longleftrightarrow> b < length (mem r) \<and> (\<exists>w. mem r ! b = u @ w)"

lemma sized_body_buf_reuse:
  assumes "buf_valid r i" "n \<le> length x + k"
  shows "\<exists>j r'. sized_body_buf i (int n) (loaded i u x k r) = Ret (j, filled j u x (replicate (Suc k) NUL) k r')
    \<and> buf_valid r' j \<and> (\<exists>h bs. r' = r\<lparr>mem := h, bufs := bs\<rparr>)
    \<and> (\<forall>e z k'. keeps_parsed (blk (bufs r ! i)) u (filled j u e z k' r')
        \<and> keeps_others (blk (bufs r ! i)) (mem r) (filled j u e z k' r'))"
proof -
  let ?L = "loaded i u x k r"
  let ?x = "(bufs ?L ! i)\<lparr>buf_start := buf_pos (bufs ?L ! i)\<rparr>"
  let ?r = "r\<lparr>mem := mem ?L, bufs := bufs ?L @ [?x]\<rparr>" and ?j = "length (bufs r)"
  have j: "bufs ?r ! ?j = ?x" by (simp add: nth_append)
  have b: "blk ?x = blk (bufs r ! i)" "blk (bufs r ! i) < length (mem r)" "i < length (bufs r)"
    using assms(1) by (simp_all add: buf_valid_def)
  have "sized_body_buf i (int n) ?L = Ret (?j, ?L\<lparr>bufs := bufs ?L @ [?x]\<rparr>)"
    using assms by (simp add: sized_body_buf_def Let_def)
  moreover have "filled ?j u x (replicate (Suc k) NUL) k ?r = ?L\<lparr>bufs := bufs ?L @ [?x]\<rparr>"
    unfolding filled_def [of ?j] j using assms(1) b by (simp add: loaded_def list_update_append)
  moreover have "buf_valid ?r ?j" unfolding buf_valid_def j using b by simp
  moreover have "keeps_parsed (blk (bufs r ! i)) u (filled ?j u e z k' ?r)
      \<and> keeps_others (blk (bufs r ! i)) (mem r) (filled ?j u e z k' ?r)" for e z k'
    unfolding keeps_parsed_def keeps_others_def filled_def j using b by (simp add: loaded_def)
  ultimately show ?thesis by metis
qed

lemma sized_body_buf_new:
  assumes "buf_valid r i" "length x + k < n" "n < 2 ^ 31"
  shows "\<exists>j r'. sized_body_buf i (int n) (loaded i u x k r)
      = Ret (j, filled j [] x (replicate (n - length x) NUL) (n - length x) r')
    \<and> buf_valid r' j \<and> (\<exists>h bs. r' = r\<lparr>mem := h, bufs := bs\<rparr>)
    \<and> (\<forall>e z k'. keeps_parsed (blk (bufs r ! i)) u (filled j [] e z k' r')
        \<and> keeps_others (blk (bufs r ! i)) (mem r) (filled j [] e z k' r'))"
proof -
  let ?L = "loaded i u x k r" and ?j = "length (bufs r)"
  let ?y = "\<lparr>blk = length (mem r), buf_start = 0, buf_end = n, buf_pos = 0, buf_last = 0\<rparr>"
  let ?r = "r\<lparr>mem := mem ?L @ [replicate n NUL], bufs := bufs ?L @ [?y]\<rparr>"
  let ?R = "?L\<lparr>mem := mem ?L @ [replicate n NUL], bufs := bufs ?L @ [?y]\<rparr>"
  have i: "i < length (bufs r)" "blk (bufs r ! i) < length (mem r)" using assms(1) by (auto simp: buf_valid_def)
  have nb: "new_buf (int n) ?L = Ret (?j, ?R)"
    by (simp add: new_buf_def buf_create_def)
  have j: "bufs ?R ! ?j = ?y" "bufs ?r ! ?j = ?y" "buf_mem ?R ?j = replicate n NUL"
    by (simp_all add: nth_append buf_mem_def)
  have im: "buf_mem ?R i = u @ x @ replicate (Suc k) NUL" "bufs ?L ! i = \<lparr>blk = blk (bufs r ! i),
       buf_start = buf_start (bufs r ! i), buf_end = length u + length x + k, buf_pos = length u,
       buf_last = length u + length x\<rparr>"
    using i by (simp_all add: buf_mem_def loaded_def nth_append)
  have rest: "size_t_of_int (int (length u + length x) - int (length u)) = length x"
    using assms by (simp add: size_t_of_int_id)
  have wr: "write_at (replicate n NUL) 0 x = Ret (x @ replicate (n - length x) NUL)"
    using write_at_append [of x "replicate n NUL" "[]"] assms(2) by simp
  have cond: "int (buf_end (bufs ?L ! i)) - int (buf_pos (bufs ?L ! i)) < int n" using im(2) assms(2) by simp
  let ?F = "filled ?j [] x (replicate (n - length x) NUL) (n - length x) ?r"
  have fill: "?F = set_buf ?j (\<lambda>y. y\<lparr>buf_last := buf_last y + length x\<rparr>)
      (set_buf_mem ?j (x @ replicate (n - length x) NUL) ?R)"
    unfolding filled_def set_buf_def set_buf_mem_def j
    using assms(2) by (simp add: loaded_def list_update_append nth_append)
  have "sized_body_buf i (int n) ?L = Ret (?j, ?F)"
  proof (cases "x = []")
    case True
    have "?F = ?R" unfolding fill by (simp add: True set_buf_def set_buf_mem_def list_update_append nth_append)
    with True nb cond rest im(2) show ?thesis by (simp add: sized_body_buf_def Let_def)
  next
    case False
    with nb cond rest im j wr show ?thesis
      by (simp add: sized_body_buf_def Let_def fill bytes_at_append del: replicate.simps)
  qed
  moreover have "buf_valid ?r ?j" unfolding buf_valid_def j by simp
  moreover have "keeps_parsed (blk (bufs r ! i)) u (filled ?j [] e z k' ?r)
      \<and> keeps_others (blk (bufs r ! i)) (mem r) (filled ?j [] e z k' ?r)" for e z k'
    unfolding keeps_parsed_def keeps_others_def filled_def j(2) using i by (simp add: nth_append nth_list_update loaded_def)
  ultimately show ?thesis by metis
qed

section \<open>The body is exact\<close>

definition body_text :: "http_request_t \<Rightarrow> buf_t \<Rightarrow> nat \<Rightarrow> string" where
  "body_text r x n = take n (drop (buf_pos x) (mem r ! blk x))"

lemma body_text_filled:
  assumes "buf_valid r j" "n \<le> length y"
  shows "body_text (filled j u y z k r) (bufs (filled j u y z k r) ! j) n = take n y"
proof -
  have "mem (filled j u y z k r) ! blk (bufs r ! j) = u @ y @ z"
    using assms(1) by (simp add: filled_def buf_valid_def)
  with assms show ?thesis by (simp add: body_text_def)
qed

lemma sized_body_buf_ready:
  assumes "buf_valid r i" "n < 2 ^ 31" "length x + k < 2 ^ 31"
  shows "\<exists>j u' z m r'. sized_body_buf i (int n) (loaded i u x k r) = Ret (j, filled j u' x z m r')
    \<and> buf_valid r' j \<and> (\<exists>h bs. r' = r\<lparr>mem := h, bufs := bs\<rparr>) \<and> m \<le> length z \<and> n \<le> length x + m
    \<and> length x + m < 2 ^ 31 \<and> (\<forall>e z k'. keeps_parsed (blk (bufs r ! i)) u (filled j u' e z k' r')
        \<and> keeps_others (blk (bufs r ! i)) (mem r) (filled j u' e z k' r'))"
proof (cases "n \<le> length x + k")
  case True
  obtain j r' where "sized_body_buf i (int n) (loaded i u x k r) = Ret (j, filled j u x (replicate (Suc k) NUL) k r')"
    "buf_valid r' j" "\<exists>h bs. r' = r\<lparr>mem := h, bufs := bs\<rparr>"
    "\<forall>e z k'. keeps_parsed (blk (bufs r ! i)) u (filled j u e z k' r')
       \<and> keeps_others (blk (bufs r ! i)) (mem r) (filled j u e z k' r')"
    using sized_body_buf_reuse [OF assms(1) True] by blast
  with True assms(3) show ?thesis
    by (intro exI [of _ j] exI [of _ u] exI [of _ "replicate (Suc k) NUL"] exI [of _ k] exI [of _ r']) simp
next
  case False
  then have n: "length x + k < n" by simp
  obtain j r' where "sized_body_buf i (int n) (loaded i u x k r)
      = Ret (j, filled j [] x (replicate (n - length x) NUL) (n - length x) r')"
    "buf_valid r' j" "\<exists>h bs. r' = r\<lparr>mem := h, bufs := bs\<rparr>"
    "\<forall>e z k'. keeps_parsed (blk (bufs r ! i)) u (filled j [] e z k' r')
       \<and> keeps_others (blk (bufs r ! i)) (mem r) (filled j [] e z k' r')"
    using sized_body_buf_new [OF assms(1) n assms(2)] by blast
  with n assms(2) show ?thesis
    by (intro exI [of _ j] exI [of _ "[]"] exI [of _ "replicate (n - length x) NUL"] exI [of _ "n - length x"] exI [of _ r']) simp
qed

lemma content_body_outcome:
  assumes r: "buf_valid r i" "header_buf r = Some i" "state r = HTTP_PROCESS_STAT_HEADER_LINE"
      "req_method r \<noteq> HTTP_METHOD_HEAD"
    and n: "0 < n" "int n \<le> max_content_len c" "n < 2 ^ 31" "length x + k < 2 ^ 31" and fd: "content_fd cb < 0"
  shows "let out = http_process_content_body c (loaded i u x k r) s cb (int n);
             good = inbox_ok (inbox s) \<and> n \<le> length x + length (arriving (inbox s)) in
    (out = Crash Diverges \<and> \<not> good)
  \<or> (\<exists>r' s'. out = Ret (False, cb, r'\<lparr>status := HTTP_STATUS_CLOSE\<rparr>, s') \<and> \<not> good)
  \<or> (\<exists>r' s' y h bs. out = Ret (True, cb\<lparr>content := Some y, content_len := int n\<rparr>, r', s')
        \<and> body_text r' y n = take n (x @ arriving (inbox s)) \<and> n \<le> buf_last y - buf_pos y
        \<and> keeps_parsed (blk (bufs r ! i)) u r' \<and> keeps_others (blk (bufs r ! i)) (mem r) r'
        \<and> outbox s' = outbox s \<and> sends s' = sends s
        \<and> r' = r\<lparr>mem := h, bufs := bs, state := HTTP_PROCESS_STAT_CONTENT_BODY\<rparr>
        \<and> (\<exists>e. arriving (inbox s) = e @ arriving (inbox s') \<and> n \<le> length (x @ e)))"
proof -
  let ?r = "r\<lparr>state := HTTP_PROCESS_STAT_CONTENT_BODY\<rparr>" and ?b = "blk (bufs r ! i)"
  have v: "buf_valid ?r i" using r(1) by (simp add: buf_valid_def)
  have L: "(loaded i u x k r)\<lparr>state := HTTP_PROCESS_STAT_CONTENT_BODY\<rparr> = loaded i u x k ?r" by (simp add: loaded_def)
  obtain j u' z m r' h0 bs0 where b: "sized_body_buf i (int n) (loaded i u x k ?r) = Ret (j, filled j u' x z m r')"
    "buf_valid r' j" "r' = ?r\<lparr>mem := h0, bufs := bs0\<rparr>" "m \<le> length z" "n \<le> length x + m" "length x + m < 2 ^ 31"
    "\<forall>e z k'. keeps_parsed ?b u (filled j u' e z k' r') \<and> keeps_others ?b (mem r) (filled j u' e z k' r')"
    using sized_body_buf_ready [OF v n(3,4), of u] by auto
  define out where "out = http_process_content_body c (loaded i u x k r) s cb (int n)"
  have "out = body_loop cb (int n) j (int (length x)) (filled j u' x z m r') s"
    using r n(1,2) b(1,2) by (simp add: out_def http_process_content_body_def L Let_def)
  with body_loop_outcome [OF b(2) fd b(4,6,5), of u' s]
  have "body_outcome cb n j u' x z m r' s out" by simp
  then consider "out = Crash Diverges" "\<not> (inbox_ok (inbox s) \<and> n \<le> length x + length (arriving (inbox s)))"
    | r1 s' where "out = Ret (False, cb, r1\<lparr>status := HTTP_STATUS_CLOSE\<rparr>, s')"
        "\<not> (inbox_ok (inbox s) \<and> n \<le> length x + length (arriving (inbox s)))"
    | e s' r1 where "r1 = filled j u' (x @ e) (drop (length e) z) (m - length e) r'"
        "out = Ret (True, cb\<lparr>content := Some (bufs r1 ! j), content_len := int n\<rparr>, r1, s')"
        "n \<le> length (x @ e)" "arriving (inbox s) = e @ arriving (inbox s')" "outbox s' = outbox s" "sends s' = sends s"
    unfolding body_outcome_def Let_def by auto
  then show ?thesis
  proof cases
    case 3
    have "body_text r1 (bufs r1 ! j) n = take n (x @ e)" unfolding 3(1) by (rule body_text_filled [OF b(2) 3(3)])
    moreover have "take n (x @ e) = take n (x @ arriving (inbox s))" using 3(3,4) by simp
    moreover have "n \<le> buf_last (bufs r1 ! j) - buf_pos (bufs r1 ! j)" using b(2) 3(1,3) by simp
    moreover have "r1 = r\<lparr>mem := mem r1, bufs := bufs r1, state := HTTP_PROCESS_STAT_CONTENT_BODY\<rparr>"
      by (simp add: 3(1) filled_def b(3))
    moreover have "keeps_parsed ?b u r1" "keeps_others ?b (mem r) r1" using b(7) 3(1) by simp_all
    moreover have "\<exists>e. arriving (inbox s) = e @ arriving (inbox s') \<and> n \<le> length (x @ e)" using 3(3,4) by blast
    ultimately show ?thesis using 3(2,5,6) unfolding Let_def out_def [symmetric] by metis
  qed (auto simp: Let_def out_def [symmetric])
qed

end
