(* ===== verification/Received.thy ===== *)
theory Received
  imports Response Body
begin

text \<open>
  A whole request, received whatever pieces it arrives in: the request line, the header block and the body
  put together.
\<close>

section \<open>A whole request\<close>

lemma request_line_texts:
  assumes b: "b < length h" "h ! b = request_line_cut mt (target_cut p q) vs @ w" and wf: "request_wf mt p q vs d v"
  shows "deref h (At b 0) = Ret mt" "deref h (At b (length mt + length (target p q) + 2)) = Ret vs"
    "deref h (At b (length mt + 1)) = Ret p"
    "q = Some x \<Longrightarrow> deref h (At b (length mt + 1 + length p + 1)) = Ret x"
proof -
  have nul: "NUL \<notin> set mt" "NUL \<notin> set vs" "NUL \<notin> set p" "\<And>s. q = Some s \<Longrightarrow> NUL \<notin> set s"
    using wf by (auto simp: request_wf_def token_ok_def path_ok_def query_ok_def)
  have at: "deref h (At b (length y)) = Ret t" if "h ! b = y @ t @ NUL # z" "NUL \<notin> set t" for y t z
    using that b(1) by (simp add: nul_from_def cstr_at_append)
  show "deref h (At b 0) = Ret mt"
    using at [of "[]" mt] b(2) nul(1) by (simp add: request_line_cut_def del: deref_simps)
  show "deref h (At b (length mt + length (target p q) + 2)) = Ret vs"
    using at [of "mt @ NUL # target_cut p q @ [NUL]" vs "LF # w"] b(2) nul(2)
    by (simp add: request_line_cut_def length_target_cut add_ac del: deref_simps)
  show "deref h (At b (length mt + 1)) = Ret p"
    using at [of "mt @ [NUL]" p] b(2) nul(3)
    by (cases q) (simp_all add: request_line_cut_def target_cut_def del: deref_simps)
  show "deref h (At b (length mt + 1 + length p + 1)) = Ret x" if "q = Some x"
    using at [of "mt @ NUL # p @ [NUL]" x] b(2) nul(4) [OF that] that
    by (simp add: request_line_cut_def target_cut_def add_ac del: deref_simps)
qed

text \<open>The head of a message, and the body it announces.\<close>

definition request_head :: "string \<Rightarrow> string \<Rightarrow> string option \<Rightarrow> string \<Rightarrow> (string \<times> string) list \<Rightarrow> string" where
  "request_head mt p q vs fs = request_line mt (target p q) vs @ lines_text fs @ CRLF"

text \<open>What the request must hold once it is received.\<close>

definition request_is ::
  "string \<Rightarrow> string \<Rightarrow> string option \<Rightarrow> string \<Rightarrow> http_method_e \<Rightarrow> http_version_e \<Rightarrow> (string \<times> string) list \<Rightarrow> string
     \<Rightarrow> http_request_t \<Rightarrow> bool" where
  "request_is mt p q vs d v fs body r \<longleftrightarrow>
     req_method r = d \<and> version r = v \<and> keep_alive r = keep_alive_of v fs
   \<and> deref (mem r) (data (method_str r)) = Ret mt \<and> deref (mem r) (data (version_str r)) = Ret vs
   \<and> deref (mem r) (data (unparsed_url (url r))) = Ret (target p q)
   \<and> deref (mem r) (data (path (url r))) = Ret p
   \<and> (\<forall>x. q = Some x \<longrightarrow> deref (mem r) (data (query_string (url r))) = Ret x)
   \<and> map (\<lambda>x. (text_of (mem r) (hname x), text_of (mem r) (hvalue x))) (elts (in_headers (headers_in r))) = fs
   \<and> str_is (mem r) (header_host (headers_in r)) (header_get fs ''Host'')
   \<and> (if body = [] then content (body_in r) = None
      else \<exists>x. content (body_in r) = Some x \<and> content_len (body_in r) = int (length body)
             \<and> body_text r x (length body) = body)"

lemma request_is_parsed:
  assumes wf: "request_wf mt p q vs d v" "fields_ok fs"
    and kp: "keeps_parsed b (request_line_cut mt (target_cut p q) vs @ lines_cut fs @ CRLF) r"
    and r: "req_method r = d" "version r = v" "keep_alive r = keep_alive_of v fs"
      "method_str r = \<lparr>data = At b 0, len = length mt\<rparr>"
      "version_str r = \<lparr>data = At b (length mt + length (target p q) + 2), len = length vs\<rparr>"
      "url r = url_result b (length mt + 1) p q u0"
      "headers_in r = headers_in_at b (length (request_line_cut mt (target_cut p q) vs)) fs t"
      "elts t = table_at b (length (request_line_cut mt (target_cut p q) vs)) fs"
    and body: "if body = [] then content (body_in r) = None
      else \<exists>x. content (body_in r) = Some x \<and> content_len (body_in r) = int (length body)
             \<and> body_text r x (length body) = body"
  shows "request_is mt p q vs d v fs body r"
proof -
  let ?c = "request_line_cut mt (target_cut p q) vs"
  obtain w where w: "b < length (mem r)" "mem r ! b = ?c @ lines_cut fs @ (CRLF @ w)"
    using kp by (auto simp: keeps_parsed_def)
  note lt = request_line_texts [OF w wf(1)]
  have ok: "\<forall>f \<in> set fs. field_ok f" using wf(2) by (simp add: fields_ok_def)
  have "map (\<lambda>x. (text_of (mem r) (hname x), text_of (mem r) (hvalue x))) (elts t) = fs"
    using table_texts [OF w ok] r(8) by simp
  moreover have "str_is (mem r) (value_at b (length ?c) fs ''Host'') (header_get fs ''Host'')"
    using header_find_table [OF w ok] by blast
  ultimately show ?thesis
    using r body lt
    by (auto simp: request_is_def headers_in_at_def url_result_def simp del: deref_simps(3))
qed

lemma gen_request_steps:
  assumes "http_process_request_line c r s = Ret (True, r1, s1)"
    and "http_process_header_line c HTTP_PROCESS_PHASE_REQUEST r1 s1 = Ret (True, r2, s2)"
    and "http_process_content_body c r2 s2 (body_in r2) (in_content_len (headers_in r2)) = Ret (ok, cb, r3, s3)"
  shows "connection_gen_request c r s = Ret (r3\<lparr>body_in := cb\<rparr>, s3)"
  using assms by (simp add: connection_gen_request_def)

text \<open>The request after its head, and when the body it holds is the one sent.\<close>

definition parsed_request ::
  "nat \<Rightarrow> string \<Rightarrow> string \<Rightarrow> string option \<Rightarrow> string \<Rightarrow> http_method_e \<Rightarrow> http_version_e \<Rightarrow> (string \<times> string) list
     \<Rightarrow> headers \<Rightarrow> http_request_t \<Rightarrow> http_request_t" where
  "parsed_request n mt p q vs d v fs t r =
     (request_line_set (length (mem r)) 0 mt p q vs d v ((fresh_buf n r)\<lparr>state := HTTP_PROCESS_STAT_REQUEST_LINE\<rparr>))
       \<lparr>state := HTTP_PROCESS_STAT_HEADER_LINE,
        headers_in := headers_in_at (length (mem r)) (length (request_line_cut mt (target_cut p q) vs)) fs t,
        keep_alive := keep_alive_of v fs\<rparr>"

definition parsed_text :: "string \<Rightarrow> string \<Rightarrow> string option \<Rightarrow> string \<Rightarrow> (string \<times> string) list \<Rightarrow> string" where
  "parsed_text mt p q vs fs = request_line_cut mt (target_cut p q) vs @ lines_cut fs @ CRLF"

definition body_is :: "string \<Rightarrow> http_content_body_t \<Rightarrow> http_request_t \<Rightarrow> bool" where
  "body_is body cb r \<longleftrightarrow> (if body = [] then content cb = None
     else \<exists>x. content cb = Some x \<and> content_len cb = int (length body) \<and> body_text r x (length body) = body)"

lemma body_is_update [simp]: "body_is b cb (r\<lparr>body_in := x\<rparr>) = body_is b cb r" "body_is b cb (r\<lparr>body_out := x\<rparr>) = body_is b cb r"
  by (simp_all add: body_is_def body_text_def)

lemma parsed_request_simps:
  "buf_valid (parsed_request n mt p q vs d v fs t r) (length (bufs r))"
  "header_buf (parsed_request n mt p q vs d v fs t r) = Some (length (bufs r))"
  "state (parsed_request n mt p q vs d v fs t r) = HTTP_PROCESS_STAT_HEADER_LINE"
  "req_method (parsed_request n mt p q vs d v fs t r) = d"
  "blk (bufs (parsed_request n mt p q vs d v fs t r) ! length (bufs r)) = length (mem r)"
  "body_in (parsed_request n mt p q vs d v fs t r) = body_in r"
  "status (parsed_request n mt p q vs d v fs t r) = status r"
  "in_content_len (headers_in (parsed_request n mt p q vs d v fs t r)) = content_len_of fs"
  by (simp_all add: parsed_request_def request_line_set_def fresh_buf_def buf_valid_def headers_in_at_def)

lemma loaded_body_in: "body_in (loaded i u w k r) = body_in r" "status (loaded i u w k r) = status r"
  by (simp_all add: loaded_def)

lemma head_received:
  assumes r: "http_request_create ip prt = Ret r"
    and c: "client_header_size c = int n" "n < 2 ^ 31 - 1"
    and wf: "request_wf mt p q vs d v" "fields_ok fs"
    and fits: "length (request_head mt p q vs fs) \<le> n"
    and s: "inbox_ok (inbox s)" "arriving (inbox s) = request_head mt p q vs fs @ rest" "sends s = []"
  shows "\<exists>r1 s1 t s2 w k. http_process_request_line c r s = Ret (True, r1, s1)
    \<and> http_process_header_line c HTTP_PROCESS_PHASE_REQUEST r1 s1
        = Ret (True, loaded (length (bufs r)) (parsed_text mt p q vs fs) w k (parsed_request n mt p q vs d v fs t r), s2)
    \<and> elts t = table_at (length (mem r)) (length (request_line_cut mt (target_cut p q) vs)) fs
    \<and> rest = w @ arriving (inbox s2) \<and> inbox_ok (inbox s2) \<and> length w + k < 2 ^ 31 \<and> sends s2 = []
    \<and> outbox s2 = outbox s @ (if expects_continue fs then continue_line else [])"
proof -
  let ?l = "request_line mt (target p q) vs" and ?c = "request_line_cut mt (target_cut p q) vs"
  let ?i = "length (bufs r)" and ?b = "length (mem r)"
  let ?R = "request_line_set ?b 0 mt p q vs d v ((fresh_buf n r)\<lparr>state := HTTP_PROCESS_STAT_REQUEST_LINE\<rparr>)"
  have r0: "state r = HTTP_PROCESS_STAT_NONE" "array_ok (in_headers (headers_in r))" "elts (in_headers (headers_in r)) = []"
    using r by (auto simp: http_request_create_def array_create_def array_ok_def array_count_def)
  have len_l: "length ?l + (length (lines_text fs) + 2) \<le> n" using fits by (simp add: request_head_def CRLF_def)
  obtain s1 w1 k1 where 1: "http_process_request_line c r s = Ret (True, loaded ?i ?c w1 k1 ?R, s1)"
    "lines_text fs @ CRLF @ rest = w1 @ arriving (inbox s1)" "inbox_ok (inbox s1)"
    "outbox s1 = outbox s" "sends s1 = sends s" "length ?l + length w1 + k1 = n"
    using http_process_request_line_pieces [OF r0(1) c wf(1) s(1), of "lines_text fs @ CRLF @ rest"] s(2) len_l
    unfolding after_request_line_def by (auto simp: request_head_def)
  have R: "buf_valid ?R ?i" "header_buf ?R = Some ?i" "state ?R = HTTP_PROCESS_STAT_REQUEST_LINE"
    "array_ok (in_headers (headers_in ?R))" "elts (in_headers (headers_in ?R)) = []" "blk (bufs ?R ! ?i) = ?b" "version ?R = v"
    using r0 by (simp_all add: request_line_set_def fresh_buf_def buf_valid_def)
  have k1: "k1 < 2 ^ 64" "length (lines_text fs) + 2 \<le> length w1 + k1" using 1(6) c(2) len_l by auto
  obtain t s2 w2 k2 where 2: "http_process_header_line c HTTP_PROCESS_PHASE_REQUEST (loaded ?i ?c w1 k1 ?R) s1
      = Ret (True, loaded ?i (?c @ lines_cut fs @ CRLF) w2 k2 (?R\<lparr>state := HTTP_PROCESS_STAT_HEADER_LINE,
          headers_in := headers_in_at ?b (length ?c) fs t, keep_alive := keep_alive_of v fs\<rparr>), s2)"
    "elts t = table_at ?b (length ?c) fs" "rest = w2 @ arriving (inbox s2)" "inbox_ok (inbox s2)"
    "length (lines_text fs) + 2 + length w2 + k2 = length w1 + k1" "sends s2 = sends s1"
    "outbox s2 = outbox s1 @ (if expects_continue fs then continue_line else [])"
    using http_process_header_line_pieces [OF R(1-5) wf(2) _ 1(3) _ k1(2,1), of rest c ?c] 1(2,5) s(3) R(6,7)
    by (metis append.assoc)
  have "length w2 + k2 < 2 ^ 31" using 2(5) 1(6) c(2) by simp
  with 1 2 s(3) show ?thesis
    unfolding parsed_text_def parsed_request_def by (intro exI conjI) (assumption | simp)+
qed

lemma body_received:
  assumes r: "buf_valid r i" "header_buf r = Some i" "state r = HTTP_PROCESS_STAT_HEADER_LINE" "req_method r \<noteq> HTTP_METHOD_HEAD"
    and n: "int (length body) \<le> max_content_len c" "length body < 2 ^ 31" "length w + k < 2 ^ 31"
    and b: "content cb = None" "content_fd cb < 0"
    and s: "inbox_ok (inbox s)" "body @ extra = w @ arriving (inbox s)"
  shows "\<exists>cb' r' s' h bs. http_process_content_body c (loaded i u w k r) s cb (int (length body)) = Ret (True, cb', r', s')
    \<and> r' = r\<lparr>mem := h, bufs := bs, state := HTTP_PROCESS_STAT_CONTENT_BODY\<rparr> \<and> body_is body cb' r'
    \<and> keeps_parsed (blk (bufs r ! i)) u r' \<and> outbox s' = outbox s \<and> sends s' = sends s
    \<and> suffix (arriving (inbox s')) extra \<and> keeps_others (blk (bufs r ! i)) (mem r) r' \<and> (body = [] \<longrightarrow> cb' = cb)"
proof (cases "body = []")
  case True
  let ?L = "loaded i u w k r"
  have "http_process_content_body c ?L s cb (int (length body)) = Ret (True, cb, ?L\<lparr>state := HTTP_PROCESS_STAT_CONTENT_BODY\<rparr>, s)"
    using r True by (simp add: http_process_content_body_def Let_def)
  moreover have "?L\<lparr>state := HTTP_PROCESS_STAT_CONTENT_BODY\<rparr>
      = r\<lparr>mem := mem ?L, bufs := bufs ?L, state := HTTP_PROCESS_STAT_CONTENT_BODY\<rparr>"
    by (simp add: loaded_def)
  moreover have "keeps_parsed (blk (bufs r ! i)) u (?L\<lparr>state := HTTP_PROCESS_STAT_CONTENT_BODY\<rparr>)"
    using r(1) by (auto simp: keeps_parsed_def loaded_def buf_valid_def)
  moreover have "keeps_others (blk (bufs r ! i)) (mem r) (?L\<lparr>state := HTTP_PROCESS_STAT_CONTENT_BODY\<rparr>)"
    by (simp add: keeps_others_def loaded_def)
  moreover have "suffix (arriving (inbox s)) extra" using s(2) True by (auto simp: suffix_def)
  ultimately show ?thesis using b(1) True by (auto simp: body_is_def)
next
  case False
  then have n0: "0 < length body" by simp
  have good: "inbox_ok (inbox s) \<and> length body \<le> length w + length (arriving (inbox s))"
    using s by (metis le_add1 length_append)
  with content_body_outcome [OF r n0 n b(2), of u s]
  obtain r1 s3 y h bs e where o: "http_process_content_body c (loaded i u w k r) s cb (int (length body))
      = Ret (True, cb\<lparr>content := Some y, content_len := int (length body)\<rparr>, r1, s3)"
    "body_text r1 y (length body) = take (length body) (w @ arriving (inbox s))"
    "keeps_parsed (blk (bufs r ! i)) u r1" "outbox s3 = outbox s" "sends s3 = sends s"
    "r1 = r\<lparr>mem := h, bufs := bs, state := HTTP_PROCESS_STAT_CONTENT_BODY\<rparr>"
    "arriving (inbox s) = e @ arriving (inbox s3)" "length body \<le> length (w @ e)" "keeps_others (blk (bufs r ! i)) (mem r) r1"
    unfolding Let_def by blast
  have "body @ extra = (w @ e) @ arriving (inbox s3)" using s(2) o(7) by simp
  then have left: "suffix (arriving (inbox s3)) extra"
    using o(8) by (metis append_eq_append_conv_if append_eq_conv_conj suffix_def)
  have "body_is body (cb\<lparr>content := Some y, content_len := int (length body)\<rparr>) r1"
    using False o(2) by (simp add: body_is_def s(2) [symmetric])
  with o left False show ?thesis by blast
qed

lemma gen_request_received:
  assumes r: "http_request_create ip prt = Ret r"
    and c: "client_header_size c = int n" "n < 2 ^ 31 - 1"
    and wf: "request_wf mt p q vs d v" "fields_ok fs" "d \<noteq> HTTP_METHOD_HEAD"
    and fits: "length (request_head mt p q vs fs) \<le> n"
    and body: "content_len_of fs = int (length body)" "int (length body) \<le> max_content_len c" "length body < 2 ^ 31"
    and s: "inbox_ok (inbox s)" "arriving (inbox s) = request_head mt p q vs fs @ body @ extra" "sends s = []"
  shows "\<exists>t h bs cb s'. let r' = (parsed_request n mt p q vs d v fs t r)
        \<lparr>mem := h, bufs := bs, state := HTTP_PROCESS_STAT_CONTENT_BODY, body_in := cb\<rparr> in
      connection_gen_request c r s = Ret (r', s') \<and> request_is mt p q vs d v fs body r'
    \<and> sends s' = [] \<and> outbox s' = outbox s @ (if expects_continue fs then continue_line else [])
    \<and> suffix (arriving (inbox s')) extra \<and> keeps_parsed (length (mem r)) (parsed_text mt p q vs fs) r'
    \<and> elts t = table_at (length (mem r)) (length (request_line_cut mt (target_cut p q) vs)) fs
    \<and> body_is body cb r' \<and> (body = [] \<longrightarrow> cb = body_in r)"
proof -
  obtain r1 s1 t s2 w k where h: "http_process_request_line c r s = Ret (True, r1, s1)"
    "http_process_header_line c HTTP_PROCESS_PHASE_REQUEST r1 s1
        = Ret (True, loaded (length (bufs r)) (parsed_text mt p q vs fs) w k (parsed_request n mt p q vs d v fs t r), s2)"
    "elts t = table_at (length (mem r)) (length (request_line_cut mt (target_cut p q) vs)) fs"
    "body @ extra = w @ arriving (inbox s2)" "inbox_ok (inbox s2)" "length w + k < 2 ^ 31" "sends s2 = []"
    "outbox s2 = outbox s @ (if expects_continue fs then continue_line else [])"
    using head_received [OF r c wf(1,2) fits s] by blast
  let ?R = "parsed_request n mt p q vs d v fs t r"
  let ?L = "loaded (length (bufs r)) (parsed_text mt p q vs fs) w k ?R"
  have b0: "content (body_in ?L) = None" "content_fd (body_in ?L) < 0"
    using r by (auto simp: loaded_body_in parsed_request_simps http_request_create_def array_create_def)
  have "req_method ?R \<noteq> HTTP_METHOD_HEAD" using wf(3) by (simp add: parsed_request_simps)
  from body_received [OF parsed_request_simps(1-3) this body(2,3) h(6) b0 h(5,4)]
  obtain cb r3 s3 m bs where b: "http_process_content_body c ?L s2 (body_in ?L) (int (length body)) = Ret (True, cb, r3, s3)"
    "r3 = ?R\<lparr>mem := m, bufs := bs, state := HTTP_PROCESS_STAT_CONTENT_BODY\<rparr>" "body_is body cb r3"
    "keeps_parsed (length (mem r)) (parsed_text mt p q vs fs) r3" "outbox s3 = outbox s2" "sends s3 = sends s2"
    "suffix (arriving (inbox s3)) extra" "body = [] \<longrightarrow> cb = body_in ?L"
    unfolding parsed_request_simps by blast
  have len: "in_content_len (headers_in ?L) = int (length body)" using body(1) by (simp add: loaded_fields parsed_request_simps)
  let ?r = "?R\<lparr>mem := m, bufs := bs, state := HTTP_PROCESS_STAT_CONTENT_BODY, body_in := cb\<rparr>"
  have "connection_gen_request c r s = Ret (r3\<lparr>body_in := cb\<rparr>, s3)"
    by (rule gen_request_steps [OF h(1,2)]) (unfold len, rule b(1))
  moreover have eq: "r3\<lparr>body_in := cb\<rparr> = ?r" by (simp add: b(2))
  moreover have "request_is mt p q vs d v fs body ?r"
  proof (rule request_is_parsed [OF wf(1,2), where b = "length (mem r)" and t = t and ?u0.0 = "url r"])
    show "keeps_parsed (length (mem r)) (request_line_cut mt (target_cut p q) vs @ lines_cut fs @ CRLF) ?r"
      using b(4) by (simp add: eq [symmetric] parsed_text_def keeps_parsed_def)
    show "if body = [] then content (body_in ?r) = None
      else \<exists>x. content (body_in ?r) = Some x \<and> content_len (body_in ?r) = int (length body)
             \<and> body_text ?r x (length body) = body"
      using b(3) by (auto simp: b(2) body_is_def body_text_def)
  qed (use h(3) in \<open>simp_all add: parsed_request_def request_line_set_def fresh_buf_def\<close>)
  moreover have "keeps_parsed (length (mem r)) (parsed_text mt p q vs fs) ?r" "body_is body cb ?r"
    using b(3,4) by (simp_all add: eq [symmetric] keeps_parsed_def)
  moreover have "body = [] \<longrightarrow> cb = body_in r" using b(8) by (simp add: loaded_body_in parsed_request_simps)
  ultimately show ?thesis
    using b(5,6,7) h(3,7,8) unfolding Let_def
    by (intro exI [of _ t] exI [of _ m] exI [of _ bs] exI [of _ cb] exI [of _ s3]) simp
qed

text \<open>C2: A client sends a well-formed request whose head fits the configured header buffer, with a body of the
  announced length, and possibly more. However the network cuts the bytes into pieces, and with any
  number of interrupted calls, \<open>connection_gen_request\<close> succeeds: the request's method, version, URL,
  path, query, headers and body are exactly those sent, and the status is still 200.\<close>

theorem request_received:
  assumes r: "http_request_create ip prt = Ret r"
    and c: "client_header_size c = int n" "n < 2 ^ 31 - 1"
    and wf: "request_wf mt p q vs d v" "fields_ok fs" "d \<noteq> HTTP_METHOD_HEAD"
    and fits: "length (request_head mt p q vs fs) \<le> n"
    and body: "content_len_of fs = int (length body)" "int (length body) \<le> max_content_len c" "length body < 2 ^ 31"
    and s: "inbox_ok (inbox s)" "arriving (inbox s) = request_head mt p q vs fs @ body @ extra" "sends s = []"
  shows "\<exists>r' s'. connection_gen_request c r s = Ret (r', s') \<and> status r' = HTTP_STATUS_OK
    \<and> request_is mt p q vs d v fs body r'
    \<and> outbox s' = outbox s @ (if expects_continue fs then continue_line else [])"
proof -
  have "status r = HTTP_STATUS_OK" using r by (auto simp: http_request_create_def array_create_def)
  moreover have "status (r1\<lparr>mem := h, bufs := bs, state := st, body_in := cb\<rparr>) = status r1" for r1 h bs st cb by simp
  ultimately show ?thesis
    using gen_request_received [OF assms] unfolding Let_def by (metis parsed_request_simps(7))
qed

theorem request_received_witness:
  "\<exists>r' s'. connection_gen_request sample_conf fresh_request
      \<lparr>inbox = [Data ''POST /a HT'', Recv_Error EINTR, Data (''TP/1.1'' @ CRLF @ ''Host: a'' @ CRLF @ ''Content-Le''),
         Data (''ngth: 3'' @ CRLF @ CRLF @ ''ab''), Data ''cGET /b''], sends = [], outbox = [], sock_errno = E_OK\<rparr> = Ret (r', s')
    \<and> status r' = HTTP_STATUS_OK
    \<and> request_is ''POST'' ''/a'' None ''HTTP/1.1'' HTTP_METHOD_POST HTTP_VERSION_11
        [(''Host'', ''a''), (''Content-Length'', ''3'')] ''abc'' r'"
proof -
  let ?s = "\<lparr>inbox = [Data ''POST /a HT'', Recv_Error EINTR, Data (''TP/1.1'' @ CRLF @ ''Host: a'' @ CRLF @ ''Content-Le''),
         Data (''ngth: 3'' @ CRLF @ CRLF @ ''ab''), Data ''cGET /b''], sends = [], outbox = [], sock_errno = E_OK\<rparr>"
  let ?fs = "[(''Host'', ''a''), (''Content-Length'', ''3'')]"
  have "\<exists>r' s'. connection_gen_request sample_conf fresh_request ?s = Ret (r', s') \<and> status r' = HTTP_STATUS_OK
    \<and> request_is ''POST'' ''/a'' None ''HTTP/1.1'' HTTP_METHOD_POST HTTP_VERSION_11 ?fs ''abc'' r'
    \<and> outbox s' = outbox ?s @ (if expects_continue ?fs then continue_line else [])"
  proof (rule request_received [OF fresh_request_eq, where n = 256 and extra = "''GET /b''"])
    show "request_wf ''POST'' ''/a'' None ''HTTP/1.1'' HTTP_METHOD_POST HTTP_VERSION_11"
      by (simp add: request_wf_def token_ok_def path_ok_def isspace_def byte_def parse_method_def strncasecmp_eq_def
          cchar_defs parse_version_def strstr_here)
    show "fields_ok ?fs"
      by (simp add: fields_ok_def field_ok_def isspace_def byte_def prefix_free_def strncasecmp_eq_def cchar_defs)
    show "content_len_of ?fs = int (length ''abc'')"
      by (simp add: content_len_of_def header_get_def strncasecmp_eq_def cchar_defs atoi_def strtol10_def int32_def)
  qed (simp_all add: sample_conf_def request_head_def request_line_def target_def field_line_def CRLF_def)
  then show ?thesis by blast
qed

end
