(* ===== verification/Connection_Run.thy ===== *)
theory Connection_Run
  imports Received
begin

text \<open>
  Serving a connection: the loop over the requests of a connection ends, a connection that was served is
  ready for the next client, and a file asked for is what the client gets.
\<close>

section \<open>The loop ends\<close>

text \<open>Frames: no step of a round but the evaluation of the request's headers makes a connection stay, and what
  is still to arrive never grows.\<close>

lemma recv_into_frame:
  assumes "recv_into i r s = Ret (m, r', s')"
  shows "keep_alive r' = keep_alive r \<and> inbox_size s' \<le> inbox_size s"
proof -
  have "recv_retry n ib er = Ret (m, d, ib', er') \<Longrightarrow> sum_list (map rcv_size ib') \<le> sum_list (map rcv_size ib)" for n ib er d ib' er'
    by (induction n ib er rule: recv_retry.induct) (auto simp: Let_def split: if_splits)
  with assms show ?thesis by (auto simp: recv_into_def Let_def set_buf_mem_def inbox_size_def)
qed

lemma alloc_large_frame:
  "http_alloc_large_client_header_buf c r = Ret (ok, r') \<Longrightarrow> keep_alive r' = keep_alive r"
  by (auto simp: http_alloc_large_client_header_buf_def new_buf_def reserve_nul_def set_buf_def set_buf_mem_def Let_def
      split: option.splits if_splits)

lemma line_loop_frame:
  assumes "\<And>r i x r'. parse r i = Ret (x, r') \<Longrightarrow> keep_alive r' = keep_alive r"
    and "line_loop parse c i r s = Ret (ok, r', s')"
  shows "keep_alive r' = keep_alive r \<and> inbox_size s' \<le> inbox_size s"
  using assms(2)
proof (induction "inbox_size s" arbitrary: r s rule: less_induct)
  case less
  from less.prems obtain x r1 where p: "parse r i = Ret (x, r1)"
    by (auto simp: line_loop.simps [of parse c i r])
  note ka = assms(1) [OF p]
  show ?case
  proof (cases x)
    case HTTP_PARSE_AGAIN
    with less.prems p obtain ok2 r2 where a: "(if buf_last (bufs r1 ! i) = buf_end (bufs r1 ! i)
        then http_alloc_large_client_header_buf c r1 else Ret (True, r1)) = Ret (ok2, r2)"
      by (auto simp: line_loop.simps [of parse c i r])
    then have ka2: "keep_alive r2 = keep_alive r" using alloc_large_frame ka by (auto split: if_splits)
    show ?thesis
    proof (cases ok2)
      case False
      with less.prems p HTTP_PARSE_AGAIN a ka2 show ?thesis by (auto simp: line_loop.simps [of parse c i r])
    next
      case True
      with less.prems p HTTP_PARSE_AGAIN a obtain m r3 s3 where rc: "recv_into i r2 s = Ret (m, r3, s3)"
        by (auto simp: line_loop.simps [of parse c i r])
      note fr = recv_into_frame [OF rc]
      show ?thesis
      proof (cases "m \<le> 0")
        case True
        with less.prems p HTTP_PARSE_AGAIN a \<open>ok2\<close> rc fr ka2 show ?thesis
          by (auto simp: line_loop.simps [of parse c i r])
      next
        case False
        let ?r = "set_buf i (\<lambda>x. x\<lparr>buf_last := buf_last x + nat m\<rparr>) r3"
        have "line_loop parse c i ?r s3 = Ret (ok, r', s')"
          using less.prems p HTTP_PARSE_AGAIN a \<open>ok2\<close> rc False by (auto simp: line_loop.simps [of parse c i r])
        moreover have "inbox_size s3 < inbox_size s" using recv_into_smaller [OF rc] False by simp
        ultimately have "keep_alive r' = keep_alive ?r \<and> inbox_size s' \<le> inbox_size s3" using less.hyps by blast
        then show ?thesis using fr ka2 by (simp add: set_buf_def)
      qed
    qed
  qed (use less.prems p ka in \<open>auto simp: line_loop.simps [of parse c i r]\<close>)
qed

lemma http_parse_url_frame: "request_line_fields i mt ut vt r = Ret (x, r') \<Longrightarrow> keep_alive r' = keep_alive r"
  by (auto simp: request_line_fields_def Let_def set_buf_mem_def split: option.splits)

lemma parse_frames:
  "http_parse_request_line r i = Ret (x, r') \<Longrightarrow> keep_alive r' = keep_alive r"
  "http_parse_status_line r i = Ret (x, r') \<Longrightarrow> keep_alive r' = keep_alive r"
  "parse_phase_header_line ph r i = Ret (x, r') \<Longrightarrow> keep_alive r' = keep_alive r"
  by (auto simp: http_parse_request_line_def http_parse_status_line_def parse_phase_header_line_def
      http_parse_header_line_def set_phase_headers_def set_buf_def set_buf_mem_def Let_def
      split: option.splits if_splits http_process_phase.splits dest!: http_parse_url_frame)

lemma line_loop_frames:
  "line_loop http_parse_request_line c i r s = Ret (ok, r', s') \<Longrightarrow> keep_alive r' = keep_alive r \<and> inbox_size s' \<le> inbox_size s"
  "line_loop http_parse_status_line c i r s = Ret (ok, r', s') \<Longrightarrow> keep_alive r' = keep_alive r \<and> inbox_size s' \<le> inbox_size s"
  "line_loop (parse_phase_header_line ph) c i r s = Ret (ok, r', s') \<Longrightarrow> keep_alive r' = keep_alive r \<and> inbox_size s' \<le> inbox_size s"
  by (erule line_loop_frame [rotated], erule parse_frames)+

lemma alloc_client_frame: "http_alloc_client_header_buf c r = Ret r' \<Longrightarrow> keep_alive r' = keep_alive r"
  by (auto simp: http_alloc_client_header_buf_def new_buf_def reserve_nul_def set_buf_def set_buf_mem_def Let_def
      split: if_splits)

text \<open>A fresh header buffer is empty: the first thing the request line needs is a \<open>recv\<close>.\<close>

lemma alloc_client_empty:
  assumes "http_alloc_client_header_buf c r = Ret r'"
  shows "\<exists>i. header_buf r' = Some i
    \<and> http_parse_request_line (r'\<lparr>state := st\<rparr>) i = Ret (HTTP_PARSE_AGAIN, set_buf i (\<lambda>x. x\<lparr>buf_pos := 0\<rparr>) (r'\<lparr>state := st\<rparr>))"
proof -
  let ?n = "int32 (client_header_size c + 1)" and ?i = "length (bufs r)"
  have "0 \<le> ?n \<and> nat ?n \<noteq> 0"
    using assms by (auto simp: http_alloc_client_header_buf_def new_buf_def buf_create_def assert_then_Ret reserve_nul_def Let_def
        split: if_splits)
  then obtain k where k: "?n = int (Suc k)" by (metis nat_0_le not0_implies_Suc)
  have "(NUL # replicate k NUL)[k := NUL] = NUL # replicate k NUL"
    by (metis list_update_id nth_replicate replicate_Suc lessI)
  then have r': "r' = fresh_buf k r"
    using assms k by (auto simp: http_alloc_client_header_buf_def new_buf_def buf_create_def reserve_nul_def fresh_buf_def
        buf_mem_def store_def set_buf_def set_buf_mem_def Let_def nat_add_distrib)
  have m: "buf_mem (r'\<lparr>state := st\<rparr>) ?i = NUL # replicate k NUL" by (simp add: r' fresh_buf_def buf_mem_def)
  have "scan_upto (\<lambda>c. isspace c \<and> c \<noteq> NUL) (NUL # replicate k NUL) 0 e = Ret 0" for e
    by (subst scan_upto.simps) simp
  moreover have "find_next_eol (NUL # replicate k NUL) 0 = Ret None"
    using find_next_eol_none [of "[]" "[]" "replicate k NUL"] by simp
  ultimately show ?thesis
    using m by (intro exI [of _ ?i]) (simp add: http_parse_request_line_def Let_def r')
qed

lemma request_line_consumes:
  assumes "http_process_request_line c r s = Ret (ok, r', s')"
  shows "keep_alive r' = keep_alive r \<and> inbox_size s' \<le> inbox_size s \<and> (ok \<longrightarrow> inbox_size s' < inbox_size s)"
proof -
  from assms obtain r1 where a: "http_alloc_client_header_buf c r = Ret r1"
    by (auto simp: http_process_request_line_def assert_then_Ret)
  obtain i where i: "header_buf r1 = Some i" using alloc_client_empty [OF a] by blast
  let ?r = "r1\<lparr>state := HTTP_PROCESS_STAT_REQUEST_LINE\<rparr>"
  have ll: "line_loop http_parse_request_line c i ?r s = Ret (ok, r', s')"
    using assms a i by (auto simp: http_process_request_line_def assert_then_Ret Let_def)
  note fr = line_loop_frames(1) [OF ll]
  have p: "\<exists>r2. http_parse_request_line ?r i = Ret (HTTP_PARSE_AGAIN, r2)"
    using alloc_client_empty [OF a, of HTTP_PROCESS_STAT_REQUEST_LINE] i by auto
  have "inbox_size s' < inbox_size s" if ok
  proof -
    from p obtain r2 where r2: "http_parse_request_line ?r i = Ret (HTTP_PARSE_AGAIN, r2)" by blast
    with ll that obtain r3 m r4 s4 where g: "recv_into i r3 s = Ret (m, r4, s4)" "0 < m"
      "line_loop http_parse_request_line c i (set_buf i (\<lambda>x. x\<lparr>buf_last := buf_last x + nat m\<rparr>) r4) s4 = Ret (ok, r', s')"
      by (auto simp: line_loop.simps [of http_parse_request_line c i ?r] not_le split: if_splits)
    show ?thesis using recv_into_smaller [OF g(1,2)] line_loop_frames(1) [OF g(3)] by simp
  qed
  then show ?thesis using fr alloc_client_frame [OF a] by simp
qed

lemma nwrite_inbox: "nwrite s b = Ret (ok, s') \<Longrightarrow> inbox s' = inbox s"
  by (auto simp: nwrite_def assert_then_Ret split: prod.splits)

lemma headers_in_expect_frame: "headers_in_expect r s = Ret (ok, r', s') \<Longrightarrow> inbox s' = inbox s"
  unfolding headers_in_expect_def using nwrite_inbox [of s continue_line] by (auto split: option.splits if_splits)

lemma headers_in_done_frame: "headers_in_done r s = Ret (ok, r', s') \<Longrightarrow> inbox s' = inbox s"
  by (auto simp: headers_in_done_def dest: headers_in_expect_frame)

lemma header_line_frame:
  assumes "http_process_header_line c ph r s = Ret (ok, r', s')"
  shows "inbox_size s' \<le> inbox_size s
    \<and> (ph = HTTP_PROCESS_PHASE_RESPONSE \<longrightarrow> keep_alive r' = keep_alive r)"
proof -
  from assms obtain i ok1 r1 s1 where l: "line_loop (parse_phase_header_line ph) c i (r\<lparr>state := HTTP_PROCESS_STAT_HEADER_LINE\<rparr>) s
      = Ret (ok1, r1, s1)" "(if \<not> ok1 then Ret (False, r1, s1) else if ph = HTTP_PROCESS_PHASE_REQUEST then headers_in_done r1 s1
        else headers_out_done r1 s1) = Ret (ok, r', s')"
    by (auto simp: http_process_header_line_def assert_then_Ret split: option.splits)
  note fr = line_loop_frames(3) [OF l(1)]
  from l(2) have "inbox s' = inbox s1 \<and> (ph = HTTP_PROCESS_PHASE_RESPONSE \<longrightarrow> keep_alive r' = keep_alive r1)"
    by (cases ph) (auto simp: headers_out_done_def split: if_splits dest: headers_in_done_frame)
  with fr show ?thesis by (auto simp: inbox_size_def)
qed

lemma body_loop_frame:
  "body_loop cb n j got r s = Ret (ok, cb', r', s') \<Longrightarrow> keep_alive r' = keep_alive r \<and> inbox_size s' \<le> inbox_size s"
proof (induction "inbox_size s" arbitrary: got r s rule: less_induct)
  case less
  show ?case
  proof (cases "n \<le> got")
    case True
    with less.prems show ?thesis by (auto simp: body_loop.simps [of cb n] assert_then_Ret)
  next
    case False
    with less.prems obtain m r1 s1 where rc: "recv_into j r s = Ret (m, r1, s1)" by (auto simp: body_loop.simps [of cb n])
    note fr = recv_into_frame [OF rc]
    show ?thesis
    proof (cases "m \<le> 0")
      case True
      with less.prems False rc fr show ?thesis by (auto simp: body_loop.simps [of cb n])
    next
      case m: False
      let ?r = "set_buf j (\<lambda>y. y\<lparr>buf_last := buf_last y + nat m\<rparr>) r1"
      have "body_loop cb n j (int32 (got + m)) ?r s1 = Ret (ok, cb', r', s')"
        using less.prems False rc m by (auto simp: body_loop.simps [of cb n j got] Let_def assert_then_Ret)
      moreover have "inbox_size s1 < inbox_size s" using recv_into_smaller [OF rc] m by simp
      ultimately have "keep_alive r' = keep_alive ?r \<and> inbox_size s' \<le> inbox_size s1" using less.hyps by blast
      then show ?thesis using fr by (simp add: set_buf_def)
    qed
  qed
qed

lemma grow_body_buf_frame: "grow_body_buf c k r = Ret (Some (j, r')) \<Longrightarrow> keep_alive r' = keep_alive r"
  by (auto simp: grow_body_buf_def new_buf_def set_buf_def set_buf_mem_def Let_def split: if_splits)

lemma until_close_frame:
  "until_close_loop c cb k r s = Ret (ok, cb', r', s') \<Longrightarrow> keep_alive r' = keep_alive r \<and> inbox_size s' \<le> inbox_size s"
proof (induction "inbox_size s" arbitrary: cb k r s rule: less_induct)
  case less
  from less.prems obtain g where g: "(if buf_last (bufs r ! k) = buf_end (bufs r ! k) then grow_body_buf c k r else Ret (Some (k, r))) = Ret g"
    by (auto simp: until_close_loop.simps [of c cb])
  show ?case
  proof (cases g)
    case None
    with less.prems g show ?thesis by (auto simp: until_close_loop.simps [of c cb])
  next
    case (Some jr)
    obtain j r1 where jr: "jr = (j, r1)" by (cases jr)
    have ka: "keep_alive r1 = keep_alive r" using g Some jr grow_body_buf_frame by (auto split: if_splits)
    from less.prems g Some jr obtain m r2 s1 where rc: "recv_into j r1 s = Ret (m, r2, s1)"
      by (auto simp: until_close_loop.simps [of c cb])
    note fr = recv_into_frame [OF rc]
    show ?thesis
    proof (cases "m \<le> 0")
      case True
      with less.prems g Some jr rc fr ka show ?thesis by (auto simp: until_close_loop.simps [of c cb] split: if_splits)
    next
      case m: False
      let ?r = "set_buf j (\<lambda>y. y\<lparr>buf_last := buf_last y + nat m\<rparr>) r2"
      have "until_close_loop c (cb\<lparr>content_len := int32 (content_len cb + m)\<rparr>) j ?r s1 = Ret (ok, cb', r', s')"
        using less.prems g Some jr rc m by (auto simp: until_close_loop.simps [of c cb k])
      moreover have "inbox_size s1 < inbox_size s" using recv_into_smaller [OF rc] m by simp
      ultimately have "keep_alive r' = keep_alive ?r \<and> inbox_size s' \<le> inbox_size s1" using less.hyps by blast
      then show ?thesis using fr ka by (simp add: set_buf_def)
    qed
  qed
qed

lemma sized_body_buf_frame: "sized_body_buf i n r = Ret (j, r') \<Longrightarrow> keep_alive r' = keep_alive r"
  by (auto simp: sized_body_buf_def new_buf_def set_buf_def set_buf_mem_def Let_def split: if_splits)

lemma content_body_frame:
  "http_process_content_body c r s cb n = Ret (ok, cb', r', s') \<Longrightarrow> keep_alive r' = keep_alive r \<and> inbox_size s' \<le> inbox_size s"
  by (auto simp: http_process_content_body_def Let_def assert_then_Ret split: if_splits option.splits
      dest!: until_close_frame body_loop_frame sized_body_buf_frame)

lemma gen_request_frame:
  assumes "connection_gen_request c r s = Ret (r', s')" "\<not> keep_alive r"
  shows "inbox_size s' \<le> inbox_size s \<and> (keep_alive r' \<longrightarrow> inbox_size s' < inbox_size s)"
proof -
  from assms(1) obtain ok1 r1 s1 where 1: "http_process_request_line c r s = Ret (ok1, r1, s1)"
    by (auto simp: connection_gen_request_def)
  note f1 = request_line_consumes [OF 1]
  show ?thesis
  proof (cases ok1)
    case False
    with assms 1 f1 show ?thesis by (auto simp: connection_gen_request_def)
  next
    case True
    with assms(1) 1 obtain ok2 r2 s2 where 2: "http_process_header_line c HTTP_PROCESS_PHASE_REQUEST r1 s1 = Ret (ok2, r2, s2)"
      by (auto simp: connection_gen_request_def)
    have "inbox_size s2 \<le> inbox_size s1" using header_line_frame [OF 2] by simp
    moreover have "inbox_size s' \<le> inbox_size s2"
      using assms(1) 1 2 True by (cases ok2) (auto simp: connection_gen_request_def dest!: content_body_frame)
    ultimately show ?thesis using f1 True by simp
  qed
qed

lemma read_response_frame: "uwsgi_read_response c r s = Ret (ok, r', s') \<Longrightarrow> keep_alive r' = keep_alive r"
  by (auto simp: uwsgi_read_response_def http_process_status_line_def assert_then_Ret Let_def split: if_splits
      dest!: line_loop_frames(2) alloc_client_frame header_line_frame content_body_frame)

lemma uwsgi_process_frame: "upstream_uwsgi_process mc c vh lc r = Ret r' \<Longrightarrow> keep_alive r' = keep_alive r"
  by (auto simp: upstream_uwsgi_process_def uwsgi_exchange_def Let_def split: option.splits if_splits
      dest!: read_response_frame)

lemma process_request_frame: "connection_process_request e c r = Ret r' \<Longrightarrow> keep_alive r' = keep_alive r"
  by (auto simp: connection_process_request_def module_process_def module_default_handle_request_def
      module_uwsgi_handle_request_def upstream_uwsgi_create_def upstream_process_def Let_def assert_then_Ret
      split: option.splits module_result.splits module_t.splits if_splits prod.splits dest!: uwsgi_process_frame)

lemma special_response_frame: "connection_special_response r = Ret r' \<Longrightarrow> keep_alive r' \<Longrightarrow> keep_alive r"
  by (auto simp: connection_special_response_def Let_def split: option.splits if_splits)


lemma sendfile_inbox: "sendfile s d = (ok, s') \<Longrightarrow> inbox s' = inbox s"
  by (auto simp: sendfile_def split: list.splits snd_result.splits)

lemma send_response_frame:
  "connection_send_response e r s = Ret (ok, r', s') \<Longrightarrow> inbox s' = inbox s \<and> keep_alive r' = keep_alive r"
  by (auto simp: connection_send_response_def response_send_body_def Let_def assert_then_Ret
      split: if_splits option.splits prod.splits dest!: nwrite_inbox sendfile_inbox)

section \<open>The loop ends\<close>

text \<open>A connection that is ready for a round: it runs and holds a request that is not kept alive yet.\<close>

definition round_ready :: "connection_t \<Rightarrow> bool" where
  "round_ready cn \<longleftrightarrow> conn_state cn = CONNECTION_RUNNING \<and> (\<exists>r. conn_r cn = Some r \<and> \<not> keep_alive r)"

lemma finalize_frame:
  assumes "connection_finalize_request e cn = Ret (go, cn')" "conn_state cn = CONNECTION_RUNNING"
  shows "conn_sock cn' = conn_sock cn \<and> conn_state cn' = CONNECTION_RUNNING \<and> timedout cn' = timedout cn
    \<and> conn_fd cn' = conn_fd cn \<and> (\<exists>r. conn_r cn' = Some r) \<and> (go \<longrightarrow> round_ready cn')"
  using assms by (auto simp: connection_finalize_request_def abort_upstream_def round_ready_def
      http_request_create_def split: option.splits if_splits)

lemma round_frame:
  assumes "connection_round e c cn = Ret (go, cn')" "round_ready cn"
  shows "conn_state cn' = CONNECTION_RUNNING \<and> conn_fd cn' = conn_fd cn \<and> (\<exists>r. conn_r cn' = Some r)
    \<and> (go \<longrightarrow> round_ready cn' \<and> inbox_size (conn_sock cn') < inbox_size (conn_sock cn))"
proof -
  obtain r where r: "conn_r cn = Some r" "\<not> keep_alive r" and st: "conn_state cn = CONNECTION_RUNNING"
    using assms(2) by (auto simp: round_ready_def)
  obtain r1 s1 where 1: "connection_gen_request c r (conn_sock cn) = Ret (r1, s1)"
    using assms(1) r(1) by (auto simp: connection_round_def assert_then_Ret)
  note f1 = gen_request_frame [OF 1 r(2)]
  show ?thesis
    using assms(1) r(1) st 1 f1
    by (auto simp: connection_round_def Let_def inbox_size_def split: if_splits
        dest!: process_request_frame send_response_frame finalize_frame dest: special_response_frame)
qed

lemma loop_decides:
  assumes "round_ready cn" "inbox_size (conn_sock cn) < n" "inbox_size (conn_sock cn) < m"
  shows "connection_loop n e c cn = connection_loop m e c cn"
  using assms
proof (induction n arbitrary: m cn)
  case (Suc n)
  then obtain m' where m: "m = Suc m'" by (cases m) auto
  show ?case
  proof (cases "connection_round e c cn")
    case (Ret x)
    obtain go cn' where x: "x = (go, cn')" by (cases x)
    show ?thesis
    proof (cases go)
      case True
      with round_frame [OF Ret [unfolded x] Suc.prems(1)]
      have "round_ready cn'" "inbox_size (conn_sock cn') < n" "inbox_size (conn_sock cn') < m'"
        using Suc.prems m by auto
      from Suc.IH [OF this] show ?thesis by (simp add: m Ret x)
    qed (simp add: m Ret x)
  qed (simp add: m)
qed simp

lemma reusable_frame:
  assumes "connection_reusable cn b = Ret cn'"
  shows "conn_state cn' = (if b then CONNECTION_REUSEABLE else CONNECTION_UNREUSEABLE) \<and> conn_fd cn' = - 1
    \<and> conn_r cn' = None \<and> \<not> request_pool cn' \<and> \<not> timedout cn'"
  using assms by (auto simp: connection_reusable_def assert_then_Ret)



end
