(* ===== verification/Serving.thy ===== *)
theory Serving
  imports Connection_Run
begin

text \<open>
  What a client of the server sees: the bytes that answer a request for a file, from the bytes of the request
  to the bytes of the response, through the parser, the choice of the host and the location, the default
  module and the response.
\<close>

section \<open>Strings of the configuration\<close>

definition conf_str :: "str_t \<Rightarrow> bool" where
  "conf_str s \<longleftrightarrow> (\<exists>t. s = server_string t \<and> NUL \<notin> set t)"

definition conf_text :: "str_t \<Rightarrow> string" where
  "conf_text s = text_of [] s"

lemma conf_strD:
  assumes "conf_str s"
  shows "str_wf h s" "text_of h s = conf_text s" "deref h (data s) = Ret (conf_text s)" "len s = length (conf_text s)"
  using assms by (auto simp: conf_str_def conf_text_def str_wf_server_string)

section \<open>The virtual host and the location of a request\<close>

text \<open>The first virtual host whose name is a prefix of the \<open>Host\<close> header up to case, or the default one; in it the
  first location whose pattern matches the path.\<close>

definition chosen_vhost :: "conf_t \<Rightarrow> string option \<Rightarrow> vhost_conf_t" where
  "chosen_vhost c ho = (case ho of
       None \<Rightarrow> default_vhost c
     | Some x \<Rightarrow> (case find (\<lambda>v. strncasecmp_eq (len (vhost_name v)) x (conf_text (vhost_name v))) (elts (vhosts c)) of
         None \<Rightarrow> default_vhost c
       | Some v \<Rightarrow> v))"

definition chosen_loc :: "env \<Rightarrow> vhost_conf_t \<Rightarrow> string \<Rightarrow> vhost_loc_conf_t option" where
  "chosen_loc e vh p = find (\<lambda>l. env_regexec e (conf_text (pattern_str l)) p) (elts (locs vh))"

definition conf_wf :: "conf_t \<Rightarrow> bool" where
  "conf_wf c \<longleftrightarrow> conf_str (default_page c) \<and> (\<forall>vh \<in> insert (default_vhost c) (set (elts (vhosts c))).
     conf_str (vhost_name vh) \<and> (\<forall>l \<in> set (elts (locs vh)). conf_str (pattern_str l) \<and> conf_str (loc_root l)))"

lemma find_vhost_spec:
  assumes "\<forall>v \<in> set vs. conf_str (vhost_name v)" "deref h p = Ret x"
  shows "find_vhost h p vs = Ret (find (\<lambda>v. strncasecmp_eq (len (vhost_name v)) x (conf_text (vhost_name v))) vs)"
  using assms
proof (induction vs)
  case (Cons v vs)
  then have "deref h (data (vhost_name v)) = Ret (conf_text (vhost_name v))" using conf_strD(3) by simp
  with Cons show ?case by (auto simp: strncasecmp_ptr_def)
qed simp

lemma request_vhost_spec:
  assumes "conf_wf c" "str_is (mem r) (header_host (headers_in r)) ho"
  shows "request_vhost c r = Ret (chosen_vhost c ho)"
  using assms find_vhost_spec [of "elts (vhosts c)" "mem r"]
  by (auto simp: request_vhost_def chosen_vhost_def str_is_def conf_wf_def split: option.splits)

lemma find_loc_spec:
  assumes "\<forall>l \<in> set ls. conf_str (pattern_str l)" "deref h p = Ret x"
  shows "find_loc e h p ls = Ret (find (\<lambda>l. env_regexec e (conf_text (pattern_str l)) x) ls)"
  using assms
proof (induction ls)
  case (Cons l ls)
  then have "deref h (data (pattern_str l)) = Ret (conf_text (pattern_str l))" using conf_strD(3) by simp
  with Cons show ?case by auto
qed simp

lemma find_in: "find P xs = Some x \<Longrightarrow> P x \<and> x \<in> set xs"
  by (auto simp: find_Some_iff)

lemma chosen_vhost_in: "chosen_vhost c ho \<in> insert (default_vhost c) (set (elts (vhosts c)))"
  by (auto simp: chosen_vhost_def split: option.splits dest: find_in)

lemma process_request_spec:
  assumes c: "conf_wf c" "str_is (mem r) (header_host (headers_in r)) ho" "deref (mem r) (data (path (url r))) = Ret p"
  shows "connection_process_request e c r = (case chosen_loc e (chosen_vhost c ho) p of
       None \<Rightarrow> Ret (r\<lparr>status := HTTP_STATUS_BAD_REQUEST\<rparr>)
     | Some lc \<Rightarrow> bnd (module_process e c lc r) (\<lambda>(ret, r1). case ret of
           HTTP_MODULE_PROCESS_DONE \<Rightarrow> Ret r1
         | HTTP_MODULE_PROCESS_UPSTREAM \<Rightarrow> upstream_process c (chosen_vhost c ho) lc r1))"
proof -
  have "\<forall>l \<in> set (elts (locs (chosen_vhost c ho))). conf_str (pattern_str l)"
    using c(1) chosen_vhost_in [of c ho] by (auto simp: conf_wf_def)
  from find_loc_spec [OF this c(3), of e] request_vhost_spec [OF c(1,2)] show ?thesis
    by (simp add: connection_process_request_def chosen_loc_def)
qed

section \<open>The file and its response\<close>

lemma default_handle_found:
  assumes m: "req_method r = HTTP_METHOD_GET" and o: "elts (out_headers (headers_out r)) = []" "array_ok (out_headers (headers_out r))"
    and p: "str_wf (mem r) (path (url r))" "str_wf (mem r) (loc_root lc)" "str_wf (mem r) (default_page c)"
    and f: "files (served_path c lc r) = Some f" "\<not> f_dir f" "f_reg f" "f_rusr f" "0 \<le> f_open f"
  shows "\<exists>t. module_default_handle_request files c lc r = Ret (HTTP_MODULE_PROCESS_DONE,
      r\<lparr>body_out := (body_out r)\<lparr>content_fd := f_open f, content_len := int32 (f_size f)\<rparr>,
        headers_out := (headers_out r)\<lparr>out_headers := t\<rparr>, status := HTTP_STATUS_OK\<rparr>)
    \<and> array_ok t \<and> elts t = [\<lparr>hname = HTTP_HEADER_CONTENT_TYPE,
         hvalue = server_string (http_content_type (extension_of (text_of (mem r) (path (url r)))))\<rparr>]"
proof -
  let ?v = "server_string (http_content_type (extension_of (text_of (mem r) (path (url r)))))"
  obtain t where t: "array_push (out_headers (headers_out r)) \<lparr>hname = HTTP_HEADER_CONTENT_TYPE, hvalue = ?v\<rparr> = Ret t" "array_ok t"
    "elts t = [\<lparr>hname = HTTP_HEADER_CONTENT_TYPE, hvalue = ?v\<rparr>]"
    using array_push_ok [OF o(2), of "\<lparr>hname = HTTP_HEADER_CONTENT_TYPE, hvalue = ?v\<rparr>"] o(1) by auto
  then have "http_header_set (mem r) (out_headers (headers_out r)) HTTP_HEADER_CONTENT_TYPE ?v = Ret t"
    using o(1) by (simp add: http_header_set_def)
  with t f m default_path_Ret [OF p] str_wfD [OF p(1)] show ?thesis
    by (intro exI [of _ t]) (simp add: module_default_handle_request_def Let_def)
qed

lemma length_show_nat: "length (show_nat n) \<le> Suc n"
proof (induction n rule: show_nat.induct)
  case (1 n)
  show ?case
  proof (cases "n < 10")
    case False
    then have "Suc (n div 10) < n" by simp
    with 1 False show ?thesis by (simp add: show_nat.simps [of n])
  qed (simp add: show_nat.simps [of n])
qed

lemma content_type_text: "NUL \<notin> set (http_content_type x)" "length (http_content_type x) \<le> 40"
proof -
  have "\<forall>(e, t) \<in> set content_types. NUL \<notin> set t \<and> length t \<le> 40" by (simp add: content_types_def)
  then show "NUL \<notin> set (http_content_type x)" "length (http_content_type x) \<le> 40"
    by (auto simp: http_content_type_def split: option.splits dest!: map_of_SomeD)
qed

text \<open>The bytes of a response with a file.\<close>

definition file_response :: "string \<Rightarrow> string \<Rightarrow> bool \<Rightarrow> string \<Rightarrow> string" where
  "file_response vs ct ka d = vs @ '' 200 OK'' @ CRLF @ ''Content-Type: '' @ ct @ CRLF
     @ ''Connection: '' @ (if ka then ''Keep-Alive'' else ''Close'') @ CRLF @ ''Server: xwp server 0.1'' @ CRLF
     @ ''Content-Length: '' @ show_nat (length d) @ CRLF @ CRLF @ d"

lemma set_headers_after_type:
  assumes "array_ok (out_headers (headers_out r))"
    "elts (out_headers (headers_out r)) = [\<lparr>hname = HTTP_HEADER_CONTENT_TYPE, hvalue = ct\<rparr>]"
  shows "\<exists>t. response_set_headers r = Ret t \<and> elts t = [\<lparr>hname = HTTP_HEADER_CONTENT_TYPE, hvalue = ct\<rparr>,
     \<lparr>hname = HTTP_HEADER_CONNECTION, hvalue = conn_value r\<rparr>, \<lparr>hname = HTTP_HEADER_SERVER, hvalue = HTTP_HEADER_XWP_VER\<rparr>,
     \<lparr>hname = HTTP_HEADER_CONTENT_LEN, hvalue = clen_value r\<rparr>]"
proof -
  let ?c = "\<lparr>hname = HTTP_HEADER_CONNECTION, hvalue = conn_value r\<rparr>" and ?s = "\<lparr>hname = HTTP_HEADER_SERVER, hvalue = HTTP_HEADER_XWP_VER\<rparr>"
    and ?l = "\<lparr>hname = HTTP_HEADER_CONTENT_LEN, hvalue = clen_value r\<rparr>" and ?y = "\<lparr>hname = HTTP_HEADER_CONTENT_TYPE, hvalue = ct\<rparr>"
  obtain t1 where 1: "array_push (out_headers (headers_out r)) ?c = Ret t1" "array_ok t1" "elts t1 = [?y, ?c]"
    using array_push_ok [OF assms(1), of ?c] assms(2) by auto
  obtain t2 where 2: "array_push t1 ?s = Ret t2" "array_ok t2" "elts t2 = [?y, ?c, ?s]"
    using array_push_ok [OF 1(2), of ?s] 1(3) by auto
  obtain t3 where 3: "array_push t2 ?l = Ret t3" "elts t3 = [?y, ?c, ?s, ?l]"
    using array_push_ok [OF 2(2), of ?l] 2(3) by auto
  show ?thesis
    using 1 2 3 assms(2) unfolding response_set_headers_def conn_value_def [symmetric] clen_value_def [symmetric]
    by (simp add: http_header_set_def header_name_defs)
qed

lemma file_response_sent:
  assumes t: "array_ok (out_headers (headers_out r))"
      "elts (out_headers (headers_out r)) = [\<lparr>hname = HTTP_HEADER_CONTENT_TYPE, hvalue = server_string ct\<rparr>]"
      "NUL \<notin> set ct" "length ct \<le> 40"
    and st: "status r = HTTP_STATUS_OK" and ver: "str_wf (mem r) (version_str r)" "length (text_of (mem r) (version_str r)) = 8"
    and b: "content (body_out r) = None" "0 \<le> content_fd (body_out r)" "content_len (body_out r) = int (length d)" "length d < 2 ^ 31"
      "env_file_data e (content_fd (body_out r)) = d"
    and s: "sends s = []"
  shows "\<exists>r'. connection_send_response e r s
      = Ret (True, r', s\<lparr>outbox := outbox s @ file_response (text_of (mem r) (version_str r)) ct (keep_alive r) d\<rparr>)
    \<and> keep_alive r' = keep_alive r \<and> upstream r' = upstream r"
proof -
  let ?v = "text_of (mem r) (version_str r)"
  obtain t where t4: "response_set_headers r = Ret t" "elts t = [\<lparr>hname = HTTP_HEADER_CONTENT_TYPE, hvalue = server_string ct\<rparr>,
     \<lparr>hname = HTTP_HEADER_CONNECTION, hvalue = conn_value r\<rparr>, \<lparr>hname = HTTP_HEADER_SERVER, hvalue = HTTP_HEADER_XWP_VER\<rparr>,
     \<lparr>hname = HTTP_HEADER_CONTENT_LEN, hvalue = clen_value r\<rparr>]"
    using set_headers_after_type [OF t(1,2)] by blast
  have wf: "out_headers_wf (with_headers t r)"
    using t(3) header_values_wf [of "mem r"] by (simp add: out_headers_wf_def with_headers_def t4(2) str_wf_server_string header_name_defs)
  have line: "http_status_line (status r) = Ret ''200 OK''"
    by (simp add: st HTTP_STATUS_OK_def) code_simp
  have "show_nat 0 = ''0''" by code_simp
  then have cl: "text_of (mem r) (clen_value r) = show_nat (length d)"
    by (simp add: clen_value_def b(3) show_int_def)
  have body: "body_ready r" "response_body e r = d"
    using b by (simp_all add: body_ready_def response_body_def Let_def)
  have head: "head_text (with_headers t r) ?v ''200 OK'' @ d = file_response ?v ct (keep_alive r) d"
    by (simp add: head_text_def with_headers_def t4(2) file_response_def header_line_text_def cl conn_value_def header_name_defs
        XWP_SERVER_VER_def)
  have "length (file_response ?v ct (keep_alive r) d) < 2 ^ 64"
    using t(4) ver(2) b(4) length_show_nat [of "length d"] by (simp add: file_response_def CRLF_def)
  then have small: "length (head_text (with_headers t r) ?v ''200 OK'') < 2 ^ 64" by (simp add: head [symmetric])
  show ?thesis
    using send_response_bytes [OF t4(1) wf line ver(1) refl ver(2) body(1) s small, of e] body(2) head by simp
qed

section \<open>A request for a file\<close>

lemma received_request:
  assumes r: "http_request_create ip prt = Ret r" and wf: "request_wf mt p q vs d v"
    and r': "r' = (parsed_request n mt p q vs d v fs t r)\<lparr>mem := h, bufs := bs, state := st, body_in := cb\<rparr>"
    and ri: "request_is mt p q vs d v fs body r'"
  shows "str_wf (mem r') (path (url r'))" "text_of (mem r') (path (url r')) = p"
    "str_wf (mem r') (version_str r')" "text_of (mem r') (version_str r') = vs"
    "elts (out_headers (headers_out r')) = []" "array_ok (out_headers (headers_out r'))" "status r' = HTTP_STATUS_OK"
    "content (body_out r') = None" "upstream r' = None" "content_len (body_out r') = 0" "content_fd (body_out r') < 0" "err_msg r' = None"
proof -
  have "deref (mem r') (data (path (url r'))) = Ret p" "deref (mem r') (data (version_str r')) = Ret vs"
    using ri by (simp_all add: request_is_def)
  moreover have "NUL \<notin> set p" "NUL \<notin> set vs" using wf by (auto simp: request_wf_def path_ok_def token_ok_def)
  moreover have "len (path (url r')) = length p" "len (version_str r') = length vs"
    by (simp_all add: r' parsed_request_def request_line_set_def url_result_def)
  ultimately show "str_wf (mem r') (path (url r'))" "text_of (mem r') (path (url r')) = p"
    "str_wf (mem r') (version_str r')" "text_of (mem r') (version_str r') = vs"
    by (simp_all add: str_wf_def str_ok_def text_of_def)
  show "elts (out_headers (headers_out r')) = []" "array_ok (out_headers (headers_out r'))" "status r' = HTTP_STATUS_OK"
    "content (body_out r') = None" "upstream r' = None" "content_len (body_out r') = 0" "content_fd (body_out r') < 0" "err_msg r' = None"
    using r by (auto simp: r' parsed_request_def request_line_set_def fresh_buf_def http_request_create_def
        array_create_def array_ok_def array_count_def)
qed

text \<open>The file behind a path.\<close>

definition file_path :: "conf_t \<Rightarrow> vhost_loc_conf_t \<Rightarrow> string \<Rightarrow> string" where
  "file_path c lc p = conf_text (loc_root lc) @ (if p = ''/'' then conf_text (default_page c) else p)"

definition readable :: "file_t \<Rightarrow> bool" where
  "readable f \<longleftrightarrow> \<not> f_dir f \<and> f_reg f \<and> f_rusr f \<and> 0 \<le> f_open f"

definition sample_connection :: "rcv list \<Rightarrow> connection_t" where
  "sample_connection ib = (connection_create \<lparr>inbox = ib, sends = [], outbox = [], sock_errno = E_OK\<rparr>)
     \<lparr>conn_state := CONNECTION_RUNNING, conn_r := Some fresh_request, conn_fd := 5\<rparr>"

end
