(* ===== verification/Bad_Requests.thy ===== *)
theory Bad_Requests
  imports Serving
begin

text \<open>
  Requests the server does not survive: what a client can send to make the worker abort, read through a null
  pointer or write past a buffer.
\<close>

section \<open>A line of one word\<close>

text \<open>The parser on an empty buffer, and on one that holds a line of a single word.\<close>

lemma request_line_nothing:
  assumes "buf_valid r i"
  shows "http_parse_request_line (loaded i [] [] k r) i = Ret (HTTP_PARSE_AGAIN, loaded i [] [] k r)"
proof (rule request_line_again [OF assms])
  show "request_wf ''GET'' ''/'' None ''HTTP/1.1'' HTTP_METHOD_GET HTTP_VERSION_11"
    by (simp add: request_wf_def token_ok_def path_ok_def isspace_def byte_def parse_method_def strncasecmp_eq_def
        cchar_defs parse_version_def strstr_here)
qed (simp add: request_line_def strict_prefix_def)

lemma get_token_nothing:
  assumes "p < length m" "m ! p = NUL"
  shows "get_token f d m p = Ret (None, m, p)"
  using assms by (subst get_token_def, subst scan_while.simps) (simp add: load_def)

lemma request_line_word:
  assumes v: "buf_valid r i" and w: "token_ok w"
  shows "http_parse_request_line (loaded i [] (w @ [LF]) k r) i
    = Ret (HTTP_PARSE_FAIL, set_buf_mem i (w @ NUL # replicate (Suc k) NUL) (loaded i [] (w @ [LF]) k r))"
proof -
  let ?z = "replicate (Suc k) NUL" and ?L = "loaded i [] (w @ [LF]) k r"
  let ?m = "w @ LF # ?z" and ?n = "w @ NUL # ?z"
  have m: "buf_mem ?L i = ?m" using v by simp
  have skip: "scan_upto (\<lambda>c. isspace c \<and> c \<noteq> NUL) ?m 0 e = Ret 0" for e
    using no_skip [OF w, of "w @ [LF]" "[LF]" "[]" k e] by simp
  have eol: "find_next_eol ?m 0 = Ret (Some (length w))"
    using find_next_eol_append [of w "[]" ?z] token_ok_no_eol [OF w] by simp
  have t1: "get_token (Some isspace) None ?m 0 = Ret (Some (0, length w), ?n, Suc (length w))"
    using get_token_word [OF w, of LF "[]" ?z] by (simp add: isspace_def byte_def)
  have "?n ! Suc (length w) = NUL" "Suc (length w) < length ?n" by (simp_all add: nth_append)
  then have t2: "get_token (Some isspace) None ?n (Suc (length w)) = Ret (None, ?n, Suc (length w))"
    by (intro get_token_nothing)
  have pos: "buf_pos (bufs ?L ! i) = 0" "set_buf i (\<lambda>x. x\<lparr>buf_pos := 0\<rparr>) ?L = ?L"
    using v by (simp_all add: set_buf_def loaded_def buf_valid_def)
  show ?thesis
    unfolding http_parse_request_line_def Let_def m pos by (simp add: skip eol t1 t2 pos(2) del: replicate.simps)
qed

text \<open>A piece that arrives in one call.\<close>

lemma line_loop_piece:
  assumes v: "buf_valid r i" and k: "length d \<le> k" "k < 2 ^ 64" and d: "d \<noteq> []" "inbox s = Data d # ib"
    and p: "parse (loaded i [] [] k r) i = Ret (HTTP_PARSE_AGAIN, loaded i [] [] k r)"
  shows "line_loop parse c i (loaded i [] [] k r) s = line_loop parse c i (loaded i [] d (k - length d) r) (s\<lparr>inbox := ib\<rparr>)"
proof -
  let ?L = "loaded i [] [] k r" and ?z = "replicate (Suc k) NUL"
  have k0: "0 < k" using k(1) d(1) by (cases d) auto
  have n: "size_t_of_int (int (buf_end (bufs ?L ! i)) - int (buf_last (bufs ?L ! i))) = k"
    using v k by (simp add: size_t_of_int_id)
  have rr: "recv_retry k (inbox s) (sock_errno s) = Ret (int (length d), d, ib, sock_errno s)"
    using d k k0 by (simp add: Let_def)
  have w: "write_at (buf_mem ?L i) (buf_last (bufs ?L ! i)) d = Ret (d @ drop (length d) ?z)"
    using write_at_append [of d ?z "[]"] k(1) v by (simp del: replicate.simps)
  have z: "drop (length d) ?z = replicate (Suc (k - length d)) NUL" using k(1) by (simp add: Suc_diff_le del: replicate.simps)
  have "recv_into i ?L s = Ret (int (length d), set_buf_mem i (d @ drop (length d) ?z) ?L, s\<lparr>inbox := ib\<rparr>)"
    using n rr w by (simp add: recv_into_def Let_def)
  moreover have "set_buf i (\<lambda>x. x\<lparr>buf_last := buf_last x + length d\<rparr>) (set_buf_mem i (d @ drop (length d) ?z) ?L)
      = loaded i [] d (k - length d) r"
    unfolding z using v k(1) by (simp add: loaded_def set_buf_def set_buf_mem_def buf_valid_def del: replicate.simps)
  moreover have "buf_last (bufs ?L ! i) \<noteq> buf_end (bufs ?L ! i)" using v k0 by simp
  ultimately show ?thesis
    using d(1) by (subst line_loop.simps) (simp add: p)
qed

text \<open>Receiving a request starts with the loop over an empty buffer.\<close>

definition first_buf :: "nat \<Rightarrow> http_request_t \<Rightarrow> http_request_t" where
  "first_buf n r = (fresh_buf n r)\<lparr>state := HTTP_PROCESS_STAT_REQUEST_LINE\<rparr>"

lemma request_line_starts:
  assumes r: "http_request_create ip prt = Ret r" and c: "client_header_size c = int n" "n < 2 ^ 31 - 1"
  shows "http_process_request_line c r s
      = line_loop http_parse_request_line c (length (bufs r)) (loaded (length (bufs r)) [] [] n (first_buf n r)) s"
    "buf_valid (first_buf n r) (length (bufs r))"
proof -
  have "state r = HTTP_PROCESS_STAT_NONE" using r by (auto simp: http_request_create_def array_create_def)
  moreover have "first_buf n r = loaded (length (bufs r)) [] [] n (first_buf n r)"
    by (simp add: first_buf_def fresh_buf_def loaded_def)
  ultimately show "http_process_request_line c r s
      = line_loop http_parse_request_line c (length (bufs r)) (loaded (length (bufs r)) [] [] n (first_buf n r)) s"
    using http_alloc_client_header_buf_Ret [OF c, of r]
    by (simp add: http_process_request_line_def Let_def fresh_buf_simps first_buf_def)
  show "buf_valid (first_buf n r) (length (bufs r))" by (simp add: first_buf_def fresh_buf_def buf_valid_def)
qed

lemma gen_request_word:
  assumes r: "http_request_create ip prt = Ret r" and c: "client_header_size c = int n" "n < 2 ^ 31 - 1"
    and w: "token_ok w" "length w < n" "inbox s = Data (w @ [LF]) # ib"
  shows "\<exists>r1 s1. connection_gen_request c r s = Ret (r1, s1) \<and> status r1 = HTTP_STATUS_BAD_REQUEST
    \<and> version_str r1 = null_str \<and> out_headers (headers_out r1) = \<lparr>elts = [], nalloc = 24\<rparr>
    \<and> content_len (body_out r1) = 0 \<and> err_msg r1 = None"
proof -
  let ?i = "length (bufs r)" and ?F = "first_buf n r"
  note v = request_line_starts(2) [OF r c]
  let ?L = "loaded ?i [] (w @ [LF]) (n - length (w @ [LF])) ?F"
  have "http_process_request_line c r s = line_loop http_parse_request_line c ?i ?L (s\<lparr>inbox := ib\<rparr>)"
    unfolding request_line_starts(1) [OF r c]
    by (rule line_loop_piece [OF v]) (use w c(2) request_line_nothing [OF v] in auto)
  also have "\<dots> = Ret (False, (set_buf_mem ?i (w @ NUL # replicate (Suc (n - length (w @ [LF]))) NUL) ?L)
      \<lparr>status := HTTP_STATUS_BAD_REQUEST\<rparr>, s\<lparr>inbox := ib\<rparr>)"
    by (subst line_loop.simps) (simp add: request_line_word [OF v w(1)] del: replicate.simps)
  finally show ?thesis
    using r by (auto simp: connection_gen_request_def set_buf_mem_def loaded_def first_buf_def fresh_buf_def
        http_request_create_def array_create_def)
qed

lemma set_headers_empty:
  assumes "array_ok (out_headers (headers_out r))" "elts (out_headers (headers_out r)) = []"
  shows "\<exists>t. response_set_headers r = Ret t \<and> elts t = [\<lparr>hname = HTTP_HEADER_CONNECTION, hvalue = conn_value r\<rparr>,
     \<lparr>hname = HTTP_HEADER_SERVER, hvalue = HTTP_HEADER_XWP_VER\<rparr>, \<lparr>hname = HTTP_HEADER_CONTENT_LEN, hvalue = clen_value r\<rparr>]"
proof -
  let ?c = "\<lparr>hname = HTTP_HEADER_CONNECTION, hvalue = conn_value r\<rparr>" and ?s = "\<lparr>hname = HTTP_HEADER_SERVER, hvalue = HTTP_HEADER_XWP_VER\<rparr>"
    and ?l = "\<lparr>hname = HTTP_HEADER_CONTENT_LEN, hvalue = clen_value r\<rparr>"
  obtain t1 where 1: "array_push (out_headers (headers_out r)) ?c = Ret t1" "array_ok t1" "elts t1 = [?c]"
    using array_push_ok [OF assms(1), of ?c] assms(2) by auto
  obtain t2 where 2: "array_push t1 ?s = Ret t2" "array_ok t2" "elts t2 = [?c, ?s]"
    using array_push_ok [OF 1(2), of ?s] 1(3) by auto
  obtain t3 where 3: "array_push t2 ?l = Ret t3" "elts t3 = [?c, ?s, ?l]"
    using array_push_ok [OF 2(2), of ?l] 2(3) by auto
  show ?thesis
    using 1 2 3 assms(2) unfolding response_set_headers_def conn_value_def [symmetric] clen_value_def [symmetric]
    by (simp add: http_header_set_def header_name_defs)
qed

lemma special_response_400:
  assumes "status r = HTTP_STATUS_BAD_REQUEST" "content_len (body_out r) = 0" "err_msg r = None"
  shows "\<exists>r'. connection_special_response r = Ret r' \<and> status r' = status r \<and> version_str r' = version_str r
    \<and> out_headers (headers_out r') = out_headers (headers_out r) \<and> 0 \<le> content_len (body_out r') \<and> content_len (body_out r') < 1000"
proof -
  have "\<exists>p. http_error_page 400 None = Ret (Some p) \<and> length p < 1000"
  proof (intro exI conjI)
    show "http_error_page 400 None = Ret (Some (http_error_page_text 400 @ http_error_full_tail))"
      using http_error_page_listed [of 400 "http_error_page_text 400" None] by (simp add: http_error_pages_def)
    show "length (http_error_page_text 400 @ http_error_full_tail) < 1000"
      by (simp add: http_error_page_text_def http_error_pages_3xx_def http_error_pages_40x_def page_html_def http_error_full_tail_def CRLF_def XWP_SERVER_VER_def)
  qed
  with assms show ?thesis by (auto simp: connection_special_response_def HTTP_STATUS_BAD_REQUEST_def Let_def)
qed

text \<open>C20: A client that sends one line with a single word takes the worker down: the request gets status 400, but it
  has no version, the response's length is computed for one of eight characters while \<open>(null)\<close> is
  printed, and instead of the error page comes the failing assertion on the length.\<close>

theorem bad_request_aborts:
  assumes cn: "conn_state cn = CONNECTION_RUNNING" "conn_r cn = Some r"
    and r: "http_request_create ip prt = Ret r" and c: "client_header_size c = int n" "n < 2 ^ 31 - 1"
    and w: "token_ok w" "length w < n" "inbox (conn_sock cn) = Data (w @ [LF]) # ib"
  shows "connection_round e c cn = Crash Assert_Failed"
proof -
  obtain r1 s1 where g: "connection_gen_request c r (conn_sock cn) = Ret (r1, s1)" "status r1 = HTTP_STATUS_BAD_REQUEST"
    "version_str r1 = null_str" "out_headers (headers_out r1) = \<lparr>elts = [], nalloc = 24\<rparr>" "content_len (body_out r1) = 0" "err_msg r1 = None"
    using gen_request_word [OF r c w] by blast
  obtain r2 where p: "connection_special_response r1 = Ret r2" "status r2 = HTTP_STATUS_BAD_REQUEST" "version_str r2 = null_str"
    "out_headers (headers_out r2) = \<lparr>elts = [], nalloc = 24\<rparr>" "0 \<le> content_len (body_out r2)" "content_len (body_out r2) < 1000"
    using special_response_400 [OF g(2,5,6)] g by auto
  have a: "array_ok (out_headers (headers_out r2))" "elts (out_headers (headers_out r2)) = []"
    by (simp_all add: p(4) array_ok_def array_count_def)
  have "connection_send_response e r2 s1 = Crash Assert_Failed"
  proof (rule no_version_aborts [OF _ _ p(3)])
    show "table_wf (mem r2) (out_headers (headers_out r2))" using a by (simp add: table_wf_def)
    show "http_status_line (status r2) = Ret ''400 Bad Request''" unfolding p(2) HTTP_STATUS_BAD_REQUEST_def by code_simp
    fix t assume t: "response_set_headers r2 = Ret t"
    have "nat (content_len (body_out r2)) < 1000" using p(5,6) by simp
    then have "length (text_of (mem r2) (clen_value r2)) < 2000"
      using length_show_nat [of "nat (content_len (body_out r2))"] by (simp add: clen_value_def show_int_def)
    with set_headers_empty [OF a] t
    show "length (head_text (with_headers t r2) (replicate 8 NUL) ''400 Bad Request'') < 2 ^ 64"
      by (auto simp: head_text_def with_headers_def header_line_text_def header_name_defs CRLF_def XWP_SERVER_VER_def conn_value_def)
  qed
  with g(1,2) p(1) cn show ?thesis
    by (simp add: connection_round_def HTTP_STATUS_BAD_REQUEST_def HTTP_STATUS_SPECIAL_RESPONSE_def HTTP_STATUS_CLOSE_def)
qed

theorem bad_request_aborts_witness:
  "connection_round sample_env sample_conf (sample_connection [Data (''HELLO'' @ [LF])]) = Crash Assert_Failed"
proof (rule bad_request_aborts [OF _ _ fresh_request_eq, where n = 256])
  show "token_ok ''HELLO''" by (simp add: token_ok_def isspace_def byte_def)
qed (simp_all add: sample_connection_def connection_create_def sample_conf_def)

section \<open>A line longer than the header buffer\<close>

lemma alloc_large_full:
  assumes v: "buf_valid r i" "header_buf r = Some i" "buf_start (bufs r ! i) = 0"
    and x: "x \<noteq> []" "int (length x) < large_client_header_size c" "large_client_header_size c < 2 ^ 31 - 1"
  shows "\<exists>r'. http_alloc_large_client_header_buf c (loaded i [] x 0 r) = Ret (True, r')
    \<and> buf_end (bufs r' ! i) = length x - 1 \<and> buf_last (bufs r' ! i) = 2 * length x \<and> length (buf_mem r' i) = Suc (length x)"
proof -
  let ?L = "loaded i [] x 0 r" and ?n = "large_client_header_size c + 1"
  have L: "bufs ?L ! i = \<lparr>blk = blk (bufs r ! i), buf_start = 0, buf_end = length x, buf_pos = 0, buf_last = length x\<rparr>"
    "header_buf ?L = Some i" "i < length (bufs ?L)" "mem ?L ! blk (bufs r ! i) = x @ [NUL]" "blk (bufs r ! i) < length (mem ?L)"
    using v by (simp_all add: loaded_def buf_valid_def)
  have n: "int32 ?n = ?n" "0 \<le> ?n" using x by (simp_all add: int32_id)
  from L n x(1,2) show ?thesis
    by (simp add: http_alloc_large_client_header_buf_def new_buf_def buf_create_def reserve_nul_def store_def buf_mem_def
        set_buf_mem_def set_buf_def bytes_at_def write_at_def Let_def nth_append nth_list_update)
qed

text \<open>The \<open>recv\<close> that follows: its size, the difference of two pointers, has wrapped around.\<close>

lemma recv_after_large:
  assumes "buf_end (bufs r ! i) < buf_last (bufs r ! i)" "length (buf_mem r i) \<le> buf_last (bufs r ! i)"
    and "buf_last (bufs r ! i) < 2 ^ 63" "inbox_ok (inbox s)" "arriving (inbox s) \<noteq> []"
  shows "recv_into i r s = Crash Out_Of_Bounds"
proof -
  let ?k = "size_t_of_int (int (buf_end (bufs r ! i)) - int (buf_last (bufs r ! i)))"
  let ?a = "int (buf_end (bufs r ! i)) - int (buf_last (bufs r ! i))"
  have "\<not> 2 ^ 64 dvd ?a" using dvd_imp_le_int [of ?a "2 ^ 64"] assms(1,3) by auto
  then have "?a mod 2 ^ 64 \<noteq> 0" by (simp only: dvd_eq_mod_eq_0 not_False_eq_True)
  moreover have "0 \<le> ?a mod 2 ^ 64" by (rule pos_mod_sign) simp
  ultimately have "0 < ?a mod 2 ^ 64" by linarith
  then have "0 < ?k" by (simp add: size_t_of_int_def)
  then obtain m d ib er where d: "recv_retry ?k (inbox s) (sock_errno s) = Ret (m, d, ib, er)" "0 < m"
    using recv_retry_data [OF assms(4,5), of ?k "sock_errno s"] by blast
  then have "d \<noteq> []" using recv_retry_cases [of ?k "inbox s" "sock_errno s"] by auto
  then have "write_at (buf_mem r i) (buf_last (bufs r ! i)) d = Crash Out_Of_Bounds"
    using assms(2) by (cases d) (simp_all add: write_at_def)
  with d(1) show ?thesis by (simp add: recv_into_def Let_def)
qed

lemma long_line_loop:
  assumes v: "buf_valid r i" "header_buf r = Some i" "buf_start (bufs r ! i) = 0"
    and wf: "request_wf mt p q vs d v" and n: "0 < n" "n < length (request_line mt (target p q) vs)"
    and c: "int n < large_client_header_size c" "large_client_header_size c < 2 ^ 31 - 1"
    and s: "length x + k = n" "inbox_ok (inbox s)" "x @ arriving (inbox s) = request_line mt (target p q) vs @ w"
  shows "line_loop http_parse_request_line c i (loaded i [] x k r) s = Crash Out_Of_Bounds"
  using s
proof (induction "inbox_size s" arbitrary: x k s rule: less_induct)
  case less
  let ?l = "request_line mt (target p q) vs"
  have len: "length x < length ?l" using less.prems(1) n(2) by simp
  have "take (length x) (?l @ w) = x" using less.prems(3) by (metis append_eq_conv_conj)
  then have pre: "strict_prefix x ?l"
    using len by (metis append_eq_conv_conj diff_is_0_eq less_or_eq_imp_le nat_less_le prefix_order.less_le take_0
        take_append take_is_prefix append_Nil2)
  note again = request_line_again [OF v(1) wf pre, of "[]" k]
  have ne: "arriving (inbox s) \<noteq> []" using less.prems(3) len by (auto dest: arg_cong [of _ _ length])
  show ?case
  proof (cases "k = 0")
    case True
    then have x: "x \<noteq> []" "length x = n" using less.prems(1) n(1) by auto
    obtain r' where r': "http_alloc_large_client_header_buf c (loaded i [] x 0 r) = Ret (True, r')"
      "buf_end (bufs r' ! i) = length x - 1" "buf_last (bufs r' ! i) = 2 * length x" "length (buf_mem r' i) = Suc (length x)"
      using alloc_large_full [OF v x(1)] c x(2) by blast
    have "recv_into i r' s = Crash Out_Of_Bounds"
      by (rule recv_after_large) (use r' x c less.prems(2) ne n(1) in auto)
    with again r'(1) v(1) True show ?thesis by (subst line_loop.simps) simp
  next
    case False
    have k: "0 < k" "k < 2 ^ 64" using False less.prems(1) c by auto
    obtain e r1 s' where e: "recv_into i (loaded i [] x k r) s = Ret (int (length e), r1, s')" "e \<noteq> []" "length e \<le> k"
      "set_buf i (\<lambda>y. y\<lparr>buf_last := buf_last y + nat (int (length e))\<rparr>) r1 = loaded i [] (x @ e) (k - length e) r"
      "inbox_ok (inbox s')" "arriving (inbox s) = e @ arriving (inbox s')"
      using recv_into_loaded [OF v(1) less.prems(2) ne k] by blast
    have "inbox_size s' < inbox_size s" using recv_into_smaller [OF e(1)] e(2) by simp
    moreover have "length (x @ e) + (k - length e) = n" using e(3) less.prems(1) by simp
    moreover have "(x @ e) @ arriving (inbox s') = ?l @ w" using e(6) less.prems(3) by simp
    ultimately have "line_loop http_parse_request_line c i (loaded i [] (x @ e) (k - length e) r) s' = Crash Out_Of_Bounds"
      using less.hyps e(5) by blast
    with again e(1,2,4) v(1) k(1) show ?thesis by (subst line_loop.simps) simp
  qed
qed

text \<open>C22: A request line that is longer than the header buffer, while a larger buffer is configured, makes the server
  write past the buffer, in whatever pieces it arrives: \<open>http_alloc_large_client_header_buf\<close> moves the end
  of the old buffer's data up instead of filling the new buffer, and the next \<open>recv\<close> writes there.\<close>

theorem long_request_line_overflows:
  assumes r: "http_request_create ip prt = Ret r"
    and c: "client_header_size c = int n" "0 < n" "int n < large_client_header_size c" "large_client_header_size c < 2 ^ 31 - 1"
    and wf: "request_wf mt p q vs d v" "n < length (request_line mt (target p q) vs)"
    and s: "inbox_ok (inbox s)" "arriving (inbox s) = request_line mt (target p q) vs @ w"
  shows "connection_gen_request c r s = Crash Out_Of_Bounds"
proof -
  let ?i = "length (bufs r)" and ?F = "(fresh_buf n r)\<lparr>state := HTTP_PROCESS_STAT_REQUEST_LINE\<rparr>"
  have F: "buf_valid ?F ?i" "header_buf ?F = Some ?i" "buf_start (bufs ?F ! ?i) = 0" "?F = loaded ?i [] [] n ?F"
    by (simp_all add: fresh_buf_def buf_valid_def loaded_def)
  have "state r = HTTP_PROCESS_STAT_NONE" using r by (auto simp: http_request_create_def array_create_def)
  moreover have "line_loop http_parse_request_line c ?i (loaded ?i [] [] n ?F) s = Crash Out_Of_Bounds"
    by (rule long_line_loop [OF F(1-3) wf(1) c(2) wf(2) c(3,4)]) (use s in auto)
  moreover have "http_alloc_client_header_buf c r = Ret (fresh_buf n r)"
    by (rule http_alloc_client_header_buf_Ret) (use c in auto)
  ultimately show ?thesis
    using F(4) by (simp add: connection_gen_request_def http_process_request_line_def Let_def fresh_buf_simps)
qed

theorem long_request_line_overflows_witness:
  "connection_gen_request (sample_conf\<lparr>client_header_size := 16\<rparr>) fresh_request
     \<lparr>inbox = [Data ''GET /abc'', Data (''defghijkl HTTP/1.1'' @ CRLF)], sends = [], outbox = [], sock_errno = E_OK\<rparr>
   = Crash Out_Of_Bounds"
proof (rule long_request_line_overflows [OF fresh_request_eq, where n = 16 and q = None and w = "[]"])
  show "request_wf ''GET'' ''/abcdefghijkl'' None ''HTTP/1.1'' HTTP_METHOD_GET HTTP_VERSION_11"
    by (simp add: request_wf_def token_ok_def path_ok_def isspace_def byte_def parse_method_def strncasecmp_eq_def
        cchar_defs parse_version_def strstr_here)
qed (simp_all add: sample_conf_def request_line_def target_def CRLF_def)

end
