(* ===== verification/Locality.thy ===== *)
theory Locality
  imports Connection_Run
begin

text \<open>
  Receiving is local: a request is read from the pieces it needs and from none behind them, and what a
  receiving function does to a socket is a sequence of \<open>recv\<close> calls and of writes of the continue line.
\<close>

section \<open>Pieces behind those that are read\<close>

definition behind :: "rcv list \<Rightarrow> sock \<Rightarrow> sock" where
  "behind jb s = s\<lparr>inbox := inbox s @ jb\<rparr>"

lemma behind_simps [simp]:
  "inbox (behind jb s) = inbox s @ jb" "sends (behind jb s) = sends s" "outbox (behind jb s) = outbox s"
  "sock_errno (behind jb s) = sock_errno s" "behind [] s = s"
  by (simp_all add: behind_def)

lemma recv_retry_local:
  "recv_retry n ib er = Ret (m, d, ib', er') \<Longrightarrow> 0 < m \<Longrightarrow> recv_retry n (ib @ jb) er = Ret (m, d, ib' @ jb, er')"
  by (induction n ib er rule: recv_retry.induct) (auto simp: Let_def split: if_splits)

lemma recv_into_local:
  assumes "recv_into i r s = Ret (m, r', s')" "0 < m"
  shows "recv_into i r (behind jb s) = Ret (m, r', behind jb s')"
  using assms recv_retry_local [of _ "inbox s" "sock_errno s" m _ _ _ jb]
  by (auto simp: recv_into_def Let_def behind_def)

text \<open>The loops: the only outcome that depends on what is behind is a peer that has closed.\<close>

lemma line_loop_local:
  assumes "line_loop parse c i r s = Ret (ok, r', s')" "ok \<or> status r' \<noteq> HTTP_STATUS_CLOSE"
  shows "line_loop parse c i r (behind jb s) = Ret (ok, r', behind jb s')"
  using assms
proof (induction "inbox_size s" arbitrary: r s rule: less_induct)
  case less
  from less.prems obtain x r1 where p: "parse r i = Ret (x, r1)"
    by (auto simp: line_loop.simps [of parse c i r])
  show ?case
  proof (cases x)
    case HTTP_PARSE_AGAIN
    with less.prems p obtain ok2 r2 where a: "(if buf_last (bufs r1 ! i) = buf_end (bufs r1 ! i)
        then http_alloc_large_client_header_buf c r1 else Ret (True, r1)) = Ret (ok2, r2)"
      by (auto simp: line_loop.simps [of parse c i r])
    show ?thesis
    proof (cases ok2)
      case False
      with less.prems p HTTP_PARSE_AGAIN a show ?thesis by (auto simp: line_loop.simps [of parse c i r])
    next
      case True
      with less.prems p HTTP_PARSE_AGAIN a obtain m r3 s3 where rc: "recv_into i r2 s = Ret (m, r3, s3)" "0 < m"
        "line_loop parse c i (set_buf i (\<lambda>x. x\<lparr>buf_last := buf_last x + nat m\<rparr>) r3) s3 = Ret (ok, r', s')"
        by (auto simp: line_loop.simps [of parse c i r] not_le split: if_splits)
      from less.hyps [OF recv_into_smaller [OF rc(1,2)] rc(3) less.prems(2)] recv_into_local [OF rc(1,2), of jb] p
        HTTP_PARSE_AGAIN a True rc(2)
      show ?thesis by (simp add: line_loop.simps [of parse c i r])
    qed
  qed (use less.prems p in \<open>auto simp: line_loop.simps [of parse c i r]\<close>)
qed

lemma body_loop_local:
  assumes "body_loop cb n j got r s = Ret (ok, cb', r', s')" "ok \<or> status r' \<noteq> HTTP_STATUS_CLOSE"
  shows "body_loop cb n j got r (behind jb s) = Ret (ok, cb', r', behind jb s')"
  using assms
proof (induction "inbox_size s" arbitrary: got r s rule: less_induct)
  case less
  show ?case
  proof (cases "n \<le> got")
    case True
    with less.prems show ?thesis by (auto simp: body_loop.simps [of cb n] assert_then_Ret)
  next
    case False
    with less.prems obtain m r1 s1 where rc: "recv_into j r s = Ret (m, r1, s1)" "0 < m"
      by (auto simp: body_loop.simps [of cb n] not_le split: if_splits)
    let ?r = "set_buf j (\<lambda>y. y\<lparr>buf_last := buf_last y + nat m\<rparr>) r1"
    have b: "body_loop cb n j (int32 (got + m)) ?r s1 = Ret (ok, cb', r', s')"
      and "\<not> (int32 (got + m) < n \<and> buf_end (bufs ?r ! j) = buf_last (bufs ?r ! j))"
      using less.prems False rc by (auto simp: body_loop.simps [of cb n j got] Let_def assert_then_Ret)
    with less.hyps [OF recv_into_smaller [OF rc] b less.prems(2)] recv_into_local [OF rc, of jb] False rc(2)
    show ?thesis by (simp add: body_loop.simps [of cb n j got] Let_def)
  qed
qed

lemma nwrite_local: "nwrite s b = Ret (ok, s') \<Longrightarrow> nwrite (behind jb s) b = Ret (ok, behind jb s')"
  by (auto simp: nwrite_def assert_then_Ret behind_def split: prod.splits)

lemma headers_in_done_local:
  assumes "headers_in_done r s = Ret (ok, r', s')"
  shows "headers_in_done r (behind jb s) = Ret (ok, r', behind jb s')"
  using assms nwrite_local [of s continue_line]
  by (auto simp: headers_in_done_def headers_in_expect_def split: option.splits if_splits)

lemma request_line_local:
  assumes "http_process_request_line c r s = Ret (ok, r', s')" "ok \<or> status r' \<noteq> HTTP_STATUS_CLOSE"
  shows "http_process_request_line c r (behind jb s) = Ret (ok, r', behind jb s')"
  using assms by (auto simp: http_process_request_line_def assert_then_Ret Let_def intro: line_loop_local)

text \<open>The header lines of a request, without the branch for a response.\<close>

lemma header_line_request:
  assumes "http_process_header_line c HTTP_PROCESS_PHASE_REQUEST r s = Ret x"
  shows "\<exists>i. \<forall>s. http_process_header_line c HTTP_PROCESS_PHASE_REQUEST r s
    = bnd (line_loop (parse_phase_header_line HTTP_PROCESS_PHASE_REQUEST) c i (r\<lparr>state := HTTP_PROCESS_STAT_HEADER_LINE\<rparr>) s)
        (\<lambda>(ok1, r1, s1). if ok1 then headers_in_done r1 s1 else Ret (False, r1, s1))"
proof -
  obtain i where i: "state r = HTTP_PROCESS_STAT_REQUEST_LINE" "header_buf r = Some i"
    using assms by (auto simp: http_process_header_line_def assert_then_Ret split: option.splits)
  have "(if \<not> ok1 then Ret (False, r1, s1) else if HTTP_PROCESS_PHASE_REQUEST = HTTP_PROCESS_PHASE_REQUEST
      then headers_in_done r1 s1 else headers_out_done r1 s1) = (if ok1 then headers_in_done r1 s1 else Ret (False, r1, s1))"
    for ok1 r1 s1 by simp
  with i show ?thesis unfolding http_process_header_line_def by (intro exI [of _ i]) (simp only: option.case simp_thms if_True assert_then_def)
qed

lemma header_line_local:
  assumes "http_process_header_line c HTTP_PROCESS_PHASE_REQUEST r s = Ret (ok, r', s')" "ok \<or> status r' \<noteq> HTTP_STATUS_CLOSE"
  shows "http_process_header_line c HTTP_PROCESS_PHASE_REQUEST r (behind jb s) = Ret (ok, r', behind jb s')"
proof -
  let ?l = "\<lambda>i. line_loop (parse_phase_header_line HTTP_PROCESS_PHASE_REQUEST) c i (r\<lparr>state := HTTP_PROCESS_STAT_HEADER_LINE\<rparr>)"
  obtain i where i: "\<forall>s. http_process_header_line c HTTP_PROCESS_PHASE_REQUEST r s
      = bnd (?l i s) (\<lambda>(ok1, r1, s1). if ok1 then headers_in_done r1 s1 else Ret (False, r1, s1))"
    using header_line_request [OF assms(1)] by blast
  obtain ok1 r1 s1 where l: "?l i s = Ret (ok1, r1, s1)" "(if ok1 then headers_in_done r1 s1 else Ret (False, r1, s1)) = Ret (ok, r', s')"
    using assms(1) unfolding i [rule_format] by (cases "?l i s") auto
  have "?l i (behind jb s) = Ret (ok1, r1, behind jb s1)"
    by (rule line_loop_local [OF l(1)]) (use l(2) assms(2) in \<open>auto split: if_splits\<close>)
  with l(2) headers_in_done_local [of r1 s1 ok r' s' jb] show ?thesis
    unfolding i [rule_format] by (auto split: if_splits)
qed

lemma content_body_local:
  assumes "http_process_content_body c r s cb n = Ret (ok, cb', r', s')" "ok \<or> status r' \<noteq> HTTP_STATUS_CLOSE" "0 \<le> n"
  shows "http_process_content_body c r (behind jb s) cb n = Ret (ok, cb', r', behind jb s')"
proof -
  have n: "\<not> n < 0" using assms(3) by simp
  show ?thesis
    using assms(1,2) unfolding http_process_content_body_def Let_def if_not_P [OF n]
    by (auto simp: assert_then_Ret split: if_splits option.splits intro: body_loop_local)
qed

lemma headers_in_done_content_len:
  assumes "headers_in_done r s = Ret (ok, r', s')"
  shows "0 \<le> in_content_len (headers_in r')"
  using assms by (auto simp: headers_in_done_def headers_in_content_def headers_in_keep_alive_def headers_in_expect_def Let_def
      split: option.splits if_splits)

lemma header_line_content_len:
  assumes "http_process_header_line c HTTP_PROCESS_PHASE_REQUEST r s = Ret (True, r', s')"
  shows "0 \<le> in_content_len (headers_in r')"
proof -
  obtain r1 s1 where "headers_in_done r1 s1 = Ret (True, r', s')"
    using assms header_line_request [OF assms] by (auto split: if_splits)
  then show ?thesis by (rule headers_in_done_content_len)
qed

lemma gen_request_local:
  assumes "connection_gen_request c r s = Ret (r', s')" "status r' \<noteq> HTTP_STATUS_CLOSE"
  shows "connection_gen_request c r (behind jb s) = Ret (r', behind jb s')"
proof -
  from assms(1) obtain ok1 r1 s1 where 1: "http_process_request_line c r s = Ret (ok1, r1, s1)"
    by (auto simp: connection_gen_request_def)
  show ?thesis
  proof (cases ok1)
    case False
    with 1 assms request_line_local [OF 1, of jb] show ?thesis by (auto simp: connection_gen_request_def)
  next
    case True
    with assms(1) 1 obtain ok2 r2 s2 where 2: "http_process_header_line c HTTP_PROCESS_PHASE_REQUEST r1 s1 = Ret (ok2, r2, s2)"
      by (auto simp: connection_gen_request_def)
    note 3 = 1 2 True request_line_local [OF 1, of jb] header_line_local [OF 2, of jb]
    show ?thesis
    proof (cases ok2)
      case True
      have "0 \<le> in_content_len (headers_in r2)" using header_line_content_len [of c r1 s1 r2 s2] 2 True by simp
      moreover obtain ok3 cb r3 s3 where 4: "http_process_content_body c r2 s2 (body_in r2) (in_content_len (headers_in r2))
          = Ret (ok3, cb, r3, s3)" "r' = r3\<lparr>body_in := cb\<rparr>" "s' = s3"
        using assms(1) 3(1,2,3) True by (auto simp: connection_gen_request_def)
      ultimately have "http_process_content_body c r2 (behind jb s2) (body_in r2) (in_content_len (headers_in r2))
          = Ret (ok3, cb, r3, behind jb s3)"
        using content_body_local [OF 4(1)] assms(2) by simp
      with 3 True 4(2,3) show ?thesis by (simp add: connection_gen_request_def)
    qed (use 3 assms in \<open>auto simp: connection_gen_request_def\<close>)
  qed
qed

section \<open>What receiving leaves of the socket\<close>

text \<open>Whatever every \<open>recv\<close> and every write of the continue line keep is kept by receiving a request.\<close>

locale socket_invariant =
  fixes P :: "sock \<Rightarrow> bool"
  assumes recv: "P s \<Longrightarrow> recv_into i r s = Ret (m, r', s') \<Longrightarrow> P s'"
    and continue: "P s \<Longrightarrow> nwrite s continue_line = Ret (ok, s') \<Longrightarrow> P s'"
begin

lemma line_loop: "P s \<Longrightarrow> line_loop parse c i r s = Ret (ok, r', s') \<Longrightarrow> P s'"
proof (induction "inbox_size s" arbitrary: r s rule: less_induct)
  case less
  from less.prems(2) obtain x r1 where p: "parse r i = Ret (x, r1)"
    by (auto simp: line_loop.simps [of parse c i r])
  consider "s' = s" | r2 m r3 s3 where "recv_into i r2 s = Ret (m, r3, s3)" "m \<le> 0" "s' = s3"
    | r2 m r3 s3 where "recv_into i r2 s = Ret (m, r3, s3)" "0 < m"
      "line_loop parse c i (set_buf i (\<lambda>x. x\<lparr>buf_last := buf_last x + nat m\<rparr>) r3) s3 = Ret (ok, r', s')"
    using less.prems(2) p
    by (cases x) (auto simp: line_loop.simps [of parse c i r] not_le split: if_splits)
  then show ?case
  proof cases
    case 3
    from less.hyps [OF recv_into_smaller [OF 3(1,2)] recv [OF less.prems(1) 3(1)] 3(3)] show ?thesis .
  qed (use less.prems(1) recv in auto)
qed

lemma body_loop: "P s \<Longrightarrow> body_loop cb n j got r s = Ret (ok, cb', r', s') \<Longrightarrow> P s'"
proof (induction "inbox_size s" arbitrary: got r s rule: less_induct)
  case less
  consider "s' = s" | m r1 s1 where "recv_into j r s = Ret (m, r1, s1)" "m \<le> 0" "s' = s1"
    | m r1 s1 where "recv_into j r s = Ret (m, r1, s1)" "0 < m"
      "body_loop cb n j (int32 (got + m)) (set_buf j (\<lambda>y. y\<lparr>buf_last := buf_last y + nat m\<rparr>) r1) s1 = Ret (ok, cb', r', s')"
    using less.prems(2) by (auto simp: body_loop.simps [of cb n j got] Let_def assert_then_Ret not_le split: if_splits)
  then show ?case
  proof cases
    case 3
    from less.hyps [OF recv_into_smaller [OF 3(1,2)] recv [OF less.prems(1) 3(1)] 3(3)] show ?thesis .
  qed (use less.prems(1) recv in auto)
qed

lemma headers_done: "P s \<Longrightarrow> headers_in_done r s = Ret (ok, r', s') \<Longrightarrow> P s'"
  using continue by (auto simp: headers_in_done_def headers_in_expect_def split: option.splits if_splits)

lemma header_line:
  assumes "P s" "http_process_header_line c HTTP_PROCESS_PHASE_REQUEST r s = Ret (ok, r', s')"
  shows "P s'"
proof -
  obtain i ok1 r1 s1 where l: "line_loop (parse_phase_header_line HTTP_PROCESS_PHASE_REQUEST) c i
      (r\<lparr>state := HTTP_PROCESS_STAT_HEADER_LINE\<rparr>) s = Ret (ok1, r1, s1)"
    "(if ok1 then headers_in_done r1 s1 else Ret (False, r1, s1)) = Ret (ok, r', s')"
    using header_line_request [OF assms(2)] assms(2) by auto
  have "P s1" by (rule line_loop [OF assms(1) l(1)])
  with l(2) headers_done [of s1] show ?thesis by (auto split: if_splits)
qed

lemma content_body:
  assumes "P s" "http_process_content_body c r s cb n = Ret (ok, cb', r', s')" "0 \<le> n"
  shows "P s'"
proof -
  have n: "\<not> n < 0" using assms(3) by simp
  show ?thesis
    using assms(1,2) body_loop unfolding http_process_content_body_def Let_def if_not_P [OF n]
    by (auto simp: assert_then_Ret split: if_splits option.splits)
qed

lemma after_request_line:
  assumes 1: "http_process_request_line c r s = Ret (ok1, r1, s1)" and p1: "P s1"
    and g: "connection_gen_request c r s = Ret (r', s')"
  shows "P s'"
proof (cases ok1)
  case True
  with g 1 obtain ok2 r2 s2 where 2: "http_process_header_line c HTTP_PROCESS_PHASE_REQUEST r1 s1 = Ret (ok2, r2, s2)"
    by (auto simp: connection_gen_request_def)
  note p2 = header_line [OF p1 2]
  show ?thesis
  proof (cases ok2)
    case ok2: True
    then have "0 \<le> in_content_len (headers_in r2)" using header_line_content_len [of c r1 s1 r2 s2] 2 by simp
    with g 1 2 \<open>ok1\<close> ok2 content_body [OF p2] show ?thesis by (auto simp: connection_gen_request_def)
  qed (use g 1 2 \<open>ok1\<close> p2 in \<open>auto simp: connection_gen_request_def\<close>)
qed (use g 1 p1 in \<open>auto simp: connection_gen_request_def\<close>)

lemma gen_request:
  assumes "P s" "connection_gen_request c r s = Ret (r', s')"
  shows "P s'"
proof -
  from assms(2) obtain ok1 r1 s1 where 1: "http_process_request_line c r s = Ret (ok1, r1, s1)"
    by (auto simp: connection_gen_request_def)
  then obtain i r0 where "line_loop http_parse_request_line c i r0 s = Ret (ok1, r1, s1)"
    by (auto simp: http_process_request_line_def assert_then_Ret Let_def)
  from after_request_line [OF 1 line_loop [OF assms(1) this] assms(2)] show ?thesis .
qed

end

text \<open>A socket on which the next end of the stream spins: \<open>errno\<close> is, or will be, that of an interrupted call.\<close>

definition interrupted :: "sock \<Rightarrow> bool" where
  "interrupted s \<longleftrightarrow> sock_errno s = EINTR \<or> Recv_Error EINTR \<in> set (inbox s)"

definition clear_socket :: "bool \<Rightarrow> sock \<Rightarrow> bool" where
  "clear_socket b s \<longleftrightarrow> inbox_ok (inbox s) \<and> sends s = [] \<and> interrupted s = b"

lemma recv_retry_kept:
  "recv_retry n ib er = Ret (m, d, ib', er') \<Longrightarrow> inbox_ok ib \<Longrightarrow>
     inbox_ok ib' \<and> (er' = EINTR \<or> Recv_Error EINTR \<in> set ib') = (er = EINTR \<or> Recv_Error EINTR \<in> set ib)"
  by (induction n ib er rule: recv_retry.induct) (auto simp: Let_def split: if_splits)

interpretation clear: socket_invariant "clear_socket b" for b
proof
  fix s i r m r' s'
  assume "clear_socket b s" "recv_into i r s = Ret (m, r', s')"
  then show "clear_socket b s'"
    by (auto simp: clear_socket_def interrupted_def recv_into_def Let_def dest!: recv_retry_kept)
next
  fix s ok s'
  assume "clear_socket b s" "nwrite s continue_line = Ret (ok, s')"
  then show "clear_socket b s'"
    using nwrite_all [of continue_line s] by (auto simp: clear_socket_def interrupted_def continue_line_def CRLF_def)
qed

text \<open>A socket from which everything was read.\<close>

definition drained :: "sock \<Rightarrow> bool" where
  "drained s \<longleftrightarrow> inbox s = [] \<and> sends s = [] \<and> sock_errno s \<noteq> EINTR"

interpretation drained: socket_invariant drained
proof
  fix s i r m r' s'
  assume "drained s" "recv_into i r s = Ret (m, r', s')"
  then show "drained s'" by (auto simp: drained_def recv_into_def Let_def)
next
  fix s ok s'
  assume "drained s" "nwrite s continue_line = Ret (ok, s')"
  then show "drained s'" using nwrite_all [of continue_line s] by (auto simp: drained_def continue_line_def CRLF_def)
qed

end
