(* ===== verification/Answers.thy ===== *)
theory Answers
  imports Bad_Requests Locality
begin

text \<open>
  The answer of the server to any well-formed request of a location of the default module: the file, or the
  error page for a file that is missing or forbidden, for another method, or for a path without a
  location; from the bytes received in one round of \<open>connection_run\<close> to the bytes sent.
\<close>

section \<open>Messages\<close>

record message =
  m_method :: string
  m_path :: string
  m_query :: "string option"
  m_version :: string
  m_fields :: "(string \<times> string) list"
  m_body :: string

definition msg_kind :: "message \<Rightarrow> http_method_e" where
  "msg_kind x = the (parse_method (m_method x))"

definition msg_ver :: "message \<Rightarrow> http_version_e" where
  "msg_ver x = the (parse_version (m_version x))"

definition message_head :: "message \<Rightarrow> string" where
  "message_head x = request_head (m_method x) (m_path x) (m_query x) (m_version x) (m_fields x)"

definition message_wf :: "conf_t \<Rightarrow> message \<Rightarrow> bool" where
  "message_wf c x \<longleftrightarrow> request_wf (m_method x) (m_path x) (m_query x) (m_version x) (msg_kind x) (msg_ver x)
     \<and> msg_kind x \<noteq> HTTP_METHOD_HEAD \<and> length (m_version x) = 8 \<and> fields_ok (m_fields x)
     \<and> content_len_of (m_fields x) = int (length (m_body x)) \<and> length (m_body x) < 2 ^ 31
     \<and> int (length (m_body x)) \<le> max_content_len c
     \<and> int (length (message_head x)) \<le> client_header_size c"

text \<open>The pieces a message arrives in.\<close>

definition arrives :: "message \<Rightarrow> rcv list \<Rightarrow> bool" where
  "arrives x ib \<longleftrightarrow> inbox_ok ib \<and> arriving ib = message_head x @ m_body x"

section \<open>Answers\<close>

datatype answer = File_Answer string string | Page_Answer int

definition message_loc :: "env \<Rightarrow> conf_t \<Rightarrow> message \<Rightarrow> vhost_loc_conf_t option" where
  "message_loc e c x = chosen_loc e (chosen_vhost c (header_get (m_fields x) ''Host'')) (m_path x)"

definition file_answer :: "env \<Rightarrow> string \<Rightarrow> file_t option \<Rightarrow> answer" where
  "file_answer e p fo = (case fo of
       None \<Rightarrow> Page_Answer HTTP_STATUS_NOT_FOUND
     | Some f \<Rightarrow>
         if f_dir f \<or> \<not> f_reg f \<or> \<not> f_rusr f then Page_Answer HTTP_STATUS_FORBIDDEN
         else if f_open f < 0 then Page_Answer HTTP_STATUS_NOT_FOUND
         else File_Answer (http_content_type (extension_of p)) (env_file_data e (f_open f)))"

definition answer_of :: "env \<Rightarrow> conf_t \<Rightarrow> message \<Rightarrow> answer" where
  "answer_of e c x = (case message_loc e c x of
       None \<Rightarrow> Page_Answer HTTP_STATUS_BAD_REQUEST
     | Some lc \<Rightarrow>
         if msg_kind x \<noteq> HTTP_METHOD_GET then Page_Answer HTTP_STATUS_BAD_REQUEST
         else file_answer e (m_path x) (env_files e (file_path c lc (m_path x))))"

definition default_module_only :: "env \<Rightarrow> conf_t \<Rightarrow> message \<Rightarrow> bool" where
  "default_module_only e c x \<longleftrightarrow> (\<forall>lc. message_loc e c x = Some lc \<longrightarrow> handler lc = Module_Default)"

text \<open>The size \<open>stat\<close> gives of a file that can be served is that of its data.\<close>

definition files_ok :: "env \<Rightarrow> bool" where
  "files_ok e \<longleftrightarrow> (\<forall>p f. env_files e p = Some f \<longrightarrow> readable f \<longrightarrow>
     f_size f = int (length (env_file_data e (f_open f))) \<and> length (env_file_data e (f_open f)) < 2 ^ 31)"

text \<open>The bytes of a response with an error page.\<close>

definition page_line :: "int \<Rightarrow> string" where
  "page_line st = (if st = HTTP_STATUS_BAD_REQUEST then ''400 Bad Request''
     else if st = HTTP_STATUS_FORBIDDEN then ''403 Forbidden'' else ''404 Not Found'')"

definition page_text :: "int \<Rightarrow> string" where
  "page_text st = http_error_page_text (nat st) @ http_error_full_tail"

definition page_response :: "string \<Rightarrow> int \<Rightarrow> string" where
  "page_response vs st = vs @ '' '' @ page_line st @ CRLF @ ''Connection: Close'' @ CRLF @ ''Server: xwp server 0.1'' @ CRLF
     @ ''Content-Length: '' @ show_nat (length (page_text st)) @ CRLF @ CRLF @ page_text st"

definition answer_kept :: "message \<Rightarrow> answer \<Rightarrow> bool" where
  "answer_kept x a = (case a of File_Answer ct d \<Rightarrow> keep_alive_of (msg_ver x) (m_fields x) | Page_Answer st \<Rightarrow> False)"

definition answer_text :: "message \<Rightarrow> answer \<Rightarrow> string" where
  "answer_text x a = (case a of
       File_Answer ct d \<Rightarrow> file_response (m_version x) ct (keep_alive_of (msg_ver x) (m_fields x)) d
     | Page_Answer st \<Rightarrow> page_response (m_version x) st)"

section \<open>Error pages\<close>

definition page_statuses :: "int set" where
  "page_statuses = {HTTP_STATUS_BAD_REQUEST, HTTP_STATUS_FORBIDDEN, HTTP_STATUS_NOT_FOUND}"

lemmas page_status_defs = HTTP_STATUS_BAD_REQUEST_def HTTP_STATUS_FORBIDDEN_def HTTP_STATUS_NOT_FOUND_def

lemma page_status_line:
  assumes "st \<in> page_statuses"
  shows "http_status_line st = Ret (page_line st)"
proof -
  have "http_status_line 400 = Ret ''400 Bad Request''" "http_status_line 403 = Ret ''403 Forbidden''"
    "http_status_line 404 = Ret ''404 Not Found''" by code_simp+
  then show ?thesis using assms by (auto simp: page_statuses_def page_line_def page_status_defs)
qed

lemma page_of_status:
  assumes "st \<in> page_statuses"
  shows "http_error_page st None = Ret (Some (page_text st))"
  using assms http_error_page_listed [of st "http_error_page_text (nat st)" None]
  by (auto simp: page_statuses_def page_text_def page_status_defs http_error_pages_def)

lemma page_text_length:
  assumes "st \<in> page_statuses"
  shows "0 < length (page_text st)" "length (page_text st) < 1000"
  using assms
  by (auto simp: page_statuses_def page_text_def page_status_defs http_error_page_text_def http_error_pages_3xx_def
      http_error_pages_40x_def page_html_def http_error_full_tail_def CRLF_def XWP_SERVER_VER_def)

text \<open>The request with the page of its status as the body, not kept alive any more.\<close>

definition with_page :: "http_request_t \<Rightarrow> http_request_t" where
  "with_page r = r\<lparr>mem := mem r @ [page_text (status r)],
     body_out := (body_out r)\<lparr>content_len := int (length (page_text (status r))),
       content := Some \<lparr>blk = length (mem r), buf_start = 0, buf_end = length (page_text (status r)), buf_pos = 0,
         buf_last = length (page_text (status r))\<rparr>\<rparr>, keep_alive := False\<rparr>"

lemma special_response_page:
  assumes "status r \<in> page_statuses" "content_len (body_out r) = 0" "err_msg r = None"
  shows "connection_special_response r = Ret (with_page r)"
proof -
  have "HTTP_STATUS_BAD_REQUEST \<le> status r" using assms(1) by (auto simp: page_statuses_def page_status_defs)
  with assms page_of_status [OF assms(1)] show ?thesis
    by (simp add: connection_special_response_def with_page_def Let_def)
qed

lemma page_response_sent:
  assumes st: "status r \<in> page_statuses" and b: "content_fd (body_out r) < 0"
    and o: "elts (out_headers (headers_out r)) = []" "array_ok (out_headers (headers_out r))"
    and ver: "str_wf (mem (with_page r)) (version_str r)" "text_of (mem (with_page r)) (version_str r) = vs" "length vs = 8"
    and s: "sends s = []"
  shows "\<exists>r'. connection_send_response e (with_page r) s
      = Ret (True, r', s\<lparr>outbox := outbox s @ page_response vs (status r)\<rparr>)
    \<and> keep_alive r' = False \<and> upstream r' = upstream r"
proof -
  let ?r = "with_page r" and ?p = "page_text (status r)"
  note len = page_text_length [OF st]
  have f: "status ?r = status r" "out_headers (headers_out ?r) = out_headers (headers_out r)" "version_str ?r = version_str r"
    "\<not> keep_alive ?r" "upstream ?r = upstream r" "content_len (body_out ?r) = int (length ?p)"
    by (simp_all add: with_page_def)
  obtain t where t: "response_set_headers ?r = Ret t" "elts t = [\<lparr>hname = HTTP_HEADER_CONNECTION, hvalue = conn_value ?r\<rparr>,
     \<lparr>hname = HTTP_HEADER_SERVER, hvalue = HTTP_HEADER_XWP_VER\<rparr>, \<lparr>hname = HTTP_HEADER_CONTENT_LEN, hvalue = clen_value ?r\<rparr>]"
    using set_headers_empty [of ?r] o unfolding f by blast
  have wf: "out_headers_wf (with_headers t ?r)"
    using header_values_wf [of "mem ?r"] by (simp add: out_headers_wf_def with_headers_def t(2) header_name_defs)
  have cl: "text_of (mem ?r) (clen_value ?r) = show_nat (length ?p)"
    using len(1) by (simp add: clen_value_def f show_int_def)
  have body: "body_ready ?r" "response_body e ?r = ?p"
    using b len(1) by (simp_all add: body_ready_def response_body_def Let_def with_page_def)
  have head: "head_text (with_headers t ?r) vs (page_line (status r)) @ ?p = page_response vs (status r)"
    by (simp add: head_text_def with_headers_def t(2) page_response_def header_line_text_def cl conn_value_def f header_name_defs
        XWP_SERVER_VER_def)
  have "length (page_line (status r)) \<le> 15" by (simp add: page_line_def)
  then have "length (page_response vs (status r)) < 2 ^ 64"
    using len(2) length_show_nat [of "length ?p"] ver(3) by (simp add: page_response_def CRLF_def)
  then have small: "length (head_text (with_headers t ?r) vs (page_line (status r))) < 2 ^ 64" by (simp add: head [symmetric])
  have line: "http_status_line (status ?r) = Ret (page_line (status r))" unfolding f by (rule page_status_line [OF st])
  have "str_wf (mem ?r) (version_str ?r)" "text_of (mem ?r) (version_str ?r) = vs" using ver(1,2) by (simp_all add: f)
  from send_response_bytes [OF t(1) wf line this ver(3) body(1) s small, of e] body(2) head f show ?thesis by simp
qed

section \<open>The answer to a received request\<close>

text \<open>What the answer needs of the request that was received.\<close>

definition received :: "message \<Rightarrow> http_request_t \<Rightarrow> bool" where
  "received x r \<longleftrightarrow> req_method r = msg_kind x \<and> keep_alive r = keep_alive_of (msg_ver x) (m_fields x)
     \<and> str_is (mem r) (header_host (headers_in r)) (header_get (m_fields x) ''Host'')
     \<and> deref (mem r) (data (path (url r))) = Ret (m_path x)
     \<and> str_wf (mem r) (path (url r)) \<and> text_of (mem r) (path (url r)) = m_path x
     \<and> str_wf (mem r) (version_str r) \<and> text_of (mem r) (version_str r) = m_version x
     \<and> elts (out_headers (headers_out r)) = [] \<and> array_ok (out_headers (headers_out r)) \<and> status r = HTTP_STATUS_OK
     \<and> content (body_out r) = None \<and> content_len (body_out r) = 0 \<and> content_fd (body_out r) < 0
     \<and> err_msg r = None"

definition file_request :: "file_t \<Rightarrow> headers \<Rightarrow> http_request_t \<Rightarrow> http_request_t" where
  "file_request f t r = r\<lparr>body_out := (body_out r)\<lparr>content_fd := f_open f, content_len := int32 (f_size f)\<rparr>,
     headers_out := (headers_out r)\<lparr>out_headers := t\<rparr>, status := HTTP_STATUS_OK\<rparr>"

lemma default_module_answer:
  assumes c: "conf_wf c" and r: "received x r" and lc: "message_loc e c x = Some lc" "handler lc = Module_Default"
  shows "connection_process_request e c r = (if msg_kind x \<noteq> HTTP_METHOD_GET then Ret (r\<lparr>status := HTTP_STATUS_BAD_REQUEST\<rparr>)
     else bnd (module_default_handle_request (env_files e) c lc r) (\<lambda>(ret, r1). Ret r1))
   \<and> served_path c lc r = file_path c lc (m_path x)
   \<and> str_wf (mem r) (loc_root lc) \<and> str_wf (mem r) (default_page c)"
proof -
  have l: "conf_str (loc_root lc)" "conf_str (default_page c)"
    using c find_in [OF lc(1) [unfolded message_loc_def chosen_loc_def]] chosen_vhost_in [of c "header_get (m_fields x) ''Host''"]
    by (auto simp: conf_wf_def)
  have i: "str_is (mem r) (header_host (headers_in r)) (header_get (m_fields x) ''Host'')"
    "deref (mem r) (data (path (url r))) = Ret (m_path x)" "text_of (mem r) (path (url r)) = m_path x" "req_method r = msg_kind x"
    using r by (simp_all add: received_def)
  have "served_path c lc r = file_path c lc (m_path x)"
    using i(3) conf_strD(2) [OF l(1)] conf_strD(2) [OF l(2)] by (simp add: served_path_def file_path_def Let_def)
  moreover have "connection_process_request e c r = (if msg_kind x \<noteq> HTTP_METHOD_GET then Ret (r\<lparr>status := HTTP_STATUS_BAD_REQUEST\<rparr>)
     else bnd (module_default_handle_request (env_files e) c lc r) (\<lambda>(ret, r1). case ret of
           HTTP_MODULE_PROCESS_DONE \<Rightarrow> Ret r1
         | HTTP_MODULE_PROCESS_UPSTREAM \<Rightarrow> Crash Null_Deref))"
    using process_request_spec [OF c i(1,2), of e] lc i(4)
    by (auto simp: message_loc_def module_process_def module_default_handle_request_def upstream_process_def
        cong: module_result.case_cong)
  moreover have "ret = HTTP_MODULE_PROCESS_DONE" if "module_default_handle_request (env_files e) c lc r = Ret (ret, r1)" for ret r1
    using that by (auto simp: module_default_handle_request_def Let_def split: if_splits option.splits)
  then have "bnd (module_default_handle_request (env_files e) c lc r) (\<lambda>(ret, r1). case ret of
           HTTP_MODULE_PROCESS_DONE \<Rightarrow> Ret r1 | HTTP_MODULE_PROCESS_UPSTREAM \<Rightarrow> Crash Null_Deref)
      = bnd (module_default_handle_request (env_files e) c lc r) (\<lambda>(ret, r1). Ret r1)"
    by (cases "module_default_handle_request (env_files e) c lc r") auto
  ultimately show ?thesis using conf_strD(1) [OF l(1)] conf_strD(1) [OF l(2)] by simp
qed

lemma process_answer:
  assumes c: "conf_wf c" and r: "received x r" and e: "default_module_only e c x" "files_ok e"
  shows "case answer_of e c x of
     Page_Answer st \<Rightarrow> st \<in> page_statuses \<and> connection_process_request e c r = Ret (r\<lparr>status := st\<rparr>)
   | File_Answer ct d \<Rightarrow> \<exists>f t. connection_process_request e c r = Ret (file_request f t r) \<and> array_ok t
       \<and> elts t = [\<lparr>hname = HTTP_HEADER_CONTENT_TYPE, hvalue = server_string ct\<rparr>] \<and> ct = http_content_type (extension_of (m_path x))
       \<and> readable f \<and> env_file_data e (f_open f) = d \<and> f_size f = int (length d) \<and> length d < 2 ^ 31"
proof (cases "message_loc e c x")
  case None
  have "connection_process_request e c r = Ret (r\<lparr>status := HTTP_STATUS_BAD_REQUEST\<rparr>)"
    using process_request_spec [OF c, of r "header_get (m_fields x) ''Host''" "m_path x" e] r None
    by (simp add: received_def message_loc_def)
  then show ?thesis using None by (simp add: answer_of_def page_statuses_def)
next
  case (Some lc)
  have h: "handler lc = Module_Default" using e(1) Some by (simp add: default_module_only_def)
  note l = default_module_answer [OF c r Some h]
  have i: "elts (out_headers (headers_out r)) = []" "array_ok (out_headers (headers_out r))" "str_wf (mem r) (path (url r))"
    "text_of (mem r) (path (url r)) = m_path x" "req_method r = msg_kind x" using r by (simp_all add: received_def)
  show ?thesis
  proof (cases "msg_kind x = HTTP_METHOD_GET")
    case False
    then show ?thesis using l Some by (simp add: answer_of_def page_statuses_def)
  next
    case True
    then have m: "req_method r = HTTP_METHOD_GET" using i(5) by simp
    have d: "default_path c lc r = Ret (file_path c lc (m_path x))" using default_path_Ret [OF i(3)] l by simp
    show ?thesis
    proof (cases "\<exists>f. env_files e (file_path c lc (m_path x)) = Some f \<and> readable f")
      case no: False
      then show ?thesis
        using True Some l m d
        by (auto simp: answer_of_def file_answer_def readable_def module_default_handle_request_def page_statuses_def
            split: option.splits)
    next
      case yes: True
      then obtain f where f: "env_files e (file_path c lc (m_path x)) = Some f" "readable f" by blast
      then have f': "env_files e (served_path c lc r) = Some f" "\<not> f_dir f" "f_reg f" "f_rusr f" "0 \<le> f_open f"
        using l by (simp_all add: readable_def)
      obtain t where "module_default_handle_request (env_files e) c lc r = Ret (HTTP_MODULE_PROCESS_DONE, file_request f t r)"
        "array_ok t" "elts t = [\<lparr>hname = HTTP_HEADER_CONTENT_TYPE,
             hvalue = server_string (http_content_type (extension_of (m_path x)))\<rparr>]"
        using default_handle_found [of r lc c "env_files e" f, OF m i(1-3) _ _ f'] l i(4) unfolding file_request_def by auto
      moreover have "answer_of e c x = File_Answer (http_content_type (extension_of (m_path x))) (env_file_data e (f_open f))"
        using True Some f by (simp add: answer_of_def file_answer_def readable_def)
      moreover have "f_size f = int (length (env_file_data e (f_open f)))" "length (env_file_data e (f_open f)) < 2 ^ 31"
        using e(2) f by (auto simp: files_ok_def)
      ultimately show ?thesis using True l f(2) by (auto intro!: exI [of _ f] exI [of _ t])
    qed
  qed
qed

lemma str_wf_longer_heap: "str_wf h s \<Longrightarrow> str_wf (h @ [m]) s \<and> text_of (h @ [m]) s = text_of h s"
  by (auto simp: str_wf_def str_ok_def text_of_def deref_def nth_append split: ptr.splits if_splits)

text \<open>From the request to the bytes of the answer: handler, special response, response.\<close>

lemma answer_sent:
  assumes c: "conf_wf c" and r: "received x r" and e: "default_module_only e c x" "files_ok e"
    and x: "length (m_version x) = 8" and s: "sends s = []" and u: "upstream r = None"
  shows "\<exists>r2 r3 r4. connection_process_request e c r = Ret r2 \<and> status r2 \<noteq> HTTP_STATUS_CLOSE
    \<and> (if HTTP_STATUS_SPECIAL_RESPONSE \<le> status r2 then connection_special_response r2 else Ret r2) = Ret r3
    \<and> connection_send_response e r3 s = Ret (True, r4, s\<lparr>outbox := outbox s @ answer_text x (answer_of e c x)\<rparr>)
    \<and> keep_alive r4 = answer_kept x (answer_of e c x) \<and> upstream r4 = None"
proof -
  have v: "str_wf (mem r) (version_str r)" "text_of (mem r) (version_str r) = m_version x" using r by (simp_all add: received_def)
  show ?thesis
  proof (cases "answer_of e c x")
    case (Page_Answer st)
    let ?r = "r\<lparr>status := st\<rparr>"
    have p: "st \<in> page_statuses" "connection_process_request e c r = Ret ?r"
      using process_answer [OF assms(1-4)] Page_Answer by simp_all
    have sp: "connection_special_response ?r = Ret (with_page ?r)"
      by (rule special_response_page) (use p(1) r in \<open>simp_all add: received_def\<close>)
    have h: "str_wf (mem (with_page ?r)) (version_str ?r)" "text_of (mem (with_page ?r)) (version_str ?r) = m_version x"
      using str_wf_longer_heap [OF v(1), of "page_text st"] v(2) by (simp_all add: with_page_def)
    obtain r4 where "connection_send_response e (with_page ?r) s
        = Ret (True, r4, s\<lparr>outbox := outbox s @ page_response (m_version x) st\<rparr>)" "keep_alive r4 = False" "upstream r4 = None"
      using page_response_sent [OF _ _ _ _ h x s, of e] p(1) r u by (auto simp: received_def)
    moreover have "HTTP_STATUS_SPECIAL_RESPONSE \<le> st" "st \<noteq> HTTP_STATUS_CLOSE"
      using p(1) by (auto simp: page_statuses_def page_status_defs HTTP_STATUS_SPECIAL_RESPONSE_def HTTP_STATUS_CLOSE_def)
    ultimately show ?thesis using p(2) sp Page_Answer by (simp add: answer_text_def answer_kept_def)
  next
    case (File_Answer ct d)
    obtain f t where p: "connection_process_request e c r = Ret (file_request f t r)" "array_ok t"
      "elts t = [\<lparr>hname = HTTP_HEADER_CONTENT_TYPE, hvalue = server_string ct\<rparr>]" "ct = http_content_type (extension_of (m_path x))"
      "readable f" "env_file_data e (f_open f) = d" "f_size f = int (length d)" "length d < 2 ^ 31"
      using process_answer [OF assms(1-4)] File_Answer by auto
    let ?r = "file_request f t r"
    have "\<exists>r'. connection_send_response e ?r s
        = Ret (True, r', s\<lparr>outbox := outbox s @ file_response (text_of (mem ?r) (version_str ?r)) ct (keep_alive ?r) d\<rparr>)
      \<and> keep_alive r' = keep_alive ?r \<and> upstream r' = upstream ?r"
      by (rule file_response_sent)
        (use p r x s content_type_text in \<open>simp_all add: file_request_def readable_def received_def int32_id\<close>)
    then show ?thesis
      using p(1) r u File_Answer
      by (simp add: file_request_def received_def answer_text_def answer_kept_def HTTP_STATUS_OK_def
          HTTP_STATUS_SPECIAL_RESPONSE_def HTTP_STATUS_CLOSE_def)
  qed
qed

section \<open>One round\<close>

definition reply :: "env \<Rightarrow> conf_t \<Rightarrow> message \<Rightarrow> string" where
  "reply e c x = (if expects_continue (m_fields x) then continue_line else []) @ answer_text x (answer_of e c x)"

definition kept :: "env \<Rightarrow> conf_t \<Rightarrow> message \<Rightarrow> bool" where
  "kept e c x = answer_kept x (answer_of e c x)"

text \<open>A connection whose next request is still to come.\<close>

definition awaiting :: "connection_t \<Rightarrow> bool" where
  "awaiting cn \<longleftrightarrow> conn_state cn = CONNECTION_RUNNING \<and> \<not> timedout cn
     \<and> (\<exists>ip prt r. http_request_create ip prt = Ret r \<and> conn_r cn = Some r)"

text \<open>No backend is waited for.\<close>

definition without_upstream :: "connection_t \<Rightarrow> bool" where
  "without_upstream cn \<longleftrightarrow> (\<forall>r. conn_r cn = Some r \<longrightarrow> upstream r = None)"

text \<open>Where the parts of the message are in the request's memory.\<close>

definition request_at :: "string \<Rightarrow> message \<Rightarrow> http_request_t \<Rightarrow> bool" where
  "request_at ip x r \<longleftrightarrow> (\<exists>b t cut. cut = request_line_cut (m_method x) (target_cut (m_path x) (m_query x)) (m_version x)
     \<and> keeps_parsed b (cut @ lines_cut (m_fields x) @ CRLF) r
     \<and> method_str r = \<lparr>data = At b 0, len = length (m_method x)\<rparr>
     \<and> version_str r = \<lparr>data = At b (length (m_method x) + length (target (m_path x) (m_query x)) + 2), len = length (m_version x)\<rparr>
     \<and> url r = url_result b (length (m_method x) + 1) (m_path x) (m_query x) null_url
     \<and> headers_in r = headers_in_at b (length cut) (m_fields x) t \<and> elts t = table_at b (length cut) (m_fields x)
     \<and> remote_ip r = server_string ip \<and> state r = HTTP_PROCESS_STAT_CONTENT_BODY
     \<and> body_is (m_body x) (body_in r) r \<and> (m_body x = [] \<longrightarrow> content_len (body_in r) = 0))"

lemma gen_request_message:
  assumes r: "http_request_create ip prt = Ret r" and c: "client_header_size c < 2 ^ 31 - 1" and x: "message_wf c x"
    and s: "inbox_ok (inbox s)" "arriving (inbox s) = message_head x @ m_body x @ extra" "sends s = []"
  shows "\<exists>r1 s1. connection_gen_request c r s = Ret (r1, s1) \<and> received x r1 \<and> upstream r1 = None \<and> request_at ip x r1 \<and> suffix (arriving (inbox s1)) extra
    \<and> outbox s1 = outbox s @ (if expects_continue (m_fields x) then continue_line else []) \<and> clear_socket (interrupted s) s1"
proof -
  let ?n = "nat (client_header_size c)"
  have n: "client_header_size c = int ?n" "?n < 2 ^ 31 - 1" "length (request_head (m_method x) (m_path x) (m_query x) (m_version x) (m_fields x)) \<le> ?n"
    using x c by (simp_all add: message_wf_def message_head_def le_nat_iff)
  have m: "request_wf (m_method x) (m_path x) (m_query x) (m_version x) (msg_kind x) (msg_ver x)"
    "fields_ok (m_fields x)" "msg_kind x \<noteq> HTTP_METHOD_HEAD" "content_len_of (m_fields x) = int (length (m_body x))"
    "int (length (m_body x)) \<le> max_content_len c" "length (m_body x) < 2 ^ 31"
    using x by (simp_all add: message_wf_def)
  obtain r1 s1 t h bs cb where g: "connection_gen_request c r s = Ret (r1, s1)"
    "r1 = (parsed_request ?n (m_method x) (m_path x) (m_query x) (m_version x) (msg_kind x) (msg_ver x) (m_fields x) t r)
       \<lparr>mem := h, bufs := bs, state := HTTP_PROCESS_STAT_CONTENT_BODY, body_in := cb\<rparr>"
    "request_is (m_method x) (m_path x) (m_query x) (m_version x) (msg_kind x) (msg_ver x) (m_fields x) (m_body x) r1"
    "outbox s1 = outbox s @ (if expects_continue (m_fields x) then continue_line else [])" "suffix (arriving (inbox s1)) extra"
    "keeps_parsed (length (mem r)) (parsed_text (m_method x) (m_path x) (m_query x) (m_version x) (m_fields x)) r1"
    "elts t = table_at (length (mem r)) (length (request_line_cut (m_method x) (target_cut (m_path x) (m_query x)) (m_version x))) (m_fields x)"
    "body_is (m_body x) cb r1" "m_body x = [] \<longrightarrow> cb = body_in r"
    using gen_request_received [OF r n(1,2) m(1-3) n(3) m(4-6) s(1) s(2) [unfolded message_head_def] s(3)] unfolding Let_def by auto
  note q = received_request [OF r m(1) g(2,3)]
  have "received x r1" "upstream r1 = None" using q g(3) by (simp_all add: received_def request_is_def)
  moreover have "request_at ip x r1"
    unfolding request_at_def
    by (intro exI [of _ "length (mem r)"] exI [of _ t] exI)
      (use g(6-9) r in \<open>auto simp: parsed_text_def g(2) parsed_request_def request_line_set_def fresh_buf_def http_request_create_def\<close>)
  moreover have "clear_socket (interrupted s) s1"
    by (rule clear.gen_request [OF _ g(1)]) (use s in \<open>simp add: clear_socket_def\<close>)
  ultimately show ?thesis using g(1,4,5) by blast
qed

lemma message_received:
  assumes r: "http_request_create ip prt = Ret r" and c: "client_header_size c < 2 ^ 31 - 1" and x: "message_wf c x"
    and s: "inbox s = ib @ jb" "arrives x ib" "sends s = []"
  shows "\<exists>r1 s1 lo. connection_gen_request c r s = Ret (r1, s1) \<and> received x r1 \<and> upstream r1 = None \<and> request_at ip x r1
    \<and> inbox s1 = lo @ jb \<and> inbox_ok lo \<and> arriving lo = [] \<and> sends s1 = []
    \<and> outbox s1 = outbox s @ (if expects_continue (m_fields x) then continue_line else [])
    \<and> interrupted s1 = interrupted s"
proof -
  let ?s = "s\<lparr>inbox := ib\<rparr>"
  have i: "inbox_ok (inbox ?s)" "arriving (inbox ?s) = message_head x @ m_body x @ []" "sends ?s = []"
    using s by (simp_all add: arrives_def)
  obtain r1 s1 where g: "connection_gen_request c r ?s = Ret (r1, s1)" "received x r1" "suffix (arriving (inbox s1)) []"
    "outbox s1 = outbox ?s @ (if expects_continue (m_fields x) then continue_line else [])" "clear_socket (interrupted ?s) s1"
    "request_at ip x r1" "upstream r1 = None"
    using gen_request_message [OF r c x i] by blast
  have "status r1 \<noteq> HTTP_STATUS_CLOSE" using g(2) by (simp add: received_def HTTP_STATUS_OK_def HTTP_STATUS_CLOSE_def)
  from gen_request_local [OF g(1) this, of jb] have "connection_gen_request c r s = Ret (r1, behind jb s1)"
    by (simp add: behind_def s(1) [symmetric])
  moreover have "interrupted (behind jb s1) = interrupted s"
    using g(5) s(1) by (auto simp: clear_socket_def interrupted_def)
  ultimately show ?thesis
    using g(2-7)
    by (intro exI [of _ r1] exI [of _ "behind jb s1"] exI [of _ "inbox s1"]) (simp add: clear_socket_def)
qed

text \<open>The round of a request once it is received: its steps, and the round for an answer of the default module.\<close>

lemma round_steps:
  assumes cn: "conn_state cn = CONNECTION_RUNNING" "\<not> timedout cn" "conn_r cn = Some r"
    and g: "connection_gen_request c r (conn_sock cn) = Ret (r1, s1)" "status r1 < HTTP_STATUS_SPECIAL_RESPONSE"
    and p: "connection_process_request e c r1 = Ret r2" "status r2 \<noteq> HTTP_STATUS_CLOSE"
      "(if HTTP_STATUS_SPECIAL_RESPONSE \<le> status r2 then connection_special_response r2 else Ret r2) = Ret r3"
    and s: "connection_send_response e r3 s1 = Ret (True, r4, s2)" and u: "abort_upstream r4 = Ret r5"
  shows "\<exists>cn'. connection_round e c cn = Ret (keep_alive r4, cn') \<and> conn_sock cn' = s2
    \<and> (if keep_alive r4 then awaiting cn' else conn_r cn' = Some r4)"
proof -
  let ?cn = "cn\<lparr>conn_r := Some r4, conn_sock := s2\<rparr>"
  obtain r6 where r6: "http_request_create (env_peer_ip e) (env_peer_port e) = Ret r6"
    using http_request_create_returns by blast
  have "connection_round e c cn = (if keep_alive r4 then connection_finalize_request e ?cn else Ret (False, ?cn))"
    unfolding connection_round_def Let_def using g(2) by (simp add: cn g(1) p s)
  also have "connection_finalize_request e ?cn = Ret (True, ?cn\<lparr>start_time := env_time e, request_pool := True, conn_r := Some r6\<rparr>)"
    using cn u r6 by (simp add: connection_finalize_request_def)
  finally show ?thesis using cn r6 by (auto simp: awaiting_def)
qed

lemma round_of_received:
  assumes cn: "conn_state cn = CONNECTION_RUNNING" "\<not> timedout cn" "conn_r cn = Some r"
    and g: "connection_gen_request c r (conn_sock cn) = Ret (r1, s1)" "received x r1" "sends s1 = []" "upstream r1 = None"
    and c: "conf_wf c" and x: "message_wf c x" and e: "default_module_only e c x" "files_ok e"
  shows "\<exists>cn'. connection_round e c cn = Ret (kept e c x, cn')
    \<and> conn_sock cn' = s1\<lparr>outbox := outbox s1 @ answer_text x (answer_of e c x)\<rparr>
    \<and> without_upstream cn' \<and> (kept e c x \<longrightarrow> awaiting cn')"
proof -
  have x8: "length (m_version x) = 8" using x by (simp add: message_wf_def)
  obtain r2 r3 r4 where a: "connection_process_request e c r1 = Ret r2" "status r2 \<noteq> HTTP_STATUS_CLOSE"
    "(if HTTP_STATUS_SPECIAL_RESPONSE \<le> status r2 then connection_special_response r2 else Ret r2) = Ret r3"
    "connection_send_response e r3 s1 = Ret (True, r4, s1\<lparr>outbox := outbox s1 @ answer_text x (answer_of e c x)\<rparr>)"
    "keep_alive r4 = kept e c x" "upstream r4 = None"
    using answer_sent [OF c g(2) e x8 g(3,4)] by (auto simp: kept_def)
  have s1: "status r1 < HTTP_STATUS_SPECIAL_RESPONSE"
    using g(2) by (simp add: received_def HTTP_STATUS_OK_def HTTP_STATUS_SPECIAL_RESPONSE_def)
  have "abort_upstream r4 = Ret r4" using a(6) by (simp add: abort_upstream_def)
  from round_steps [OF cn g(1) s1 a(1-4) this] show ?thesis
    using a(5,6) by (auto simp: awaiting_def without_upstream_def http_request_create_def split: if_splits)
qed

lemma round_answers:
  assumes cn: "awaiting cn" "sends (conn_sock cn) = []" "inbox (conn_sock cn) = ib @ jb"
    and c: "conf_wf c" "client_header_size c < 2 ^ 31 - 1"
    and x: "message_wf c x" "arrives x ib" and e: "default_module_only e c x" "files_ok e"
  shows "\<exists>cn'. connection_round e c cn = Ret (kept e c x, cn')
    \<and> outbox (conn_sock cn') = outbox (conn_sock cn) @ reply e c x \<and> sends (conn_sock cn') = []
    \<and> (\<exists>lo. inbox (conn_sock cn') = lo @ jb \<and> inbox_ok lo \<and> arriving lo = [])
    \<and> interrupted (conn_sock cn') = interrupted (conn_sock cn) \<and> without_upstream cn' \<and> (kept e c x \<longrightarrow> awaiting cn')"
proof -
  let ?s = "conn_sock cn"
  obtain ip prt r where r: "http_request_create ip prt = Ret r" "conn_r cn = Some r"
    and st: "conn_state cn = CONNECTION_RUNNING" "\<not> timedout cn" using cn(1) by (auto simp: awaiting_def)
  obtain r1 s1 lo where g: "connection_gen_request c r ?s = Ret (r1, s1)" "received x r1" "inbox s1 = lo @ jb" "inbox_ok lo"
    "arriving lo = []" "sends s1 = []" "outbox s1 = outbox ?s @ (if expects_continue (m_fields x) then continue_line else [])"
    "interrupted s1 = interrupted ?s" "upstream r1 = None"
    using message_received [OF r(1) c(2) x(1) cn(3) x(2) cn(2)] by blast
  from round_of_received [OF st r(2) g(1,2,6,9) c(1) x(1) e] g show ?thesis
    by (auto simp: reply_def interrupted_def)
qed

end
