(* ===== verification/Conversation.thy ===== *)
theory Conversation
  imports Answers
begin

text \<open>
  A whole conversation on a connection: the requests of a client that waits for each response before it sends
  the next request are answered in order, each by the bytes \<open>reply\<close> gives, until one is answered with the
  connection closed or the client hangs up.
\<close>

fun conversation :: "env \<Rightarrow> conf_t \<Rightarrow> message list \<Rightarrow> string" where
  "conversation e c [] = []"
| "conversation e c (x # xs) = reply e c x @ (if kept e c x then conversation e c xs else [])"

section \<open>The client hangs up\<close>

lemma recv_retry_hangup:
  assumes "inbox_ok lo" "arriving lo = []"
  shows "recv_retry k lo er = (if er = EINTR \<or> Recv_Error EINTR \<in> set lo then Crash Diverges else Ret (0, [], [], er))"
  using assms
proof (induction lo arbitrary: er)
  case (Cons a lo)
  then show ?case by (cases a) auto
qed simp

lemma hangup_received:
  assumes r: "http_request_create ip prt = Ret r" and c: "0 < client_header_size c" "client_header_size c < 2 ^ 31 - 1"
    and s: "inbox_ok (inbox s)" "arriving (inbox s) = []"
  shows "if interrupted s then connection_gen_request c r s = Crash Diverges
    else \<exists>r1 s1. connection_gen_request c r s = Ret (r1, s1) \<and> status r1 = HTTP_STATUS_CLOSE \<and> s1 = s\<lparr>inbox := []\<rparr>
      \<and> upstream r1 = None"
proof -
  define n where "n = nat (client_header_size c)"
  have n: "client_header_size c = int n" "n < 2 ^ 31 - 1" "0 < n" using c by (simp_all add: n_def)
  let ?i = "length (bufs r)" and ?F = "first_buf n r"
  note pl = request_line_starts(1) [OF r n(1,2), of s] and v = request_line_starts(2) [OF r n(1,2)]
  let ?L = "loaded ?i [] [] n ?F"
  have "buf_last (bufs ?L ! ?i) \<noteq> buf_end (bufs ?L ! ?i)" using v n(3) by simp
  then have l: "line_loop http_parse_request_line c ?i ?L s = bnd (recv_into ?i ?L s) (\<lambda>(count, r3, s').
      if count \<le> 0 then Ret (False, r3\<lparr>status := HTTP_STATUS_CLOSE\<rparr>, s')
      else line_loop http_parse_request_line c ?i (set_buf ?i (\<lambda>x. x\<lparr>buf_last := buf_last x + nat count\<rparr>) r3) s')"
    by (subst line_loop.simps) (simp add: request_line_nothing [OF v])
  have "write_at (buf_mem ?L ?i) (buf_last (bufs ?L ! ?i)) [] = Ret (buf_mem ?L ?i)"
    using v by (simp add: write_at_def del: replicate.simps)
  then have "recv_into ?i ?L s = (if interrupted s then Crash Diverges
      else Ret (0, set_buf_mem ?i (buf_mem ?L ?i) ?L, s\<lparr>inbox := []\<rparr>))"
    using recv_retry_hangup [OF s, of _ "sock_errno s"] unfolding recv_into_def Let_def interrupted_def
    by (simp del: loaded_buf(1))
  moreover have "upstream (set_buf_mem ?i (buf_mem ?L ?i) ?L) = None"
    using r by (auto simp: set_buf_mem_def loaded_def first_buf_def fresh_buf_def http_request_create_def)
  ultimately show ?thesis using pl l by (auto simp: connection_gen_request_def)
qed

lemma round_hangup:
  assumes cn: "awaiting cn" and c: "0 < client_header_size c" "client_header_size c < 2 ^ 31 - 1"
    and s: "inbox_ok (inbox (conn_sock cn))" "arriving (inbox (conn_sock cn)) = []"
  shows "if interrupted (conn_sock cn) then connection_round e c cn = Crash Diverges
    else \<exists>cn'. connection_round e c cn = Ret (False, cn') \<and> conn_sock cn' = (conn_sock cn)\<lparr>inbox := []\<rparr>
      \<and> without_upstream cn'"
proof -
  obtain ip prt r where r: "http_request_create ip prt = Ret r" "conn_r cn = Some r"
    and st: "conn_state cn = CONNECTION_RUNNING" "\<not> timedout cn" using cn by (auto simp: awaiting_def)
  show ?thesis
    using hangup_received [OF r(1) c s] st r(2)
    by (auto simp: connection_round_def without_upstream_def HTTP_STATUS_CLOSE_def HTTP_STATUS_SPECIAL_RESPONSE_def)
qed

section \<open>The whole conversation\<close>

definition served_by :: "env \<Rightarrow> conf_t \<Rightarrow> message \<Rightarrow> bool" where
  "served_by e c x \<longleftrightarrow> message_wf c x \<and> default_module_only e c x"

lemma arrives_after_signals:
  assumes "arrives x ib" "inbox_ok lo" "arriving lo = []"
  shows "arrives x (lo @ ib)"
  using assms by (auto simp: arrives_def inbox_ok_def arriving_def)

lemma awaiting_ready: "awaiting cn \<Longrightarrow> round_ready cn"
  by (auto simp: awaiting_def round_ready_def http_request_create_def array_create_def)

lemma loop_conversation:
  assumes c: "conf_wf c" "0 < client_header_size c" "client_header_size c < 2 ^ 31 - 1" and e: "files_ok e"
    and xs: "\<forall>x \<in> set xs. served_by e c x" "list_all2 arrives xs ibs"
    and cn: "awaiting cn" "sends (conn_sock cn) = []" "inbox (conn_sock cn) = lo @ concat ibs" "inbox_ok lo" "arriving lo = []"
    and n: "inbox_size (conn_sock cn) < n"
  shows "if list_all (kept e c) xs \<and> interrupted (conn_sock cn) then connection_loop n e c cn = Crash Diverges
    else \<exists>cn'. connection_loop n e c cn = Ret cn' \<and> outbox (conn_sock cn') = outbox (conn_sock cn) @ conversation e c xs
      \<and> without_upstream cn'"
  using xs cn n
proof (induction xs arbitrary: ibs cn lo n)
  case Nil
  obtain m where m: "n = Suc m" using Nil.prems(8) by (cases n) auto
  have "inbox_ok (inbox (conn_sock cn))" "arriving (inbox (conn_sock cn)) = []" "\<not> timedout cn"
    using Nil.prems by (auto simp: awaiting_def)
  with round_hangup [OF Nil.prems(3) c(2,3), of e] show ?case by (auto simp: m split: if_splits)
next
  case (Cons x xs)
  obtain m where m: "n = Suc m" using Cons.prems(8) by (cases n) auto
  obtain ib ibs' where ibs: "ibs = ib # ibs'" "arrives x ib" "list_all2 arrives xs ibs'"
    using Cons.prems(2) by (auto simp: list_all2_Cons1)
  have x: "message_wf c x" "default_module_only e c x" using Cons.prems(1) by (simp_all add: served_by_def)
  have i: "inbox (conn_sock cn) = (lo @ ib) @ concat ibs'" "arrives x (lo @ ib)"
    using Cons.prems(5-7) ibs(1,2) arrives_after_signals by simp_all
  obtain cn' lo' where r: "connection_round e c cn = Ret (kept e c x, cn')"
    "outbox (conn_sock cn') = outbox (conn_sock cn) @ reply e c x" "sends (conn_sock cn') = []"
    "inbox (conn_sock cn') = lo' @ concat ibs'" "inbox_ok lo'" "arriving lo' = []"
    "interrupted (conn_sock cn') = interrupted (conn_sock cn)" "kept e c x \<longrightarrow> awaiting cn'" "without_upstream cn'"
    using round_answers [OF Cons.prems(3,4) i(1) c(1,3) x(1) i(2) x(2) e] by blast
  have t: "\<not> timedout cn" using Cons.prems(3) by (simp add: awaiting_def)
  show ?case
  proof (cases "kept e c x")
    case True
    have sz: "inbox_size (conn_sock cn') < m"
      using round_frame [OF r(1) awaiting_ready [OF Cons.prems(3)]] True Cons.prems(8) m by simp
    have "if list_all (kept e c) xs \<and> interrupted (conn_sock cn') then connection_loop m e c cn' = Crash Diverges
      else \<exists>cn''. connection_loop m e c cn' = Ret cn'' \<and> outbox (conn_sock cn'') = outbox (conn_sock cn') @ conversation e c xs
        \<and> without_upstream cn''"
      by (rule Cons.IH [OF _ ibs(3) _ r(3-6) sz]) (use Cons.prems(1) r(8) True in simp_all)
    then show ?thesis using t r(1,2,7) True m by (auto split: if_splits)
  qed (use t r(1,2,9) m in simp)
qed

text \<open>What \<open>connection_run\<close> does around the loop.\<close>

definition started :: "env \<Rightarrow> int \<Rightarrow> connection_t \<Rightarrow> connection_t" where
  "started e fd cn = (case http_request_create (env_peer_ip e) (env_peer_port e) of
     Ret r \<Rightarrow> cn\<lparr>request_pool := True, conn_r := Some r, start_time := env_time e, conn_fd := fd, conn_state := CONNECTION_RUNNING\<rparr>
   | Crash x \<Rightarrow> cn)"

lemma run_of_loop:
  assumes "conn_state cn = CONNECTION_REUSEABLE" "\<not> timedout cn" "0 \<le> fd"
  shows "awaiting (started e fd cn)" "conn_sock (started e fd cn) = conn_sock cn"
    "connection_loop n e c (started e fd cn) = Crash x \<Longrightarrow> connection_run n e c fd cn = Crash x"
    "connection_loop n e c (started e fd cn) = Ret cn1 \<Longrightarrow> without_upstream cn1 \<Longrightarrow>
       \<exists>cn'. connection_run n e c fd cn = Ret cn' \<and> conn_state cn' = CONNECTION_REUSEABLE \<and> conn_sock cn' = conn_sock cn1"
proof -
  obtain r where r: "http_request_create (env_peer_ip e) (env_peer_port e) = Ret r"
    using http_request_create_returns by blast
  have run: "connection_run n e c fd cn = bnd (connection_loop n e c (started e fd cn)) (\<lambda>cn'.
      connection_reusable (cn'\<lparr>conn_state := CONNECTION_BEFORE_REUSEABLE\<rparr>) True)"
    using assms r by (simp add: connection_run_def started_def)
  show "awaiting (started e fd cn)" "conn_sock (started e fd cn) = conn_sock cn"
    using assms(2) r by (auto simp: awaiting_def started_def)
  show "connection_run n e c fd cn = Crash x" if "connection_loop n e c (started e fd cn) = Crash x"
    using that run by simp
  show "\<exists>cn'. connection_run n e c fd cn = Ret cn' \<and> conn_state cn' = CONNECTION_REUSEABLE \<and> conn_sock cn' = conn_sock cn1"
    if "connection_loop n e c (started e fd cn) = Ret cn1" "without_upstream cn1"
    using that run by (auto simp: connection_reusable_def abort_upstream_def without_upstream_def split: option.splits)
qed


definition sample_message :: "string \<Rightarrow> message" where
  "sample_message p = \<lparr>m_method = ''GET'', m_path = p, m_query = None, m_version = ''HTTP/1.1'', m_fields = [], m_body = []\<rparr>"

lemma sample_message_served:
  assumes "p \<in> {''/a.css'', ''/b''}"
  shows "served_by sample_env sample_conf (sample_message p)"
proof -
  have k: "msg_kind (sample_message p) = HTTP_METHOD_GET" "msg_ver (sample_message p) = HTTP_VERSION_11"
    by (simp_all add: msg_kind_def msg_ver_def sample_message_def parse_method_def strncasecmp_eq_def cchar_defs parse_version_def strstr_here)
  have "request_wf ''GET'' p None ''HTTP/1.1'' HTTP_METHOD_GET HTTP_VERSION_11"
    using assms by (auto simp: request_wf_def token_ok_def path_ok_def isspace_def byte_def parse_method_def strncasecmp_eq_def
        cchar_defs parse_version_def strstr_here)
  then have "message_wf sample_conf (sample_message p)"
    using assms by (auto simp: message_wf_def k) (auto simp: sample_message_def fields_ok_def prefix_free_def content_len_of_def
        header_get_def sample_conf_def message_head_def request_head_def request_line_def target_def CRLF_def)
  then show ?thesis
    by (auto simp: served_by_def default_module_only_def message_loc_def chosen_loc_def chosen_vhost_def sample_message_def
        header_get_def sample_conf_def sample_vhost_def sample_loc_def sample_env_def dest!: find_in)
qed

lemma sample_world: "conf_wf sample_conf" "files_ok sample_env"
  by (auto simp: conf_wf_def sample_conf_def sample_vhost_def sample_loc_def conf_str_def files_ok_def sample_env_def
      sample_files_def CRLF_def split: if_splits)

lemma sample_replies:
  "kept sample_env sample_conf (sample_message ''/a.css'')" "\<not> kept sample_env sample_conf (sample_message ''/b'')"
  "reply sample_env sample_conf (sample_message ''/a.css'') = file_response ''HTTP/1.1'' ''text/css'' True (''body { }'' @ CRLF)"
  "reply sample_env sample_conf (sample_message ''/b'') = page_response ''HTTP/1.1'' 404"
proof -
  have k: "msg_kind (sample_message p) = HTTP_METHOD_GET" "keep_alive_of (msg_ver (sample_message p)) []" for p
    by (simp_all add: msg_kind_def msg_ver_def keep_alive_of_def header_get_def sample_message_def parse_method_def strncasecmp_eq_def
        cchar_defs parse_version_def strstr_here)
  have loc: "message_loc sample_env sample_conf (sample_message p) = Some sample_loc" for p
    by (simp add: message_loc_def chosen_loc_def chosen_vhost_def sample_message_def header_get_def sample_conf_def sample_vhost_def
        sample_loc_def sample_env_def conf_text_def)
  have ct: "http_content_type (extension_of ''/a.css'') = ''text/css''"
    by (simp add: extension_of_def http_content_type_def content_types_def)
  have a: "answer_of sample_env sample_conf (sample_message ''/a.css'') = File_Answer ''text/css'' (''body { }'' @ CRLF)"
    "answer_of sample_env sample_conf (sample_message ''/b'') = Page_Answer 404"
    by (simp_all add: answer_of_def loc k, simp_all add: sample_message_def file_answer_def file_path_def sample_env_def sample_files_def
        sample_loc_def sample_conf_def conf_text_def ct HTTP_STATUS_NOT_FOUND_def)
  show "kept sample_env sample_conf (sample_message ''/a.css'')" "\<not> kept sample_env sample_conf (sample_message ''/b'')"
    "reply sample_env sample_conf (sample_message ''/a.css'') = file_response ''HTTP/1.1'' ''text/css'' True (''body { }'' @ CRLF)"
    "reply sample_env sample_conf (sample_message ''/b'') = page_response ''HTTP/1.1'' 404"
    by (simp_all add: kept_def a answer_kept_def reply_def answer_text_def, simp_all add: sample_message_def k [unfolded sample_message_def]
        expects_continue_def header_get_def)
qed

lemmas sample_text_defs = message_head_def sample_message_def request_head_def request_line_def target_def CRLF_def


section \<open>Requests sent ahead\<close>

lemma piece_drained:
  assumes r: "http_request_create ip prt = Ret r" and c: "client_header_size c = int n" "n < 2 ^ 31 - 1"
    and s: "inbox s = [Data d]" "d \<noteq> []" "length d \<le> n" "sends s = []" "sock_errno s \<noteq> EINTR"
    and g: "connection_gen_request c r s = Ret (r1, s1)"
  shows "drained s1"
proof -
  let ?i = "length (bufs r)" and ?F = "first_buf n r"
  note v = request_line_starts(2) [OF r c]
  have "http_process_request_line c r s
      = line_loop http_parse_request_line c ?i (loaded ?i [] d (n - length d) ?F) (s\<lparr>inbox := []\<rparr>)"
    unfolding request_line_starts(1) [OF r c]
    by (rule line_loop_piece [OF v]) (use s c(2) request_line_nothing [OF v] in auto)
  moreover from g obtain ok r2 s2 where l: "http_process_request_line c r s = Ret (ok, r2, s2)"
    by (auto simp: connection_gen_request_def)
  ultimately have "line_loop http_parse_request_line c ?i (loaded ?i [] d (n - length d) ?F) (s\<lparr>inbox := []\<rparr>) = Ret (ok, r2, s2)"
    by simp
  then have "drained s2" by (rule drained.line_loop [rotated]) (use s(4,5) in \<open>simp add: drained_def\<close>)
  from drained.after_request_line [OF l this g] show ?thesis .
qed

text \<open>C21: A client that does not wait for the response before it sends the next request loses it: whatever follows a
  request in the same piece is read into the request's header buffer and thrown away with the request when
  the connection goes on to the next one. The server answers the first request, says that it keeps the
  connection, and answers nothing else.\<close>

theorem pipelined_request_lost:
  assumes c: "conf_wf c" "0 < client_header_size c" "client_header_size c < 2 ^ 31 - 1" and e: "files_ok e"
    and x: "served_by e c x" "kept e c x" "int (length (message_head x @ m_body x @ extra)) \<le> client_header_size c"
    and cn: "conn_state cn = CONNECTION_REUSEABLE" "\<not> timedout cn" "sends (conn_sock cn) = []" "sock_errno (conn_sock cn) \<noteq> EINTR"
      "inbox (conn_sock cn) = [Data (message_head x @ m_body x @ extra)]" and fd: "0 \<le> fd"
  shows "\<exists>cn'. connection_run (Suc (Suc n)) e c fd cn = Ret cn' \<and> conn_state cn' = CONNECTION_REUSEABLE
    \<and> inbox (conn_sock cn') = [] \<and> outbox (conn_sock cn') = outbox (conn_sock cn) @ reply e c x"
proof -
  note run = run_of_loop [OF cn(1,2) fd]
  let ?cn = "started e fd cn" and ?s = "conn_sock cn" and ?d = "message_head x @ m_body x @ extra" and ?n = "nat (client_header_size c)"
  obtain ip prt r where r: "http_request_create ip prt = Ret r" "conn_r ?cn = Some r"
    and st: "conn_state ?cn = CONNECTION_RUNNING" "\<not> timedout ?cn" using run(1) [of e] by (auto simp: awaiting_def)
  have wf: "message_wf c x" "default_module_only e c x" using x(1) by (simp_all add: served_by_def)
  have d: "?d \<noteq> []" by (simp add: message_head_def request_head_def CRLF_def)
  have i: "inbox_ok (inbox ?s)" "arriving (inbox ?s) = ?d" using cn(5) d by simp_all
  obtain r1 s1 where g: "connection_gen_request c r ?s = Ret (r1, s1)" "received x r1"
    "outbox s1 = outbox ?s @ (if expects_continue (m_fields x) then continue_line else [])" "clear_socket (interrupted ?s) s1"
    "upstream r1 = None"
    using gen_request_message [OF r(1) c(3) wf(1) i cn(3)] by blast
  have n: "client_header_size c = int ?n" "?n < 2 ^ 31 - 1" "length ?d \<le> ?n" using c x(3) by (simp_all add: le_nat_iff)
  have dr: "drained s1" by (rule piece_drained [OF r(1) n(1,2) cn(5) d n(3) cn(3,4) g(1)])
  obtain cn1 where 1: "connection_round e c ?cn = Ret (True, cn1)"
    "conn_sock cn1 = s1\<lparr>outbox := outbox s1 @ answer_text x (answer_of e c x)\<rparr>" "awaiting cn1"
    using round_of_received [OF st r(2) _ g(2) _ g(5) c(1) wf e, of s1] g(1) dr x(2) by (auto simp: run(2) drained_def)
  have h: "inbox (conn_sock cn1) = []" "\<not> interrupted (conn_sock cn1)" using 1(2) dr by (simp_all add: drained_def interrupted_def)
  then obtain cn2 where 2: "connection_round e c cn1 = Ret (False, cn2)" "conn_sock cn2 = conn_sock cn1" "without_upstream cn2"
    using round_hangup [OF 1(3) c(2,3), of e] by auto
  have "\<not> timedout cn1" using 1(3) by (simp add: awaiting_def)
  then have "connection_loop (Suc (Suc n)) e c ?cn = Ret cn2" using st(2) 1(1) 2(1) by simp
  from run(4) [OF this 2(3)] show ?thesis using 1(2) 2(2) g(3) h(1) by (auto simp: reply_def)
qed

theorem pipelined_request_lost_witness:
  "\<exists>cn'. connection_run 2 sample_env sample_conf 5 (connection_create \<lparr>inbox = [Data (''GET /a.css HTTP/1.1'' @ CRLF @ CRLF
         @ ''GET /b HTTP/1.1'' @ CRLF @ CRLF)], sends = [], outbox = [], sock_errno = E_OK\<rparr>) = Ret cn'
    \<and> inbox (conn_sock cn') = []
    \<and> outbox (conn_sock cn') = file_response ''HTTP/1.1'' ''text/css'' True (''body { }'' @ CRLF)"
proof -
  let ?x = "sample_message ''/a.css''" and ?extra = "''GET /b HTTP/1.1'' @ CRLF @ CRLF"
  let ?cn = "connection_create \<lparr>inbox = [Data (''GET /a.css HTTP/1.1'' @ CRLF @ CRLF @ ?extra)], sends = [], outbox = [], sock_errno = E_OK\<rparr>"
  have "\<exists>cn'. connection_run (Suc (Suc 0)) sample_env sample_conf 5 ?cn = Ret cn' \<and> conn_state cn' = CONNECTION_REUSEABLE
    \<and> inbox (conn_sock cn') = [] \<and> outbox (conn_sock cn') = outbox (conn_sock ?cn) @ reply sample_env sample_conf ?x"
    by (rule pipelined_request_lost [OF sample_world(1) _ _ sample_world(2) _ sample_replies(1), where extra = ?extra])
      (use sample_message_served in \<open>simp_all add: connection_create_def\<close>, simp_all add: sample_text_defs sample_conf_def)
  then show ?thesis by (auto simp: sample_replies connection_create_def numeral_2_eq_2)
qed

end
