(* ===== verification/Backend.thy ===== *)
theory Backend
  imports Answers Uwsgi_Packet
begin

text \<open>
  A request for a location of the uwsgi module: the packet and the body go to the backend, and the backend's
  response, which may arrive in pieces, goes to the client with the server's own headers.
\<close>

section \<open>Receiving the response of the backend\<close>

lemma status_line_pieces:
  assumes r: "state r = HTTP_PROCESS_STAT_CONTENT_BODY" and c: "client_header_size c = int n" "n < 2 ^ 31 - 1"
    and wf: "status_wf vs st ms" and fits: "length (status_line vs st ms) \<le> n"
    and s: "inbox_ok (inbox s)" "arriving (inbox s) = status_line vs st ms @ w"
  shows "\<exists>s' w' k. http_process_status_line c r s = Ret (True, loaded (length (bufs r)) (status_line_cut vs st ms) w' k
        ((fresh_buf n r)\<lparr>state := HTTP_PROCESS_STAT_STATUS_LINE, status := atoi st\<rparr>), s')
    \<and> w = w' @ arriving (inbox s') \<and> length (status_line vs st ms) + length w' + k = n
    \<and> inbox_ok (inbox s') \<and> outbox s' = outbox s \<and> sends s' = sends s"
proof -
  let ?i = "length (bufs r)" and ?F = "(fresh_buf n r)\<lparr>state := HTTP_PROCESS_STAT_STATUS_LINE\<rparr>"
  have v: "buf_valid ?F ?i" by (simp add: fresh_buf_def buf_valid_def)
  have F: "?F = loaded ?i [] [] n ?F" by (simp add: fresh_buf_def loaded_def)
  have inv: "buf_valid ?F ?i \<and> status_wf vs st ms \<and> ?F = loaded ?i [] [] n ?F" using v wf F by blast
  have k: "[] @ arriving (inbox s) = status_line vs st ms @ w" "length (status_line vs st ms) \<le> length ([] :: string) + n" "n < 2 ^ 64"
    using s(2) fits c(2) by simp_all
  from status_line_parser.line_loop_complete [OF inv k s(1), of c]
  obtain s' w' k' where "line_loop http_parse_status_line c ?i ?F s
      = Ret (True, loaded ?i ([] @ status_line_cut vs st ms) w' k' (?F\<lparr>status := atoi st\<rparr>), s')"
    "w = w' @ arriving (inbox s')" "length (status_line vs st ms) + length w' + k' = length ([] :: string) + n"
    "inbox_ok (inbox s')" "outbox s' = outbox s" "sends s' = sends s" by blast
  moreover have "http_process_status_line c r s = line_loop http_parse_status_line c ?i ?F s"
    using r http_alloc_client_header_buf_Ret [OF c, of r] by (simp add: http_process_status_line_def Let_def fresh_buf_simps)
  ultimately show ?thesis by auto
qed

lemma response_headers_pieces:
  assumes r: "buf_valid r i" "header_buf r = Some i" "state r = HTTP_PROCESS_STAT_STATUS_LINE"
      "array_ok (out_headers (headers_out r))" "elts (out_headers (headers_out r)) = []"
    and ok: "fields_ok fs"
    and st: "inbox_ok (inbox s)" "x @ arriving (inbox s) = lines_text fs @ CRLF @ w"
      "length (lines_text fs) + 2 \<le> length x + k" "k < 2 ^ 64"
  shows "\<exists>t s' w' k'. http_process_header_line c HTTP_PROCESS_PHASE_RESPONSE (loaded i u x k r) s
      = Ret (True, loaded i (u @ lines_cut fs @ CRLF) w' k' (r\<lparr>state := HTTP_PROCESS_STAT_HEADER_LINE,
          headers_out := \<lparr>out_headers = t,
            out_content_len = (case header_get fs ''Content-Length'' of None \<Rightarrow> - 1 | Some v \<Rightarrow> atoi v)\<rparr>\<rparr>), s')
    \<and> array_ok t \<and> elts t = table_at (blk (bufs r ! i)) (length u) fs
    \<and> w = w' @ arriving (inbox s') \<and> inbox_ok (inbox s') \<and> length (lines_text fs) + 2 + length w' + k' = length x + k
    \<and> sends s' = sends s \<and> outbox s' = outbox s"
proof -
  let ?b = "blk (bufs r ! i)" and ?r = "r\<lparr>state := HTTP_PROCESS_STAT_HEADER_LINE\<rparr>"
  have v: "buf_valid ?r i" "blk (bufs ?r ! i) = ?b" using r(1) by (simp_all add: buf_valid_def)
  have ld: "(loaded i u x k r)\<lparr>state := HTTP_PROCESS_STAT_HEADER_LINE\<rparr> = loaded i u x k ?r" by (simp add: loaded_def)
  have ph: "array_ok (phase_headers HTTP_PROCESS_PHASE_RESPONSE ?r)" "elts (phase_headers HTTP_PROCESS_PHASE_RESPONSE ?r) = []"
    using r(4,5) by (simp_all add: phase_headers_def)
  obtain t s1 w' k' r' where l: "line_loop (parse_phase_header_line HTTP_PROCESS_PHASE_RESPONSE) c i (loaded i u x k ?r) s = Ret (True, r', s1)"
    "w = w' @ arriving (inbox s1)" "length (lines_text fs) + 2 + length w' + k' = length x + k"
    "inbox_ok (inbox s1)" "outbox s1 = outbox s" "sends s1 = sends s"
    and t: "array_ok t" "elts t = table_at ?b (length u) fs"
    "r' = loaded i (u @ lines_cut fs @ CRLF) w' k' (set_phase_headers HTTP_PROCESS_PHASE_RESPONSE t ?r)"
    using header_block_pieces [OF v(1) ph ok st, of c u] unfolding v(2) by blast
  have b: "?b < length (mem r')" "mem r' ! ?b = u @ lines_cut fs @ (CRLF @ w' @ replicate (Suc k') NUL)"
    "out_headers (headers_out r') = t"
    using v by (simp_all add: t(3) loaded_def buf_valid_def set_phase_headers_def)
  have "http_header_int (mem r') t HTTP_HEADER_CONTENT_LEN
      = Ret (case header_get fs ''Content-Length'' of None \<Rightarrow> - 1 | Some v \<Rightarrow> atoi v)"
    using http_header_int_table [OF b(1,2) _ t(2), of "''Content-Length''"] ok by (simp add: fields_ok_def header_name_defs)
  then have "headers_out_done r' s1 = Ret (True, loaded i (u @ lines_cut fs @ CRLF) w' k' (r\<lparr>state := HTTP_PROCESS_STAT_HEADER_LINE,
          headers_out := \<lparr>out_headers = t,
            out_content_len = (case header_get fs ''Content-Length'' of None \<Rightarrow> - 1 | Some v \<Rightarrow> atoi v)\<rparr>\<rparr>), s1)"
    by (cases "headers_out r") (simp add: headers_out_done_def t(3) loaded_def set_phase_headers_def)
  then have "http_process_header_line c HTTP_PROCESS_PHASE_RESPONSE (loaded i u x k r) s
      = Ret (True, loaded i (u @ lines_cut fs @ CRLF) w' k' (r\<lparr>state := HTTP_PROCESS_STAT_HEADER_LINE,
          headers_out := \<lparr>out_headers = t,
            out_content_len = (case header_get fs ''Content-Length'' of None \<Rightarrow> - 1 | Some v \<Rightarrow> atoi v)\<rparr>\<rparr>), s1)"
    using l(1) r(2,3) by (simp add: http_process_header_line_def ld)
  then show ?thesis using l(2-6) t(1,2) by blast
qed

record backend_reply =
  b_version :: string
  b_status :: string
  b_reason :: string
  b_fields :: "(string \<times> string) list"
  b_body :: string

definition backend_line :: "backend_reply \<Rightarrow> string" where
  "backend_line b = status_line (b_version b) (b_status b) (b_reason b)"

definition backend_head :: "backend_reply \<Rightarrow> string" where
  "backend_head b = backend_line b @ lines_text (b_fields b) @ CRLF"

definition backend_cut :: "backend_reply \<Rightarrow> string" where
  "backend_cut b = status_line_cut (b_version b) (b_status b) (b_reason b) @ lines_cut (b_fields b) @ CRLF"

definition backend_wf :: "conf_t \<Rightarrow> backend_reply \<Rightarrow> bool" where
  "backend_wf c b \<longleftrightarrow> status_wf (b_version b) (b_status b) (b_reason b) \<and> fields_ok (b_fields b)
     \<and> (case header_get (b_fields b) ''Content-Length'' of None \<Rightarrow> False | Some cl \<Rightarrow> atoi cl = int (length (b_body b)))
     \<and> length (b_body b) < 2 ^ 31 \<and> int (length (b_body b)) \<le> max_content_len c
     \<and> int (length (backend_head b)) \<le> client_header_size c"

text \<open>The request \<open>r'\<close> after the response was read into \<open>r\<close>: its head is in block \<open>length (mem r)\<close>, the blocks of the
  request are as before.\<close>

definition reply_read :: "backend_reply \<Rightarrow> http_request_t \<Rightarrow> http_request_t \<Rightarrow> bool" where
  "reply_read b r r' \<longleftrightarrow> (\<exists>h bs hb t cb. r' = r\<lparr>mem := h, bufs := bs, header_buf := hb, state := HTTP_PROCESS_STAT_CONTENT_BODY,
        status := atoi (b_status b), headers_out := t, body_out := cb\<rparr>
     \<and> array_ok (out_headers t) \<and> elts (out_headers t)
         = table_at (length (mem r)) (length (status_line_cut (b_version b) (b_status b) (b_reason b))) (b_fields b)
     \<and> body_is (b_body b) cb r' \<and> content_fd cb < 0 \<and> (b_body b = [] \<longrightarrow> cb = body_out r))
   \<and> keeps_parsed (length (mem r)) (backend_cut b) r'
   \<and> (\<forall>a < length (mem r). mem r' ! a = mem r ! a)"

lemma body_content_fd:
  "http_process_content_body c r s cb n = Ret (ok, cb', r', s') \<Longrightarrow> 0 \<le> n \<Longrightarrow> content_fd cb' = content_fd cb"
proof -
  have bl: "body_loop cb n j got r s = Ret (ok, cb', r', s') \<Longrightarrow> content_fd cb' = content_fd cb" for j got r s
  proof (induction "inbox_size s" arbitrary: got r s rule: less_induct)
    case less
    show ?case
    proof (cases "n \<le> got")
      case False
      with less.prems obtain m r1 s1 where rc: "recv_into j r s = Ret (m, r1, s1)" by (auto simp: body_loop.simps [of cb n j got])
      show ?thesis
      proof (cases "m \<le> 0")
        case m: False
        have "body_loop cb n j (int32 (got + m)) (set_buf j (\<lambda>y. y\<lparr>buf_last := buf_last y + nat m\<rparr>) r1) s1 = Ret (ok, cb', r', s')"
          using less.prems False rc m by (auto simp: body_loop.simps [of cb n j got] Let_def assert_then_Ret)
        with less.hyps recv_into_smaller [OF rc] m show ?thesis by fastforce
      qed (use less.prems False rc in \<open>auto simp: body_loop.simps [of cb n j got]\<close>)
    qed (use less.prems in \<open>auto simp: body_loop.simps [of cb n j got] assert_then_Ret\<close>)
  qed
  assume "http_process_content_body c r s cb n = Ret (ok, cb', r', s')" "0 \<le> n"
  then show ?thesis
    by (auto simp: http_process_content_body_def assert_then_Ret Let_def split: if_splits option.splits dest: bl)
qed

lemma backend_reply_read:
  assumes r: "state r = HTTP_PROCESS_STAT_CONTENT_BODY" "req_method r \<noteq> HTTP_METHOD_HEAD"
      "array_ok (out_headers (headers_out r))" "elts (out_headers (headers_out r)) = []"
      "content (body_out r) = None" "content_fd (body_out r) < 0"
    and c: "client_header_size c < 2 ^ 31 - 1" and b: "backend_wf c b"
    and s: "inbox_ok (inbox s)" "arriving (inbox s) = backend_head b @ b_body b @ extra"
  shows "\<exists>r' s'. uwsgi_read_response c r s = Ret (True, r', s') \<and> reply_read b r r' \<and> outbox s' = outbox s"
proof -
  define n where "n = nat (client_header_size c)"
  let ?vs = "b_version b" and ?st = "b_status b" and ?ms = "b_reason b" and ?fs = "b_fields b" and ?body = "b_body b"
  have wf: "status_wf ?vs ?st ?ms" "fields_ok ?fs" "int (length ?body) \<le> max_content_len c" "length ?body < 2 ^ 31"
    "(case header_get ?fs ''Content-Length'' of None \<Rightarrow> - 1 | Some v \<Rightarrow> atoi v) = int (length ?body)"
    using b by (auto simp: backend_wf_def split: option.splits)
  have n: "client_header_size c = int n" "n < 2 ^ 31 - 1" "length (backend_line b) + (length (lines_text ?fs) + 2) \<le> n"
    using b c by (simp_all add: backend_wf_def backend_head_def n_def CRLF_def le_nat_iff)
  have ln: "length (status_line ?vs ?st ?ms) \<le> n" using n(3) by (simp add: backend_line_def)
  have a: "arriving (inbox s) = status_line ?vs ?st ?ms @ (lines_text ?fs @ CRLF @ ?body @ extra)"
    using s(2) by (simp add: backend_head_def backend_line_def)
  let ?i = "length (bufs r)" and ?m = "length (mem r)"
  let ?F = "(fresh_buf n r)\<lparr>state := HTTP_PROCESS_STAT_STATUS_LINE, status := atoi ?st\<rparr>" and ?u = "status_line_cut ?vs ?st ?ms"
  obtain s1 w1 k1 where 1: "http_process_status_line c r s = Ret (True, loaded ?i ?u w1 k1 ?F, s1)"
    "lines_text ?fs @ CRLF @ ?body @ extra = w1 @ arriving (inbox s1)" "length (status_line ?vs ?st ?ms) + length w1 + k1 = n"
    "inbox_ok (inbox s1)" "outbox s1 = outbox s"
    using status_line_pieces [OF r(1) n(1,2) wf(1) ln s(1) a] by blast
  have F: "buf_valid ?F ?i" "header_buf ?F = Some ?i" "state ?F = HTTP_PROCESS_STAT_STATUS_LINE"
    "array_ok (out_headers (headers_out ?F))" "elts (out_headers (headers_out ?F)) = []" "blk (bufs ?F ! ?i) = ?m"
    using r(3,4) by (simp_all add: fresh_buf_def buf_valid_def)
  have k1: "length (lines_text ?fs) + 2 \<le> length w1 + k1" "k1 < 2 ^ 64" using 1(3) n(2,3) by (simp_all add: backend_line_def)
  obtain t s2 w2 k2 where 2: "http_process_header_line c HTTP_PROCESS_PHASE_RESPONSE (loaded ?i ?u w1 k1 ?F) s1
      = Ret (True, loaded ?i (?u @ lines_cut ?fs @ CRLF) w2 k2 (?F\<lparr>state := HTTP_PROCESS_STAT_HEADER_LINE,
          headers_out := \<lparr>out_headers = t, out_content_len = int (length ?body)\<rparr>\<rparr>), s2)"
    "array_ok t" "elts t = table_at ?m (length ?u) ?fs" "?body @ extra = w2 @ arriving (inbox s2)" "inbox_ok (inbox s2)"
    "length (lines_text ?fs) + 2 + length w2 + k2 = length w1 + k1" "outbox s2 = outbox s1"
    using response_headers_pieces [OF F(1-5) wf(2) 1(4) 1(2) [symmetric] k1, of c ?u] unfolding wf(5) F(6) by blast
  let ?G = "?F\<lparr>state := HTTP_PROCESS_STAT_HEADER_LINE, headers_out := \<lparr>out_headers = t, out_content_len = int (length ?body)\<rparr>\<rparr>"
  let ?L = "loaded ?i (?u @ lines_cut ?fs @ CRLF) w2 k2 ?G"
  have G: "buf_valid ?G ?i" "header_buf ?G = Some ?i" "state ?G = HTTP_PROCESS_STAT_HEADER_LINE" "req_method ?G \<noteq> HTTP_METHOD_HEAD"
    "blk (bufs ?G ! ?i) = ?m" "body_out ?L = body_out r" "out_content_len (headers_out ?L) = int (length ?body)"
    "mem ?G = mem r @ [replicate (Suc n) NUL]"
    using r(2) by (simp_all add: fresh_buf_def buf_valid_def loaded_def)
  have k2: "length w2 + k2 < 2 ^ 31" using 2(6) 1(3) n(2) by simp
  obtain cb r3 s3 h bs where 3: "http_process_content_body c ?L s2 (body_out r) (int (length ?body)) = Ret (True, cb, r3, s3)"
    "r3 = ?G\<lparr>mem := h, bufs := bs, state := HTTP_PROCESS_STAT_CONTENT_BODY\<rparr>" "body_is ?body cb r3"
    "keeps_parsed ?m (?u @ lines_cut ?fs @ CRLF) r3" "outbox s3 = outbox s2" "keeps_others ?m (mem ?G) r3"
    "?body = [] \<longrightarrow> cb = body_out r"
    using body_received [OF G(1-4) wf(3,4) k2 r(5,6) 2(5,4)] unfolding G(5) by blast
  have fd: "content_fd cb < 0" using body_content_fd [OF 3(1)] r(6) by simp
  let ?r = "r3\<lparr>body_out := cb\<rparr>"
  have "uwsgi_read_response c r s = Ret (True, ?r, s3)"
    using 1(1) 2(1) 3(1) G(6,7) by (simp add: uwsgi_read_response_def)
  moreover have "reply_read b r ?r"
    unfolding reply_read_def
  proof (intro conjI exI [of _ h] exI [of _ bs] exI [of _ "Some ?i"] exI [of _ cb]
      exI [of _ "\<lparr>out_headers = t, out_content_len = int (length ?body)\<rparr>"] allI impI)
    show "?r = r\<lparr>mem := h, bufs := bs, header_buf := Some ?i, state := HTTP_PROCESS_STAT_CONTENT_BODY,
        status := atoi ?st, headers_out := \<lparr>out_headers = t, out_content_len = int (length ?body)\<rparr>, body_out := cb\<rparr>"
      by (simp add: 3(2) fresh_buf_def)
    show "mem ?r ! a = mem r ! a" if "a < ?m" for a
      using 3(6) [unfolded G(8)] that by (simp add: keeps_others_def nth_append)
  qed (use 2(2,3) 3(3,4,7) fd in \<open>simp_all add: keeps_parsed_def backend_cut_def\<close>)
  ultimately have "uwsgi_read_response c r s = Ret (True, ?r, s3) \<and> reply_read b r ?r" by blast
  then show ?thesis using 1(5) 2(7) 3(5) by auto
qed

section \<open>The variables of a message\<close>

definition text_or_empty :: "string option \<Rightarrow> string" where
  "text_or_empty v = (case v of None \<Rightarrow> [] | Some t \<Rightarrow> t)"

definition message_vars :: "conf_t \<Rightarrow> vhost_conf_t \<Rightarrow> vhost_loc_conf_t \<Rightarrow> string \<Rightarrow> message \<Rightarrow> (string \<times> string) list" where
  "message_vars c vh lc ip x =
     [(''QUERY_STRING'', text_or_empty (m_query x)),
      (''REQUEST_METHOD'', m_method x),
      (''CONTENT_TYPE'', text_or_empty (header_get (m_fields x) ''Content-Type'')),
      (''CONTENT_LENGTH'', text_or_empty (header_get (m_fields x) ''Content-Length'')),
      (''REQUEST_URI'', m_path x),
      (''PATH_INFO'', target (m_path x) (m_query x)),
      (''DOCUMENT_ROOT'', conf_text (loc_root lc)),
      (''SERVER_PROTOCOL'', m_version x),
      (''SERVER_SOFTWARE'', XWP_SERVER_VER),
      (''REMOTE_ADDR'', ip),
      (''SERVER_ADDR'', conf_text (conf_ip c)),
      (''SERVER_PORT'', show_int (conf_port c)),
      (''SERVER_NAME'', conf_text (vhost_name vh))]
     @ map (\<lambda>(n, v). (''HTTP_'' @ map cgi_char n, v)) (filter (\<lambda>(n, v). \<not> uwsgi_skip_header n) (m_fields x))"

definition val_is :: "heap \<Rightarrow> str_t option \<Rightarrow> string \<Rightarrow> bool" where
  "val_is h v t \<longleftrightarrow> val_ok h v \<and> val_text h v = t"

lemma val_is_deref:
  "deref h (data s) = Ret t \<Longrightarrow> len s = length t \<Longrightarrow> NUL \<notin> set t \<Longrightarrow> val_is h (Some s) t"
  by (auto simp: val_is_def val_ok_def val_text_def str_wf_def str_ok_def text_of_def)

lemma val_is_str:
  "str_is h y v \<Longrightarrow> (\<And>t. v = Some t \<Longrightarrow> NUL \<notin> set t) \<Longrightarrow> val_is h y (text_or_empty v)"
  by (auto simp: str_is_def text_or_empty_def intro: val_is_deref split: option.splits) (simp add: val_is_def val_ok_def val_text_def)

lemma val_is_at: "deref h (At b p) = Ret t \<Longrightarrow> NUL \<notin> set t \<Longrightarrow> val_is h (Some \<lparr>data = At b p, len = length t\<rparr>) t"
  by (rule val_is_deref) simp_all

lemma val_is_conf:
  assumes "conf_str s"
  shows "val_is h (Some s) (conf_text s)"
  using conf_strD(1) [OF assms, of h] conf_strD(2) [OF assms, of h] conf_strD(4) [OF assms]
  by (auto simp: val_is_def val_ok_def val_text_def)

lemma val_is_server: "NUL \<notin> set t \<Longrightarrow> val_is h (Some (server_string t)) t"
  by (rule val_is_deref) simp_all

lemma header_get_NUL:
  assumes "fields_ok fs" "header_get fs n = Some t"
  shows "NUL \<notin> set t"
proof -
  obtain m where "(m, t) \<in> set fs" using assms(2) by (auto simp: header_get_def dest!: find_in)
  then have "field_ok (m, t)" using assms(1) by (auto simp: fields_ok_def)
  then show ?thesis by (auto simp: field_ok_def)
qed

lemma target_NUL: "path_ok p \<Longrightarrow> (\<And>s. q = Some s \<Longrightarrow> query_ok s) \<Longrightarrow> NUL \<notin> set (target p q)"
  by (auto simp: target_def path_ok_def query_ok_def split: option.splits)

lemma message_params:
  assumes r: "request_at ip x r"
    and wf: "request_wf (m_method x) (m_path x) (m_query x) (m_version x) (msg_kind x) (msg_ver x)" "fields_ok (m_fields x)"
    and c: "conf_str (conf_ip c)" "conf_str (loc_root lc)" "conf_str (vhost_name vh)" "NUL \<notin> set ip"
  shows "list_all2 (\<lambda>(n, v) (m, t). n = m \<and> val_is (mem r) v t) (uwsgi_params c vh lc r) (take 13 (message_vars c vh lc ip x))"
proof -
  let ?mt = "m_method x" and ?p = "m_path x" and ?q = "m_query x" and ?vs = "m_version x" and ?fs = "m_fields x"
  let ?cut = "request_line_cut ?mt (target_cut ?p ?q) ?vs"
  obtain b t w where b: "b < length (mem r)" "mem r ! b = ?cut @ lines_cut ?fs @ (CRLF @ w)"
    and f: "method_str r = \<lparr>data = At b 0, len = length ?mt\<rparr>"
      "version_str r = \<lparr>data = At b (length ?mt + length (target ?p ?q) + 2), len = length ?vs\<rparr>"
      "url r = url_result b (length ?mt + 1) ?p ?q null_url" "headers_in r = headers_in_at b (length ?cut) ?fs t"
      "remote_ip r = server_string ip"
    using r by (auto simp: request_at_def keeps_parsed_def)
  note lt = request_line_texts [OF b wf(1)]
  have ok: "\<forall>f \<in> set ?fs. field_ok f" using wf(2) by (simp add: fields_ok_def)
  have nul: "NUL \<notin> set ?mt" "NUL \<notin> set ?vs" "NUL \<notin> set ?p" "\<And>s. ?q = Some s \<Longrightarrow> NUL \<notin> set s" "NUL \<notin> set (target ?p ?q)"
    using wf(1) target_NUL [of ?p ?q] by (auto simp: request_wf_def token_ok_def path_ok_def query_ok_def)
  have hd: "val_is (mem r) (value_at b (length ?cut) ?fs n) (text_or_empty (header_get ?fs n))" for n
    using val_is_str header_find_table [OF b ok, of n] header_get_NUL [OF wf(2)] by blast
  have q: "val_is (mem r) (Some (query_string (url r))) (text_or_empty ?q)"
  proof (cases ?q)
    case None
    then show ?thesis by (simp add: f(3) url_result_def val_is_def val_ok_def val_text_def text_or_empty_def null_url_def null_str_def)
  next
    case (Some y)
    then show ?thesis
      using val_is_at [OF lt(4) [OF Some] nul(4) [OF Some]] by (simp add: f(3) url_result_def text_or_empty_def)
  qed
  have u: "val_is (mem r) (Some (method_str r)) ?mt" "val_is (mem r) (Some (version_str r)) ?vs" "val_is (mem r) (Some (path (url r))) ?p"
    using val_is_at [OF lt(1) nul(1)] val_is_at [OF lt(2) nul(2)] val_is_at [OF lt(3) nul(3)]
    by (simp_all add: f(1,2,3) url_result_def)
  have v: "val_is (mem r) (Some (unparsed_url (url r))) (target ?p ?q)" "val_is (mem r) (Some (remote_ip r)) ip"
    "val_is (mem r) (Some (server_string XWP_SERVER_VER)) XWP_SERVER_VER"
    "val_is (mem r) (Some (server_string (show_int (conf_port c)))) (show_int (conf_port c))"
    using nul(5) c(4) by (simp_all add: f(3,5) url_result_def val_is_server XWP_SERVER_VER_def show_int_def NUL_notin_show_nat)
  have h: "header_content_type (headers_in r) = value_at b (length ?cut) ?fs ''Content-Type''"
    "header_content_len (headers_in r) = value_at b (length ?cut) ?fs ''Content-Length''"
    by (simp_all add: f(4) headers_in_at_def)
  show ?thesis
    using q u v hd [of "''Content-Type''"] hd [of "''Content-Length''"] val_is_conf [OF c(1), of "mem r"] val_is_conf [OF c(2), of "mem r"]
      val_is_conf [OF c(3), of "mem r"]
    unfolding uwsgi_params_def message_vars_def h by simp
qed

lemma table_entries_wf:
  assumes "b < length h" "h ! b = u @ lines_cut fs @ w" "\<forall>f \<in> set fs. field_ok f" and y: "y \<in> set (table_at b (length u) fs)"
  shows "str_wf h (hname y) \<and> str_wf h (hvalue y) \<and> text_of h (hvalue y) \<noteq> []"
proof -
  let ?f = "\<lambda>y. (text_of h (hname y), text_of h (hvalue y))"
  note tx = table_texts [OF assms(1-3)]
  have "?f y \<in> ?f ` set (table_at b (length u) fs)" using y by (rule imageI)
  also have "\<dots> = set fs" using arg_cong [OF conjunct2 [OF tx], of set] by (simp only: set_map)
  finally have "field_ok (?f y)" using assms(3) by blast
  then have "NUL \<notin> set (text_of h (hname y))" "NUL \<notin> set (text_of h (hvalue y))" "text_of h (hvalue y) \<noteq> []"
    by (auto simp: field_ok_def)
  then show ?thesis using tx y by (auto simp: str_wf_def)
qed

lemma message_header_vars:
  assumes r: "request_at ip x r" and wf: "fields_ok (m_fields x)"
  shows "\<forall>y \<in> set (elts (in_headers (headers_in r))). header_ok (mem r) y"
    "map (header_var (mem r)) (passed_headers (mem r) (elts (in_headers (headers_in r))))
      = map (\<lambda>(n, v). (''HTTP_'' @ map cgi_char n, v)) (filter (\<lambda>(n, v). \<not> uwsgi_skip_header n) (m_fields x))"
proof -
  let ?cut = "request_line_cut (m_method x) (target_cut (m_path x) (m_query x)) (m_version x)" and ?fs = "m_fields x"
  obtain b t w where b: "b < length (mem r)" "mem r ! b = ?cut @ lines_cut ?fs @ (CRLF @ w)"
    and f: "elts (in_headers (headers_in r)) = table_at b (length ?cut) ?fs"
    using r by (auto simp: request_at_def keeps_parsed_def headers_in_at_def)
  have ok: "\<forall>f \<in> set ?fs. field_ok f" using wf by (simp add: fields_ok_def)
  let ?h = "mem r" and ?xs = "table_at b (length ?cut) ?fs"
  have tx: "map (\<lambda>y. (text_of ?h (hname y), text_of ?h (hvalue y))) ?xs = ?fs"
    using table_texts [OF b ok] by blast
  note wf = table_entries_wf [OF b ok]
  show "\<forall>y \<in> set (elts (in_headers (headers_in r))). header_ok ?h y"
    using wf by (auto simp: f header_ok_def val_ok_def)
  have vt: "header_var ?h y = (''HTTP_'' @ map cgi_char (text_of ?h (hname y)), text_of ?h (hvalue y))" if "y \<in> set ?xs" for y
    using wf [OF that] str_wfD [of ?h "hvalue y"] by (auto simp: header_var_def val_text_def)
  have "map (header_var ?h) (passed_headers ?h ?xs) = map (\<lambda>(n, v). (''HTTP_'' @ map cgi_char n, v))
      (filter (\<lambda>(n, v). \<not> uwsgi_skip_header n) (map (\<lambda>y. (text_of ?h (hname y), text_of ?h (hvalue y))) ?xs))"
    using vt by (simp add: passed_headers_def filter_map comp_def)
  then show "map (header_var ?h) (passed_headers ?h (elts (in_headers (headers_in r))))
      = map (\<lambda>(n, v). (''HTTP_'' @ map cgi_char n, v)) (filter (\<lambda>(n, v). \<not> uwsgi_skip_header n) ?fs)"
    unfolding f tx .
qed

lemma message_ready:
  assumes r: "request_at ip x r"
    and wf: "request_wf (m_method x) (m_path x) (m_query x) (m_version x) (msg_kind x) (msg_ver x)" "fields_ok (m_fields x)"
    and c: "conf_str (conf_ip c)" "conf_str (loc_root lc)" "conf_str (vhost_name vh)" "NUL \<notin> set ip"
  shows "uwsgi_ready c vh lc r" "uwsgi_vars c vh lc r = message_vars c vh lc ip x"
proof -
  note ps = message_params [OF r wf c] and hs = message_header_vars [OF r wf(2)]
  have "\<forall>(n, v) \<in> set (uwsgi_params c vh lc r). val_ok (mem r) v"
    using ps by (fastforce simp: list_all2_conv_all_nth in_set_conv_nth val_is_def split_def)
  then show "uwsgi_ready c vh lc r" using hs(1) by (simp add: uwsgi_ready_def)
  have "map (\<lambda>(n, v). (n, val_text (mem r) v)) (uwsgi_params c vh lc r) = take 13 (message_vars c vh lc ip x)"
    using ps by (auto simp: list_all2_conv_all_nth val_is_def split_def intro!: nth_equalityI)
  then show "uwsgi_vars c vh lc r = message_vars c vh lc ip x"
    by (simp add: uwsgi_vars_def hs(2) message_vars_def)
qed

section \<open>The headers of the response\<close>

definition field_set :: "(string \<times> string) list \<Rightarrow> string \<Rightarrow> string \<Rightarrow> (string \<times> string) list" where
  "field_set fs n v = (if n \<in> set (map fst fs) then map (\<lambda>f. (fst f, if fst f = n then v else snd f)) fs else fs @ [(n, v)])"

definition relay_fields :: "(string \<times> string) list \<Rightarrow> bool \<Rightarrow> nat \<Rightarrow> (string \<times> string) list" where
  "relay_fields fs ka n = field_set (field_set (field_set fs ''Connection'' (if ka then ''Keep-Alive'' else ''Close''))
     ''Server'' ''xwp server 0.1'') ''Content-Length'' (show_nat n)"

definition table_fields :: "heap \<Rightarrow> headers \<Rightarrow> (string \<times> string) list" where
  "table_fields h t = map (\<lambda>x. (text_of h (hname x), text_of h (hvalue x))) (elts t)"

definition table_good :: "heap \<Rightarrow> headers \<Rightarrow> bool" where
  "table_good h t \<longleftrightarrow> table_wf h t \<and> distinct (map fst (table_fields h t))"

lemma field_set_names: "set (map fst (field_set fs n v)) = insert n (set (map fst fs))"
  "distinct (map fst (field_set fs n v)) \<longleftrightarrow> distinct (map fst fs)"
  by (auto simp: field_set_def comp_def image_image)

lemma header_texts_fields: "header_texts h (elts t) = map fst (table_fields h t)"
  by (simp add: header_texts_def table_fields_def comp_def)

lemma http_header_set_fields:
  assumes t: "table_good h t" and n: "str_wf h n" "str_wf h v"
    and pf: "prefix_free (insert (text_of h n) (set (map fst (table_fields h t))))"
  shows "\<exists>t'. http_header_set h t n v = Ret t' \<and> table_good h t'
    \<and> table_fields h t' = field_set (table_fields h t) (text_of h n) (text_of h v)"
proof -
  have ok: "array_ok t" "\<forall>x \<in> set (elts t). str_wf h (hname x) \<and> str_wf h (hvalue x)" "distinct (header_texts h (elts t))"
    using t by (auto simp: table_good_def table_wf_def header_texts_fields)
  let ?u = "map (\<lambda>x. if text_of h (hname x) = text_of h n then x\<lparr>hvalue := v\<rparr> else x) (elts t)"
  have "header_replace h n v (elts t) = Ret (?u, text_of h n \<in> set (header_texts h (elts t)))"
    by (rule header_replace_spec) (use ok n pf in \<open>auto simp: str_wf_def header_texts_fields\<close>)
  moreover obtain t1 where p: "array_push t \<lparr>hname = n, hvalue = v\<rparr> = Ret t1" "array_ok t1"
    "elts t1 = elts t @ [\<lparr>hname = n, hvalue = v\<rparr>]" using array_push_ok [OF ok(1)] by blast
  ultimately have eq: "http_header_set h t n v = Ret (if text_of h n \<in> set (header_texts h (elts t)) then t\<lparr>elts := ?u\<rparr> else t1)"
    by (simp add: http_header_set_def)
  let ?t = "if text_of h n \<in> set (header_texts h (elts t)) then t\<lparr>elts := ?u\<rparr> else t1"
  have f: "table_fields h ?t = field_set (table_fields h t) (text_of h n) (text_of h v)"
    using p(3) by (auto simp: table_fields_def field_set_def header_texts_def comp_def)
  have "table_wf h ?t" using ok(1,2) p n by (auto simp: table_wf_def array_ok_def array_count_def)
  then have "table_good h ?t" using t unfolding table_good_def f field_set_names(2) by simp
  with eq f show ?thesis by blast
qed

lemma relay_headers_set:
  assumes t: "table_good (mem r) (out_headers (headers_out r))" "table_fields (mem r) (out_headers (headers_out r)) = fs"
    and pf: "prefix_free (set (map fst fs) \<union> {''Connection'', ''Server'', ''Content-Length''})"
    and n: "content_len (body_out r) = int n"
  shows "\<exists>t. response_set_headers r = Ret t \<and> table_good (mem r) t \<and> table_fields (mem r) t = relay_fields fs (keep_alive r) n"
proof -
  let ?h = "mem r"
  note hw = header_values_wf(1-4) [of ?h] header_values_wf(5,6) [of ?h r]
  have sub: "prefix_free (insert ''Connection'' (set (map fst fs)))"
    "prefix_free (insert ''Server'' (insert ''Connection'' (set (map fst fs))))"
    "prefix_free (insert ''Content-Length'' (insert ''Server'' (insert ''Connection'' (set (map fst fs)))))"
    by (rule prefix_free_mono [OF pf]; auto)+
  have nm: "text_of ?h HTTP_HEADER_CONNECTION = ''Connection''" "text_of ?h HTTP_HEADER_SERVER = ''Server''"
    "text_of ?h HTTP_HEADER_CONTENT_LEN = ''Content-Length''" "text_of ?h HTTP_HEADER_XWP_VER = ''xwp server 0.1''"
    "text_of ?h (conn_value r) = (if keep_alive r then ''Keep-Alive'' else ''Close'')"
    by (simp_all add: header_name_defs XWP_SERVER_VER_def conn_value_def)
  have "show_nat 0 = ''0''" by code_simp
  then have cl: "text_of ?h (clen_value r) = show_nat n" by (simp add: clen_value_def n show_int_def)
  obtain t1 where t1: "http_header_set ?h (out_headers (headers_out r)) HTTP_HEADER_CONNECTION (conn_value r) = Ret t1"
    "table_good ?h t1" "table_fields ?h t1 = field_set fs ''Connection'' (if keep_alive r then ''Keep-Alive'' else ''Close'')"
    using http_header_set_fields [OF t(1) hw(1,5)] sub(1) unfolding t(2) nm by blast
  obtain t2 where t2: "http_header_set ?h t1 HTTP_HEADER_SERVER HTTP_HEADER_XWP_VER = Ret t2" "table_good ?h t2"
    "table_fields ?h t2 = field_set (table_fields ?h t1) ''Server'' ''xwp server 0.1''"
    using http_header_set_fields [OF t1(2) hw(2,4)] sub(2) unfolding nm t1(3) field_set_names by blast
  have "\<exists>t3. http_header_set ?h t2 HTTP_HEADER_CONTENT_LEN (clen_value r) = Ret t3 \<and> table_good ?h t3
    \<and> table_fields ?h t3 = field_set (table_fields ?h t2) ''Content-Length'' (show_nat n)"
    using http_header_set_fields [OF t2(2) hw(3,6)] sub(3) unfolding nm cl t1(3) t2(3) field_set_names by blast
  then show ?thesis
    using t1(1) t2(1) unfolding response_set_headers_def conn_value_def [symmetric] clen_value_def [symmetric]
    by (auto simp: relay_fields_def t1(3) t2(3))
qed

lemma lines_text_replaced:
  "distinct (map fst fs) \<Longrightarrow>
     length (lines_text (map (\<lambda>f. (fst f, if fst f = n then v else snd f)) fs)) \<le> length (lines_text fs) + length v"
proof (induction fs)
  case (Cons f fs)
  show ?case
  proof (cases "fst f = n")
    case True
    with Cons.prems have "map (\<lambda>f. (fst f, if fst f = n then v else snd f)) fs = fs"
      by (intro map_idI) (auto simp: image_iff)
    with True show ?thesis by (simp add: field_line_def)
  qed (use Cons in \<open>auto simp: field_line_def\<close>)
qed simp

lemma lines_text_set:
  "distinct (map fst fs) \<Longrightarrow> length (lines_text (field_set fs n v)) \<le> length (lines_text fs) + length n + length v + 4"
  using lines_text_replaced [of fs n v] by (auto simp: field_set_def field_line_def CRLF_def)

lemma relay_fields_length:
  assumes "distinct (map fst fs)"
  shows "length (lines_text (relay_fields fs ka n)) \<le> length (lines_text fs) + 100 + n"
proof -
  let ?a = "field_set fs ''Connection'' (if ka then ''Keep-Alive'' else ''Close'')"
  let ?b = "field_set ?a ''Server'' ''xwp server 0.1''"
  have "length (lines_text ?a) \<le> length (lines_text fs) + 24" 
    using lines_text_set [OF assms, of "''Connection''" "if ka then ''Keep-Alive'' else ''Close''"] by (simp split: if_splits)
  moreover have "length (lines_text ?b) \<le> length (lines_text ?a) + 24"
    using lines_text_set [of ?a "''Server''" "''xwp server 0.1''"] assms by (simp add: field_set_names)
  moreover have "length (lines_text (field_set ?b ''Content-Length'' (show_nat n))) \<le> length (lines_text ?b) + 18 + Suc n"
    using lines_text_set [of ?b "''Content-Length''" "show_nat n"] length_show_nat [of n] assms by (simp add: field_set_names)
  ultimately show ?thesis by (simp add: relay_fields_def)
qed

section \<open>The exchange\<close>

definition packet_text :: "module_uwsgi_conf_t \<Rightarrow> (string \<times> string) list \<Rightarrow> string" where
  "packet_text mc vars = char_of (unat (modifier1 mc)) # uint16_little_endian (of_nat (length (concat (map uwsgi_enc vars))))
     @ char_of (unat (modifier2 mc)) # concat (map uwsgi_enc vars)"

lemma body_is_bytes:
  assumes "body_is body cb r" "body \<noteq> []"
  shows "\<exists>y. content cb = Some y \<and> content_len cb = int (length body)
    \<and> bytes_at (mem r ! blk y) (buf_pos y) (length body) = Ret body"
proof -
  obtain y where y: "content cb = Some y" "content_len cb = int (length body)" "body_text r y (length body) = body"
    using assms by (auto simp: body_is_def)
  from y(3) have "length (take (length body) (drop (buf_pos y) (mem r ! blk y))) = length body" by (simp add: body_text_def)
  then have "buf_pos y + length body \<le> length (mem r ! blk y)" using assms(2) by (cases body) auto
  with y show ?thesis by (auto simp: bytes_at_def body_text_def)
qed

lemma send_body_done:
  assumes r: "body_is body (body_in r) r" "body = [] \<longrightarrow> content_len (body_in r) = 0" and s: "sends s = []"
  shows "uwsgi_send_body r s = Ret (True, s\<lparr>outbox := outbox s @ body\<rparr>)"
proof (cases "body = []")
  case False
  obtain y where "content (body_in r) = Some y" "content_len (body_in r) = int (length body)"
    "bytes_at (mem r ! blk y) (buf_pos y) (length body) = Ret body" using body_is_bytes [OF r(1) False] by blast
  with nwrite_all [OF False s] False show ?thesis by (simp add: uwsgi_send_body_def)
qed (use r in \<open>simp add: uwsgi_send_body_def\<close>)

lemma exchange_done:
  assumes x: "message_wf c x" and r: "request_at ip x r" "received x r" and c: "client_header_size c < 2 ^ 31 - 1"
    and cs: "conf_str (conf_ip c)" "conf_str (loc_root lc)" "conf_str (vhost_name vh)" "NUL \<notin> set ip"
    and small: "length (concat (map uwsgi_enc (message_vars c vh lc ip x))) < 65536"
    and b: "backend_wf c b" and s: "inbox_ok (inbox s)" "arriving (inbox s) = backend_head b @ b_body b @ extra" "sends s = []"
  shows "\<exists>r' s'. uwsgi_exchange mc c vh lc r s = Ret (True, r', s') \<and> reply_read b r r'
    \<and> outbox s' = outbox s @ packet_text mc (message_vars c vh lc ip x) @ m_body x"
proof -
  have wf: "request_wf (m_method x) (m_path x) (m_query x) (m_version x) (msg_kind x) (msg_ver x)" "fields_ok (m_fields x)"
    "msg_kind x \<noteq> HTTP_METHOD_HEAD" using x by (simp_all add: message_wf_def)
  note ready = message_ready [OF r(1) wf(1,2) cs]
  let ?pk = "packet_text mc (message_vars c vh lc ip x)"
  have pk: "uwsgi_packet mc c vh lc r = Ret ?pk"
    using uwsgi_packet_Ret [OF ready(1)] small by (simp add: uwsgi_size_def ready(2) packet_text_def)
  have ne: "?pk \<noteq> []" by (simp add: packet_text_def)
  let ?s = "s\<lparr>outbox := (outbox s @ ?pk) @ m_body x\<rparr>"
  have i: "state r = HTTP_PROCESS_STAT_CONTENT_BODY" "body_is (m_body x) (body_in r) r" "m_body x = [] \<longrightarrow> content_len (body_in r) = 0"
    using r(1) by (auto simp: request_at_def)
  have bd: "uwsgi_send_body r (s\<lparr>outbox := outbox s @ ?pk\<rparr>) = Ret (True, ?s)"
    using send_body_done [OF i(2,3), of "s\<lparr>outbox := outbox s @ ?pk\<rparr>"] s(3) by simp
  have "\<exists>r' s'. uwsgi_read_response c r ?s = Ret (True, r', s') \<and> reply_read b r r' \<and> outbox s' = outbox ?s"
    by (rule backend_reply_read [OF i(1) _ _ _ _ _ c b]) (use r(2) wf(3) s in \<open>simp_all add: received_def\<close>)
  then show ?thesis using pk nwrite_all [OF ne s(3)] bd by (auto simp: uwsgi_exchange_def)
qed

section \<open>The response to the client\<close>

lemma str_wf_same_blocks:
  "str_wf h s \<Longrightarrow> length h \<le> length h' \<Longrightarrow> \<forall>a < length h. h' ! a = h ! a \<Longrightarrow> str_wf h' s \<and> text_of h' s = text_of h s"
  by (auto simp: str_wf_def str_ok_def text_of_def deref_def split: ptr.splits if_splits)

lemma reply_read_facts:
  assumes rd: "reply_read b r r'" and r: "received x r" and b: "fields_ok (b_fields b)"
  shows "table_good (mem r') (out_headers (headers_out r'))" "table_fields (mem r') (out_headers (headers_out r')) = b_fields b"
    "str_wf (mem r') (version_str r')" "text_of (mem r') (version_str r') = m_version x"
    "body_ready r'" "response_body e r' = b_body b" "content_len (body_out r') = int (length (b_body b))"
    "keep_alive r' = keep_alive_of (msg_ver x) (m_fields x)" "status r' = atoi (b_status b)" "upstream r' = upstream r"
proof -
  let ?u = "status_line_cut (b_version b) (b_status b) (b_reason b)" and ?fs = "b_fields b" and ?m = "length (mem r)"
  obtain h bs hb t cb where q: "r' = r\<lparr>mem := h, bufs := bs, header_buf := hb, state := HTTP_PROCESS_STAT_CONTENT_BODY,
        status := atoi (b_status b), headers_out := t, body_out := cb\<rparr>" "array_ok (out_headers t)"
    "elts (out_headers t) = table_at ?m (length ?u) ?fs" "body_is (b_body b) cb r'" "content_fd cb < 0" "b_body b = [] \<longrightarrow> cb = body_out r"
    using rd unfolding reply_read_def by blast
  obtain w where w: "?m < length h" "h ! ?m = ?u @ lines_cut ?fs @ (CRLF @ w)" "\<forall>a < ?m. h ! a = mem r ! a"
    using rd q(1) by (auto simp: reply_read_def keeps_parsed_def backend_cut_def)
  have ok: "\<forall>f \<in> set ?fs. field_ok f" "distinct (map fst ?fs)" using b by (simp_all add: fields_ok_def)
  note tx = table_texts [OF w(1,2) ok(1)]
  show f: "table_fields (mem r') (out_headers (headers_out r')) = ?fs" using tx by (simp add: q(1,3) table_fields_def)
  show "table_good (mem r') (out_headers (headers_out r'))"
    using table_entries_wf [OF w(1,2) ok(1)] q(2) f ok(2) by (auto simp: table_good_def table_wf_def q(1,3))
  have v: "str_wf (mem r) (version_str r)" "text_of (mem r) (version_str r) = m_version x" using r by (simp_all add: received_def)
  then show "str_wf (mem r') (version_str r')" "text_of (mem r') (version_str r') = m_version x"
    using str_wf_same_blocks [OF v(1), of h] w by (simp_all add: q(1))
  have body: "body_ready r' \<and> response_body e r' = b_body b \<and> content_len (body_out r') = int (length (b_body b))"
  proof (cases "b_body b = []")
    case True
    then show ?thesis using q(5,6) r by (auto simp: q(1) body_ready_def response_body_def received_def)
  next
    case False
    obtain y where y: "content cb = Some y" "content_len cb = int (length (b_body b))"
      "bytes_at (mem r' ! blk y) (buf_pos y) (length (b_body b)) = Ret (b_body b)"
      using body_is_bytes [OF q(4) False] by blast
    have o: "body_out r' = cb" by (simp add: q(1))
    show ?thesis
      using y q(5) False by (auto simp: o body_ready_def response_body_def Let_def bytes_at_def split: if_splits)
  qed
  then show "body_ready r'" "response_body e r' = b_body b" "content_len (body_out r') = int (length (b_body b))" by blast+
  show "keep_alive r' = keep_alive_of (msg_ver x) (m_fields x)" "status r' = atoi (b_status b)" "upstream r' = upstream r"
    using r by (simp_all add: q(1) received_def)
qed

definition relay_response :: "message \<Rightarrow> string \<Rightarrow> backend_reply \<Rightarrow> string" where
  "relay_response x line b = m_version x @ '' '' @ line @ CRLF
     @ lines_text (relay_fields (b_fields b) (keep_alive_of (msg_ver x) (m_fields x)) (length (b_body b))) @ CRLF @ b_body b"

lemma response_upstream: "body_ready (r\<lparr>upstream := u\<rparr>) = body_ready r" "response_body e (r\<lparr>upstream := u\<rparr>) = response_body e r"
  by (simp_all add: body_ready_def response_body_def Let_def cong: option.case_cong)

lemma relay_sent:
  assumes rd: "reply_read b r r'" and r: "received x r" and b: "backend_wf c b" "client_header_size c < 2 ^ 31 - 1"
    and x: "length (m_version x) = 8" and line: "map_of http_status_infos (atoi (b_status b)) = Some line"
    and pf: "prefix_free (set (map fst (b_fields b)) \<union> {''Connection'', ''Server'', ''Content-Length''})"
    and s: "sends s = []"
  shows "\<exists>r2. connection_send_response e (r'\<lparr>upstream := u\<rparr>) s = Ret (True, r2, s\<lparr>outbox := outbox s @ relay_response x line b\<rparr>)
    \<and> keep_alive r2 = keep_alive_of (msg_ver x) (m_fields x) \<and> upstream r2 = u"
proof -
  have fo: "fields_ok (b_fields b)" "length (b_body b) < 2 ^ 31" using b(1) by (simp_all add: backend_wf_def)
  note rf = reply_read_facts [OF rd r fo(1)]
  let ?r = "r'\<lparr>upstream := u\<rparr>" and ?ka = "keep_alive_of (msg_ver x) (m_fields x)" and ?n = "length (b_body b)"
  have f: "mem ?r = mem r'" "headers_out ?r = headers_out r'" "keep_alive ?r = ?ka" "body_out ?r = body_out r'"
    "version_str ?r = version_str r'" "status ?r = atoi (b_status b)" using rf(8,9) by simp_all
  obtain t where t: "response_set_headers ?r = Ret t" "table_good (mem r') t" "table_fields (mem r') t = relay_fields (b_fields b) ?ka ?n"
    using relay_headers_set [of ?r "b_fields b" ?n] rf(1,2,7) pf unfolding f by blast
  have wf: "out_headers_wf (with_headers t ?r)"
    using t(2) by (simp add: table_good_def table_wf_def out_headers_wf_def with_headers_def)
  have body: "body_ready ?r" "response_body e ?r = b_body b"
    using rf(5,6) by (simp_all add: response_upstream)
  have lt: "concat (map (header_line_text (mem r')) (elts t)) = lines_text (table_fields (mem r') t)"
    by (simp add: table_fields_def lines_text_def field_line_def header_line_text_def comp_def cong: map_cong)
  have head: "head_text (with_headers t ?r) (m_version x) line @ b_body b = relay_response x line b"
    by (simp add: head_text_def with_headers_def lt t(3) relay_response_def)
  have "length line < 100" using map_of_SomeD [OF line] by (auto simp: http_status_infos_def)
  moreover have "length (lines_text (b_fields b)) < 2 ^ 31"
    using b by (simp add: backend_wf_def backend_head_def)
  ultimately have "length (relay_response x line b) < 2 ^ 64"
    using relay_fields_length [of "b_fields b" ?ka ?n] fo x by (simp add: relay_response_def fields_ok_def CRLF_def)
  then have small: "length (head_text (with_headers t ?r) (m_version x) line) < 2 ^ 64" by (simp add: head [symmetric])
  have v: "str_wf (mem ?r) (version_str ?r)" "text_of (mem ?r) (version_str ?r) = m_version x" using rf(3,4) by simp_all
  have l: "http_status_line (status ?r) = Ret line" using http_status_line_listed [OF line] by (simp only: f)
  from send_response_bytes [OF t(1) wf l v x body(1) s small, of e] body(2) head f(3) show ?thesis by simp
qed

section \<open>From the client to the backend and back\<close>

lemma request_upstream: "request_at ip x (r\<lparr>upstream := u\<rparr>) = request_at ip x r" "received x (r\<lparr>upstream := u\<rparr>) = received x r"
  by (simp_all add: request_at_def received_def keeps_parsed_def body_is_def body_text_def)

text \<open>The backend: what connecting to it gives, and that it answers.\<close>

definition backend_answers :: "env \<Rightarrow> int \<Rightarrow> sock \<Rightarrow> backend_reply \<Rightarrow> bool" where
  "backend_answers e fd bs b \<longleftrightarrow> (\<forall>r. env_backend e r = (fd, True, bs)) \<and> 0 \<le> fd \<and> sends bs = [] \<and> inbox_ok (inbox bs)
     \<and> prefix (backend_head b @ b_body b) (arriving (inbox bs))"

lemma backend_processed:
  assumes x: "message_wf c x" and r: "request_at ip x r" "received x r"
    and c: "conf_wf c" "client_header_size c < 2 ^ 31 - 1" "conf_str (conf_ip c)" "NUL \<notin> set ip"
    and lc: "message_loc e c x = Some lc" "handler lc = Module_Uwsgi mc" and vh: "vh = chosen_vhost c (header_get (m_fields x) ''Host'')"
    and small: "length (concat (map uwsgi_enc (message_vars c vh lc ip x))) < 65536"
    and b: "backend_wf c b" "backend_answers e fd bs b"
  shows "\<exists>r2 s'. connection_process_request e c r = Ret (r2\<lparr>upstream := Some \<lparr>up_fd = - 1, up_running = False, up_sock = s'\<rparr>\<rparr>)
    \<and> reply_read b (r\<lparr>upstream := Some \<lparr>up_fd = fd, up_running = True, up_sock = bs\<rparr>\<rparr>) r2
    \<and> outbox s' = outbox bs @ packet_text mc (message_vars c vh lc ip x) @ m_body x"
proof -
  let ?r = "r\<lparr>upstream := Some \<lparr>up_fd = fd, up_running = True, up_sock = bs\<rparr>\<rparr>"
  have cs: "conf_str (loc_root lc)" "conf_str (vhost_name vh)"
    using c(1) find_in [OF lc(1) [unfolded message_loc_def chosen_loc_def]] chosen_vhost_in [of c "header_get (m_fields x) ''Host''"]
    by (auto simp: conf_wf_def vh)
  obtain extra where s: "inbox_ok (inbox bs)" "arriving (inbox bs) = backend_head b @ b_body b @ extra" "sends bs = []"
    "env_backend e r = (fd, True, bs)" "0 \<le> fd"
    using b(2) by (auto simp: backend_answers_def prefix_def)
  obtain r2 s' where ex: "uwsgi_exchange mc c vh lc ?r bs = Ret (True, r2, s')" "reply_read b ?r r2"
    "outbox s' = outbox bs @ packet_text mc (message_vars c vh lc ip x) @ m_body x"
    using exchange_done [OF x _ _ c(2,3) cs c(4) small b(1) s(1-3), of ?r mc] r by (auto simp: request_upstream)
  have i: "str_is (mem r) (header_host (headers_in r)) (header_get (m_fields x) ''Host'')"
    "deref (mem r) (data (path (url r))) = Ret (m_path x)" using r(2) by (simp_all add: received_def)
  have "connection_process_request e c r = upstream_uwsgi_process mc c vh lc (r\<lparr>upstream := Some \<lparr>up_fd = fd, up_running = False, up_sock = bs\<rparr>\<rparr>)"
    using process_request_spec [OF c(1) i, of e] lc s(4,5)
    by (simp add: message_loc_def module_process_def module_uwsgi_handle_request_def upstream_uwsgi_create_def connect_remote_def
        upstream_process_def vh)
  then have "connection_process_request e c r = Ret (r2\<lparr>upstream := Some \<lparr>up_fd = - 1, up_running = False, up_sock = s'\<rparr>\<rparr>)"
    using ex(1) by (simp add: upstream_uwsgi_process_def)
  with ex(2,3) show ?thesis by blast
qed


definition app_module :: module_uwsgi_conf_t where
  "app_module = \<lparr>uwsgi_ip = server_string ''127.0.0.1'', uwsgi_port = 9000, modifier1 = 0, modifier2 = 0\<rparr>"

definition app_loc :: vhost_loc_conf_t where
  "app_loc = sample_loc\<lparr>handler := Module_Uwsgi app_module\<rparr>"

definition app_vhost :: vhost_conf_t where
  "app_vhost = sample_vhost\<lparr>locs := \<lparr>elts = [app_loc], nalloc = 16\<rparr>\<rparr>"

definition app_conf :: conf_t where
  "app_conf = sample_conf\<lparr>vhosts := \<lparr>elts = [app_vhost], nalloc = 16\<rparr>, default_vhost := app_vhost\<rparr>"

definition app_request :: message where
  "app_request = \<lparr>m_method = ''POST'', m_path = ''/app'', m_query = Some ''id=7'', m_version = ''HTTP/1.1'',
     m_fields = [(''Content-Length'', ''3'')], m_body = ''abc''\<rparr>"

definition app_reply :: backend_reply where
  "app_reply = \<lparr>b_version = ''HTTP/1.1'', b_status = ''404'', b_reason = ''gone'',
     b_fields = [(''X-App'', ''a''), (''Content-Length'', ''2'')], b_body = ''ok''\<rparr>"

definition app_sock :: sock where
  "app_sock = \<lparr>inbox = [Data ''HTTP/1.1 404'', Recv_Error EINTR, Data ('' gone'' @ CRLF @ ''X-App: a'' @ CRLF @ ''Content-Le''),
     Data (''ngth: 2'' @ CRLF @ CRLF @ ''ok'')], sends = [], outbox = [], sock_errno = E_OK\<rparr>"

definition app_env :: env where
  "app_env = sample_env\<lparr>env_backend := (\<lambda>r. (9, True, app_sock))\<rparr>"

lemmas app_defs = app_conf_def app_vhost_def app_loc_def app_request_def app_reply_def app_sock_def app_env_def
  sample_conf_def sample_vhost_def sample_loc_def sample_env_def

lemma app_message: "message_wf app_conf app_request" "msg_ver app_request = HTTP_VERSION_11"
  "arrives app_request [Data (''POST /app?id=7 HTTP/1.1'' @ CRLF @ ''Content-Length: 3'' @ CRLF), Data (CRLF @ ''abc'')]"
proof -
  have k: "msg_kind app_request = HTTP_METHOD_POST" "msg_ver app_request = HTTP_VERSION_11"
    by (simp_all add: msg_kind_def msg_ver_def app_request_def parse_method_def strncasecmp_eq_def cchar_defs parse_version_def strstr_here)
  have "request_wf ''POST'' ''/app'' (Some ''id=7'') ''HTTP/1.1'' HTTP_METHOD_POST HTTP_VERSION_11"
    by (simp add: request_wf_def token_ok_def path_ok_def query_ok_def isspace_def byte_def parse_method_def strncasecmp_eq_def
        cchar_defs parse_version_def strstr_here)
  moreover have "fields_ok [(''Content-Length'', ''3'')]"
    by (simp add: fields_ok_def field_ok_def isspace_def byte_def prefix_free_def)
  moreover have "content_len_of [(''Content-Length'', ''3'')] = 3"
    by (simp add: content_len_of_def header_get_def strncasecmp_eq_def cchar_defs atoi_def strtol10_def int32_def)
  ultimately show "message_wf app_conf app_request"
    unfolding message_wf_def k by (simp add: app_defs message_head_def request_head_def request_line_def target_def field_line_def CRLF_def)
  show "msg_ver app_request = HTTP_VERSION_11" by (rule k)
  show "arrives app_request [Data (''POST /app?id=7 HTTP/1.1'' @ CRLF @ ''Content-Length: 3'' @ CRLF), Data (CRLF @ ''abc'')]"
    by (simp add: arrives_def message_head_def app_request_def request_head_def request_line_def target_def field_line_def CRLF_def)
qed

lemma app_backend: "backend_wf app_conf app_reply" "backend_answers app_env 9 app_sock app_reply" "atoi (b_status app_reply) = 404"
proof -
  show st: "atoi (b_status app_reply) = 404" by code_simp
  have "fields_ok (b_fields app_reply)"
    by (simp add: app_reply_def fields_ok_def field_ok_def isspace_def byte_def prefix_free_def strncasecmp_eq_def cchar_defs)
  moreover have "status_wf (b_version app_reply) (b_status app_reply) (b_reason app_reply)"
    using st by (simp add: status_wf_def) (simp add: app_reply_def token_ok_def isspace_def byte_def HTTP_STATUS_START_def HTTP_STATUS_END_def)
  moreover have "header_get (b_fields app_reply) ''Content-Length'' = Some ''2''" "atoi ''2'' = 2"
    by (simp_all add: app_reply_def header_get_def strncasecmp_eq_def cchar_defs atoi_def strtol10_def int32_def)
  ultimately show "backend_wf app_conf app_reply"
    by (simp add: backend_wf_def) (simp add: app_defs backend_head_def backend_line_def status_line_def field_line_def CRLF_def)
  show "backend_answers app_env 9 app_sock app_reply"
    by (simp add: backend_answers_def app_defs backend_head_def backend_line_def status_line_def field_line_def CRLF_def)
qed


end
