(* ===== verification/Transition.thy ===== *)
theory Transition
  imports Main
begin

text \<open>
  Machines that start in some states and go from state to state: the states they reach, invariants, and
  runs of executable steps.
\<close>

inductive reach :: "('s \<Rightarrow> bool) \<Rightarrow> ('s \<Rightarrow> 's \<Rightarrow> bool) \<Rightarrow> 's \<Rightarrow> bool" for start step where
  reach_start: "start s \<Longrightarrow> reach start step s"
| reach_step: "reach start step s \<Longrightarrow> step s t \<Longrightarrow> reach start step t"

locale inductive_invariant =
  fixes start :: "'s \<Rightarrow> bool" and step :: "'s \<Rightarrow> 's \<Rightarrow> bool" and inv :: "'s \<Rightarrow> bool"
  assumes start_law: "start s \<Longrightarrow> inv s"
    and step_law: "inv s \<Longrightarrow> step s t \<Longrightarrow> inv t"
begin

lemma reach_inv: "reach start step s \<Longrightarrow> inv s"
  by (induction rule: reach.induct) (auto intro: start_law step_law)

end

fun run_actions :: "('e \<Rightarrow> 's \<Rightarrow> 's option) \<Rightarrow> 'e list \<Rightarrow> 's \<Rightarrow> 's option" where
  "run_actions f [] s = Some s"
| "run_actions f (e # es) s = (case f e s of None \<Rightarrow> None | Some t \<Rightarrow> run_actions f es t)"

lemma run_actions_reach:
  assumes "run_actions f es s = Some t" "\<And>e s t. f e s = Some t \<Longrightarrow> step s t" "reach start step s"
  shows "reach start step t"
  using assms(1,3)
proof (induction es arbitrary: s)
  case (Cons e es)
  then obtain u where "f e s = Some u" "run_actions f es u = Some t" by (auto split: option.splits)
  with Cons assms(2) show ?case by (blast intro: reach_step)
qed simp

end
