(* ===== verification/Server.thy ===== *)
theory Server
  imports Connection Transition "HOL-Library.Multiset"
begin

text \<open>
  The threads of a worker (\<open>src/server.c\<close> with \<open>connection_check_timeout\<close> of \<open>src/connection.c\<close>): the listen threads
  share the list of free connections, and the guard thread looks for connections that take too long. The model is
  a machine whose steps interleave: a program counter per thread, and of every connection what more than one thread
  touches. The work between two such accesses (receiving, handling and answering a request) is one step with any
  outcome. A section under the server's mutex is one step, as is a section under a connection's mutex in which nothing waits;
  the guard holds a connection's mutex over several steps.
\<close>

section \<open>State\<close>

text \<open>The memory behind a pointer of the connection.\<close>

datatype mem_state = Absent | Live | Freed

text \<open>\<open>k_locked\<close>: the guard holds the connection's mutex. The request lives in the request pool.\<close>

record conn_t =
  k_state :: connection_state_e
  k_timedout :: bool
  k_fd :: int
  k_start :: int
  k_locked :: bool
  k_pool :: mem_state
  k_r :: mem_state
  k_upstream :: bool

text \<open>Where a listen thread stands in \<open>connection_run\<close> and the functions it calls.\<close>

datatype run_pc =
    Run_Start
  | Run_Loop
  | Run_Serve
  | Run_Fin_Lock
  | Run_Fin_Destroy
  | Run_Fin_Test
  | Run_Before
  | Run_Reus_Log
  | Run_Reus_Lock
  | Run_Reus_Destroy

datatype listen_pc = Accepting | Take int | Running nat int run_pc | Put nat | Returned

datatype guard_pc =
    G_Loop
  | G_Check nat
  | G_Lock nat int
  | G_Wait_Fd nat
  | G_Upstream nat
  | G_Wait_Up nat
  | G_Returned

datatype fault = Assertion | Null_Pointer | Use_After_Free | Double_Free

record server_t =
  connections :: "conn_t list"
  free_connections :: "nat list"
  running :: bool
  listens :: "listen_pc list"
  guard :: guard_pc
  open_fds :: "int list"
  fault :: "fault option"

text \<open>What the surroundings decide: results of calls, the time, and how the work on a request ends.\<close>

datatype event =
    Accepted int
  | Accept_Failed
  | Clock int
  | Start_Failed
  | Created
  | Pool_Failed
  | Request_Failed
  | Upstream_Set
  | Broke
  | Kept_Alive
  | Go

definition upd :: "nat \<Rightarrow> (conn_t \<Rightarrow> conn_t) \<Rightarrow> server_t \<Rightarrow> server_t" where
  "upd c f s = s\<lparr>connections := (connections s)[c := f (connections s ! c)]\<rparr>"

definition goto :: "nat \<Rightarrow> listen_pc \<Rightarrow> server_t \<Rightarrow> server_t" where
  "goto k pc s = s\<lparr>listens := (listens s)[k := pc]\<rparr>"

definition raise_fault :: "fault \<Rightarrow> server_t \<Rightarrow> server_t" where
  "raise_fault x s = s\<lparr>fault := Some x\<rparr>"

definition close_fd :: "int \<Rightarrow> server_t \<Rightarrow> server_t" where
  "close_fd fd s = s\<lparr>open_fds := filter (\<lambda>x. x \<noteq> fd) (open_fds s)\<rparr>"

section \<open>A listen thread\<close>

text \<open>\<open>connection_run\<close> on the descriptor \<open>fd\<close>, from the step \<open>rp\<close> to the next one (none when it returns). \<open>Waits\<close>: the mutex is
  held by the guard, or the event does not fit the step.\<close>

datatype run_result = Waits | Fails fault | Next "run_pc option" conn_t

fun run_conn :: "int \<Rightarrow> run_pc \<Rightarrow> event \<Rightarrow> conn_t \<Rightarrow> run_result" where
  "run_conn fd Run_Start ev x =
     (if k_state x \<noteq> CONNECTION_REUSEABLE then Fails Assertion
      else case ev of
        Clock t \<Rightarrow> Next (Some Run_Loop) (x\<lparr>k_pool := Live, k_r := Live, k_upstream := False, k_start := t, k_fd := fd,
          k_state := CONNECTION_RUNNING\<rparr>)
      | Start_Failed \<Rightarrow> Next None x
      | _ \<Rightarrow> Waits)"
| "run_conn fd Run_Loop ev x =
     (if k_timedout x then Next (Some Run_Before) x
      else if k_state x \<noteq> CONNECTION_RUNNING then Fails Assertion
      else Next (Some Run_Serve) x)"
| "run_conn fd Run_Serve ev x =
     (if k_r x = Freed then Fails Use_After_Free
      else case ev of
        Upstream_Set \<Rightarrow> Next (Some Run_Serve) (x\<lparr>k_upstream := True\<rparr>)
      | Broke \<Rightarrow> Next (Some Run_Before) x
      | Kept_Alive \<Rightarrow> if k_timedout x then Waits else Next (Some Run_Fin_Lock) x
      | _ \<Rightarrow> Waits)"
| "run_conn fd Run_Fin_Lock ev x =
     (if k_locked x then Waits
      else case ev of
        Clock t \<Rightarrow> Next (Some Run_Fin_Destroy) (if k_timedout x then x else x\<lparr>k_start := t, k_upstream := False\<rparr>)
      | _ \<Rightarrow> Waits)"
| "run_conn fd Run_Fin_Destroy ev x =
     (if k_pool x = Freed then Fails Double_Free else Next (Some Run_Fin_Test) (x\<lparr>k_pool := Freed, k_r := Freed\<rparr>))"
| "run_conn fd Run_Fin_Test ev x =
     (if k_timedout x then Next (Some Run_Before) x
      else case ev of
        Created \<Rightarrow> Next (Some Run_Loop) (x\<lparr>k_pool := Live, k_r := Live, k_upstream := False\<rparr>)
      | Pool_Failed \<Rightarrow> Next (Some Run_Before) (x\<lparr>k_pool := Absent\<rparr>)
      | Request_Failed \<Rightarrow> Next (Some Run_Before) (x\<lparr>k_pool := Absent, k_r := Absent\<rparr>)
      | _ \<Rightarrow> Waits)"
| "run_conn fd Run_Before ev x = Next (Some Run_Reus_Log) (x\<lparr>k_state := CONNECTION_BEFORE_REUSEABLE\<rparr>)"
| "run_conn fd Run_Reus_Log ev x =
     (if k_state x \<noteq> CONNECTION_BEFORE_REUSEABLE then Fails Assertion
      else if k_r x = Freed then Fails Use_After_Free
      else Next (Some Run_Reus_Lock) x)"
| "run_conn fd Run_Reus_Lock ev x =
     (if k_locked x then Waits
      else if k_r x = Freed then Fails Use_After_Free
      else Next (Some Run_Reus_Destroy) (x\<lparr>k_timedout := False, k_start := 0, k_fd := - 1, k_upstream := False\<rparr>))"
| "run_conn fd Run_Reus_Destroy ev x =
     (if k_pool x = Freed then Fails Double_Free
      else Next None (x\<lparr>k_pool := Absent, k_r := Absent, k_state := CONNECTION_REUSEABLE\<rparr>))"

text \<open>The same as a step of thread \<open>k\<close> with its connection \<open>c\<close>; \<open>connection_reusable\<close> closes the descriptor.\<close>

definition run_step :: "nat \<Rightarrow> nat \<Rightarrow> int \<Rightarrow> run_pc \<Rightarrow> event \<Rightarrow> server_t \<Rightarrow> server_t option" where
  "run_step k c fd rp ev s = (let x = connections s ! c in case run_conn fd rp ev x of
       Waits \<Rightarrow> None
     | Fails f \<Rightarrow> Some (raise_fault f s)
     | Next rp' y \<Rightarrow>
         Some (goto k (case rp' of Some r \<Rightarrow> Running c fd r | None \<Rightarrow> Put c)
           (upd c (\<lambda>_. y) (if rp = Run_Reus_Lock \<and> 0 \<le> k_fd x then close_fd (k_fd x) s else s))))"

text \<open>\<open>server_listen_proc\<close>: the thread \<open>k\<close>. The kernel hands out a descriptor that is not open.\<close>

definition listen_step :: "nat \<Rightarrow> event \<Rightarrow> server_t \<Rightarrow> server_t option" where
  "listen_step k ev s =
     (if fault s \<noteq> None \<or> length (listens s) \<le> k then None
      else case listens s ! k of
        Accepting \<Rightarrow>
          if \<not> running s then Some (goto k Returned s)
          else (case ev of
            Accepted fd \<Rightarrow> if 0 \<le> fd \<and> fd \<notin> set (open_fds s) then Some (goto k (Take fd) (s\<lparr>open_fds := fd # open_fds s\<rparr>)) else None
          | Accept_Failed \<Rightarrow> Some s
          | _ \<Rightarrow> None)
      | Take fd \<Rightarrow> (case free_connections s of
            [] \<Rightarrow> Some (raise_fault Assertion s)
          | c # cs \<Rightarrow>
              Some (if k_state (connections s ! c) \<noteq> CONNECTION_REUSEABLE then raise_fault Assertion s
                    else goto k (Running c fd Run_Start) (s\<lparr>free_connections := cs\<rparr>)))
      | Running c fd rp \<Rightarrow> run_step k c fd rp ev s
      | Put c \<Rightarrow>
          Some (if k_state (connections s ! c) \<noteq> CONNECTION_REUSEABLE then raise_fault Assertion s
                else goto k Accepting (s\<lparr>free_connections := c # free_connections s\<rparr>))
      | Returned \<Rightarrow> None)"

section \<open>The guard thread\<close>

text \<open>\<open>connection_check_timeout\<close> of connection \<open>i\<close> from the time of day on: the section under the mutex up to the first wait.\<close>

definition check_locked :: "int \<Rightarrow> nat \<Rightarrow> int \<Rightarrow> server_t \<Rightarrow> server_t" where
  "check_locked timeout i now s =
     (let x = connections s ! i in
      if k_state x = CONNECTION_RUNNING \<and> timeout \<le> now - k_start x then
        if k_r x = Freed then raise_fault Use_After_Free s
        else if k_r x = Absent then raise_fault Null_Pointer s
        else if 0 \<le> k_fd x then
          (close_fd (k_fd x) (upd i (\<lambda>x. x\<lparr>k_timedout := True, k_locked := True\<rparr>) s))\<lparr>guard := G_Wait_Fd i\<rparr>
        else (upd i (\<lambda>x. x\<lparr>k_timedout := True, k_locked := True\<rparr>) s)\<lparr>guard := G_Upstream i\<rparr>
      else s\<lparr>guard := G_Check (Suc i)\<rparr>)"

definition release :: "nat \<Rightarrow> (conn_t \<Rightarrow> conn_t) \<Rightarrow> server_t \<Rightarrow> server_t" where
  "release i f s = (upd i (\<lambda>x. (f x)\<lparr>k_locked := False\<rparr>) s)\<lparr>guard := G_Check (Suc i)\<rparr>"

text \<open>\<open>server_guard_proc\<close>. The two waits poll the state.\<close>

definition guard_step :: "int \<Rightarrow> event \<Rightarrow> server_t \<Rightarrow> server_t option" where
  "guard_step timeout ev s =
     (if fault s \<noteq> None then None
      else case guard s of
        G_Loop \<Rightarrow> Some (s\<lparr>guard := (if running s then G_Check 0 else G_Returned)\<rparr>)
      | G_Check i \<Rightarrow>
          if length (connections s) \<le> i then Some (s\<lparr>guard := G_Loop\<rparr>)
          else if k_state (connections s ! i) \<noteq> CONNECTION_RUNNING then Some (s\<lparr>guard := G_Check (Suc i)\<rparr>)
          else (case ev of Clock now \<Rightarrow> Some (s\<lparr>guard := G_Lock i now\<rparr>) | _ \<Rightarrow> None)
      | G_Lock i now \<Rightarrow> if k_locked (connections s ! i) then None else Some (check_locked timeout i now s)
      | G_Wait_Fd i \<Rightarrow>
          Some (if k_state (connections s ! i) = CONNECTION_BEFORE_REUSEABLE
                then (upd i (\<lambda>x. x\<lparr>k_fd := - 1\<rparr>) s)\<lparr>guard := G_Upstream i\<rparr> else s)
      | G_Upstream i \<Rightarrow>
          Some (if k_r (connections s ! i) = Freed then raise_fault Use_After_Free s
                else if k_r (connections s ! i) = Absent then raise_fault Null_Pointer s
                else if k_upstream (connections s ! i) then s\<lparr>guard := G_Wait_Up i\<rparr>
                else release i id s)
      | G_Wait_Up i \<Rightarrow>
          Some (if k_state (connections s ! i) \<noteq> CONNECTION_BEFORE_REUSEABLE then s
                else if k_r (connections s ! i) = Freed then raise_fault Use_After_Free s
                else release i (\<lambda>x. x\<lparr>k_upstream := False\<rparr>) s)
      | G_Returned \<Rightarrow> None)"

section \<open>Creating and destroying the server\<close>

text \<open>A connection as \<open>connection_create\<close> leaves it.\<close>

definition fresh_conn :: conn_t where
  "fresh_conn = \<lparr>k_state = CONNECTION_REUSEABLE, k_timedout = False, k_fd = - 1, k_start = 0, k_locked = False,
     k_pool = Absent, k_r = Absent, k_upstream = False\<rparr>"

text \<open>With no thread at all the array of connections is null, and its first entry is read.\<close>

definition server_create :: "conf_t \<Rightarrow> server_t res" where
  "server_create cf =
     (if max_threads cf \<le> 0 then Crash Null_Deref
      else let n = nat (max_threads cf) in
        Ret \<lparr>connections = replicate n fresh_conn, free_connections = [0..<n], running = True,
          listens = replicate n Accepting, guard = G_Loop, open_fds = [], fault = None\<rparr>)"

text \<open>\<open>connection_close\<close>, the cleanup the server's pool runs for every connection: none when it waits for the guard or fails.\<close>

definition close_conn :: "conn_t \<Rightarrow> conn_t option" where
  "close_conn x =
     (if k_r x = Freed \<or> k_locked x \<or> k_pool x = Freed then None
      else Some (x\<lparr>k_timedout := False, k_start := 0, k_fd := - 1, k_upstream := False, k_pool := Absent, k_r := Absent,
        k_state := CONNECTION_UNREUSEABLE\<rparr>))"

text \<open>The cleanups run in the reverse order of their registration.\<close>

fun close_all :: "conn_t list \<Rightarrow> conn_t list option" where
  "close_all [] = Some []"
| "close_all (x # xs) = Option.bind (close_all xs) (\<lambda>ys. map_option (\<lambda>y. y # ys) (close_conn x))"

text \<open>The threads are detached, so that \<open>pthread_join\<close> returns at once: the connections are closed wherever their threads are.\<close>

definition server_destroy :: "server_t \<Rightarrow> server_t option" where
  "server_destroy s = map_option (\<lambda>cs. s\<lparr>running := False, connections := cs,
     open_fds := filter (\<lambda>fd. fd \<notin> k_fd ` set (connections s)) (open_fds s)\<rparr>) (close_all (connections s))"

inductive server_step :: "int \<Rightarrow> server_t \<Rightarrow> server_t \<Rightarrow> bool" for timeout where
  by_listen: "listen_step k ev s = Some s' \<Longrightarrow> server_step timeout s s'"
| by_guard: "guard_step timeout ev s = Some s' \<Longrightarrow> server_step timeout s s'"

text \<open>The server without its guard (\<open>GUARD_DISABLE\<close>), as long as no pool creation fails.\<close>

inductive calm_step :: "server_t \<Rightarrow> server_t \<Rightarrow> bool" where
  "listen_step k ev s = Some s' \<Longrightarrow> ev \<noteq> Pool_Failed \<Longrightarrow> calm_step s s'"

section \<open>Who holds which connection\<close>

definition owns :: "listen_pc \<Rightarrow> nat multiset" where
  "owns pc = (case pc of Running c fd rp \<Rightarrow> {#c#} | Put c \<Rightarrow> {#c#} | _ \<Rightarrow> {#})"

definition owned :: "listen_pc list \<Rightarrow> nat multiset" where
  "owned ls = (\<Sum>pc \<in># mset ls. owns pc)"

text \<open>A predicate on a connection, given where its thread stands (nothing for a free connection or one to be put back).\<close>

definition at_pc :: "(run_pc option \<Rightarrow> conn_t \<Rightarrow> bool) \<Rightarrow> conn_t list \<Rightarrow> listen_pc \<Rightarrow> bool" where
  "at_pc P cs pc = (case pc of Running c fd rp \<Rightarrow> P (Some rp) (cs ! c) | Put c \<Rightarrow> P None (cs ! c) | _ \<Rightarrow> True)"

definition conn_inv :: "(run_pc option \<Rightarrow> conn_t \<Rightarrow> bool) \<Rightarrow> server_t \<Rightarrow> bool" where
  "conn_inv P s \<longleftrightarrow> length (connections s) = length (listens s)
     \<and> mset (free_connections s) + owned (listens s) = mset_set {..<length (listens s)}
     \<and> (\<forall>c \<in> set (free_connections s). P None (connections s ! c))
     \<and> (\<forall>k < length (listens s). at_pc P (connections s) (listens s ! k))"

lemma owned_split: "k < length ls \<Longrightarrow> owned ls = owns (ls ! k) + owned (take k ls @ drop (Suc k) ls)"
  by (subst id_take_nth_drop [of k ls]) (simp_all add: owned_def)

lemma owned_update: "k < length ls \<Longrightarrow> owned (ls[k := pc]) = owns pc + owned (take k ls @ drop (Suc k) ls)"
  by (simp add: upd_conv_take_nth_drop owned_def)

lemma owned_member: "k < length ls \<Longrightarrow> c \<in># owns (ls ! k) \<Longrightarrow> c \<in># owned ls"
  by (subst owned_split) auto

lemma owned_other:
  assumes "k < length ls" "j < length ls" "j \<noteq> k"
  shows "owns (ls ! j) \<subseteq># owned (take k ls @ drop (Suc k) ls)"
proof -
  have "ls ! j \<in> set (take k ls @ drop (Suc k) ls)"
  proof (cases "j < k")
    case True
    then have "ls ! j = take k ls ! j" "j < length (take k ls)" using assms by simp_all
    then show ?thesis by (metis UnI1 nth_mem set_append)
  next
    case False
    then have "ls ! j = drop (Suc k) ls ! (j - Suc k)" "j - Suc k < length (drop (Suc k) ls)" using assms by simp_all
    then show ?thesis by (metis UnI2 nth_mem set_append)
  qed
  then have "ls ! j \<in># mset (take k ls @ drop (Suc k) ls)" by simp
  then show ?thesis unfolding owned_def by (metis insert_DiffM mset_subset_eq_add_left sum_mset.insert image_mset_add_mset)
qed

lemma conn_inv_count:
  assumes "conn_inv P s"
  shows "count (mset (free_connections s) + owned (listens s)) c \<le> 1"
  using assms by (auto simp: conn_inv_def count_mset_set')

lemma owner_index:
  assumes "conn_inv P s" "k < length (listens s)" "c \<in># owns (listens s ! k)"
  shows "c < length (connections s)" "c \<notin> set (free_connections s)"
    "\<And>j. j < length (listens s) \<Longrightarrow> j \<noteq> k \<Longrightarrow> c \<notin># owns (listens s ! j)"
proof -
  have m: "c \<in># owned (listens s)" by (rule owned_member [OF assms(2,3)])
  then have "c \<in># mset_set {..<length (listens s)}" using assms(1) by (metis conn_inv_def union_iff)
  then show "c < length (connections s)" using assms(1) by (simp add: conn_inv_def)
  have one: "count (mset (free_connections s)) c + count (owned (listens s)) c \<le> 1" using conn_inv_count [OF assms(1), of c] by simp
  moreover have "0 < count (owned (listens s)) c" using m by simp
  ultimately have "count (mset (free_connections s)) c = 0" by linarith
  then show "c \<notin> set (free_connections s)" by (metis count_eq_zero_iff set_mset_mset)
  show "c \<notin># owns (listens s ! j)" if j: "j < length (listens s)" "j \<noteq> k" for j
  proof
    assume "c \<in># owns (listens s ! j)"
    with owned_other [OF assms(2) j] have "c \<in># owned (take k (listens s) @ drop (Suc k) (listens s))" by (rule mset_subset_eqD)
    then have "0 < count (owned (take k (listens s) @ drop (Suc k) (listens s))) c" by simp
    moreover have "0 < count (owns (listens s ! k)) c" using assms(3) by simp
    moreover have "count (owned (listens s)) c
        = count (owns (listens s ! k)) c + count (owned (take k (listens s) @ drop (Suc k) (listens s))) c"
      by (subst owned_split [OF assms(2)]) simp
    ultimately show False using one by linarith
  qed
qed

lemma at_pc_update:
  assumes "c \<notin># owns pc"
  shows "at_pc P (cs[c := x]) pc = at_pc P cs pc"
  using assms by (auto simp: at_pc_def owns_def split: listen_pc.splits)

lemma at_pc_goto:
  "\<forall>j < length ls. at_pc P cs (ls ! j) \<Longrightarrow> at_pc P cs pc \<Longrightarrow> j < length ls \<Longrightarrow> at_pc P cs (ls[k := pc] ! j)"
  by (cases "j = k") simp_all

text \<open>A thread goes on with the connection it holds, which it may change.\<close>

lemma conn_inv_move:
  assumes i: "conn_inv P s" and k: "k < length (listens s)" "owns (listens s ! k) = {#c#}" "owns pc = {#c#}"
    and x: "at_pc P ((connections s)[c := x]) pc"
    and s': "connections s' = (connections s)[c := x]" "free_connections s' = free_connections s" "listens s' = (listens s)[k := pc]"
  shows "conn_inv P s'"
proof -
  have c: "c \<in># owns (listens s ! k)" using k(2) by simp
  note o = owner_index [OF i k(1) c]
  have "at_pc P (connections s') (listens s' ! j)" if j: "j < length (listens s')" for j
  proof (cases "j = k")
    case True
    then show ?thesis using x s' k(1) by simp
  next
    case False
    have "at_pc P (connections s) (listens s ! j)" using i j s' by (simp add: conn_inv_def)
    then show ?thesis using at_pc_update [OF o(3) [of j]] False j s' by simp
  qed
  moreover have "P None (connections s' ! d)" if d: "d \<in> set (free_connections s')" for d
    using i d o(2) s' by (cases "d = c") (auto simp: conn_inv_def)
  moreover have "owned (listens s') = owned (listens s)"
    using k s'(3) by (simp add: owned_update owned_split)
  ultimately show ?thesis using i s' by (simp add: conn_inv_def)
qed

text \<open>The guard changes connections in a way that does not matter to their threads.\<close>

lemma free_index:
  assumes "conn_inv P s" "c \<in> set (free_connections s)"
  shows "c < length (connections s)"
proof -
  have "c \<in># mset (free_connections s) + owned (listens s)" using assms(2) by simp
  then have "c \<in># mset_set {..<length (listens s)}" using assms(1) by (metis conn_inv_def)
  then show ?thesis using assms(1) by (simp add: conn_inv_def)
qed

lemma conn_inv_states:
  assumes i: "conn_inv P s" and P: "\<And>role x y. P role x \<Longrightarrow> k_state y = k_state x \<Longrightarrow> P role y"
    and s': "map k_state (connections s') = map k_state (connections s)" "free_connections s' = free_connections s" "listens s' = listens s"
  shows "conn_inv P s'"
proof -
  have len: "length (connections s') = length (connections s)" using s'(1) by (metis length_map)
  have keep: "P role (connections s ! c) \<Longrightarrow> P role (connections s' ! c)" if "c < length (connections s)" for role c
    using P [of role "connections s ! c" "connections s' ! c"] s'(1) len that by (metis nth_map)
  have "at_pc P (connections s') (listens s ! k)" if k: "k < length (listens s)" for k
  proof -
    have "at_pc P (connections s) (listens s ! k)" using i k by (simp add: conn_inv_def)
    moreover have "c \<in># owns (listens s ! k) \<Longrightarrow> c < length (connections s)" for c using owner_index(1) [OF i k] .
    ultimately show ?thesis using keep by (auto simp: at_pc_def owns_def split: listen_pc.splits)
  qed
  moreover have "P None (connections s' ! c)" if "c \<in> set (free_connections s)" for c
    using i keep [OF free_index [OF i that]] that by (simp add: conn_inv_def)
  ultimately show ?thesis using i s' len by (simp add: conn_inv_def)
qed

lemma map_state_update: "k_state y = k_state (xs ! i) \<Longrightarrow> map k_state (xs[i := y]) = map k_state xs"
  by (cases "i < length xs") (auto simp: map_update list_update_beyond intro: list_update_same_conv [THEN iffD2])

lemma conn_inv_same:
  assumes "conn_inv P s" "connections s' = connections s" "free_connections s' = free_connections s" "listens s' = listens s"
  shows "conn_inv P s'"
  using assms by (simp add: conn_inv_def)

text \<open>Threads without a connection, and taking and putting one.\<close>

lemma conn_inv_idle:
  assumes i: "conn_inv P s" and k: "k < length (listens s)" "owns (listens s ! k) = {#}" "owns pc = {#}"
    and s': "connections s' = connections s" "free_connections s' = free_connections s" "listens s' = (listens s)[k := pc]"
  shows "conn_inv P s'"
proof -
  have "at_pc P cs pc" for cs using k(3) by (auto simp: at_pc_def owns_def split: listen_pc.splits)
  moreover have "owned (listens s') = owned (listens s)" using k s'(3) by (simp add: owned_update owned_split)
  ultimately show ?thesis using i s' by (auto simp: conn_inv_def at_pc_goto)
qed

lemma conn_inv_take:
  assumes i: "conn_inv P s" and k: "k < length (listens s)" "owns (listens s ! k) = {#}"
    and f: "free_connections s = c # cs" and x: "P (Some Run_Start) (connections s ! c)"
    and s': "connections s' = connections s" "free_connections s' = cs" "listens s' = (listens s)[k := Running c fd Run_Start]"
  shows "conn_inv P s'"
proof -
  have "owned (listens s') = add_mset c (owned (listens s))" using k s'(3) by (simp add: owned_update owned_split owns_def)
  moreover have "at_pc P (connections s) (Running c fd Run_Start)" using x by (simp add: at_pc_def)
  ultimately show ?thesis using i f s' by (auto simp: conn_inv_def at_pc_goto)
qed

lemma conn_inv_put:
  assumes i: "conn_inv P s" and k: "k < length (listens s)" "listens s ! k = Put c"
    and s': "connections s' = connections s" "free_connections s' = c # free_connections s" "listens s' = (listens s)[k := Accepting]"
  shows "conn_inv P s'"
proof -
  have "owned (listens s) = add_mset c (owned (listens s'))" using k s'(3) by (simp add: owned_update owned_split owns_def)
  moreover have "P None (connections s ! c)" using i k by (auto simp: conn_inv_def at_pc_def)
  moreover have "at_pc P (connections s) Accepting" by (simp add: at_pc_def)
  ultimately show ?thesis using i s' by (auto simp: conn_inv_def at_pc_goto)
qed

lemma free_not_empty:
  assumes i: "conn_inv P s" and k: "k < length (listens s)" "owns (listens s ! k) = {#}"
  shows "free_connections s \<noteq> []"
proof
  assume "free_connections s = []"
  then have "size (owned (listens s)) = length (listens s)" using i by (simp add: conn_inv_def)
  moreover have "size (owned ls) \<le> length ls" for ls
    by (induction ls) (auto simp: owned_def owns_def split: listen_pc.splits)
  from this [of "take k (listens s) @ drop (Suc k) (listens s)"]
  have "size (owned (take k (listens s) @ drop (Suc k) (listens s))) < length (listens s)" using k(1) by simp
  ultimately show False using k(2) owned_split [OF k(1)] by simp
qed

section \<open>No assertion fails\<close>

definition state_ok :: "run_pc option \<Rightarrow> conn_t \<Rightarrow> bool" where
  "state_ok role x \<longleftrightarrow> k_state x = (case role of
       None \<Rightarrow> CONNECTION_REUSEABLE
     | Some Run_Start \<Rightarrow> CONNECTION_REUSEABLE
     | Some Run_Reus_Log \<Rightarrow> CONNECTION_BEFORE_REUSEABLE
     | Some Run_Reus_Lock \<Rightarrow> CONNECTION_BEFORE_REUSEABLE
     | Some Run_Reus_Destroy \<Rightarrow> CONNECTION_BEFORE_REUSEABLE
     | Some _ \<Rightarrow> CONNECTION_RUNNING)"

text \<open>A discipline: a predicate on a connection, depending on where its thread stands, that each step of \<open>connection_run\<close> hands on to
  the next, and the faults that may happen under it.\<close>

locale connection_discipline =
  fixes P :: "run_pc option \<Rightarrow> conn_t \<Rightarrow> bool" and allowed :: "event \<Rightarrow> bool" and may :: "fault \<Rightarrow> bool"
  assumes fresh_law: "P None fresh_conn"
    and begin_law: "P None x \<Longrightarrow> P (Some Run_Start) x"
    and free_law: "P None x \<Longrightarrow> k_state x = CONNECTION_REUSEABLE"
    and next_law: "allowed ev \<Longrightarrow> P (Some rp) x \<Longrightarrow> run_conn fd rp ev x = Next rp' y \<Longrightarrow> P rp' y"
    and fault_law: "allowed ev \<Longrightarrow> P (Some rp) x \<Longrightarrow> run_conn fd rp ev x = Fails f \<Longrightarrow> may f"
begin

definition good :: "server_t \<Rightarrow> bool" where
  "good s \<longleftrightarrow> conn_inv P s \<and> (\<forall>f. fault s = Some f \<longrightarrow> may f)"

lemma create_good: "server_create cf = Ret s \<Longrightarrow> good s"
  by (auto simp: server_create_def good_def conn_inv_def owned_def owns_def at_pc_def fresh_law Let_def
      mset_set_upto_eq_mset_upto lessThan_atLeast0 split: if_splits)

lemma run_step_good:
  assumes g: "good s" and k: "k < length (listens s)" "listens s ! k = Running c fd rp"
    and ev: "allowed ev" and s': "run_step k c fd rp ev s = Some s'"
  shows "good s'"
proof -
  let ?x = "connections s ! c"
  have i: "conn_inv P s" and o: "owns (listens s ! k) = {#c#}" using g k(2) by (simp_all add: good_def owns_def)
  have c: "c < length (connections s)" using owner_index(1) [OF i k(1)] o by simp
  have p: "P (Some rp) ?x" using i k by (auto simp: conn_inv_def at_pc_def)
  show ?thesis
  proof (cases "run_conn fd rp ev ?x")
    case (Fails f)
    with s' have "s' = raise_fault f s" by (simp add: run_step_def Let_def)
    then show ?thesis using g fault_law [OF ev p Fails] conn_inv_same [of P s s'] by (simp add: good_def raise_fault_def)
  next
    case (Next rp' y)
    let ?pc = "case rp' of Some r \<Rightarrow> Running c fd r | None \<Rightarrow> Put c"
    have f: "connections s' = (connections s)[c := y]" "free_connections s' = free_connections s"
      "listens s' = (listens s)[k := ?pc]" "fault s' = fault s"
      using s' Next by (auto simp: run_step_def Let_def goto_def upd_def close_fd_def)
    have "at_pc P ((connections s)[c := y]) ?pc" "owns ?pc = {#c#}"
      using next_law [OF ev p Next] c by (auto simp: at_pc_def owns_def split: option.splits)
    from conn_inv_move [OF i k(1) o this(2,1) f(1,2,3)] g f(4) show ?thesis by (simp add: good_def)
  qed (use s' in \<open>simp add: run_step_def\<close>)
qed

lemma listen_step_good:
  assumes g: "good s" and ev: "allowed ev" and s': "listen_step k ev s = Some s'"
  shows "good s'"
proof -
  have i: "conn_inv P s" and k: "k < length (listens s)" and n: "fault s = None"
    using g s' by (auto simp: good_def listen_step_def split: if_splits)
  show ?thesis
  proof (cases "listens s ! k")
    case Accepting
    then have o: "owns (listens s ! k) = {#}" by (simp add: owns_def)
    have "fault s' = None \<and> connections s' = connections s \<and> free_connections s' = free_connections s
        \<and> listens s' \<in> {(listens s)[k := Accepting], (listens s)[k := Returned]} \<union> range (\<lambda>fd. (listens s)[k := Take fd])"
      using s' Accepting n k list_update_id [of "listens s" k]
      by (auto simp: listen_step_def goto_def split: if_splits event.splits)
    moreover have "owns Accepting = {#}" "owns Returned = {#}" "owns (Take fd) = {#}" for fd by (simp_all add: owns_def)
    ultimately show ?thesis using conn_inv_idle [OF i k o] by (auto simp: good_def)
  next
    case (Take fd)
    then have o: "owns (listens s ! k) = {#}" by (simp add: owns_def)
    obtain c cs where f: "free_connections s = c # cs" using free_not_empty [OF i k o] by (cases "free_connections s") auto
    have p: "P None (connections s ! c)" using i f by (simp add: conn_inv_def)
    have "s' = goto k (Running c fd Run_Start) (s\<lparr>free_connections := cs\<rparr>)"
      using s' Take n k f free_law [OF p] by (simp add: listen_step_def)
    then show ?thesis using conn_inv_take [OF i k o f begin_law [OF p]] n by (simp add: good_def goto_def)
  next
    case (Running c fd rp)
    then show ?thesis using run_step_good [OF g k Running ev] s' n k by (simp add: listen_step_def)
  next
    case (Put c)
    have p: "P None (connections s ! c)" using i k Put by (auto simp: conn_inv_def at_pc_def)
    have "s' = goto k Accepting (s\<lparr>free_connections := c # free_connections s\<rparr>)"
      using s' Put n k free_law [OF p] by (simp add: listen_step_def)
    then show ?thesis using conn_inv_put [OF i k Put] n by (simp add: good_def goto_def)
  qed (use s' n k in \<open>simp add: listen_step_def\<close>)
qed

end

text \<open>A discipline that only depends on the state field survives the guard, whose accesses never fail an assertion.\<close>

locale guarded_discipline = connection_discipline +
  assumes state_law: "P role x \<Longrightarrow> k_state y = k_state x \<Longrightarrow> P role y"
    and memory_law: "f \<noteq> Assertion \<Longrightarrow> may f"
begin

lemma guard_step_good:
  assumes g: "good s" and s': "guard_step timeout ev s = Some s'"
  shows "good s'"
proof -
  have f: "free_connections s' = free_connections s \<and> listens s' = listens s \<and> fault s' \<noteq> Some Assertion
      \<and> map k_state (connections s') = map k_state (connections s)"
    using s'
    by (auto simp: guard_step_def check_locked_def release_def upd_def close_fd_def raise_fault_def Let_def map_state_update
        split: if_splits guard_pc.splits event.splits)
  have "conn_inv P s'"
    using conn_inv_states [of P s s'] g state_law f by (auto simp: good_def)
  with f memory_law show ?thesis by (auto simp: good_def)
qed

end

section \<open>The two disciplines of the code\<close>

interpretation server_states: guarded_discipline state_ok "\<lambda>_. True" "\<lambda>f. f \<noteq> Assertion"
proof unfold_locales
  show "state_ok rp' y" if "state_ok (Some rp) x" "run_conn fd rp ev x = Next rp' y" for ev rp x fd rp' y
    using that by (cases rp) (auto simp: state_ok_def split: if_splits event.splits)
  show "f \<noteq> Assertion" if "state_ok (Some rp) x" "run_conn fd rp ev x = Fails f" for ev rp x fd f
    using that by (cases rp) (auto simp: state_ok_def split: if_splits event.splits)
qed (simp_all add: state_ok_def fresh_conn_def)

text \<open>Without the guard: nothing times out or stays locked, and the request pool is there exactly while a request may use it.\<close>

definition calm_ok :: "run_pc option \<Rightarrow> conn_t \<Rightarrow> bool" where
  "calm_ok role x \<longleftrightarrow> state_ok role x \<and> \<not> k_timedout x \<and> \<not> k_locked x \<and> (case role of
       None \<Rightarrow> k_pool x = Absent \<and> k_r x = Absent
     | Some Run_Start \<Rightarrow> k_pool x = Absent \<and> k_r x = Absent
     | Some Run_Fin_Test \<Rightarrow> k_pool x = Freed \<and> k_r x = Freed
     | Some rp \<Rightarrow> (if rp \<in> {Run_Loop, Run_Serve, Run_Fin_Lock, Run_Fin_Destroy} then k_pool x = Live \<and> k_r x = Live
                  else k_pool x = k_r x \<and> k_r x \<noteq> Freed))"

interpretation server_memory: connection_discipline calm_ok "\<lambda>ev. ev \<noteq> Pool_Failed" "\<lambda>_. False"
proof unfold_locales
  show "calm_ok rp' y" if "ev \<noteq> Pool_Failed" "calm_ok (Some rp) x" "run_conn fd rp ev x = Next rp' y" for ev rp x fd rp' y
    using that by (cases rp) (auto simp: calm_ok_def state_ok_def split: if_splits event.splits)
  show False if "ev \<noteq> Pool_Failed" "calm_ok (Some rp) x" "run_conn fd rp ev x = Fails f" for ev rp x fd f
    using that by (cases rp) (auto simp: calm_ok_def state_ok_def split: if_splits event.splits)
qed (simp_all add: calm_ok_def state_ok_def fresh_conn_def)

interpretation server_run: inductive_invariant "\<lambda>s. server_create cf = Ret s" "server_step timeout" server_states.good for cf timeout
  by unfold_locales (auto elim!: server_step.cases intro: server_states.create_good server_states.listen_step_good
      server_states.guard_step_good)

interpretation calm_run: inductive_invariant "\<lambda>s. server_create cf = Ret s" calm_step server_memory.good for cf
  by unfold_locales (auto elim!: calm_step.cases intro: server_memory.create_good server_memory.listen_step_good)

section \<open>Properties\<close>

datatype action = Listen nat event | Guard event

fun do_action :: "int \<Rightarrow> action \<Rightarrow> server_t \<Rightarrow> server_t option" where
  "do_action timeout (Listen k ev) s = listen_step k ev s"
| "do_action timeout (Guard ev) s = guard_step timeout ev s"

lemma do_action_step: "do_action timeout a s = Some t \<Longrightarrow> server_step timeout s t"
  by (cases a) (auto intro: server_step.intros)

definition threads_conf :: "int \<Rightarrow> conf_t" where
  "threads_conf n = \<lparr>request_pool_size = 8192, connection_timeout = 30, client_header_size = 2048, large_client_header_size = 4096,
     content_body_buf_size = 4096, max_content_len = 1048576, conf_ip = server_string ''127.0.0.1'', conf_port = 80,
     conf_root = server_string ''/'', default_page = server_string ''index.html'', max_threads = n, worker_num = 1,
     module_sos = \<lparr>elts = [], nalloc = 10\<rparr>, vhosts = \<lparr>elts = [], nalloc = 10\<rparr>,
     default_vhost = \<lparr>vhost_name = server_string ''a'', vhost_root = server_string ''/'', locs = \<lparr>elts = [], nalloc = 10\<rparr>\<rparr>\<rparr>"

definition run_server :: "int \<Rightarrow> action list \<Rightarrow> server_t option" where
  "run_server n as = (case server_create (threads_conf n) of Ret s \<Rightarrow> run_actions (do_action 30) as s | Crash e \<Rightarrow> None)"

lemma run_server_reach:
  assumes "run_server n as = Some s"
  shows "reach (\<lambda>s. server_create (threads_conf n) = Ret s) (server_step 30) s"
  using assms run_actions_reach [of "do_action 30" as _ s "server_step 30" "\<lambda>s. server_create (threads_conf n) = Ret s"] do_action_step
  by (auto simp: run_server_def split: res.splits intro: reach_start)

lemma conn_inv_distinct:
  assumes "conn_inv P s"
  shows "distinct (free_connections s)"
  unfolding distinct_count_atmost_1
proof
  fix c
  have "count (mset (free_connections s)) c \<le> 1" using conn_inv_count [OF assms, of c] by simp
  then show "count (mset (free_connections s)) c = (if c \<in> set (free_connections s) then 1 else 0)"
    using count_mset_0_iff [of "free_connections s" c] by (metis le_neq_implies_less less_one)
qed

text \<open>C7: In every state the threads of a server reach, whatever the order of their steps, the answers of the kernel and the time: no
  assertion on the free list or on the state of a connection has failed, the free list has no duplicates, a connection a
  listen thread works on is in no other thread's hands and not in the free list, and a thread that has accepted a
  client finds a free connection.\<close>

theorem server_assertions_hold:
  assumes "reach (\<lambda>s. server_create cf = Ret s) (server_step timeout) s"
  shows "fault s \<noteq> Some Assertion \<and> distinct (free_connections s)
    \<and> (\<forall>k c. k < length (listens s) \<and> c \<in># owns (listens s ! k) \<longrightarrow>
         c \<notin> set (free_connections s) \<and> (\<forall>j < length (listens s). j \<noteq> k \<longrightarrow> c \<notin># owns (listens s ! j)))
    \<and> (\<forall>k fd. k < length (listens s) \<and> listens s ! k = Take fd \<longrightarrow> free_connections s \<noteq> [])"
proof -
  have g: "server_states.good s" by (rule server_run.reach_inv [OF assms])
  then have i: "conn_inv state_ok s" and "fault s \<noteq> Some Assertion" by (auto simp: server_states.good_def)
  moreover have "free_connections s \<noteq> []" if "k < length (listens s)" "listens s ! k = Take fd" for k fd
    using free_not_empty [OF i that(1)] that(2) by (simp add: owns_def)
  ultimately show ?thesis using conn_inv_distinct [OF i] owner_index(2,3) [OF i] by blast
qed

theorem server_assertions_hold_witness:
  "\<exists>s. run_server 2 [Listen 0 (Accepted 7), Listen 0 Go, Listen 1 (Accepted 8)] = Some s
     \<and> listens s = [Running 0 7 Run_Start, Take 8] \<and> free_connections s = [1] \<and> fault s \<noteq> Some Assertion"
proof -
  let ?as = "[Listen 0 (Accepted 7), Listen 0 Go, Listen 1 (Accepted 8)]"
  have "map_option (\<lambda>s. (listens s, free_connections s)) (run_server 2 ?as) = Some ([Running 0 7 Run_Start, Take 8], [1])" by code_simp
  then obtain s where s: "run_server 2 ?as = Some s" "listens s = [Running 0 7 Run_Start, Take 8]" "free_connections s = [1]" by auto
  from server_assertions_hold [OF run_server_reach [OF s(1)]] s show ?thesis by blast
qed


definition calm_actions :: "(nat \<times> event) list \<Rightarrow> server_t \<Rightarrow> server_t option" where
  "calm_actions = run_actions (\<lambda>(k, ev) s. if ev = Pool_Failed then None else listen_step k ev s)"

lemma calm_actions_reach:
  assumes "server_create cf = Ret s" "calm_actions as s = Some t"
  shows "reach (\<lambda>s. server_create cf = Ret s) calm_step t"
  using assms(2) unfolding calm_actions_def
  by (rule run_actions_reach) (auto intro: calm_step.intros reach_start assms(1) split: if_splits)


lemma close_all_ok:
  assumes "\<forall>x \<in> set xs. k_r x \<noteq> Freed \<and> \<not> k_locked x \<and> k_pool x \<noteq> Freed"
  shows "\<exists>ys. close_all xs = Some ys \<and> length ys = length xs
    \<and> (\<forall>y \<in> set ys. k_state y = CONNECTION_UNREUSEABLE \<and> k_fd y = - 1 \<and> k_pool y = Absent)"
  using assms
proof (induction xs)
  case (Cons x xs)
  then obtain ys where "close_all xs = Some ys" "length ys = length xs"
    "\<forall>y \<in> set ys. k_state y = CONNECTION_UNREUSEABLE \<and> k_fd y = - 1 \<and> k_pool y = Absent" by auto
  with Cons.prems show ?case by (simp add: close_conn_def)
qed simp

text \<open>Every connection is free or some thread's.\<close>

lemma connection_somewhere:
  assumes i: "conn_inv P s" and c: "c < length (connections s)"
  shows "c \<in> set (free_connections s) \<or> (\<exists>k < length (listens s). c \<in># owns (listens s ! k))"
proof -
  have "c \<in># mset (free_connections s) + owned (listens s)" using i c by (simp add: conn_inv_def)
  then show ?thesis by (auto simp: owned_def in_set_conv_nth)
qed

text \<open>Destroying a server whose threads are idle (no client is being served, no guard runs) closes every connection: none keeps a
  descriptor or a pool, and none can be used again.\<close>

lemma server_destroy_closes:
  assumes r: "reach (\<lambda>s. server_create cf = Ret s) calm_step s" and idle: "\<forall>k < length (listens s). owns (listens s ! k) = {#}"
  shows "\<exists>s'. server_destroy s = Some s' \<and> \<not> running s' \<and> length (connections s') = length (connections s)
    \<and> (\<forall>x \<in> set (connections s'). k_state x = CONNECTION_UNREUSEABLE \<and> k_fd x = - 1 \<and> k_pool x = Absent)"
proof -
  have i: "conn_inv calm_ok s" using calm_run.reach_inv [OF r] by (simp add: server_memory.good_def)
  have "calm_ok None (connections s ! c)" if "c < length (connections s)" for c
    using connection_somewhere [OF i that] idle i by (auto simp: conn_inv_def)
  then have "\<forall>x \<in> set (connections s). k_r x \<noteq> Freed \<and> \<not> k_locked x \<and> k_pool x \<noteq> Freed"
    by (auto simp: in_set_conv_nth calm_ok_def)
  from close_all_ok [OF this] show ?thesis by (auto simp: server_destroy_def)
qed

section \<open>Races with the guard\<close>

text \<open>The guard waits, holding the mutex, for a connection whose thread waits for that mutex.\<close>

definition deadlocked :: "nat \<Rightarrow> nat \<Rightarrow> int \<Rightarrow> server_t \<Rightarrow> bool" where
  "deadlocked k c fd s \<longleftrightarrow> guard s = G_Wait_Fd c \<and> k < length (listens s) \<and> listens s ! k = Running c fd Run_Fin_Lock
     \<and> k_locked (connections s ! c) \<and> server_states.good s"

lemma deadlocked_state: "deadlocked k c fd s \<Longrightarrow> k_state (connections s ! c) = CONNECTION_RUNNING"
  by (auto simp: deadlocked_def server_states.good_def conn_inv_def at_pc_def state_ok_def)

lemma listen_step_other:
  assumes "listen_step j ev s = Some s'" "j \<noteq> k" "c \<notin># owns (listens s ! j)"
  shows "listens s' ! k = listens s ! k" "connections s' ! c = connections s ! c" "guard s' = guard s" "length (listens s') = length (listens s)"
  using assms
  by (auto simp: listen_step_def run_step_def Let_def goto_def upd_def close_fd_def raise_fault_def owns_def
      split: if_splits listen_pc.splits list.splits run_result.splits event.splits)

lemma deadlocked_stays:
  assumes d: "deadlocked k c fd s" and s': "server_step timeout s s'"
  shows "deadlocked k c fd s'"
  using s'
proof cases
  case (by_guard ev)
  then have "s' = s" using d deadlocked_state [OF d] by (auto simp: guard_step_def deadlocked_def split: if_splits)
  with d show ?thesis by simp
next
  case (by_listen j ev)
  have g: "server_states.good s'" using server_states.listen_step_good [OF _ TrueI by_listen] d by (simp add: deadlocked_def)
  have i: "conn_inv state_ok s" using d by (simp add: deadlocked_def server_states.good_def)
  have own: "c \<in># owns (listens s ! k)" and k: "k < length (listens s)" using d by (simp_all add: deadlocked_def owns_def)
  show ?thesis
  proof (cases "j = k")
    case True
    then have "s' = s" using d by_listen by (auto simp: listen_step_def deadlocked_def run_step_def Let_def split: if_splits)
    with d show ?thesis by simp
  next
    case False
    have "j < length (listens s)" using by_listen by (auto simp: listen_step_def split: if_splits)
    with owner_index(3) [OF i k own] False have "c \<notin># owns (listens s ! j)" by simp
    from listen_step_other [OF by_listen False this] d g show ?thesis by (simp add: deadlocked_def)
  qed
qed

interpretation deadlock_run: inductive_invariant "\<lambda>t. t = s \<and> deadlocked k c fd s" "server_step timeout" "deadlocked k c fd" for s k c fd timeout
  by unfold_locales (auto intro: deadlocked_stays)

text \<open>The client's thread has just decided to keep the connection alive when the guard finds it too old.\<close>

definition deadlock_actions :: "action list" where
  "deadlock_actions = [Listen 0 (Accepted 7), Listen 0 Go, Listen 0 (Clock 0), Listen 0 Go, Listen 0 Kept_Alive,
     Guard Go, Guard (Clock 30), Guard Go]"

text \<open>C29: A request that takes as long as the timeout can stop the guard for good: the guard holds the connection's mutex and waits for the
  thread to leave its loop, the thread waits for that mutex in \<open>connection_finalize_request\<close>, and in no later state, whatever the other
  threads do, has either of them moved on.\<close>

theorem timeout_deadlocks:
  "\<exists>s. reach (\<lambda>s. server_create (threads_conf 200) = Ret s) (server_step 30) s
     \<and> (\<forall>s'. reach (\<lambda>t. t = s) (server_step 30) s' \<longrightarrow>
          guard s' = G_Wait_Fd 0 \<and> listens s' ! 0 = Running 0 7 Run_Fin_Lock \<and> k_locked (connections s' ! 0))"
proof -
  have "map_option (\<lambda>s. (guard s, 0 < length (listens s), listens s ! 0, k_locked (connections s ! 0))) (run_server 200 deadlock_actions)
      = Some (G_Wait_Fd 0, True, Running 0 7 Run_Fin_Lock, True)" by code_simp
  then obtain s where s: "run_server 200 deadlock_actions = Some s" "guard s = G_Wait_Fd 0" "0 < length (listens s)"
    "listens s ! 0 = Running 0 7 Run_Fin_Lock" "k_locked (connections s ! 0)" by auto
  have r: "reach (\<lambda>s. server_create (threads_conf 200) = Ret s) (server_step 30) s" by (rule run_server_reach [OF s(1)])
  have d: "deadlocked 0 0 7 s" using s server_run.reach_inv [OF r] by (simp add: deadlocked_def)
  have "reach (\<lambda>t. t = s \<and> deadlocked 0 0 7 s) (server_step 30) s' = reach (\<lambda>t. t = s) (server_step 30) s'" for s'
    using d by simp
  with deadlock_run.reach_inv [of s 0 0 7 30] have "deadlocked 0 0 7 s'" if "reach (\<lambda>t. t = s) (server_step 30) s'" for s'
    using that by blast
  with r show ?thesis by (auto simp: deadlocked_def)
qed

theorem timeout_deadlocks_witness:
  "\<exists>s. reach (\<lambda>s. server_create (threads_conf 200) = Ret s) (server_step 30) s
     \<and> guard s = G_Wait_Fd 0 \<and> listens s ! 0 = Running 0 7 Run_Fin_Lock \<and> k_locked (connections s ! 0)"
  using timeout_deadlocks reach_start [of "\<lambda>t. t = s" s "server_step 30" for s] by blast

text \<open>When the time of a connection runs out while its thread replaces the request in \<open>connection_finalize_request\<close> (after it has left the mutex, before it
  looks at \<open>timedout\<close>), the pool of the request is destroyed but neither \<open>request_pool\<close> nor \<open>r\<close> is reset: the thread reads the freed request
  in \<open>connection_reusable\<close>, which would free the pool a second time.\<close>

lemma timeout_uses_freed_request:
  "\<exists>s. reach (\<lambda>s. server_create (threads_conf 200) = Ret s) (server_step 30) s \<and> fault s = Some Use_After_Free
     \<and> listens s ! 0 = Running 0 7 Run_Reus_Log \<and> k_pool (connections s ! 0) = Freed \<and> k_r (connections s ! 0) = Freed"
proof -
  let ?as = "[Listen 0 (Accepted 7), Listen 0 Go, Listen 0 (Clock 0), Listen 0 Go, Listen 0 Kept_Alive, Listen 0 (Clock 1),
     Guard Go, Guard (Clock 31), Guard Go, Listen 0 Go, Listen 0 Go, Listen 0 Go, Listen 0 Go]"
  have "map_option (\<lambda>s. (fault s, listens s ! 0, k_pool (connections s ! 0), k_r (connections s ! 0))) (run_server 200 ?as)
      = Some (Some Use_After_Free, Running 0 7 Run_Reus_Log, Freed, Freed)" by code_simp
  then show ?thesis using run_server_reach [of 200 ?as] by auto
qed

text \<open>The guard closes the descriptor of a connection whose thread is still at work on it. The kernel may hand the same number to the next
  client, and two threads then serve two connections through one descriptor.\<close>

lemma timeout_shares_descriptor:
  "\<exists>s. reach (\<lambda>s. server_create (threads_conf 200) = Ret s) (server_step 30) s \<and> fault s = None
     \<and> listens s ! 0 = Running 0 7 Run_Serve \<and> listens s ! 1 = Running 1 7 Run_Serve
     \<and> k_fd (connections s ! 0) = 7 \<and> k_fd (connections s ! 1) = 7"
proof -
  let ?as = "[Listen 0 (Accepted 7), Listen 0 Go, Listen 0 (Clock 0), Listen 0 Go,
     Guard Go, Guard (Clock 30), Guard Go, Listen 1 (Accepted 7), Listen 1 Go, Listen 1 (Clock 30), Listen 1 Go]"
  have "map_option (\<lambda>s. (fault s, listens s ! 0, listens s ! 1, k_fd (connections s ! 0), k_fd (connections s ! 1))) (run_server 200 ?as)
      = Some (None, Running 0 7 Run_Serve, Running 1 7 Run_Serve, 7, 7)" by code_simp
  then show ?thesis using run_server_reach [of 200 ?as] by auto
qed

end
