(* ===== verification/Threads.thy ===== *)
theory Threads
  imports Server Connection_Run
begin

text \<open>
  The thread machine of \<open>Server\<close> abstracts the sequential model of a connection: every run of \<open>connection_run\<close> is a run of the
  machine, from the connection's shared part before it to that after it.
\<close>

text \<open>What the machine keeps of a connection.\<close>

definition shared :: "connection_t \<Rightarrow> conn_t" where
  "shared cn = \<lparr>k_state = conn_state cn, k_timedout = timedout cn, k_fd = conn_fd cn, k_start = start_time cn, k_locked = False,
     k_pool = (if request_pool cn then Live else Absent), k_r = (if conn_r cn = None then Absent else Live),
     k_upstream = (case conn_r cn of None \<Rightarrow> False | Some r \<Rightarrow> upstream r \<noteq> None)\<rparr>"

text \<open>A thread's own steps, one per event.\<close>

fun thread_run :: "int \<Rightarrow> run_pc option \<Rightarrow> event list \<Rightarrow> conn_t \<Rightarrow> (run_pc option \<times> conn_t) option" where
  "thread_run fd pc [] x = Some (pc, x)"
| "thread_run fd None (ev # evs) x = None"
| "thread_run fd (Some rp) (ev # evs) x = (case run_conn fd rp ev x of Next pc y \<Rightarrow> thread_run fd pc evs y | _ \<Rightarrow> None)"

lemma thread_run_append:
  "thread_run fd pc (as @ bs) x = (case thread_run fd pc as x of None \<Rightarrow> None | Some (pc', y) \<Rightarrow> thread_run fd pc' bs y)"
  by (induction fd pc as x rule: thread_run.induct) (auto split: run_result.splits)

text \<open>The state at the head of the loop.\<close>

definition loop_head :: "connection_t \<Rightarrow> bool" where
  "loop_head cn \<longleftrightarrow> conn_state cn = CONNECTION_RUNNING \<and> \<not> timedout cn \<and> request_pool cn \<and> (\<exists>r. conn_r cn = Some r \<and> upstream r = None)"

lemma request_create_upstream: "http_request_create peer_ip peer_port = Ret r \<Longrightarrow> upstream r = None"
  by (auto simp: http_request_create_def array_create_def)

text \<open>One round up to the response changes nothing that is shared but the upstream.\<close>

definition served_as :: "connection_t \<Rightarrow> connection_t \<Rightarrow> bool" where
  "served_as cn cn1 \<longleftrightarrow> (\<exists>r s. cn1 = cn\<lparr>conn_r := Some r, conn_sock := s\<rparr>)"

lemma served_asI [intro!]: "served_as cn (cn\<lparr>conn_r := Some r, conn_sock := s\<rparr>)"
  by (auto simp: served_as_def)

lemma finalize_goes_on: "connection_finalize_request e cn1 = Ret (go, cn') \<Longrightarrow> \<not> timedout cn1 \<Longrightarrow> go"
  by (auto simp: connection_finalize_request_def split: option.splits if_splits)

lemma round_serves:
  assumes "connection_round e c cn = Ret (go, cn')" "loop_head cn"
  shows "\<exists>cn1. served_as cn cn1 \<and> (if go then connection_finalize_request e cn1 = Ret (True, cn') else cn' = cn1)"
proof -
  have "(\<not> go \<and> served_as cn cn') \<or> (\<exists>cn1. served_as cn cn1 \<and> connection_finalize_request e cn1 = Ret (go, cn'))"
    using assms by (auto simp: connection_round_def loop_head_def assert_then_Ret Let_def split: if_splits) (metis served_asI)+
  moreover have "go" if "served_as cn cn1" "connection_finalize_request e cn1 = Ret (go, cn')" for cn1
    using finalize_goes_on [OF that(2)] that(1) assms(2) by (auto simp: served_as_def loop_head_def)
  ultimately show ?thesis by (cases go) auto
qed

definition serve_events :: "connection_t \<Rightarrow> event list" where
  "serve_events cn1 = Go # (if k_upstream (shared cn1) then [Upstream_Set] else [])"

lemma serve_run:
  assumes "loop_head cn" "served_as cn cn1"
  shows "thread_run fd (Some Run_Loop) (serve_events cn1) (shared cn) = Some (Some Run_Serve, shared cn1)"
  using assms by (auto simp: serve_events_def loop_head_def served_as_def shared_def)

lemma finalize_run:
  assumes "loop_head cn" "served_as cn cn1" "connection_finalize_request e cn1 = Ret (True, cn')"
  shows "thread_run fd (Some Run_Serve) [Kept_Alive, Clock (env_time e), Go, Created] (shared cn1) = Some (Some Run_Loop, shared cn')
    \<and> loop_head cn'"
  using assms
  by (auto simp: connection_finalize_request_def loop_head_def served_as_def shared_def dest!: request_create_upstream)

lemma loop_run:
  assumes "connection_loop n e c cn = Ret cn'" "loop_head cn"
  shows "\<exists>evs. thread_run fd (Some Run_Loop) evs (shared cn) = Some (Some Run_Before, shared cn') \<and> conn_r cn' \<noteq> None"
  using assms
proof (induction n arbitrary: cn)
  case (Suc n)
  then obtain go cn2 where r: "connection_round e c cn = Ret (go, cn2)"
    and l: "if go then connection_loop n e c cn2 = Ret cn' else cn' = cn2"
    by (auto simp: loop_head_def split: if_splits)
  obtain cn1 where s: "served_as cn cn1" and f: "if go then connection_finalize_request e cn1 = Ret (True, cn2) else cn2 = cn1"
    using round_serves [OF r Suc.prems(2)] by blast
  note run = serve_run [OF Suc.prems(2) s, of fd]
  show ?case
  proof (cases go)
    case True
    then have fin: "connection_finalize_request e cn1 = Ret (True, cn2)" using f by simp
    note again = finalize_run [OF Suc.prems(2) s fin, of fd]
    obtain evs where "thread_run fd (Some Run_Loop) evs (shared cn2) = Some (Some Run_Before, shared cn')" "conn_r cn' \<noteq> None"
      using Suc.IH [of cn2] l True again by auto
    with run again have "thread_run fd (Some Run_Loop) (serve_events cn1 @ [Kept_Alive, Clock (env_time e), Go, Created] @ evs) (shared cn)
        = Some (Some Run_Before, shared cn')" by (simp only: thread_run_append option.case prod.case)
    with \<open>conn_r cn' \<noteq> None\<close> show ?thesis by blast
  next
    case False
    then have e: "cn' = cn1" using f l by simp
    have "thread_run fd (Some Run_Serve) [Broke] (shared cn1) = Some (Some Run_Before, shared cn1)"
      using s Suc.prems(2) by (auto simp: shared_def served_as_def)
    with run have "thread_run fd (Some Run_Loop) (serve_events cn1 @ [Broke]) (shared cn) = Some (Some Run_Before, shared cn')"
      by (simp only: thread_run_append option.case prod.case e)
    moreover have "conn_r cn' \<noteq> None" using e s by (auto simp: served_as_def)
    ultimately show ?thesis by blast
  qed
qed simp

lemma reusable_run:
  assumes "connection_reusable (cn\<lparr>conn_state := CONNECTION_BEFORE_REUSEABLE\<rparr>) True = Ret cn'" "conn_r cn \<noteq> None"
  shows "thread_run fd (Some Run_Before) [Go, Go, Go, Go] (shared cn) = Some (None, shared cn')"
  using assms by (auto simp: connection_reusable_def assert_then_Ret shared_def)



end
