(* ===== verification/Xml_Tree.thy ===== *)
theory Xml_Tree
  imports Prelude "HOL-Library.Multiset"
begin

text \<open>
  The XML tree (\<open>src/xml_tree.c\<close>) and the builder that makes it (\<open>src/xml_builder_tree.c\<close>). A \<open>XmlNode*\<close> is a node with
  the chain of its right siblings, hence a list of nodes; children are such a chain. The \<open>parent\<close>
  pointers are what the builder's frames hold.
\<close>

section \<open>Nodes\<close>

type_synonym xml_attrs = "(string \<times> string) list"

datatype xml_data =
    XML_NODE_PI string xml_attrs
  | XML_NODE_TEXT string
  | XML_NODE_NORMAL string xml_attrs
  | XML_NODE_COMMENT string

datatype xml_node = XmlNode (node_data: xml_data) (node_children: "xml_node list")

definition strndup :: "string \<Rightarrow> nat \<Rightarrow> string" where
  "strndup t n = takeWhile (\<lambda>c. c \<noteq> NUL) (take n t)"

definition xml_node_create_text :: "string \<Rightarrow> nat \<Rightarrow> xml_node" where
  "xml_node_create_text t n = XmlNode (XML_NODE_TEXT (strndup t n)) []"

definition xml_node_create_comment :: "string \<Rightarrow> nat \<Rightarrow> xml_node" where
  "xml_node_create_comment t n = XmlNode (XML_NODE_COMMENT (strndup t n)) []"

fun xml_node_append_attr :: "xml_node \<Rightarrow> string \<Rightarrow> string \<Rightarrow> xml_node" where
  "xml_node_append_attr (XmlNode (XML_NODE_PI n as) cs) name val = XmlNode (XML_NODE_PI n (as @ [(name, val)])) cs"
| "xml_node_append_attr (XmlNode (XML_NODE_NORMAL n as) cs) name val = XmlNode (XML_NODE_NORMAL n (as @ [(name, val)])) cs"
| "xml_node_append_attr nd name val = nd"

text \<open>The loop over the null-terminated array of names and values.\<close>

fun append_attrs :: "xml_node \<Rightarrow> string list \<Rightarrow> xml_node" where
  "append_attrs nd (name # val # r) = append_attrs (xml_node_append_attr nd name val) r"
| "append_attrs nd _ = nd"

definition xml_node_create_pi :: "string \<Rightarrow> string list \<Rightarrow> xml_node" where
  "xml_node_create_pi name attrs = append_attrs (XmlNode (XML_NODE_PI name []) []) attrs"

definition xml_node_create_normal :: "string \<Rightarrow> string list \<Rightarrow> xml_node" where
  "xml_node_create_normal name attrs = append_attrs (XmlNode (XML_NODE_NORMAL name []) []) attrs"

definition xml_node_append_sibling :: "xml_node list \<Rightarrow> xml_node \<Rightarrow> xml_node list" where
  "xml_node_append_sibling nodes sibling = nodes @ [sibling]"

fun xml_node_append_child :: "xml_node \<Rightarrow> xml_node \<Rightarrow> xml_node" where
  "xml_node_append_child (XmlNode d cs) child = XmlNode d (cs @ [child])"

section \<open>Visiting a tree\<close>

text \<open>The calls a visit makes to a builder. The array for the attributes is filled two entries at a time up to
  \<open>MAX_ATTR_NR\<close> (64) entries, so only the first 32 attributes are passed on.\<close>

datatype xml_event =
    On_Start string "string list"
  | On_End string
  | On_Text string
  | On_Comment string
  | On_Pi string "string list"

fun attr_array :: "nat \<Rightarrow> xml_attrs \<Rightarrow> string list" where
  "attr_array i [] = []"
| "attr_array i ((n, v) # as) = (if i < 64 then n # v # attr_array (i + 2) as else [])"

definition node_event :: "xml_data \<Rightarrow> xml_event" where
  "node_event d = (case d of
       XML_NODE_NORMAL n as \<Rightarrow> On_Start n (attr_array 0 as)
     | XML_NODE_PI n as \<Rightarrow> On_Pi n (attr_array 0 as)
     | XML_NODE_TEXT t \<Rightarrow> On_Text t
     | XML_NODE_COMMENT t \<Rightarrow> On_Comment t)"

definition end_event :: "xml_data \<Rightarrow> xml_event list" where
  "end_event d = (case d of XML_NODE_NORMAL n as \<Rightarrow> [On_End n] | _ \<Rightarrow> [])"

fun xml_node_visit :: "xml_node list \<Rightarrow> xml_event list" where
  "xml_node_visit [] = []"
| "xml_node_visit (XmlNode d cs # ns) = node_event d # xml_node_visit cs @ end_event d @ xml_node_visit ns"

section \<open>Freeing a tree\<close>

datatype xml_free = Free_String string | Free_Attr "string \<times> string" | Free_Node xml_data

fun xml_attr_destroy :: "xml_attrs \<Rightarrow> xml_free list" where
  "xml_attr_destroy [] = []"
| "xml_attr_destroy (a # as) = [Free_String (fst a), Free_String (snd a), Free_Attr a] @ xml_attr_destroy as"

definition data_destroy :: "xml_data \<Rightarrow> xml_free list" where
  "data_destroy d = (case d of
       XML_NODE_TEXT t \<Rightarrow> [Free_String t]
     | XML_NODE_COMMENT t \<Rightarrow> [Free_String t]
     | XML_NODE_PI n as \<Rightarrow> Free_String n # xml_attr_destroy as
     | XML_NODE_NORMAL n as \<Rightarrow> Free_String n # xml_attr_destroy as)"

fun xml_node_destroy :: "xml_node list \<Rightarrow> xml_free list" where
  "xml_node_destroy [] = []"
| "xml_node_destroy (XmlNode d cs # ns) = xml_node_destroy cs @ xml_node_destroy ns @ data_destroy d @ [Free_Node d]"

section \<open>Looking things up\<close>

definition is_named :: "string \<Rightarrow> xml_node \<Rightarrow> bool" where
  "is_named name nd = (case node_data nd of XML_NODE_NORMAL n as \<Rightarrow> n = name | _ \<Rightarrow> False)"

fun find_loop :: "string \<Rightarrow> int \<Rightarrow> int \<Rightarrow> xml_node list \<Rightarrow> xml_node option" where
  "find_loop name index i [] = None"
| "find_loop name index i (c # cs) =
     (let i' = (if is_named name c then i + 1 else i) in
      if i' = index then Some c else find_loop name index i' cs)"

definition xml_tree_find :: "xml_node option \<Rightarrow> string \<Rightarrow> int \<Rightarrow> xml_node option" where
  "xml_tree_find nd name index = (case nd of
       None \<Rightarrow> None
     | Some x \<Rightarrow> if index < 0 then None else find_loop name index (- 1) (node_children x))"

definition xml_tree_find_first :: "xml_node option \<Rightarrow> string \<Rightarrow> xml_node option" where
  "xml_tree_find_first nd name = xml_tree_find nd name 0"

definition xml_tree_str :: "xml_node option \<Rightarrow> string \<Rightarrow> int \<Rightarrow> string option" where
  "xml_tree_str nd name index = (case xml_tree_find nd name index of
       None \<Rightarrow> None
     | Some x \<Rightarrow> (case node_children x of XmlNode (XML_NODE_TEXT t) _ # _ \<Rightarrow> Some t | _ \<Rightarrow> None))"

definition xml_tree_str_first :: "xml_node option \<Rightarrow> string \<Rightarrow> string option" where
  "xml_tree_str_first nd name = xml_tree_str nd name 0"

definition xml_tree_int :: "xml_node option \<Rightarrow> string \<Rightarrow> int \<Rightarrow> int \<Rightarrow> int" where
  "xml_tree_int nd name index default_val = (case xml_tree_str nd name index of None \<Rightarrow> default_val | Some t \<Rightarrow> atoi t)"

definition xml_tree_int_first :: "xml_node option \<Rightarrow> string \<Rightarrow> int \<Rightarrow> int" where
  "xml_tree_int_first nd name default_val = xml_tree_int nd name 0 default_val"

section \<open>The tree builder\<close>

text \<open>The frames are the current node and its ancestors, each with the children it has so far; the last one is the root.\<close>

record xml_builder =
  frames :: "(xml_data \<times> xml_node list) list"

definition xml_builder_tree_create :: xml_builder where
  "xml_builder_tree_create = \<lparr>frames = [(XML_NODE_NORMAL ''__root__'' [], [])]\<rparr>"

text \<open>\<open>xml_node_append_child(priv->current, new_node)\<close>.\<close>

definition add_child :: "xml_node \<Rightarrow> xml_builder \<Rightarrow> xml_builder res" where
  "add_child nd b = (case frames b of
       [] \<Rightarrow> Crash Null_Deref
     | (d, cs) # fs \<Rightarrow> Ret (b\<lparr>frames := (d, cs @ [nd]) # fs\<rparr>))"

text \<open>The new element becomes the current node; it joins its parent's children when its frame is closed.\<close>

definition on_start_element :: "string \<Rightarrow> string list \<Rightarrow> xml_builder \<Rightarrow> xml_builder res" where
  "on_start_element tag attrs b = (case frames b of
       [] \<Rightarrow> Crash Null_Deref
     | fs \<Rightarrow> (case xml_node_create_normal tag attrs of XmlNode d cs \<Rightarrow> Ret (b\<lparr>frames := (d, cs) # fs\<rparr>)))"

definition on_end_element :: "xml_builder \<Rightarrow> xml_builder res" where
  "on_end_element b = (case frames b of
       [] \<Rightarrow> Crash Null_Deref
     | [_] \<Rightarrow> Crash Assert_Failed
     | (d, cs) # (d', cs') # fs \<Rightarrow> Ret (b\<lparr>frames := (d', cs' @ [XmlNode d cs]) # fs\<rparr>))"

definition on_text :: "string \<Rightarrow> nat \<Rightarrow> xml_builder \<Rightarrow> xml_builder res" where
  "on_text t n b = add_child (xml_node_create_text t n) b"

definition on_comment :: "string \<Rightarrow> nat \<Rightarrow> xml_builder \<Rightarrow> xml_builder res" where
  "on_comment t n b = add_child (xml_node_create_comment t n) b"

definition on_pi_element :: "string \<Rightarrow> string list \<Rightarrow> xml_builder \<Rightarrow> xml_builder res" where
  "on_pi_element tag attrs b = add_child (xml_node_create_pi tag attrs) b"

text \<open>The tree with the elements that are still open, and what \<open>xml_builder_get_tree\<close> takes out of it.\<close>

fun close_frames :: "(xml_data \<times> xml_node list) list \<Rightarrow> xml_node list" where
  "close_frames [] = []"
| "close_frames [(d, cs)] = cs"
| "close_frames ((d, cs) # (d', cs') # fs) = close_frames ((d', cs' @ [XmlNode d cs]) # fs)"

definition xml_builder_get_tree :: "xml_builder \<Rightarrow> xml_node list" where
  "xml_builder_get_tree b = close_frames (frames b)"

fun builder_event :: "xml_event \<Rightarrow> xml_builder \<Rightarrow> xml_builder res" where
  "builder_event (On_Start n as) b = on_start_element n as b"
| "builder_event (On_End n) b = on_end_element b"
| "builder_event (On_Text t) b = on_text t (length t) b"
| "builder_event (On_Comment t) b = on_comment t (length t) b"
| "builder_event (On_Pi n as) b = on_pi_element n as b"

fun builder_events :: "xml_event list \<Rightarrow> xml_builder \<Rightarrow> xml_builder res" where
  "builder_events [] b = Ret b"
| "builder_events (e # es) b = bnd (builder_event e b) (builder_events es)"

section \<open>Properties\<close>

lemma find_loop_filter:
  assumes "- 1 \<le> i" "i < int k"
  shows "find_loop name (int k) i cs
    = (let ms = filter (is_named name) cs; j = nat (int k - i - 1) in if j < length ms then Some (ms ! j) else None)"
  using assms
proof (induction cs arbitrary: i)
  case (Cons c cs)
  show ?case
  proof (cases "is_named name c")
    case True
    show ?thesis
    proof (cases "i + 1 = int k")
      case False
      then have "nat (int k - i - 1) = Suc (nat (int k - (i + 1) - 1))" using Cons.prems by simp
      with Cons False True show ?thesis by (simp add: Let_def)
    qed (use True in \<open>simp add: Let_def\<close>)
  qed (use Cons in \<open>simp add: Let_def\<close>)
qed simp

lemma xml_tree_find_nth:
  "xml_tree_find (Some nd) name (int k)
     = (let ms = filter (is_named name) (node_children nd) in if k < length ms then Some (ms ! k) else None)"
  by (simp add: xml_tree_find_def find_loop_filter Let_def)

text \<open>Nodes the builder can make: only elements have children, texts hold no NUL, and at most 32 attributes.\<close>

fun tree_ok :: "xml_node \<Rightarrow> bool" where
  "tree_ok (XmlNode d cs) \<longleftrightarrow> (case d of
       XML_NODE_NORMAL n as \<Rightarrow> length as \<le> 32
     | XML_NODE_PI n as \<Rightarrow> length as \<le> 32 \<and> cs = []
     | XML_NODE_TEXT t \<Rightarrow> NUL \<notin> set t \<and> cs = []
     | XML_NODE_COMMENT t \<Rightarrow> NUL \<notin> set t \<and> cs = []) \<and> (\<forall>c \<in> set cs. tree_ok c)"

lemma strndup_all: "NUL \<notin> set t \<Longrightarrow> strndup t (length t) = t"
  by (induction t) (auto simp: strndup_def)

lemma append_attr_array:
  "length as + k \<le> 32 \<Longrightarrow> append_attrs (XmlNode (XML_NODE_NORMAL n bs) cs) (attr_array (2 * k) as) = XmlNode (XML_NODE_NORMAL n (bs @ as)) cs"
  "length as + k \<le> 32 \<Longrightarrow> append_attrs (XmlNode (XML_NODE_PI n bs) cs) (attr_array (2 * k) as) = XmlNode (XML_NODE_PI n (bs @ as)) cs"
proof (induction as arbitrary: bs k)
  case (Cons a as)
  case 1
  with Cons.IH(1) [of "Suc k"] show ?case by (cases a) simp
next
  case (Cons a as)
  case 2
  with Cons.IH(2) [of "Suc k"] show ?case by (cases a) simp
qed simp_all

lemmas create_nodes = append_attr_array [where k = 0 and bs = "[]", simplified]

lemma builder_events_append: "builder_events (xs @ ys) b = bnd (builder_events xs b) (builder_events ys)"
proof (induction xs arbitrary: b)
  case (Cons x xs)
  then show ?case by (cases "builder_event x b") simp_all
qed simp

lemma visit_frames:
  assumes "\<forall>n \<in> set ns. tree_ok n" "frames b = (d, cs) # fs"
  shows "builder_events (xml_node_visit ns) b = Ret (b\<lparr>frames := (d, cs @ ns) # fs\<rparr>)"
  using assms
proof (induction ns arbitrary: b d cs fs rule: xml_node_visit.induct)
  case (2 e ds ns)
  have ok: "tree_ok (XmlNode e ds)" "\<forall>n \<in> set ds. tree_ok n" using "2.prems"(1) by simp_all
  show ?case
  proof (cases e)
    case (XML_NODE_NORMAL n as)
    let ?b1 = "b\<lparr>frames := (e, []) # (d, cs) # fs\<rparr>"
    have s: "on_start_element n (attr_array 0 as) b = Ret ?b1"
      using ok(1) "2.prems"(2) by (simp add: on_start_element_def xml_node_create_normal_def create_nodes XML_NODE_NORMAL)
    have "builder_events (xml_node_visit ds) ?b1 = Ret (b\<lparr>frames := (e, ds) # (d, cs) # fs\<rparr>)"
      using "2.IH"(1) [OF ok(2), of ?b1] by simp
    moreover have "builder_events (xml_node_visit ns) (b\<lparr>frames := (d, cs @ [XmlNode e ds]) # fs\<rparr>)
        = Ret (b\<lparr>frames := (d, (cs @ [XmlNode e ds]) @ ns) # fs\<rparr>)"
      using "2.IH"(2) [of "b\<lparr>frames := (d, cs @ [XmlNode e ds]) # fs\<rparr>"] "2.prems"(1) by simp
    ultimately show ?thesis
      using s by (simp add: XML_NODE_NORMAL node_event_def end_event_def builder_events_append on_end_element_def)
  qed (use ok(1) "2.prems" "2.IH"(2) [of "b\<lparr>frames := (d, cs @ [XmlNode e ds]) # fs\<rparr>"] in
      \<open>simp_all add: node_event_def end_event_def builder_events_append on_text_def on_comment_def on_pi_element_def add_child_def
        xml_node_create_text_def xml_node_create_comment_def xml_node_create_pi_def create_nodes strndup_all\<close>)
qed simp



text \<open>All nodes of a tree.\<close>

fun all_nodes :: "xml_node list \<Rightarrow> xml_data list" where
  "all_nodes [] = []"
| "all_nodes (XmlNode d cs # ns) = d # all_nodes cs @ all_nodes ns"


end
