(* ===== verification/Xml_Parser.thy ===== *)
theory Xml_Parser
  imports Xml_Tree
begin

text \<open>
  The XML parser (\<open>src/xml_parser.c\<close>): a machine over the bytes of a null-terminated text that calls a builder, here the
  tree builder. Names and attributes go through the parser's own buffer, of which it keeps offsets.
\<close>

section \<open>The buffer\<close>

text \<open>\<open>px_attrs\<close> holds the offsets stored in \<open>attrs\<close> (\<open>attrs_nr\<close> is its length); the buffer is null as long as it is empty.
  What \<open>realloc\<close> adds is read as zeros.\<close>

record xml_parser =
  px_attrs :: "int list"
  px_buffer :: region
  px_used :: nat

definition xml_parser_create :: xml_parser where
  "xml_parser_create = \<lparr>px_attrs = [], px_buffer = [], px_used = 0\<rparr>"

definition xml_parser_reset_buffer :: "xml_parser \<Rightarrow> xml_parser" where
  "xml_parser_reset_buffer p = p\<lparr>px_used := 0, px_attrs := []\<rparr>"

text \<open>\<open>strtrim\<close> starts at the last character; with an empty string that is the byte before it.\<close>

function trim_right :: "region \<Rightarrow> nat \<Rightarrow> int \<Rightarrow> region res" where
  "trim_right m off p =
     (if p = int off then Ret m
      else if p < 0 then Crash Out_Of_Bounds
      else bnd (load m (nat p)) (\<lambda>c. if isspace c then trim_right (m[nat p := NUL]) off (p - 1) else Ret m))"
  by pat_completeness auto
termination
  by (relation "measure (\<lambda>(m, off, p). nat (p + 1))") auto

declare trim_right.simps [simp del]

definition strtrim :: "region \<Rightarrow> nat \<Rightarrow> region res" where
  "strtrim m off =
     bnd (scan_while (\<lambda>c. c \<noteq> NUL) m off) (\<lambda>e.
     bnd (trim_right m off (int e - 1)) (\<lambda>m1.
     bnd (scan_while (\<lambda>c. c \<noteq> NUL \<and> isspace c) m1 off) (\<lambda>q.
     if q = off then Ret m1 else write_at m1 off (cstr_at m1 q @ [NUL]))))"

definition grow_buffer :: "nat \<Rightarrow> xml_parser \<Rightarrow> xml_parser" where
  "grow_buffer n p = (let tot = length (px_buffer p) in
     if tot \<le> px_used p + n then p\<lparr>px_buffer := px_buffer p @ replicate (tot div 2 + 128) NUL\<rparr> else p)"

text \<open>The copy of \<open>n\<close> bytes from \<open>start\<close>: the offset of the trimmed copy in the buffer, or -1 when it does not fit.\<close>

definition xml_parser_strdup :: "region \<Rightarrow> nat \<Rightarrow> nat \<Rightarrow> xml_parser \<Rightarrow> (int \<times> xml_parser) res" where
  "xml_parser_strdup m start n p =
     (let p1 = grow_buffer n p; off = px_used p1 in
      if length (px_buffer p1) \<le> off + n then Ret (- 1, p1)
      else bnd (bytes_at m start n) (\<lambda>d.
        bnd (write_at (px_buffer p1) off (d @ [NUL])) (\<lambda>b1.
        bnd (strtrim b1 off) (\<lambda>b2.
        Ret (int off, p1\<lparr>px_buffer := b2, px_used := off + n + 1\<rparr>)))))"

text \<open>The string a stored offset points to.\<close>

definition px_text :: "xml_parser \<Rightarrow> int \<Rightarrow> string res" where
  "px_text p off =
     (if off < 0 then Crash Out_Of_Bounds
      else if nul_from (px_buffer p) (nat off) then Ret (cstr_at (px_buffer p) (nat off)) else Crash Out_Of_Bounds)"

text \<open>The names and values the builder reads; a last name without a value is not read.\<close>

fun px_texts :: "xml_parser \<Rightarrow> int list \<Rightarrow> string list res" where
  "px_texts p (a # b # r) =
     bnd (px_text p a) (\<lambda>x. bnd (px_text p b) (\<lambda>y. bnd (px_texts p r) (\<lambda>zs. Ret (x # y # zs))))"
| "px_texts p _ = Ret []"

section \<open>Attributes\<close>

datatype attr_state = STAT_PRE_KEY | STAT_KEY | STAT_PRE_VALUE | STAT_VALUE | STAT_END

definition push_attr :: "region \<Rightarrow> nat \<Rightarrow> nat \<Rightarrow> xml_parser \<Rightarrow> xml_parser res" where
  "push_attr m start i p = bnd (xml_parser_strdup m start (i - start) p) (\<lambda>(off, p').
     Ret (p'\<lparr>px_attrs := px_attrs p' @ [off]\<rparr>))"

text \<open>One character: state, start of the token, quote and parser. \<open>STAT_PRE_KEY\<close> falls through to \<open>STAT_KEY\<close>.\<close>

fun attr_key :: "region \<Rightarrow> nat \<Rightarrow> char \<Rightarrow> attr_state \<Rightarrow> nat \<Rightarrow> char \<Rightarrow> xml_parser
    \<Rightarrow> (attr_state \<times> nat \<times> char \<times> xml_parser) res" where
  "attr_key m i c st start q p =
     (if c = CHR ''='' then bnd (push_attr m start i p) (\<lambda>p'. Ret (STAT_PRE_VALUE, start, q, p'))
      else Ret (st, start, q, p))"

fun attr_step :: "region \<Rightarrow> char \<Rightarrow> nat \<Rightarrow> char \<Rightarrow> attr_state \<Rightarrow> nat \<Rightarrow> char \<Rightarrow> xml_parser
    \<Rightarrow> (attr_state \<times> nat \<times> char \<times> xml_parser) res" where
  "attr_step m e i c STAT_PRE_KEY start q p =
     (if c = e \<or> c = CHR ''>'' then attr_key m i c STAT_END start q p
      else if \<not> isspace c then attr_key m i c STAT_KEY i q p
      else attr_key m i c STAT_PRE_KEY start q p)"
| "attr_step m e i c STAT_KEY start q p = attr_key m i c STAT_KEY start q p"
| "attr_step m e i c STAT_PRE_VALUE start q p =
     (if c = CHR 0x22 \<or> c = CHR 0x27 then Ret (STAT_VALUE, Suc i, c, p) else Ret (STAT_PRE_VALUE, start, q, p))"
| "attr_step m e i c STAT_VALUE start q p =
     (if c = q then bnd (push_attr m start i p) (\<lambda>p'. Ret (STAT_PRE_KEY, start, q, p'))
      else Ret (STAT_VALUE, start, q, p))"
| "attr_step m e i c STAT_END start q p = Ret (STAT_END, start, q, p)"

function attr_loop :: "region \<Rightarrow> char \<Rightarrow> nat \<Rightarrow> attr_state \<Rightarrow> nat \<Rightarrow> char \<Rightarrow> xml_parser \<Rightarrow> (nat \<times> xml_parser) res" where
  "attr_loop m e i st start q p =
     bnd (load m i) (\<lambda>c.
     if c = NUL \<or> 64 \<le> length (px_attrs p) then Ret (i, p)
     else bnd (attr_step m e i c st start q p) (\<lambda>(st', start', q', p').
       if st' = STAT_END then Ret (i, p') else attr_loop m e (Suc i) st' start' q' p'))"
  by pat_completeness auto
termination
  by (relation "measure (\<lambda>(m, e, i, st, start, q, p). length m - i)") (auto simp: load_def split: if_splits)

declare attr_loop.simps [simp del]

definition xml_parser_parse_attrs :: "region \<Rightarrow> char \<Rightarrow> nat \<Rightarrow> xml_parser \<Rightarrow> (nat \<times> xml_parser) res" where
  "xml_parser_parse_attrs m e i p = attr_loop m e i STAT_PRE_KEY i (CHR 0x22) (p\<lparr>px_attrs := []\<rparr>)"

section \<open>Tags\<close>

text \<open>The name of a tag from \<open>start\<close> up to a space or one of the characters \<open>ends\<close>, and the attributes behind a space: the
  offset of the name (\<open>None\<close> when the text ended before it).\<close>

definition after_name :: "region \<Rightarrow> char \<Rightarrow> string \<Rightarrow> nat \<Rightarrow> char \<Rightarrow> int \<Rightarrow> xml_parser \<Rightarrow> (int option \<times> nat \<times> xml_parser) res" where
  "after_name m e ends i c off p =
     (if c \<in> set ends then Ret (Some off, i, p)
      else bnd (load m (Suc i)) (\<lambda>c'.
        if c' = NUL then Ret (Some off, Suc i, p)
        else bnd (xml_parser_parse_attrs m e (Suc i) p) (\<lambda>(j, p'). Ret (Some off, j, p'))))"

function tag_name :: "region \<Rightarrow> char \<Rightarrow> string \<Rightarrow> nat \<Rightarrow> nat \<Rightarrow> xml_parser \<Rightarrow> (int option \<times> nat \<times> xml_parser) res" where
  "tag_name m e ends start i p =
     bnd (load m i) (\<lambda>c.
     if c = NUL then Ret (None, i, p)
     else if isspace c \<or> c \<in> set ends then
       bnd (xml_parser_strdup m start (i - start) p) (\<lambda>(off, p'). after_name m e ends i c off p')
     else tag_name m e ends start (Suc i) p)"
  by pat_completeness auto
termination
  by (relation "measure (\<lambda>(m, e, ends, start, i, p). length m - i)") (auto simp: load_def split: if_splits)

declare tag_name.simps [simp del]

text \<open>\<open>thiz->buffer + (size_t)tag_name\<close>: null when nothing was ever copied; without a name it is the start of the buffer.\<close>

definition tag_text :: "xml_parser \<Rightarrow> int option \<Rightarrow> string option res" where
  "tag_text p off =
     (if px_buffer p = [] \<and> off = None then Ret None
      else bnd (px_text p (case off of None \<Rightarrow> 0 | Some x \<Rightarrow> x)) (\<lambda>t. Ret (Some t)))"

definition skip_tag :: "region \<Rightarrow> nat \<Rightarrow> nat res" where
  "skip_tag m i = scan_while (\<lambda>c. c \<noteq> CHR ''>'' \<and> c \<noteq> NUL) m i"

text \<open>A null name makes no node; the text has ended then, and so does the parser.\<close>

definition start_element :: "xml_parser \<Rightarrow> int option \<Rightarrow> xml_builder \<Rightarrow> xml_builder res" where
  "start_element p off b = bnd (tag_text p off) (\<lambda>t. case t of
       None \<Rightarrow> Ret b
     | Some tag \<Rightarrow> bnd (px_texts p (px_attrs p)) (\<lambda>as. on_start_element tag as b))"

definition xml_parser_parse_start_tag :: "region \<Rightarrow> nat \<Rightarrow> xml_parser \<Rightarrow> xml_builder \<Rightarrow> (nat \<times> xml_parser \<times> xml_builder) res" where
  "xml_parser_parse_start_tag m i p b =
     bnd (tag_name m (CHR ''/'') ''>/'' (i - 1) i p) (\<lambda>(off, j, p1).
     bnd (start_element p1 off b) (\<lambda>b1.
     bnd (load m j) (\<lambda>c.
     bnd (if c = CHR ''/'' then on_end_element b1 else Ret b1) (\<lambda>b2.
     bnd (skip_tag m j) (\<lambda>k. Ret (k, p1, b2))))))"

definition xml_parser_parse_end_tag :: "region \<Rightarrow> nat \<Rightarrow> xml_parser \<Rightarrow> xml_builder \<Rightarrow> (nat \<times> xml_parser \<times> xml_builder) res" where
  "xml_parser_parse_end_tag m i p b =
     bnd (skip_tag m i) (\<lambda>j. bnd (load m j) (\<lambda>c.
     if c = CHR ''>'' then
       bnd (xml_parser_strdup m i (j - i) p) (\<lambda>(off, p1).
       bnd (on_end_element b) (\<lambda>b1. Ret (j, p1, b1)))
     else Ret (j, p, b)))"

definition pi_element :: "xml_parser \<Rightarrow> int option \<Rightarrow> xml_builder \<Rightarrow> xml_builder res" where
  "pi_element p off b = bnd (tag_text p off) (\<lambda>t. case t of
       None \<Rightarrow> Ret b
     | Some tag \<Rightarrow> bnd (px_texts p (px_attrs p)) (\<lambda>as. on_pi_element tag as b))"

definition xml_parser_parse_pi :: "region \<Rightarrow> nat \<Rightarrow> xml_parser \<Rightarrow> xml_builder \<Rightarrow> (nat \<times> xml_parser \<times> xml_builder) res" where
  "xml_parser_parse_pi m i p b =
     bnd (tag_name m (CHR ''?'') ''>'' i i p) (\<lambda>(off, j, p1).
     bnd (pi_element p1 off b) (\<lambda>b1.
     bnd (skip_tag m j) (\<lambda>k. Ret (k, p1, b1))))"

section \<open>Comments and text\<close>

datatype comment_state = CSTAT_COMMENT | CSTAT_MINUS1 | CSTAT_MINUS2

text \<open>Behind two dashes the comment ends at the next \<open>>\<close>, whatever stands between.\<close>

function comment_loop :: "region \<Rightarrow> nat \<Rightarrow> comment_state \<Rightarrow> nat \<Rightarrow> xml_builder \<Rightarrow> (nat \<times> xml_builder) res" where
  "comment_loop m start st i b =
     bnd (load m i) (\<lambda>c.
     if c = NUL then Ret (i, b)
     else case st of
       CSTAT_COMMENT \<Rightarrow> comment_loop m start (if c = CHR ''-'' then CSTAT_MINUS1 else CSTAT_COMMENT) (Suc i) b
     | CSTAT_MINUS1 \<Rightarrow> comment_loop m start (if c = CHR ''-'' then CSTAT_MINUS2 else CSTAT_COMMENT) (Suc i) b
     | CSTAT_MINUS2 \<Rightarrow>
         if c = CHR ''>'' then bnd (on_comment (drop start m) (i - start - 2) b) (\<lambda>b'. Ret (i, b'))
         else comment_loop m start CSTAT_MINUS2 (Suc i) b)"
  by pat_completeness auto
termination
  by (relation "measure (\<lambda>(m, start, st, i, b). length m - i)") (auto simp: load_def split: if_splits)

declare comment_loop.simps [simp del]

definition xml_parser_parse_comment :: "region \<Rightarrow> nat \<Rightarrow> xml_builder \<Rightarrow> (nat \<times> xml_builder) res" where
  "xml_parser_parse_comment m i b = comment_loop m (Suc i) CSTAT_COMMENT (Suc i) b"

text \<open>Text up to the next \<open><\<close>, which is handed back; text the file ends in is dropped. Entities are left as they are.\<close>

definition xml_parser_parse_text :: "region \<Rightarrow> nat \<Rightarrow> xml_builder \<Rightarrow> (nat \<times> xml_builder) res" where
  "xml_parser_parse_text m i b =
     (let start = i - 1 in
      bnd (scan_while (\<lambda>c. c \<noteq> CHR ''<'' \<and> c \<noteq> NUL) m i) (\<lambda>j.
      bnd (load m j) (\<lambda>c.
      if c = NUL then Ret (j, b)
      else bnd (if start < j then on_text (drop start m) (j - start) b else Ret b) (\<lambda>b'. Ret (j - 1, b')))))"

section \<open>The parser\<close>

datatype xml_state =
    STAT_NONE
  | STAT_AFTER_LT
  | STAT_START_TAG
  | STAT_END_TAG
  | STAT_TEXT
  | STAT_PRE_COMMENT1
  | STAT_PRE_COMMENT2
  | STAT_COMMENT
  | STAT_PROCESS_INSTRUCTION

text \<open>An unexpected character is only reported. \<open>STAT_PRE_COMMENT2\<close> falls through to \<open>STAT_COMMENT\<close>.\<close>

definition comment_step :: "region \<Rightarrow> nat \<Rightarrow> xml_parser \<Rightarrow> xml_builder \<Rightarrow> (xml_state \<times> nat \<times> xml_parser \<times> xml_builder) res" where
  "comment_step m i p b = bnd (xml_parser_parse_comment m i b) (\<lambda>(j, b'). Ret (STAT_NONE, j, p, b'))"

definition after_lt :: "char \<Rightarrow> xml_state" where
  "after_lt c =
     (if c = CHR ''?'' then STAT_PROCESS_INSTRUCTION
      else if c = CHR ''/'' then STAT_END_TAG
      else if c = CHR ''!'' then STAT_PRE_COMMENT1
      else if isalpha c \<or> c = CHR ''_'' then STAT_START_TAG
      else STAT_AFTER_LT)"

fun xml_step :: "region \<Rightarrow> char \<Rightarrow> xml_state \<Rightarrow> nat \<Rightarrow> xml_parser \<Rightarrow> xml_builder
    \<Rightarrow> (xml_state \<times> nat \<times> xml_parser \<times> xml_builder) res" where
  "xml_step m c STAT_NONE i p b =
     Ret (if c = CHR ''<'' then (STAT_AFTER_LT, i, xml_parser_reset_buffer p, b)
          else if \<not> isspace c then (STAT_TEXT, i, p, b)
          else (STAT_NONE, i, p, b))"
| "xml_step m c STAT_AFTER_LT i p b = Ret (after_lt c, i, p, b)"
| "xml_step m c STAT_START_TAG i p b = bnd (xml_parser_parse_start_tag m i p b) (\<lambda>(j, p', b'). Ret (STAT_NONE, j, p', b'))"
| "xml_step m c STAT_END_TAG i p b = bnd (xml_parser_parse_end_tag m i p b) (\<lambda>(j, p', b'). Ret (STAT_NONE, j, p', b'))"
| "xml_step m c STAT_PROCESS_INSTRUCTION i p b = bnd (xml_parser_parse_pi m i p b) (\<lambda>(j, p', b'). Ret (STAT_NONE, j, p', b'))"
| "xml_step m c STAT_TEXT i p b = bnd (xml_parser_parse_text m i b) (\<lambda>(j, b'). Ret (STAT_NONE, j, p, b'))"
| "xml_step m c STAT_PRE_COMMENT1 i p b = Ret (if c = CHR ''-'' then STAT_PRE_COMMENT2 else STAT_PRE_COMMENT1, i, p, b)"
| "xml_step m c STAT_PRE_COMMENT2 i p b = comment_step m i p b"
| "xml_step m c STAT_COMMENT i p b = comment_step m i p b"

text \<open>Every part of the parser only moves forward, except that the text hands back the \<open><\<close> it stopped at.\<close>

lemma scan_while_ge: "scan_while P m i = Ret j \<Longrightarrow> i \<le> j"
  by (auto dest: scan_while_RetD)

lemma attr_loop_ge: "attr_loop m e i st start q p = Ret (j, p') \<Longrightarrow> i \<le> j"
proof (induction "length m - i" arbitrary: i st start q p rule: less_induct)
  case less
  have ih: "attr_loop m e (Suc i) st' start' q' p1 = Ret (j, p') \<Longrightarrow> i < length m \<Longrightarrow> i \<le> j" for st' start' q' p1
    by (drule less.hyps [rotated]) simp_all
  from less.prems show ?case
    by (subst (asm) attr_loop.simps) (auto simp: load_def split: if_splits dest: ih)
qed

lemma tag_name_ge: "tag_name m e ends start i p = Ret (off, j, p') \<Longrightarrow> i \<le> j"
proof (induction "length m - i" arbitrary: i rule: less_induct)
  case less
  have ih: "tag_name m e ends start (Suc i) p = Ret (off, j, p') \<Longrightarrow> i < length m \<Longrightarrow> i \<le> j"
    by (drule less.hyps [rotated]) simp_all
  from less.prems show ?case
    by (subst (asm) tag_name.simps)
      (auto simp: load_def after_name_def xml_parser_parse_attrs_def split: if_splits dest!: attr_loop_ge dest: ih)
qed

lemma comment_loop_ge: "comment_loop m start st i b = Ret (j, b') \<Longrightarrow> i \<le> j"
proof (induction "length m - i" arbitrary: i st rule: less_induct)
  case less
  have ih: "comment_loop m start st' (Suc i) b = Ret (j, b') \<Longrightarrow> i < length m \<Longrightarrow> i \<le> j" for st'
    by (drule less.hyps [rotated]) simp_all
  from less.prems show ?case
    by (subst (asm) comment_loop.simps) (auto simp: load_def split: if_splits comment_state.splits dest: ih)
qed

lemma xml_step_forward:
  assumes "xml_step m c st i p b = Ret (st', j, p', b')"
  shows "if st = STAT_TEXT then i \<le> Suc j \<and> st' = STAT_NONE else i \<le> j"
  using assms
  by (cases st) (auto simp: xml_parser_parse_start_tag_def xml_parser_parse_end_tag_def xml_parser_parse_pi_def skip_tag_def
      xml_parser_parse_text_def comment_step_def xml_parser_parse_comment_def Let_def
      split: if_splits dest!: scan_while_ge tag_name_ge comment_loop_ge)

function xml_loop :: "region \<Rightarrow> xml_state \<Rightarrow> nat \<Rightarrow> xml_parser \<Rightarrow> xml_builder \<Rightarrow> (xml_parser \<times> xml_builder) res" where
  "xml_loop m st i p b =
     bnd (load m i) (\<lambda>c.
     if c = NUL then Ret (p, b)
     else bnd (xml_step m c st i p b) (\<lambda>(st', j, p', b').
       bnd (load m j) (\<lambda>c'.
       if c' = NUL then Ret (p', b') else xml_loop m st' (Suc j) p' b')))"
  by pat_completeness auto
termination
proof (relation "measure (\<lambda>(m, st, i, p, b). 2 * (length m - i) + (if st = STAT_TEXT then 1 else 0))", goal_cases)
  case (2 m st i p b c x st' y j z p' b' c')
  have i: "i < length m" using 2(1) by (auto simp: load_def split: if_splits)
  from xml_step_forward [of m c st i p b st' j p' b'] 2 i show ?case by (auto split: if_splits)
qed simp

declare xml_loop.simps [simp del]

definition xml_parser_parse :: "xml_parser \<Rightarrow> xml_builder \<Rightarrow> region \<Rightarrow> (xml_parser \<times> xml_builder) res" where
  "xml_parser_parse p b m = xml_loop m STAT_NONE 0 p b"

end
