(* ===== verification/Conf.thy ===== *)
theory Conf
  imports Conf_Types Xml_Parser Utils
begin

text \<open>
  Reading the configuration (\<open>src/conf.c\<close>) with the constructors of the two modules (\<open>src/module_default.c\<close>,
  \<open>src/module_uwsgi.c\<close>). \<open>exit(-1)\<close> is the outcome \<open>Crash Exits\<close>. The file's content and the libraries
  \<open>dlopen\<close> finds are arguments; the two libraries of the repository are known by their \<open>module_get_info\<close>.
\<close>

section \<open>The modules\<close>

definition module_default_get_info :: module_so_conf_t where
  "module_default_get_info = \<lparr>so_name = server_string ''default'', so_author = server_string ''pengwu<wp.4163196@gmail.com>'',
     so_description = server_string ''default request handler'', so_version = server_string ''0.1'',
     module_create = Module_Default_Create\<rparr>"

definition module_uwsgi_get_info :: module_so_conf_t where
  "module_uwsgi_get_info = \<lparr>so_name = server_string ''uwsgi'', so_author = server_string ''pengwu<wp.4163196@gmail.com>'',
     so_description = server_string ''uwsgi request handler'', so_version = server_string ''0.1'',
     module_create = Module_Uwsgi_Create\<rparr>"

definition module_default_create :: "xml_node option \<Rightarrow> module_t option" where
  "module_default_create conf_node = Some Module_Default"

text \<open>The second assignment to \<open>modifier1\<close> is the configuration's \<open>modifier2\<close>; \<open>modifier2\<close> keeps the zero of the allocation.
  The macro \<open>to_string\<close> is two statements, so the length of the address is set whether or not the default
  is taken; the port is compared with -1 after it was stored in 16 bits.\<close>

definition module_uwsgi_conf_init :: "xml_node option \<Rightarrow> module_uwsgi_conf_t option" where
  "module_uwsgi_conf_init node = (case xml_tree_find_first node ''uwsgi_pass'' of
       None \<Rightarrow> None
     | Some pass \<Rightarrow>
         (let ip = str_of_opt (xml_tree_str_first (Some pass) ''ip'');
              prt = word_of_int (xml_tree_int_first (Some pass) ''port'' (- 1)) :: 16 word in
          if uint prt = - 1 then None
          else Some \<lparr>uwsgi_ip = \<lparr>data = (if data ip = Null then Lit ''127.0.0.1'' else data ip), len = 9\<rparr>,
            uwsgi_port = prt, modifier1 = word_of_int (xml_tree_int_first node ''modifier2'' 0), modifier2 = 0\<rparr>))"

definition module_uwsgi_create :: "xml_node option \<Rightarrow> module_t option" where
  "module_uwsgi_create conf_node = map_option Module_Uwsgi (module_uwsgi_conf_init conf_node)"

definition call_create :: "module_create_func \<Rightarrow> xml_node option \<Rightarrow> module_t option" where
  "call_create f node = (case f of
       Module_Default_Create \<Rightarrow> module_default_create node
     | Module_Uwsgi_Create \<Rightarrow> module_uwsgi_create node)"

section \<open>Loading the modules\<close>

text \<open>\<open>dlopen\<close> may fail, and a library without \<open>module_get_info\<close> ends the program too.\<close>

datatype shared_object = Libmodule_Default | Libmodule_Uwsgi | Other_Library

fun module_get_info :: "shared_object \<Rightarrow> module_so_conf_t option" where
  "module_get_info Libmodule_Default = Some module_default_get_info"
| "module_get_info Libmodule_Uwsgi = Some module_uwsgi_get_info"
| "module_get_info Other_Library = None"

type_synonym dl = "string \<Rightarrow> shared_object option"

lemma xml_tree_find_less:
  "xml_tree_find nd name (int i) = Some x \<Longrightarrow> \<exists>y. nd = Some y \<and> i < length (node_children y)"
proof (cases nd)
  case (Some y)
  assume "xml_tree_find nd name (int i) = Some x"
  with Some have "i < length (filter (is_named name) (node_children y))"
    by (simp add: xml_tree_find_nth Let_def split: if_splits)
  also have "\<dots> \<le> length (node_children y)" by (rule length_filter_le)
  finally show ?thesis using Some by simp
qed (simp add: xml_tree_find_def)

definition child_count :: "xml_node option \<Rightarrow> nat" where
  "child_count nd = (case nd of None \<Rightarrow> 0 | Some x \<Rightarrow> length (node_children x))"

lemma find_child_count: "xml_tree_find nd name (int i) = Some x \<Longrightarrow> i < child_count nd"
  using xml_tree_find_less by (fastforce simp: child_count_def)

lemma str_child_count: "xml_tree_str nd name (int i) = Some t \<Longrightarrow> i < child_count nd"
  using find_child_count by (auto simp: xml_tree_str_def split: option.splits)

text \<open>The index is incremented before the test, so the check for no module at all (\<open>i == 0\<close>) never holds.\<close>

function load_loop :: "dl \<Rightarrow> xml_node option \<Rightarrow> nat \<Rightarrow> module_so_conf_t array_t \<Rightarrow> module_so_conf_t array_t res" where
  "load_loop dlopen root i sos = (case xml_tree_str root ''module'' (int i) of
       None \<Rightarrow> Ret sos
     | Some so_file \<Rightarrow> (case dlopen so_file of
         None \<Rightarrow> Crash Exits
       | Some lib \<Rightarrow> (case module_get_info lib of
           None \<Rightarrow> Crash Exits
         | Some so \<Rightarrow> bnd (array_push sos so) (load_loop dlopen root (Suc i)))))"
  by pat_completeness auto
termination
  by (relation "measure (\<lambda>(dlopen, root, i, sos). child_count root - i)") (auto dest!: str_child_count)

declare load_loop.simps [simp del]

definition conf_parse_loadmodule :: "dl \<Rightarrow> xml_node option \<Rightarrow> module_so_conf_t array_t \<Rightarrow> module_so_conf_t array_t res" where
  "conf_parse_loadmodule dlopen root sos = load_loop dlopen root 0 sos"

section \<open>Locations and virtual hosts\<close>

text \<open>The first module of the handler's name makes the handler.\<close>

fun find_handler :: "module_so_conf_t list \<Rightarrow> string \<Rightarrow> xml_node option \<Rightarrow> module_t option res" where
  "find_handler [] name node = Ret None"
| "find_handler (so # sos) name node =
     bnd (deref [] (data (so_name so))) (\<lambda>n.
     if n = name then Ret (call_create (module_create so) node) else find_handler sos name node)"

definition conf_parse_location :: "module_so_conf_t list \<Rightarrow> str_t \<Rightarrow> xml_node \<Rightarrow> vhost_loc_conf_t res" where
  "conf_parse_location sos parent_root root =
     (let r = str_of_opt (xml_tree_str_first (Some root) ''root'');
          lroot = (if data r = Null then parent_root else r) in
      case xml_tree_str_first (Some root) ''pattern'' of
        None \<Rightarrow> Crash Exits
      | Some pat \<Rightarrow> (case xml_tree_find_first (Some root) ''handler'' of
          None \<Rightarrow> Crash Exits
        | Some handler_node \<Rightarrow>
            (let conf_node = xml_tree_find_first (Some handler_node) ''handler_conf'' in
             case xml_tree_str_first (Some handler_node) ''name'' of
               None \<Rightarrow> Crash Exits
             | Some name \<Rightarrow>
                 bnd (find_handler sos name conf_node) (\<lambda>h. case h of
                   None \<Rightarrow> Crash Exits
                 | Some mdl \<Rightarrow> Ret \<lparr>loc_root = lroot, pattern_str = server_string pat,
                     handler_name = server_string name, handler = mdl\<rparr>))))"

function loc_loop :: "module_so_conf_t list \<Rightarrow> str_t \<Rightarrow> xml_node \<Rightarrow> nat \<Rightarrow> vhost_loc_conf_t array_t \<Rightarrow> vhost_loc_conf_t array_t res" where
  "loc_loop sos parent_root root i ls = (case xml_tree_find (Some root) ''location'' (int i) of
       None \<Rightarrow> Ret ls
     | Some node \<Rightarrow>
         bnd (conf_parse_location sos parent_root node) (\<lambda>l.
         bnd (array_push ls l) (loc_loop sos parent_root root (Suc i))))"
  by pat_completeness auto
termination
  by (relation "measure (\<lambda>(sos, pr, root, i, ls). child_count (Some root) - i)") (auto dest!: find_child_count)

declare loc_loop.simps [simp del]

definition conf_parse_vhost :: "module_so_conf_t list \<Rightarrow> str_t \<Rightarrow> xml_node \<Rightarrow> vhost_conf_t res" where
  "conf_parse_vhost sos server_root root =
     (case xml_tree_str_first (Some root) ''name'' of
        None \<Rightarrow> Crash Exits
      | Some name \<Rightarrow>
          (let r = str_of_opt (xml_tree_str_first (Some root) ''root'');
               vroot = (if data r = Null then server_root else r) in
           bnd (array_create 10) (\<lambda>ls0.
           bnd (loc_loop sos vroot root 0 ls0) (\<lambda>ls.
           Ret \<lparr>vhost_name = server_string name, vhost_root = vroot, locs = ls\<rparr>))))"

function vhost_loop :: "module_so_conf_t list \<Rightarrow> str_t \<Rightarrow> xml_node \<Rightarrow> nat \<Rightarrow> vhost_conf_t array_t \<Rightarrow> vhost_conf_t array_t res" where
  "vhost_loop sos server_root root i vs = (case xml_tree_find (Some root) ''vhost'' (int i) of
       None \<Rightarrow> Ret vs
     | Some node \<Rightarrow>
         bnd (conf_parse_vhost sos server_root node) (\<lambda>v.
         bnd (array_push vs v) (vhost_loop sos server_root root (Suc i))))"
  by pat_completeness auto
termination
  by (relation "measure (\<lambda>(sos, sr, root, i, vs). child_count (Some root) - i)") (auto dest!: find_child_count)

declare vhost_loop.simps [simp del]

section \<open>The whole configuration\<close>

text \<open>From the root element on (lines 293 to 355). Without a virtual host the first slot of the array is null, and its name
  is read.\<close>

definition conf_of_tree :: "dl \<Rightarrow> xml_node \<Rightarrow> conf_t res" where
  "conf_of_tree dlopen root =
     bnd (array_create 10) (\<lambda>sos0. bnd (array_create 10) (\<lambda>vs0.
     let setting = (\<lambda>name dflt. xml_tree_int_first (Some root) name dflt) in
     case xml_tree_str_first (Some root) ''root'' of
       None \<Rightarrow> Crash Exits
     | Some rt \<Rightarrow>
         bnd (conf_parse_loadmodule dlopen (xml_tree_find_first (Some root) ''load_module'') sos0) (\<lambda>sos.
         bnd (vhost_loop (elts sos) (server_string rt) root 0 vs0) (\<lambda>vs.
         case elts vs of
           [] \<Rightarrow> Crash Null_Deref
         | v # _ \<Rightarrow> Ret \<lparr>request_pool_size = setting ''request_pool_size'' 8192,
             connection_timeout = setting ''connection_timeout'' 30,
             client_header_size = setting ''client_header_size'' 2048,
             large_client_header_size = setting ''large_client_header_size'' 4096,
             content_body_buf_size = setting ''content_body_buf_size'' 4096,
             max_content_len = setting ''max_content_len'' 1048576,
             conf_ip = str_of_opt (xml_tree_str_first (Some root) ''ip''),
             conf_port = setting ''port'' 80, conf_root = server_string rt,
             default_page = server_string ''index.html'', max_threads = setting ''max_threads'' 50,
             worker_num = setting ''worker_num'' 1, module_sos = sos, vhosts = vs, default_vhost = v\<rparr>))))"

text \<open>The tree of a file is the first node of the builder's; the file may be missing or empty.\<close>

definition conf_parse :: "dl \<Rightarrow> string option \<Rightarrow> bool \<Rightarrow> conf_t res" where
  "conf_parse dlopen content stat_ok = (case read_file content stat_ok of
       None \<Rightarrow> Crash Exits
     | Some buffer \<Rightarrow>
         bnd (xml_parser_parse xml_parser_create xml_builder_tree_create buffer) (\<lambda>(p, b).
         case xml_builder_get_tree b of
           [] \<Rightarrow> Crash Exits
         | root # _ \<Rightarrow> conf_of_tree dlopen root))"

text \<open>\<open>conf_destroy\<close>: the locations whose patterns are freed, as pairs of indices. Both loops use the index \<open>i\<close>, so the outer
  one goes on behind the number of the inner loop's locations.\<close>

partial_function (option) destroy_loop :: "vhost_conf_t list \<Rightarrow> nat \<Rightarrow> (nat \<times> nat) list \<Rightarrow> (nat \<times> nat) list option" where
  "destroy_loop vs i freed =
     (if i < length vs then
        (let n = length (elts (locs (vs ! i))) in destroy_loop vs (Suc n) (freed @ map (Pair i) [0..<n]))
      else Some freed)"

definition conf_destroy :: "conf_t \<Rightarrow> (nat \<times> nat) list option" where
  "conf_destroy c = destroy_loop (elts (vhosts c)) 0 []"

end
