(* ===== verification/Xml_Grammar.thy ===== *)
theory Xml_Grammar
  imports Xml_Parser
begin

text \<open>
  The documents the parser understands: a grammar of elements without attributes, texts and comments, with free
  white space between them, and the proof that the parser and the tree builder read exactly the tree the
  grammar gives.
\<close>

section \<open>The grammar\<close>

definition name_ok :: "string \<Rightarrow> bool" where
  "name_ok n \<longleftrightarrow> n \<noteq> [] \<and> length n < 128 \<and> (isalpha (hd n) \<or> hd n = CHR ''_'')
     \<and> (\<forall>c \<in> set n. c \<noteq> NUL \<and> \<not> isspace c \<and> c \<noteq> CHR ''>'' \<and> c \<noteq> CHR ''/'')"

definition text_ok :: "string \<Rightarrow> bool" where
  "text_ok t \<longleftrightarrow> t \<noteq> [] \<and> \<not> isspace (hd t) \<and> NUL \<notin> set t \<and> CHR ''<'' \<notin> set t"

definition comment_ok :: "string \<Rightarrow> bool" where
  "comment_ok t \<longleftrightarrow> NUL \<notin> set t \<and> CHR ''-'' \<notin> set t"

text \<open>\<open>xml_doc s ns r\<close>: reading \<open>s\<close> gives the nodes \<open>ns\<close> and leaves \<open>r\<close>.\<close>

inductive xml_doc :: "string \<Rightarrow> xml_node list \<Rightarrow> string \<Rightarrow> bool" where
  nothing: "xml_doc r [] r"
| space: "isspace c \<Longrightarrow> xml_doc s ns r \<Longrightarrow> xml_doc (c # s) ns r"
| textual: "text_ok t \<Longrightarrow> xml_doc s ns r \<Longrightarrow> s \<noteq> [] \<Longrightarrow> hd s = CHR ''<''
    \<Longrightarrow> xml_doc (t @ s) (XmlNode (XML_NODE_TEXT t) [] # ns) r"
| element: "name_ok n \<Longrightarrow> xml_doc s cs (''</'' @ n @ ''>'' @ s') \<Longrightarrow> xml_doc s' ns r
    \<Longrightarrow> xml_doc (''<'' @ n @ ''>'' @ s) (XmlNode (XML_NODE_NORMAL n []) cs # ns) r"
| empty_element: "name_ok n \<Longrightarrow> xml_doc s ns r
    \<Longrightarrow> xml_doc (''<'' @ n @ ''/>'' @ s) (XmlNode (XML_NODE_NORMAL n []) [] # ns) r"
| comment: "comment_ok t \<Longrightarrow> xml_doc s ns r
    \<Longrightarrow> xml_doc (''<!--'' @ t @ ''-->'' @ s) (XmlNode (XML_NODE_COMMENT t) [] # ns) r"

section \<open>Names in the buffer\<close>

lemma strtrim_word:
  assumes "d \<noteq> []" "\<forall>c \<in> set d. c \<noteq> NUL \<and> \<not> isspace c"
  shows "strtrim (d @ NUL # z) 0 = Ret (d @ NUL # z)"
proof -
  let ?m = "d @ NUL # z"
  have e: "scan_while (\<lambda>c. c \<noteq> NUL) ?m 0 = Ret (length d)"
    using scan_while_append [of d "\<lambda>c. c \<noteq> NUL" NUL "[]" z] assms(2) by simp
  have "\<not> isspace (?m ! (length d - 1))" using assms by (simp add: nth_append)
  moreover have "nat (int (length d) - 1) = length d - 1" "length d - 1 < length ?m" using assms(1) by auto
  ultimately have t: "trim_right ?m 0 (int (length d) - 1) = Ret ?m"
    using assms(1) by (subst trim_right.simps) (auto simp: load_def)
  have "\<not> isspace (?m ! 0)" using assms by (cases d) auto
  then have "scan_while (\<lambda>c. c \<noteq> NUL \<and> isspace c) ?m 0 = Ret 0"
    by (intro scan_while_stop) auto
  with e t show ?thesis by (simp add: strtrim_def)
qed

lemma strdup_word:
  assumes u: "px_used p = 0" and d: "d \<noteq> []" "length d < 128" "\<forall>c \<in> set d. c \<noteq> NUL \<and> \<not> isspace c"
    and m: "bytes_at m start (length d) = Ret d"
  shows "\<exists>b. xml_parser_strdup m start (length d) p = Ret (0, p\<lparr>px_buffer := b, px_used := length d + 1\<rparr>)
    \<and> b \<noteq> [] \<and> nul_from b 0 \<and> cstr_at b 0 = d"
proof -
  let ?p = "grow_buffer (length d) p"
  have g: "px_used ?p = 0" "length d < length (px_buffer ?p)" "p\<lparr>px_buffer := x, px_used := k\<rparr> = ?p\<lparr>px_buffer := x, px_used := k\<rparr>" for x k
    using u d(2) by (auto simp: grow_buffer_def Let_def)
  obtain z where z: "write_at (px_buffer ?p) 0 (d @ [NUL]) = Ret (d @ NUL # z)"
    using g(2) by (simp add: write_at_def)
  have "xml_parser_strdup m start (length d) p = Ret (0, p\<lparr>px_buffer := d @ NUL # z, px_used := length d + 1\<rparr>)"
    using g m z strtrim_word [OF d(1,3), of z] by (simp add: xml_parser_strdup_def Let_def)
  moreover have "nul_from (d @ NUL # z) 0" by (simp add: nul_from_def)
  moreover have "cstr_at (d @ NUL # z) 0 = d"
    using cstr_at_append [of d "[]" z] d(3) by auto
  ultimately show ?thesis by blast
qed

section \<open>Steps of the machine\<close>

lemma xml_loop_step:
  assumes "load m i = Ret c" "c \<noteq> NUL" "xml_step m c st i p b = Ret (st', j, p', b')" "load m j = Ret c'" "c' \<noteq> NUL"
  shows "xml_loop m st i p b = xml_loop m st' (Suc j) p' b'"
  using assms by (subst xml_loop.simps) simp

lemma load_at [simp]: "load (u @ c # v) (length u) = Ret c"
  by (simp add: load_def)

lemma load_in: "j = length u \<Longrightarrow> m = u @ c # v \<Longrightarrow> load m j = Ret c"
  by simp

lemma xml_loop_space:
  assumes "isspace c" "m = u @ c # v"
  shows "xml_loop m STAT_NONE (length u) p b = xml_loop m STAT_NONE (Suc (length u)) p b"
  by (rule xml_loop_step [where c = c and c' = c]) (use assms in \<open>auto simp: isspace_def\<close>)

lemma xml_loop_lt:
  assumes "m = u @ CHR ''<'' # c # v" "c \<noteq> NUL"
  shows "xml_loop m STAT_NONE (length u) p b = xml_loop m (after_lt c) (Suc (Suc (length u))) (xml_parser_reset_buffer p) b"
proof -
  have "xml_loop m STAT_NONE (length u) p b = xml_loop m STAT_AFTER_LT (Suc (length u)) (xml_parser_reset_buffer p) b"
    by (rule xml_loop_step [where c = "CHR ''<''" and c' = "CHR ''<''"]) (use assms in auto)
  also have "\<dots> = xml_loop m (after_lt c) (Suc (Suc (length u))) (xml_parser_reset_buffer p) b"
    by (rule xml_loop_step [where c = c and c' = c]) (use assms load_in [of "Suc (length u)" "u @ [CHR ''<'']" m c v] in auto)
  finally show ?thesis .
qed

lemma tag_name_scan:
  assumes "m = u @ t @ v" "\<forall>c \<in> set t. c \<noteq> NUL \<and> \<not> isspace c \<and> c \<notin> set ends"
  shows "tag_name m e ends start (length u) p = tag_name m e ends start (length u + length t) p"
  using assms
proof (induction t arbitrary: u)
  case (Cons c t)
  have "tag_name m e ends start (length u) p = tag_name m e ends start (length (u @ [c])) p"
    using Cons.prems by (subst tag_name.simps) simp
  also have "\<dots> = tag_name m e ends start (length (u @ [c]) + length t) p"
    using Cons.prems by (intro Cons.IH) auto
  finally show ?case by simp
qed simp

text \<open>The name of a start tag that ends with \<open>>\<close> or \<open>/\<close>.\<close>

lemma tag_name_start:
  assumes n: "name_ok n" "x \<in> set ''>/''" and m: "m = u @ n @ x # v" and p: "px_used p = 0"
  shows "\<exists>b. tag_name m (CHR ''/'') ''>/'' (length u) (Suc (length u)) p
      = Ret (Some 0, length u + length n, p\<lparr>px_buffer := b, px_used := length n + 1\<rparr>)
    \<and> b \<noteq> [] \<and> nul_from b 0 \<and> cstr_at b 0 = n"
proof -
  obtain a t where t: "n = a # t" using n(1) by (cases n) (auto simp: name_ok_def)
  have ok: "n \<noteq> []" "length n < 128" "\<forall>c \<in> set n. c \<noteq> NUL \<and> \<not> isspace c" using n(1) by (auto simp: name_ok_def)
  have "bytes_at m (length u) (length n) = Ret n" using m bytes_at_append by simp
  from strdup_word [OF p ok this] obtain b where b: "xml_parser_strdup m (length u) (length n) p
      = Ret (0, p\<lparr>px_buffer := b, px_used := length n + 1\<rparr>)" "b \<noteq> []" "nul_from b 0" "cstr_at b 0 = n"
    by blast
  have "tag_name m (CHR ''/'') ''>/'' (length u) (length (u @ [a])) p
      = tag_name m (CHR ''/'') ''>/'' (length u) (length (u @ [a]) + length t) p"
    by (rule tag_name_scan) (use m t n(1) in \<open>auto simp: name_ok_def\<close>)
  also have "length (u @ [a]) + length t = length (u @ n)" using t by simp
  also have "tag_name m (CHR ''/'') ''>/'' (length u) (length (u @ n)) p
      = Ret (Some 0, length u + length n, p\<lparr>px_buffer := b, px_used := length n + 1\<rparr>)"
    using m n(2) b(1) load_in [of "length (u @ n)" "u @ n" m x v]
    by (subst tag_name.simps) (auto simp: after_name_def)
  finally show ?thesis using b by auto
qed

text \<open>What is left of a step that ends at a \<open>>\<close>.\<close>

lemma start_element_word:
  assumes "px_attrs p = []" "px_buffer p \<noteq> []" "nul_from (px_buffer p) 0" "cstr_at (px_buffer p) 0 = n" "frames b \<noteq> []"
  shows "start_element p (Some 0) b = Ret (b\<lparr>frames := (XML_NODE_NORMAL n [], []) # frames b\<rparr>)"
  using assms
  by (auto simp: start_element_def tag_text_def px_text_def on_start_element_def xml_node_create_normal_def neq_Nil_conv)

lemma skip_tag_at: "m = u @ t @ CHR ''>'' # v \<Longrightarrow> CHR ''>'' \<notin> set t \<Longrightarrow> NUL \<notin> set t \<Longrightarrow> skip_tag m (length u) = Ret (length u + length t)"
  unfolding skip_tag_def by (simp only:) (rule scan_while_append, auto)

lemma start_tag_read:
  assumes n: "name_ok n" "x \<in> set ''>/''" and m: "m = u @ ''<'' @ n @ x # v" and b: "frames b \<noteq> []"
  shows "\<exists>p'. tag_name m (CHR ''/'') ''>/'' (Suc (length u)) (Suc (Suc (length u))) (xml_parser_reset_buffer p)
        = Ret (Some 0, Suc (length u + length n), p')
    \<and> start_element p' (Some 0) b = Ret (b\<lparr>frames := (XML_NODE_NORMAL n [], []) # frames b\<rparr>)"
proof -
  let ?p = "xml_parser_reset_buffer p"
  have m': "m = (u @ ''<'') @ n @ x # v" and u0: "px_used ?p = 0" using m by (simp_all add: xml_parser_reset_buffer_def)
  from tag_name_start [OF n m' u0] obtain buf where
    tn: "tag_name m (CHR ''/'') ''>/'' (length (u @ ''<'')) (Suc (length (u @ ''<''))) ?p
      = Ret (Some 0, length (u @ ''<'') + length n, ?p\<lparr>px_buffer := buf, px_used := length n + 1\<rparr>)"
    "buf \<noteq> []" "nul_from buf 0" "cstr_at buf 0 = n" by blast
  have "start_element (?p\<lparr>px_buffer := buf, px_used := length n + 1\<rparr>) (Some 0) b
      = Ret (b\<lparr>frames := (XML_NODE_NORMAL n [], []) # frames b\<rparr>)"
    by (rule start_element_word) (use tn(2-4) b in \<open>simp_all add: xml_parser_reset_buffer_def\<close>)
  with tn(1) show ?thesis by auto
qed

text \<open>From the \<open><\<close> of a start tag to the end of what \<open>xml_parser_parse_start_tag\<close> reads.\<close>

lemma xml_loop_start:
  assumes n: "name_ok n" and m: "m = u @ ''<'' @ n @ x # v" "x \<noteq> NUL"
    and st: "xml_parser_parse_start_tag m (Suc (Suc (length u))) (xml_parser_reset_buffer p) b = Ret (j, p', b')"
    and ld: "load m j = Ret (CHR ''>'')"
  shows "xml_loop m STAT_NONE (length u) p b = xml_loop m STAT_NONE (Suc j) p' b'"
proof -
  obtain a t where t: "n = a # t" using n by (cases n) (auto simp: name_ok_def)
  then have a: "isalpha a \<or> a = CHR ''_''" "a \<noteq> NUL" using n by (auto simp: name_ok_def)
  then have lt: "after_lt a = STAT_START_TAG"
    by (auto simp: after_lt_def isalpha_def islower_def isupper_def byte_def)
  obtain c w where c: "t @ x # v = c # w" "c \<noteq> NUL" using n t m(2) by (cases t) (auto simp: name_ok_def)
  have "m = u @ CHR ''<'' # a # (t @ x # v)" using m(1) t by simp
  from xml_loop_lt [OF this a(2)] have "xml_loop m STAT_NONE (length u) p b
      = xml_loop m STAT_START_TAG (Suc (Suc (length u))) (xml_parser_reset_buffer p) b" by (simp only: lt)
  also have "\<dots> = xml_loop m STAT_NONE (Suc j) p' b'"
  proof (rule xml_loop_step [where c = c and c' = "CHR ''>''"])
    show "load m (Suc (Suc (length u))) = Ret c"
      by (rule load_in [of _ "u @ [CHR ''<'', a]" _ _ w]) (use m(1) t c(1) in simp_all)
  qed (use st ld c(2) in simp_all)
  finally show ?thesis .
qed

lemma xml_loop_start_tag:
  assumes n: "name_ok n" and m: "m = u @ ''<'' @ n @ ''>'' @ v" and b: "frames b \<noteq> []"
  shows "\<exists>p'. xml_loop m STAT_NONE (length u) p b
    = xml_loop m STAT_NONE (length (u @ ''<'' @ n @ ''>'')) p' (b\<lparr>frames := (XML_NODE_NORMAL n [], []) # frames b\<rparr>)"
proof -
  let ?j = "Suc (length u + length n)"
  have m': "m = u @ ''<'' @ n @ CHR ''>'' # v" "m = (u @ ''<'' @ n) @ [] @ CHR ''>'' # v" using m by simp_all
  have "CHR ''>'' \<in> set ''>/''" by simp
  from start_tag_read [OF n this m'(1) b] obtain p' where
    r: "tag_name m (CHR ''/'') ''>/'' (Suc (length u)) (Suc (Suc (length u))) (xml_parser_reset_buffer p) = Ret (Some 0, ?j, p')"
      "start_element p' (Some 0) b = Ret (b\<lparr>frames := (XML_NODE_NORMAL n [], []) # frames b\<rparr>)" by blast
  have sk: "skip_tag m ?j = Ret ?j" using skip_tag_at [OF m'(2)] by simp
  have ld: "load m ?j = Ret (CHR ''>'')" by (rule load_in [of _ "u @ ''<'' @ n" _ _ v]) (use m in simp_all)
  have "xml_parser_parse_start_tag m (Suc (Suc (length u))) (xml_parser_reset_buffer p) b
      = Ret (?j, p', b\<lparr>frames := (XML_NODE_NORMAL n [], []) # frames b\<rparr>)"
    using r sk ld by (simp add: xml_parser_parse_start_tag_def)
  from xml_loop_start [OF n m'(1) _ this ld] show ?thesis by auto
qed

lemma xml_loop_empty_element:
  assumes n: "name_ok n" and m: "m = u @ ''<'' @ n @ ''/>'' @ v" and b: "frames b = (d, cs) # fs"
  shows "\<exists>p'. xml_loop m STAT_NONE (length u) p b
    = xml_loop m STAT_NONE (length (u @ ''<'' @ n @ ''/>'')) p' (b\<lparr>frames := (d, cs @ [XmlNode (XML_NODE_NORMAL n []) []]) # fs\<rparr>)"
proof -
  let ?j = "Suc (length u + length n)" and ?b = "b\<lparr>frames := (d, cs @ [XmlNode (XML_NODE_NORMAL n []) []]) # fs\<rparr>"
  have m': "m = u @ ''<'' @ n @ CHR ''/'' # CHR ''>'' # v" "m = (u @ ''<'' @ n) @ ''/'' @ CHR ''>'' # v" using m by simp_all
  have "CHR ''/'' \<in> set ''>/''" "frames b \<noteq> []" using b by simp_all
  from start_tag_read [OF n this(1) m'(1) this(2)] obtain p' where
    r: "tag_name m (CHR ''/'') ''>/'' (Suc (length u)) (Suc (Suc (length u))) (xml_parser_reset_buffer p) = Ret (Some 0, ?j, p')"
      "start_element p' (Some 0) b = Ret (b\<lparr>frames := (XML_NODE_NORMAL n [], []) # frames b\<rparr>)" by blast
  have sk: "skip_tag m ?j = Ret (Suc ?j)" using skip_tag_at [OF m'(2)] by simp
  have ld: "load m ?j = Ret (CHR ''/'')" by (rule load_in [of _ "u @ ''<'' @ n" _ _ "CHR ''>'' # v"]) (use m in simp_all)
  have ld': "load m (Suc ?j) = Ret (CHR ''>'')" by (rule load_in [of _ "u @ ''<'' @ n @ ''/''" _ _ v]) (use m in simp_all)
  have "on_end_element (b\<lparr>frames := (XML_NODE_NORMAL n [], []) # frames b\<rparr>) = Ret ?b" using b by (simp add: on_end_element_def)
  then have "xml_parser_parse_start_tag m (Suc (Suc (length u))) (xml_parser_reset_buffer p) b = Ret (Suc ?j, p', ?b)"
    using r sk ld by (simp add: xml_parser_parse_start_tag_def)
  from xml_loop_start [OF n m'(1) _ this ld'] show ?thesis by auto
qed

lemma xml_loop_end_tag:
  assumes n: "name_ok n" and m: "m = u @ ''</'' @ n @ ''>'' @ v" and b: "frames b = (d, cs) # (d', cs') # fs"
  shows "\<exists>p'. xml_loop m STAT_NONE (length u) p b
    = xml_loop m STAT_NONE (length (u @ ''</'' @ n @ ''>'')) p' (b\<lparr>frames := (d', cs' @ [XmlNode d cs]) # fs\<rparr>)"
proof -
  let ?i = "Suc (Suc (length u))" and ?p = "xml_parser_reset_buffer p" and ?b = "b\<lparr>frames := (d', cs' @ [XmlNode d cs]) # fs\<rparr>"
  let ?j = "?i + length n"
  obtain a t where t: "n = a # t" "a \<noteq> NUL" using n by (cases n) (auto simp: name_ok_def)
  have m': "m = u @ CHR ''<'' # CHR ''/'' # (n @ CHR ''>'' # v)" "m = (u @ ''</'') @ n @ CHR ''>'' # v" using m by simp_all
  have ok: "n \<noteq> []" "length n < 128" "\<forall>c \<in> set n. c \<noteq> NUL \<and> \<not> isspace c" "CHR ''>'' \<notin> set n" "NUL \<notin> set n"
    using n by (auto simp: name_ok_def)
  have sk: "skip_tag m ?i = Ret ?j" using skip_tag_at [OF m'(2) ok(4,5)] by simp
  have ld: "load m ?j = Ret (CHR ''>'')" by (rule load_in [of _ "u @ ''</'' @ n" _ _ v]) (use m in simp_all)
  have "bytes_at m ?i (length n) = Ret n" using bytes_at_append [of "u @ ''</''" n "CHR ''>'' # v"] m'(2) by simp
  from strdup_word [OF _ ok(1-3) this, of ?p] obtain p' where "xml_parser_strdup m ?i (length n) ?p = Ret (0, p')"
    by (auto simp: xml_parser_reset_buffer_def)
  then have st: "xml_parser_parse_end_tag m ?i ?p b = Ret (?j, p', ?b)"
    using sk ld b by (simp add: xml_parser_parse_end_tag_def on_end_element_def)
  have "after_lt (CHR ''/'') = STAT_END_TAG" by (simp add: after_lt_def)
  with xml_loop_lt [OF m'(1), of p b] have "xml_loop m STAT_NONE (length u) p b = xml_loop m STAT_END_TAG ?i ?p b" by simp
  also have "\<dots> = xml_loop m STAT_NONE (Suc ?j) p' ?b"
  proof (rule xml_loop_step [where c = a and c' = "CHR ''>''"])
    show "load m ?i = Ret a" by (rule load_in [of _ "u @ ''</''" _ _ "t @ CHR ''>'' # v"]) (use m t in simp_all)
  qed (use st ld t(2) in simp_all)
  finally show ?thesis by auto
qed

lemma xml_loop_text:
  assumes t: "text_ok t" and m: "m = u @ t @ ''<'' @ v" and b: "frames b = (d, cs) # fs"
  shows "xml_loop m STAT_NONE (length u) p b
    = xml_loop m STAT_NONE (length (u @ t)) p (b\<lparr>frames := (d, cs @ [XmlNode (XML_NODE_TEXT t) []]) # fs\<rparr>)"
proof -
  let ?b = "b\<lparr>frames := (d, cs @ [XmlNode (XML_NODE_TEXT t) []]) # fs\<rparr>" and ?j = "length u + length t"
  obtain a r where ar: "t = a # r" "a \<noteq> NUL" "\<not> isspace a" "a \<noteq> CHR ''<''" using t by (cases t) (auto simp: text_ok_def)
  have no: "\<forall>c \<in> set r. c \<noteq> CHR ''<'' \<and> c \<noteq> NUL" using t ar(1) by (auto simp: text_ok_def)
  have ma: "m = u @ a # r @ CHR ''<'' # v" "m = (u @ [a]) @ r @ CHR ''<'' # v" using m ar(1) by simp_all
  have 1: "xml_loop m STAT_NONE (length u) p b = xml_loop m STAT_TEXT (Suc (length u)) p b"
    by (rule xml_loop_step [where c = a and c' = a]) (use ma(1) ar in simp_all)
  have "scan_while (\<lambda>c. c \<noteq> CHR ''<'' \<and> c \<noteq> NUL) m (length (u @ [a])) = Ret (length (u @ [a]) + length r)"
    unfolding ma(2) by (rule scan_while_append) (use no in auto)
  then have sc: "scan_while (\<lambda>c. c \<noteq> CHR ''<'' \<and> c \<noteq> NUL) m (Suc (length u)) = Ret ?j" using ar(1) by simp
  have ld: "load m ?j = Ret (CHR ''<'')" by (rule load_in [of _ "u @ t" _ _ v]) (use m in simp_all)
  have "strndup (drop (length u) m) (length t) = t"
    using m t strndup_all [of t] by (simp add: strndup_def text_ok_def)
  then have tx: "on_text (drop (length u) m) (length t) b = Ret ?b"
    using b by (simp add: on_text_def xml_node_create_text_def add_child_def)
  have pt: "xml_parser_parse_text m (Suc (length u)) b = Ret (?j - 1, ?b)"
    using sc ld tx ar(1) by (simp add: xml_parser_parse_text_def Let_def)
  have lst: "load m (?j - 1) = Ret (last t)"
  proof (rule load_in [of _ "u @ butlast t" _ _ "''<'' @ v"])
    have "t = butlast t @ [last t]" using ar(1) by (metis append_butlast_last_id list.distinct(1))
    then show "m = (u @ butlast t) @ last t # ''<'' @ v" using m by (metis append.assoc append_Cons append_Nil)
  qed (use ar(1) in simp)
  have nl: "last t \<noteq> NUL" using t ar(1) last_in_set [of t] by (auto simp: text_ok_def)
  obtain c w where c: "r @ CHR ''<'' # v = c # w" "c \<noteq> NUL" using no by (cases r) auto
  have "xml_loop m STAT_TEXT (Suc (length u)) p b = xml_loop m STAT_NONE (Suc (?j - 1)) p ?b"
  proof (rule xml_loop_step [where c = c and c' = "last t"])
    show "load m (Suc (length u)) = Ret c" by (rule load_in [of _ "u @ [a]" _ _ w]) (use ma(1) c(1) in simp_all)
  qed (use pt lst nl c(2) in simp_all)
  with 1 ar(1) show ?thesis by simp
qed

lemma comment_scan:
  assumes "m = u @ t @ v" "comment_ok t"
  shows "comment_loop m start CSTAT_COMMENT (length u) b = comment_loop m start CSTAT_COMMENT (length u + length t) b"
  using assms
proof (induction t arbitrary: u)
  case (Cons c t)
  have "comment_loop m start CSTAT_COMMENT (length u) b = comment_loop m start CSTAT_COMMENT (length (u @ [c])) b"
    using Cons.prems by (subst comment_loop.simps) (auto simp: comment_ok_def)
  also have "\<dots> = comment_loop m start CSTAT_COMMENT (length (u @ [c]) + length t) b"
    using Cons.prems by (intro Cons.IH) (auto simp: comment_ok_def)
  finally show ?case by simp
qed simp

lemma xml_loop_comment:
  assumes t: "comment_ok t" and m: "m = u @ ''<!--'' @ t @ ''-->'' @ v" and b: "frames b = (d, cs) # fs"
  shows "\<exists>p'. xml_loop m STAT_NONE (length u) p b
    = xml_loop m STAT_NONE (length (u @ ''<!--'' @ t @ ''-->'')) p' (b\<lparr>frames := (d, cs @ [XmlNode (XML_NODE_COMMENT t) []]) # fs\<rparr>)"
proof -
  let ?b = "b\<lparr>frames := (d, cs @ [XmlNode (XML_NODE_COMMENT t) []]) # fs\<rparr>" and ?u = "u @ ''<!--''"
  let ?j = "length ?u + length t" and ?p = "xml_parser_reset_buffer p"
  have dash: "load m (length u + 2) = Ret (CHR ''-'')" "load m (length u + 3) = Ret (CHR ''-'')"
    by (rule load_in [of _ "u @ ''<!''" _ _ "CHR ''-'' # t @ ''-->'' @ v"], use m in simp_all,
        rule load_in [of _ "u @ ''<!-''" _ _ "t @ ''-->'' @ v"], use m in simp_all)
  have ends: "load m ?j = Ret (CHR ''-'')" "load m (Suc ?j) = Ret (CHR ''-'')" "load m (Suc (Suc ?j)) = Ret (CHR ''>'')"
    by (rule load_in [of _ "?u @ t" _ _ "CHR ''-'' # CHR ''>'' # v"], use m in simp_all,
        rule load_in [of _ "?u @ t @ ''-''" _ _ "CHR ''>'' # v"], use m in simp_all,
        rule load_in [of _ "?u @ t @ ''--''" _ _ v], use m in simp_all)
  have "strndup (drop (length ?u) m) (length t) = t"
    using m t strndup_all [of t] by (simp add: strndup_def comment_ok_def)
  then have oc: "on_comment (drop (length ?u) m) (length t) b = Ret ?b"
    using b by (simp add: on_comment_def xml_node_create_comment_def add_child_def)
  have "comment_loop m (length ?u) CSTAT_COMMENT ?j b = Ret (Suc (Suc ?j), ?b)"
    using ends oc by (simp add: comment_loop.simps [of _ _ CSTAT_COMMENT] comment_loop.simps [of _ _ CSTAT_MINUS1]
        comment_loop.simps [of _ _ CSTAT_MINUS2])
  moreover have "comment_loop m (length ?u) CSTAT_COMMENT (length ?u) b = comment_loop m (length ?u) CSTAT_COMMENT ?j b"
    by (rule comment_scan [OF _ t, of _ _ "''-->'' @ v"]) (use m in simp)
  ultimately have st: "comment_step m (length u + 3) ?p b = Ret (STAT_NONE, Suc (Suc ?j), ?p, ?b)"
    by (simp add: comment_step_def xml_parser_parse_comment_def eval_nat_numeral)
  have "m = u @ CHR ''<'' # CHR ''!'' # (''--'' @ t @ ''-->'' @ v)" using m by simp
  from xml_loop_lt [OF this, of p b] have "xml_loop m STAT_NONE (length u) p b = xml_loop m STAT_PRE_COMMENT1 (length u + 2) ?p b"
    by (simp add: after_lt_def)
  also have "\<dots> = xml_loop m STAT_PRE_COMMENT2 (Suc (length u + 2)) ?p b"
    by (rule xml_loop_step [where c = "CHR ''-''" and c' = "CHR ''-''"]) (use dash in simp_all)
  also have "\<dots> = xml_loop m STAT_NONE (Suc (Suc (Suc ?j))) ?p ?b"
    by (rule xml_loop_step [where c = "CHR ''-''" and c' = "CHR ''>''"]) (use dash ends st in \<open>simp_all add: eval_nat_numeral\<close>)
  finally show ?thesis by auto
qed

section \<open>The parser reads the grammar\<close>

text \<open>What is read of \<open>s\<close> adds its nodes to the current element, whatever was read before and follows.\<close>

definition reads :: "string \<Rightarrow> xml_node list \<Rightarrow> string \<Rightarrow> bool" where
  "reads s ns x \<longleftrightarrow> (\<forall>u z p b d cs fs. frames b = (d, cs) # fs \<longrightarrow>
     (\<exists>p'. xml_loop (u @ s @ z) STAT_NONE (length u) p b
         = xml_loop (u @ s @ z) STAT_NONE (length (u @ x)) p' (b\<lparr>frames := (d, cs @ ns) # fs\<rparr>)))"

lemma readsD:
  assumes "reads s ns x" "frames b = (d, cs) # fs" "m = u @ s @ z"
  shows "\<exists>p'. xml_loop m STAT_NONE (length u) p b = xml_loop m STAT_NONE (length (u @ x)) p' (b\<lparr>frames := (d, cs @ ns) # fs\<rparr>)"
  using assms unfolding reads_def by blast

text \<open>One node in front.\<close>

lemma reads_Cons:
  assumes "reads s ns y"
    and one: "\<And>u z p b d cs fs. frames b = (d, cs) # fs \<Longrightarrow>
      \<exists>p'. xml_loop (u @ (x @ s) @ z) STAT_NONE (length u) p b
         = xml_loop (u @ (x @ s) @ z) STAT_NONE (length (u @ x)) p' (b\<lparr>frames := (d, cs @ [n]) # fs\<rparr>)"
  shows "reads (x @ s) (n # ns) (x @ y)"
  unfolding reads_def
proof (intro allI impI)
  fix u z p and b :: xml_builder and d cs fs assume b: "frames b = (d, cs) # fs"
  let ?m = "u @ (x @ s) @ z" and ?b = "b\<lparr>frames := (d, cs @ [n]) # fs\<rparr>"
  obtain p1 where "xml_loop ?m STAT_NONE (length u) p b = xml_loop ?m STAT_NONE (length (u @ x)) p1 ?b" using one [OF b] by blast
  moreover obtain p2 where "xml_loop ?m STAT_NONE (length (u @ x)) p1 ?b
      = xml_loop ?m STAT_NONE (length ((u @ x) @ y)) p2 (?b\<lparr>frames := (d, (cs @ [n]) @ ns) # fs\<rparr>)"
    using readsD [OF assms(1), of ?b d "cs @ [n]" fs ?m "u @ x" z p1] by auto
  ultimately show "\<exists>p'. xml_loop ?m STAT_NONE (length u) p b
      = xml_loop ?m STAT_NONE (length (u @ x @ y)) p' (b\<lparr>frames := (d, cs @ n # ns) # fs\<rparr>)" by auto
qed

lemma one_element:
  assumes n: "name_ok n" and s: "reads (y @ ''</'' @ n @ ''>'' @ s') cs y" and b: "frames b = (d, ds) # fs"
    and m: "m = u @ ''<'' @ n @ ''>'' @ y @ ''</'' @ n @ ''>'' @ s' @ z"
  shows "\<exists>p'. xml_loop m STAT_NONE (length u) p b
    = xml_loop m STAT_NONE (length (u @ ''<'' @ n @ ''>'' @ y @ ''</'' @ n @ ''>'')) p'
        (b\<lparr>frames := (d, ds @ [XmlNode (XML_NODE_NORMAL n []) cs]) # fs\<rparr>)"
proof -
  let ?u = "u @ ''<'' @ n @ ''>''" and ?e = "XML_NODE_NORMAL n []"
  let ?b1 = "b\<lparr>frames := (?e, []) # frames b\<rparr>" and ?b2 = "b\<lparr>frames := (?e, cs) # frames b\<rparr>"
  obtain p1 where 1: "xml_loop m STAT_NONE (length u) p b = xml_loop m STAT_NONE (length ?u) p1 ?b1"
    using xml_loop_start_tag [OF n m, of b p] b by auto
  have "m = ?u @ (y @ ''</'' @ n @ ''>'' @ s') @ z" using m by simp
  from readsD [OF s _ this, of ?b1 ?e "[]" "frames b" p1] obtain p2 where
    2: "xml_loop m STAT_NONE (length ?u) p1 ?b1 = xml_loop m STAT_NONE (length (?u @ y)) p2 ?b2" by auto
  have "m = (?u @ y) @ ''</'' @ n @ ''>'' @ (s' @ z)" using m by simp
  from xml_loop_end_tag [OF n this, of ?b2 ?e cs d ds fs p2] b obtain p3 where
    3: "xml_loop m STAT_NONE (length (?u @ y)) p2 ?b2 = xml_loop m STAT_NONE (length ((?u @ y) @ ''</'' @ n @ ''>'')) p3
      (b\<lparr>frames := (d, ds @ [XmlNode ?e cs]) # fs\<rparr>)" by auto
  from 1 2 3 show ?thesis by auto
qed

lemma xml_doc_reads: "xml_doc s ns r \<Longrightarrow> \<exists>x. s = x @ r \<and> reads s ns x"
proof (induction rule: xml_doc.induct)
  case (nothing r)
  have "b\<lparr>frames := fs\<rparr> = b" if "frames b = fs" for b :: xml_builder and fs using that by (cases b) simp
  then have "reads r [] []" unfolding reads_def by (metis append_Nil2)
  then show ?case by simp
next
  case (space c s ns r)
  then obtain x where x: "s = x @ r" "reads s ns x" by blast
  have "reads (c # s) ns (c # x)"
    unfolding reads_def
  proof (intro allI impI)
    fix u z p and b :: xml_builder and d cs fs assume b: "frames b = (d, cs) # fs"
    have "xml_loop (u @ (c # s) @ z) STAT_NONE (length u) p b = xml_loop (u @ (c # s) @ z) STAT_NONE (length (u @ [c])) p b"
      using xml_loop_space [OF space.hyps(1), of _ u "s @ z"] by simp
    with readsD [OF x(2) b, of _ "u @ [c]" z p] show "\<exists>p'. xml_loop (u @ (c # s) @ z) STAT_NONE (length u) p b
        = xml_loop (u @ (c # s) @ z) STAT_NONE (length (u @ c # x)) p' (b\<lparr>frames := (d, cs @ ns) # fs\<rparr>)" by auto
  qed
  with x(1) show ?case by (intro exI [of _ "c # x"]) simp
next
  case (textual t s ns r)
  then obtain x where x: "s = x @ r" "reads s ns x" by blast
  obtain v where v: "s = ''<'' @ v" using textual.hyps by (cases s) auto
  have "reads (t @ s) (XmlNode (XML_NODE_TEXT t) [] # ns) (t @ x)"
    by (rule reads_Cons [OF x(2)]) (use xml_loop_text [OF textual.hyps(1), of _ _ "v @ _"] v in auto)
  with x(1) show ?case by (intro exI [of _ "t @ x"]) simp
next
  case (element n s cs s' ns r)
  then obtain y x where y: "s = y @ ''</'' @ n @ ''>'' @ s'" "reads s cs y" and x: "s' = x @ r" "reads s' ns x" by blast
  let ?e = "''<'' @ n @ ''>'' @ y @ ''</'' @ n @ ''>''"
  have "reads (?e @ s') (XmlNode (XML_NODE_NORMAL n []) cs # ns) (?e @ x)"
    by (rule reads_Cons [OF x(2)], rule one_element [OF element.hyps(1) y(2) [unfolded y(1)]]) simp_all
  then have "reads (''<'' @ n @ ''>'' @ s) (XmlNode (XML_NODE_NORMAL n []) cs # ns) (?e @ x)" by (simp add: y(1))
  with x(1) y(1) show ?case by (intro exI [of _ "?e @ x"]) simp
next
  case (empty_element n s ns r)
  then obtain x where x: "s = x @ r" "reads s ns x" by blast
  have "reads ((''<'' @ n @ ''/>'') @ s) (XmlNode (XML_NODE_NORMAL n []) [] # ns) ((''<'' @ n @ ''/>'') @ x)"
    by (rule reads_Cons [OF x(2)]) (rule xml_loop_empty_element [OF empty_element.hyps(1)], auto)
  with x(1) show ?case by (intro exI [of _ "(''<'' @ n @ ''/>'') @ x"]) simp
next
  case (comment t s ns r)
  then obtain x where x: "s = x @ r" "reads s ns x" by blast
  have "reads ((''<!--'' @ t @ ''-->'') @ s) (XmlNode (XML_NODE_COMMENT t) [] # ns) ((''<!--'' @ t @ ''-->'') @ x)"
    by (rule reads_Cons [OF x(2)]) (rule xml_loop_comment [OF comment.hyps(1)], auto)
  with x(1) show ?case by (intro exI [of _ "(''<!--'' @ t @ ''-->'') @ x"]) simp
qed

lemma xml_doc_parsed:
  assumes "xml_doc s ns []"
  shows "\<exists>p b. xml_parser_parse xml_parser_create xml_builder_tree_create (s @ [NUL]) = Ret (p, b) \<and> xml_builder_get_tree b = ns"
proof -
  let ?b = xml_builder_tree_create
  have b: "frames ?b = [(XML_NODE_NORMAL ''__root__'' [], [])]" by (simp add: xml_builder_tree_create_def)
  obtain x where x: "s = x @ []" "reads s ns x" using xml_doc_reads [OF assms] by blast
  from readsD [OF x(2) b, of "s @ [NUL]" "[]" "[NUL]" xml_parser_create] x(1) obtain p where
    "xml_loop (s @ [NUL]) STAT_NONE 0 xml_parser_create ?b
      = xml_loop (s @ [NUL]) STAT_NONE (length s) p (?b\<lparr>frames := [(XML_NODE_NORMAL ''__root__'' [], ns)]\<rparr>)" by auto
  also have "\<dots> = Ret (p, ?b\<lparr>frames := [(XML_NODE_NORMAL ''__root__'' [], ns)]\<rparr>)" by (subst xml_loop.simps) simp
  finally show ?thesis by (simp add: xml_parser_parse_def xml_builder_get_tree_def)
qed

text \<open>C5: On every document of the grammar (elements, empty elements, texts and comments, with white space between them)
  the parser ends without leaving the text or its buffer, and the builder holds exactly the nodes the
  grammar gives, nested as in the document.\<close>

theorem xml_parser_correct:
  assumes "xml_doc s ns []"
  shows "\<exists>p b. xml_parser_parse xml_parser_create xml_builder_tree_create (s @ [NUL]) = Ret (p, b) \<and> xml_builder_get_tree b = ns"
  by (rule xml_doc_parsed [OF assms])

theorem xml_parser_correct_witness:
  "\<exists>p b. xml_parser_parse xml_parser_create xml_builder_tree_create (''<a> <b>x</b></a>'' @ [NUL]) = Ret (p, b)
     \<and> xml_builder_get_tree b = [XmlNode (XML_NODE_NORMAL ''a'' []) [XmlNode (XML_NODE_NORMAL ''b'' []) [XmlNode (XML_NODE_TEXT ''x'') []]]]"
proof (rule xml_parser_correct)
  have n: "name_ok ''a''" "name_ok ''b''" and t: "text_ok ''x''"
    by (simp_all add: name_ok_def text_ok_def isalpha_def islower_def isupper_def byte_def isspace_def)
  have "xml_doc ''x</b></a>'' [XmlNode (XML_NODE_TEXT ''x'') []] ''</b></a>''"
    using xml_doc.textual [OF t xml_doc.nothing, of "''</b></a>''"] by simp
  then have "xml_doc ''<b>x</b></a>'' [XmlNode (XML_NODE_NORMAL ''b'' []) [XmlNode (XML_NODE_TEXT ''x'') []]] ''</a>''"
    using xml_doc.element [OF n(2) _ xml_doc.nothing, of "''x</b></a>''" _ "''</a>''"] by simp
  then have "xml_doc '' <b>x</b></a>'' [XmlNode (XML_NODE_NORMAL ''b'' []) [XmlNode (XML_NODE_TEXT ''x'') []]] ''</a>''"
    by (rule xml_doc.space [rotated]) simp
  then show "xml_doc ''<a> <b>x</b></a>''
      [XmlNode (XML_NODE_NORMAL ''a'' []) [XmlNode (XML_NODE_NORMAL ''b'' []) [XmlNode (XML_NODE_TEXT ''x'') []]]] []"
    using xml_doc.element [OF n(1) _ xml_doc.nothing, of "'' <b>x</b></a>''" _ "[]"] by simp
qed

section \<open>Printing a tree\<close>

definition is_text :: "xml_node \<Rightarrow> bool" where
  "is_text nd = (case node_data nd of XML_NODE_TEXT t \<Rightarrow> True | _ \<Rightarrow> False)"

fun xml_print :: "xml_node list \<Rightarrow> string" where
  "xml_print [] = []"
| "xml_print (XmlNode d cs # ns) = (case d of
       XML_NODE_NORMAL n as \<Rightarrow> ''<'' @ n @ ''>'' @ xml_print cs @ ''</'' @ n @ ''>''
     | XML_NODE_TEXT t \<Rightarrow> t
     | XML_NODE_COMMENT t \<Rightarrow> ''<!--'' @ t @ ''-->''
     | XML_NODE_PI n as \<Rightarrow> ''<?'' @ n @ ''>'') @ xml_print ns"

text \<open>The forests a document can hold: elements without attributes, no two texts side by side.\<close>

fun printable :: "xml_node list \<Rightarrow> bool" where
  "printable [] \<longleftrightarrow> True"
| "printable (XmlNode d cs # ns) \<longleftrightarrow> (case d of
       XML_NODE_NORMAL n as \<Rightarrow> name_ok n \<and> as = [] \<and> printable cs
     | XML_NODE_TEXT t \<Rightarrow> text_ok t \<and> cs = [] \<and> (ns = [] \<or> \<not> is_text (hd ns))
     | XML_NODE_COMMENT t \<Rightarrow> comment_ok t \<and> cs = []
     | XML_NODE_PI n as \<Rightarrow> False) \<and> printable ns"

definition starts_tag :: "string \<Rightarrow> bool" where
  "starts_tag s \<longleftrightarrow> s \<noteq> [] \<and> hd s = CHR ''<''"

lemma starts_tag_print:
  "printable ns \<Longrightarrow> ns \<noteq> [] \<Longrightarrow> \<not> is_text (hd ns) \<Longrightarrow> starts_tag (xml_print ns @ r)"
  by (cases ns rule: xml_print.cases) (auto simp: starts_tag_def is_text_def split: xml_data.splits)

lemma xml_print_doc:
  assumes "printable ns" "starts_tag r \<or> ns = [] \<or> \<not> is_text (last ns)"
  shows "xml_doc (xml_print ns @ r) ns r"
  using assms
proof (induction ns arbitrary: r rule: xml_print.induct)
  case (2 d cs ns)
  then have rest: "xml_doc (xml_print ns @ r) ns r" by (auto split: if_splits)
  show ?case
  proof (cases d)
    case (XML_NODE_NORMAL n as)
    with 2 have n: "name_ok n" "as = []" "printable cs" by auto
    have "xml_doc (xml_print cs @ ''</'' @ n @ ''>'' @ xml_print ns @ r) cs (''</'' @ n @ ''>'' @ xml_print ns @ r)"
      using 2(1) [OF XML_NODE_NORMAL n(3)] by (simp add: starts_tag_def)
    from xml_doc.element [OF n(1) this rest] XML_NODE_NORMAL n(2) show ?thesis by simp
  next
    case (XML_NODE_TEXT t)
    with 2 have t: "text_ok t" "cs = []" "starts_tag (xml_print ns @ r)"
      using starts_tag_print [of ns r] by (cases "ns = []"; auto simp: is_text_def)+
    with xml_doc.textual [OF t(1) rest] XML_NODE_TEXT show ?thesis by (simp add: starts_tag_def)
  next
    case (XML_NODE_COMMENT t)
    with 2 have "comment_ok t" "cs = []" by auto
    with xml_doc.comment [OF _ rest] XML_NODE_COMMENT show ?thesis by simp
  qed (use 2 in simp)
qed (simp add: xml_doc.nothing)

end
