(* ===== verification/Conf_Correct.thy ===== *)
theory Conf_Correct
  imports Conf Xml_Grammar Serving
begin

text \<open>
  What a configuration file means, written over lists instead of indices and growing arrays, and the proof that
  the reader implements it: modules, virtual hosts and locations in the order of the file, defaults, and
  which files end the program. A configuration the reader returns is well-formed in the sense the
  request handling needs.
\<close>

section \<open>The meaning of a configuration\<close>

definition named :: "string \<Rightarrow> xml_node \<Rightarrow> xml_node list" where
  "named name nd = filter (is_named name) (node_children nd)"

definition child :: "string \<Rightarrow> xml_node \<Rightarrow> xml_node option" where
  "child name nd = (case named name nd of [] \<Rightarrow> None | x # _ \<Rightarrow> Some x)"

definition text_in :: "xml_node \<Rightarrow> string option" where
  "text_in nd = (case node_children nd of XmlNode (XML_NODE_TEXT t) _ # _ \<Rightarrow> Some t | _ \<Rightarrow> None)"

definition child_text :: "string \<Rightarrow> xml_node \<Rightarrow> string option" where
  "child_text name nd = Option.bind (child name nd) text_in"

definition number :: "string \<Rightarrow> int \<Rightarrow> xml_node \<Rightarrow> int" where
  "number name dflt nd = (case child_text name nd of None \<Rightarrow> dflt | Some t \<Rightarrow> atoi t)"

text \<open>The libraries up to the first \<open>module\<close> element without a text.\<close>

definition module_files :: "xml_node \<Rightarrow> string list" where
  "module_files root = (case child ''load_module'' root of
       None \<Rightarrow> []
     | Some lm \<Rightarrow> map the (takeWhile (\<lambda>t. t \<noteq> None) (map text_in (named ''module'' lm))))"

definition modules_of :: "dl \<Rightarrow> xml_node \<Rightarrow> module_so_conf_t list option" where
  "modules_of dlopen root = those (map (\<lambda>f. Option.bind (dlopen f) module_get_info) (module_files root))"

definition own_or :: "str_t \<Rightarrow> xml_node \<Rightarrow> str_t" where
  "own_or parent_root nd = (case child_text ''root'' nd of None \<Rightarrow> parent_root | Some t \<Rightarrow> server_string t)"

definition loc_of :: "module_so_conf_t list \<Rightarrow> str_t \<Rightarrow> xml_node \<Rightarrow> vhost_loc_conf_t option" where
  "loc_of sos parent_root nd =
     Option.bind (child_text ''pattern'' nd) (\<lambda>pat.
     Option.bind (child ''handler'' nd) (\<lambda>hn.
     Option.bind (child_text ''name'' hn) (\<lambda>name.
     Option.bind (find (\<lambda>so. conf_text (so_name so) = name) sos) (\<lambda>so.
     Option.bind (call_create (module_create so) (child ''handler_conf'' hn)) (\<lambda>mdl.
     Some \<lparr>loc_root = own_or parent_root nd, pattern_str = server_string pat,
       handler_name = server_string name, handler = mdl\<rparr>)))))"

text \<open>A virtual host as its name, its root and its locations.\<close>

type_synonym vhost_view = "str_t \<times> str_t \<times> vhost_loc_conf_t list"

definition vhost_view :: "vhost_conf_t \<Rightarrow> vhost_view" where
  "vhost_view v = (vhost_name v, vhost_root v, elts (locs v))"

definition vhost_of :: "module_so_conf_t list \<Rightarrow> str_t \<Rightarrow> xml_node \<Rightarrow> vhost_view option" where
  "vhost_of sos server_root nd =
     Option.bind (child_text ''name'' nd) (\<lambda>name.
     map_option (\<lambda>ls. (server_string name, own_or server_root nd, ls))
       (those (map (loc_of sos (own_or server_root nd)) (named ''location'' nd))))"

definition described :: "dl \<Rightarrow> xml_node \<Rightarrow> (string \<times> module_so_conf_t list \<times> vhost_view list) option" where
  "described dlopen root =
     Option.bind (child_text ''root'' root) (\<lambda>rt.
     Option.bind (modules_of dlopen root) (\<lambda>sos.
     map_option (\<lambda>vs. (rt, sos, vs)) (those (map (vhost_of sos (server_string rt)) (named ''vhost'' root)))))"

section \<open>Looking up\<close>

lemma xml_tree_find_named:
  "xml_tree_find (Some nd) name (int i) = (if i < length (named name nd) then Some (named name nd ! i) else None)"
  by (simp add: xml_tree_find_nth named_def Let_def)

lemma xml_tree_find_first_child: "xml_tree_find_first (Some nd) name = child name nd"
  using xml_tree_find_named [of nd name 0]
  by (auto simp: xml_tree_find_first_def child_def split: list.splits)

lemma xml_tree_str_nth:
  "xml_tree_str (Some nd) name (int i) = (if i < length (named name nd) then text_in (named name nd ! i) else None)"
  by (simp add: xml_tree_str_def xml_tree_find_named text_in_def)

lemma xml_tree_str_first_child: "xml_tree_str_first (Some nd) name = child_text name nd"
  using xml_tree_str_nth [of nd name 0]
  by (auto simp: xml_tree_str_first_def child_text_def child_def split: list.splits)

lemma xml_tree_int_first_number: "xml_tree_int_first (Some nd) name dflt = number name dflt nd"
  using xml_tree_str_first_child [of nd name]
  by (simp add: xml_tree_int_first_def xml_tree_int_def number_def xml_tree_str_first_def)

lemmas xml_lookups = xml_tree_find_first_child xml_tree_str_first_child xml_tree_int_first_number

lemma own_or_root:
  "data (str_of_opt (child_text ''root'' nd)) = Null \<Longrightarrow> own_or pr nd = pr"
  "data (str_of_opt (child_text ''root'' nd)) \<noteq> Null \<Longrightarrow> own_or pr nd = str_of_opt (child_text ''root'' nd)"
  by (auto simp: own_or_def str_of_opt_def null_str_def server_string_def split: option.splits)

lemma own_or_if:
  "(if data (str_of_opt (child_text ''root'' nd)) = Null then pr else str_of_opt (child_text ''root'' nd)) = own_or pr nd"
  by (simp add: own_or_root)

section \<open>Loops over the elements of a name\<close>

fun map_res :: "('a \<Rightarrow> 'b res) \<Rightarrow> 'a list \<Rightarrow> 'b list res" where
  "map_res f [] = Ret []"
| "map_res f (x # xs) = bnd (f x) (\<lambda>y. bnd (map_res f xs) (\<lambda>ys. Ret (y # ys)))"

text \<open>The reader's three loops have one shape: the node of an index is read and pushed, until there is none.\<close>

locale index_loop =
  fixes loop :: "nat \<Rightarrow> 'a array_t \<Rightarrow> 'a array_t res"
    and node :: "nat \<Rightarrow> 'n option"
    and item :: "'n \<Rightarrow> 'a res"
    and nodes :: "'n list"
    and view :: "'a \<Rightarrow> 'v"
    and parsed :: "'n \<Rightarrow> 'v res"
  assumes loop_law: "loop i a = (case node i of None \<Rightarrow> Ret a
      | Some n \<Rightarrow> bnd (item n) (\<lambda>x. bnd (array_push a x) (loop (Suc i))))"
    and node_law: "i < length nodes \<Longrightarrow> node i = Some (nodes ! i)"
    and node_end: "node (length nodes) = None"
    and item_law: "bnd (item n) (\<lambda>x. Ret (view x)) = parsed n"
begin

lemma loop_from:
  assumes "array_ok a" "i \<le> length nodes"
  shows "bnd (loop i a) (\<lambda>b. Ret (map view (elts b))) = bnd (map_res parsed (drop i nodes)) (\<lambda>vs. Ret (map view (elts a) @ vs))"
  using assms
proof (induction "length nodes - i" arbitrary: i a)
  case 0
  then show ?case using node_end by (simp add: loop_law [of i])
next
  case (Suc k)
  then have i: "i < length nodes" "k = length nodes - Suc i" by auto
  then have d: "drop i nodes = nodes ! i # drop (Suc i) nodes" by (simp add: Cons_nth_drop_Suc)
  show ?case
  proof (cases "item (nodes ! i)")
    case (Ret x)
    obtain b where b: "array_push a x = Ret b" "array_ok b" "elts b = elts a @ [x]" using array_push_ok [OF Suc.prems(1)] by blast
    have "parsed (nodes ! i) = Ret (view x)" using item_law [of "nodes ! i"] Ret by simp
    moreover have "bnd (loop (Suc i) b) (\<lambda>b. Ret (map view (elts b)))
        = bnd (map_res parsed (drop (Suc i) nodes)) (\<lambda>vs. Ret (map view (elts b) @ vs))"
      using Suc.hyps(1) [OF i(2) b(2)] i(1) by simp
    ultimately show ?thesis using i(1) d Ret b(1,3) by (cases "map_res parsed (drop (Suc i) nodes)") (simp_all add: loop_law [of i] node_law)
  next
    case (Crash e)
    then have "parsed (nodes ! i) = Crash e" using item_law [of "nodes ! i"] by simp
    with i(1) d Crash show ?thesis by (simp add: loop_law [of i] node_law)
  qed
qed

lemma loop_all:
  assumes "array_ok a" "elts a = []"
  shows "bnd (loop 0 a) (\<lambda>b. Ret (map view (elts b))) = map_res parsed nodes"
  using loop_from [OF assms(1), of 0] assms(2) by (cases "map_res parsed nodes") simp_all

end

definition load_module :: "dl \<Rightarrow> string \<Rightarrow> module_so_conf_t res" where
  "load_module dlopen f = (case dlopen f of
       None \<Rightarrow> Crash Exits
     | Some lib \<Rightarrow> (case module_get_info lib of None \<Rightarrow> Crash Exits | Some so \<Rightarrow> Ret so))"

lemma takeWhile_at: "i < length (takeWhile P xs) \<Longrightarrow> i < length xs \<and> takeWhile P xs ! i = xs ! i \<and> P (xs ! i)"
  by (metis length_takeWhile_le less_le_trans nth_mem set_takeWhileD takeWhile_nth)

lemma module_files_nth:
  assumes "i < length (module_files root)"
  shows "xml_tree_str (child ''load_module'' root) ''module'' (int i) = Some (module_files root ! i)"
proof -
  obtain lm where lm: "child ''load_module'' root = Some lm"
    using assms by (auto simp: module_files_def split: option.splits)
  let ?ts = "map text_in (named ''module'' lm)"
  have "i < length (takeWhile (\<lambda>t. t \<noteq> None) ?ts)" using assms lm by (simp add: module_files_def)
  from takeWhile_at [OF this] this obtain t where "text_in (named ''module'' lm ! i) = Some t" "i < length (named ''module'' lm)"
    "takeWhile (\<lambda>t. t \<noteq> None) ?ts ! i = Some t" "i < length (takeWhile (\<lambda>t. t \<noteq> None) ?ts)" by auto
  with lm show ?thesis by (simp add: xml_tree_str_nth module_files_def)
qed

lemma module_files_end: "xml_tree_str (child ''load_module'' root) ''module'' (int (length (module_files root))) = None"
proof (cases "child ''load_module'' root")
  case (Some lm)
  let ?ts = "map text_in (named ''module'' lm)"
  have "length (takeWhile (\<lambda>t. t \<noteq> None) ?ts) < length ?ts \<Longrightarrow> ?ts ! length (takeWhile (\<lambda>t. t \<noteq> None) ?ts) = None"
    using nth_length_takeWhile by blast
  with Some show ?thesis by (auto simp: xml_tree_str_nth module_files_def)
qed (simp add: xml_tree_str_def xml_tree_find_def)

interpretation module_loop: index_loop "load_loop dlopen (child ''load_module'' root)"
  "\<lambda>i. xml_tree_str (child ''load_module'' root) ''module'' (int i)" "load_module dlopen" "module_files root" id "load_module dlopen"
  for dlopen root
proof unfold_locales
  show "load_loop dlopen (child ''load_module'' root) i a = (case xml_tree_str (child ''load_module'' root) ''module'' (int i) of
      None \<Rightarrow> Ret a | Some n \<Rightarrow> bnd (load_module dlopen n) (\<lambda>x. bnd (array_push a x) (load_loop dlopen (child ''load_module'' root) (Suc i))))" for i a
    by (subst load_loop.simps) (simp add: load_module_def split: option.splits)
  show "bnd (load_module dlopen n) (\<lambda>x. Ret (id x)) = load_module dlopen n" for n
    by (cases "load_module dlopen n") simp_all
qed (simp_all add: module_files_nth module_files_end)

interpretation location_loop: index_loop "loc_loop sos parent_root root" "\<lambda>i. xml_tree_find (Some root) ''location'' (int i)"
  "conf_parse_location sos parent_root" "named ''location'' root" id "conf_parse_location sos parent_root"
  for sos parent_root root
proof unfold_locales
  show "loc_loop sos parent_root root i a = (case xml_tree_find (Some root) ''location'' (int i) of
      None \<Rightarrow> Ret a | Some n \<Rightarrow> bnd (conf_parse_location sos parent_root n) (\<lambda>x. bnd (array_push a x) (loc_loop sos parent_root root (Suc i))))" for i a
    by (subst loc_loop.simps) simp
  show "bnd (conf_parse_location sos parent_root n) (\<lambda>x. Ret (id x)) = conf_parse_location sos parent_root n" for n
    by (cases "conf_parse_location sos parent_root n") simp_all
qed (simp_all add: xml_tree_find_named)

definition parsed_vhost :: "module_so_conf_t list \<Rightarrow> str_t \<Rightarrow> xml_node \<Rightarrow> vhost_view res" where
  "parsed_vhost sos server_root nd = bnd (conf_parse_vhost sos server_root nd) (\<lambda>v. Ret (vhost_view v))"

interpretation virtual_host_loop: index_loop "vhost_loop sos server_root root" "\<lambda>i. xml_tree_find (Some root) ''vhost'' (int i)"
  "conf_parse_vhost sos server_root" "named ''vhost'' root" vhost_view "parsed_vhost sos server_root"
  for sos server_root root
proof unfold_locales
  show "vhost_loop sos server_root root i a = (case xml_tree_find (Some root) ''vhost'' (int i) of
      None \<Rightarrow> Ret a | Some n \<Rightarrow> bnd (conf_parse_vhost sos server_root n) (\<lambda>x. bnd (array_push a x) (vhost_loop sos server_root root (Suc i))))" for i a
    by (subst vhost_loop.simps) simp
qed (simp_all add: xml_tree_find_named parsed_vhost_def)

section \<open>The reader implements the meaning\<close>

definition or_exit :: "'a option \<Rightarrow> 'a res" where
  "or_exit m = (case m of None \<Rightarrow> Crash Exits | Some x \<Rightarrow> Ret x)"

lemma or_exit_simps [simp]: "or_exit None = Crash Exits" "or_exit (Some x) = Ret x"
  by (simp_all add: or_exit_def)

lemma or_exit_bind: "or_exit (Option.bind m f) = bnd (or_exit m) (\<lambda>x. or_exit (f x))"
  by (cases m) simp_all

lemma or_exit_map: "or_exit (map_option f m) = bnd (or_exit m) (\<lambda>x. Ret (f x))"
  by (cases m) simp_all

lemma map_res_those: "(\<And>x. x \<in> set xs \<Longrightarrow> f x = or_exit (g x)) \<Longrightarrow> map_res f xs = or_exit (those (map g xs))"
proof (induction xs)
  case (Cons x xs)
  then show ?case by (cases "g x"; cases "those (map g xs)") simp_all
qed simp

lemma modules_loaded: "map_res (load_module dlopen) (module_files root) = or_exit (modules_of dlopen root)"
  unfolding modules_of_def
  by (rule map_res_those) (auto simp: load_module_def split: option.splits)

definition sos_ok :: "module_so_conf_t list \<Rightarrow> bool" where
  "sos_ok sos \<longleftrightarrow> (\<forall>so \<in> set sos. conf_str (so_name so))"

lemma those_in: "those ms = Some xs \<Longrightarrow> x \<in> set xs \<Longrightarrow> Some x \<in> set ms"
  by (induction ms arbitrary: xs) (auto split: option.splits)

lemma module_names_ok: "module_get_info lib = Some so \<Longrightarrow> conf_str (so_name so)"
  by (cases lib) (auto simp: module_default_get_info_def module_uwsgi_get_info_def conf_str_def)

lemma modules_of_ok:
  assumes "modules_of dlopen root = Some sos"
  shows "sos_ok sos"
  unfolding sos_ok_def
proof
  fix so assume "so \<in> set sos"
  from those_in [OF assms [unfolded modules_of_def] this] obtain f where "Option.bind (dlopen f) module_get_info = Some so"
    by auto
  then show "conf_str (so_name so)" by (auto simp: bind_eq_Some_conv intro: module_names_ok)
qed

lemma find_handler_spec:
  assumes "sos_ok sos"
  shows "find_handler sos name node
    = Ret (Option.bind (find (\<lambda>so. conf_text (so_name so) = name) sos) (\<lambda>so. call_create (module_create so) node))"
  using assms
proof (induction sos)
  case (Cons so sos)
  then show ?case using conf_strD(3) [of "so_name so" "[]"] by (simp add: sos_ok_def)
qed simp

lemma conf_parse_location_spec:
  assumes "sos_ok sos"
  shows "conf_parse_location sos parent_root nd = or_exit (loc_of sos parent_root nd)"
  unfolding conf_parse_location_def loc_of_def xml_lookups
  by (simp add: find_handler_spec [OF assms] own_or_root Let_def split: option.split Option.bind_split)

lemma array_create_ten: "\<exists>a. array_create 10 = Ret a \<and> array_ok a \<and> elts a = []"
  using array_create_ok [of 10] by simp

lemma parsed_vhost_spec:
  assumes "sos_ok sos"
  shows "parsed_vhost sos server_root nd = or_exit (vhost_of sos server_root nd)"
proof -
  obtain a :: "vhost_loc_conf_t array_t" where a: "array_create 10 = Ret a" "array_ok a" "elts a = []"
    using array_create_ten by blast
  let ?r = "own_or server_root nd"
  have l: "bnd (loc_loop sos ?r nd 0 a) (\<lambda>b. Ret (elts b)) = or_exit (those (map (loc_of sos ?r) (named ''location'' nd)))"
    using location_loop.loop_all [OF a(2,3), of sos ?r nd] map_res_those [of "named ''location'' nd", OF conf_parse_location_spec [OF assms, of ?r]]
    by simp
  show ?thesis
  proof (cases "child_text ''name'' nd")
    case (Some name)
    have "parsed_vhost sos server_root nd
        = bnd (bnd (loc_loop sos ?r nd 0 a) (\<lambda>b. Ret (elts b))) (\<lambda>ls. Ret (server_string name, ?r, ls))"
      using Some a(1)
      by (cases "loc_loop sos ?r nd 0 a") (simp_all add: parsed_vhost_def conf_parse_vhost_def xml_lookups vhost_view_def own_or_if Let_def)
    then show ?thesis using Some by (simp add: l vhost_of_def or_exit_map)
  qed (simp add: parsed_vhost_def conf_parse_vhost_def xml_lookups vhost_of_def)
qed

text \<open>A configuration that holds what the root element \<open>root\<close> says.\<close>

definition conf_holds :: "xml_node \<Rightarrow> string \<times> module_so_conf_t list \<times> vhost_view list \<Rightarrow> conf_t \<Rightarrow> bool" where
  "conf_holds root = (\<lambda>(rt, sos, vs) c.
     conf_root c = server_string rt \<and> default_page c = server_string ''index.html''
     \<and> conf_ip c = str_of_opt (child_text ''ip'' root) \<and> conf_port c = number ''port'' 80 root
     \<and> request_pool_size c = number ''request_pool_size'' 8192 root
     \<and> connection_timeout c = number ''connection_timeout'' 30 root
     \<and> client_header_size c = number ''client_header_size'' 2048 root
     \<and> large_client_header_size c = number ''large_client_header_size'' 4096 root
     \<and> content_body_buf_size c = number ''content_body_buf_size'' 4096 root
     \<and> max_content_len c = number ''max_content_len'' 1048576 root
     \<and> max_threads c = number ''max_threads'' 50 root \<and> worker_num c = number ''worker_num'' 1 root
     \<and> elts (module_sos c) = sos \<and> map vhost_view (elts (vhosts c)) = vs
     \<and> vs \<noteq> [] \<and> default_vhost c = hd (elts (vhosts c)))"

lemma bnd_elts_or_exit:
  assumes "bnd m (\<lambda>b. Ret (map f (elts b))) = or_exit x"
  shows "case x of None \<Rightarrow> m = Crash Exits | Some vs \<Rightarrow> \<exists>b. m = Ret b \<and> map f (elts b) = vs"
  using assms by (cases m; cases x) auto

lemma conf_of_tree_spec:
  "case described dlopen root of
     None \<Rightarrow> conf_of_tree dlopen root = Crash Exits
   | Some (rt, sos, vs) \<Rightarrow>
       if vs = [] then conf_of_tree dlopen root = Crash Null_Deref
       else \<exists>c. conf_of_tree dlopen root = Ret c \<and> conf_holds root (rt, sos, vs) c"
proof -
  obtain a :: "module_so_conf_t array_t" where a: "array_create 10 = Ret a" "array_ok a" "elts a = []" using array_create_ten by blast
  obtain b :: "vhost_conf_t array_t" where b: "array_create 10 = Ret b" "array_ok b" "elts b = []" using array_create_ten by blast
  have load: "case modules_of dlopen root of None \<Rightarrow> conf_parse_loadmodule dlopen (child ''load_module'' root) a = Crash Exits
      | Some sos \<Rightarrow> \<exists>ms. conf_parse_loadmodule dlopen (child ''load_module'' root) a = Ret ms \<and> map id (elts ms) = sos"
    unfolding conf_parse_loadmodule_def
    by (rule bnd_elts_or_exit) (simp only: module_loop.loop_all [OF a(2,3)] modules_loaded)
  have vh: "case those (map (vhost_of sos (server_string rt)) (named ''vhost'' root)) of
        None \<Rightarrow> vhost_loop sos (server_string rt) root 0 b = Crash Exits
      | Some vs \<Rightarrow> \<exists>w. vhost_loop sos (server_string rt) root 0 b = Ret w \<and> map vhost_view (elts w) = vs"
    if "sos_ok sos" for sos rt
    by (rule bnd_elts_or_exit)
      (simp only: virtual_host_loop.loop_all [OF b(2,3)] map_res_those [of "named ''vhost'' root", OF parsed_vhost_spec [OF that]])
  show ?thesis
  proof (cases "child_text ''root'' root")
    case (Some rt)
    show ?thesis
    proof (cases "modules_of dlopen root")
      case None
      with Some a(1) b(1) load show ?thesis by (simp add: described_def conf_of_tree_def xml_lookups)
    next
      case sos: (Some sos)
      then obtain ms where ms: "conf_parse_loadmodule dlopen (child ''load_module'' root) a = Ret ms" "elts ms = sos" using load by auto
      show ?thesis
      proof (cases "those (map (vhost_of sos (server_string rt)) (named ''vhost'' root))")
        case None
        with Some sos ms a(1) b(1) vh [OF modules_of_ok [OF sos], of rt] show ?thesis
          by (simp add: described_def conf_of_tree_def xml_lookups)
      next
        case vs: (Some vs)
        then obtain w where w: "vhost_loop sos (server_string rt) root 0 b = Ret w" "map vhost_view (elts w) = vs"
          using vh [OF modules_of_ok [OF sos], of rt] by auto
        from Some sos ms vs w a(1) b(1) show ?thesis
          by (cases "elts w") (auto simp: described_def conf_of_tree_def xml_lookups conf_holds_def)
      qed
    qed
  qed (use a(1) b(1) in \<open>simp add: described_def conf_of_tree_def xml_lookups\<close>)
qed

lemma conf_parse_doc:
  assumes "xml_doc s (root # ns) []"
  shows "case described dlopen root of
     None \<Rightarrow> conf_parse dlopen (Some s) True = Crash Exits
   | Some (rt, sos, vs) \<Rightarrow>
       if vs = [] then conf_parse dlopen (Some s) True = Crash Null_Deref
       else \<exists>c. conf_parse dlopen (Some s) True = Ret c \<and> conf_holds root (rt, sos, vs) c"
proof -
  from xml_doc_parsed [OF assms] obtain p b where
    "xml_parser_parse xml_parser_create xml_builder_tree_create (s @ [NUL]) = Ret (p, b)" "xml_builder_get_tree b = root # ns" by blast
  then have eq: "conf_parse dlopen (Some s) True = conf_of_tree dlopen root" by (simp add: conf_parse_def read_file_def)
  show ?thesis unfolding eq by (rule conf_of_tree_spec)
qed

text \<open>C6: Reading a file that holds a document of the grammar, whose first node is \<open>root\<close>, does what the document
  describes: the modules, virtual hosts and locations in the order of the file, each location with the handler its
  module creates and the nearest root, every number with its default; the first virtual host is the default one.
  A file that leaves out a required part, names a library that does not load or a handler no module provides ends
  the program, and one without a virtual host reads through a null pointer.\<close>

theorem conf_parse_correct:
  assumes "xml_doc s (root # ns) []"
  shows "case described dlopen root of
     None \<Rightarrow> conf_parse dlopen (Some s) True = Crash Exits
   | Some (rt, sos, vs) \<Rightarrow>
       if vs = [] then conf_parse dlopen (Some s) True = Crash Null_Deref
       else \<exists>c. conf_parse dlopen (Some s) True = Ret c \<and> conf_holds root (rt, sos, vs) c"
  by (rule conf_parse_doc [OF assms])

text \<open>The configuration the repository ships (\<open>conf/xwp.xml\<close>), without the white space between its elements.\<close>

definition element :: "string \<Rightarrow> xml_node list \<Rightarrow> xml_node" where
  "element n cs = XmlNode (XML_NODE_NORMAL n []) cs"

definition setting :: "string \<Rightarrow> string \<Rightarrow> xml_node" where
  "setting n t = element n [XmlNode (XML_NODE_TEXT t) []]"

definition shipped_conf :: xml_node where
  "shipped_conf = element ''server'' [
     setting ''ip'' ''127.0.0.1'', setting ''allow_list_dir'' ''no'', XmlNode (XML_NODE_COMMENT '' 1024 * 1024'') [],
     setting ''max_content_len'' ''1048576'', setting ''port'' ''9001'', setting ''max_threads'' ''200'',
     setting ''connection_timeout'' ''30'', setting ''root'' ''/home/wpeng/uone/mycode/server'',
     element ''load_module'' [setting ''module'' ''../lib/libmodule_default.so'', setting ''module'' ''../lib/libmodule_uwsgi.so''],
     element ''vhost'' [
       setting ''name'' ''pengwu.me'', element ''root'' [],
       element ''location'' [setting ''pattern'' ''/static/.*'', element ''handler'' [setting ''name'' ''default'']],
       element ''location'' [setting ''pattern'' ''/.*'', element ''handler'' [setting ''name'' ''uwsgi'',
         element ''handler_conf'' [element ''uwsgi_pass'' [setting ''ip'' ''127.0.0.1'', setting ''port'' ''9000'']]]]]]"

definition shipped_libs :: dl where
  "shipped_libs f = (if f = ''../lib/libmodule_default.so'' then Some Libmodule_Default
     else if f = ''../lib/libmodule_uwsgi.so'' then Some Libmodule_Uwsgi else None)"

definition shipped_root :: str_t where
  "shipped_root = server_string ''/home/wpeng/uone/mycode/server''"

definition shipped_vhost :: vhost_view where
  "shipped_vhost = (server_string ''pengwu.me'', shipped_root,
     [\<lparr>loc_root = shipped_root, pattern_str = server_string ''/static/.*'', handler_name = server_string ''default'',
        handler = Module_Default\<rparr>,
      \<lparr>loc_root = shipped_root, pattern_str = server_string ''/.*'', handler_name = server_string ''uwsgi'',
        handler = Module_Uwsgi \<lparr>uwsgi_ip = server_string ''127.0.0.1'', uwsgi_port = 9000, modifier1 = 0, modifier2 = 0\<rparr>\<rparr>])"

lemma shipped_conf_doc: "xml_doc (xml_print [shipped_conf]) [shipped_conf] []"
proof -
  have "printable [shipped_conf]" by code_simp
  with xml_print_doc [of "[shipped_conf]" "[]"] show ?thesis by (simp add: is_text_def shipped_conf_def element_def)
qed

lemma shipped_conf_described:
  "described shipped_libs shipped_conf
     = Some (''/home/wpeng/uone/mycode/server'', [module_default_get_info, module_uwsgi_get_info], [shipped_vhost])"
  by code_simp

theorem conf_parse_correct_witness:
  "\<exists>c. conf_parse shipped_libs (Some (xml_print [shipped_conf])) True = Ret c
     \<and> map vhost_view (elts (vhosts c)) = [shipped_vhost] \<and> conf_port c = 9001 \<and> request_pool_size c = 8192"
proof -
  have "number ''port'' 80 shipped_conf = 9001" "number ''request_pool_size'' 8192 shipped_conf = 8192" by code_simp+
  with conf_parse_correct [OF shipped_conf_doc, of shipped_libs] show ?thesis
    by (auto simp: shipped_conf_described conf_holds_def)
qed

section \<open>Texts without null bytes\<close>

fun texts_ok :: "xml_node \<Rightarrow> bool" where
  "texts_ok (XmlNode d cs) \<longleftrightarrow> (case d of XML_NODE_TEXT t \<Rightarrow> NUL \<notin> set t | _ \<Rightarrow> True) \<and> (\<forall>c \<in> set cs. texts_ok c)"

definition builder_ok :: "xml_builder \<Rightarrow> bool" where
  "builder_ok b \<longleftrightarrow> list_all (\<lambda>f. texts_ok (XmlNode (fst f) (snd f))) (frames b)"

lemma append_attrs_ok: "texts_ok nd \<Longrightarrow> texts_ok (append_attrs nd as)"
proof (induction nd as rule: append_attrs.induct)
  case (1 nd n v as)
  have "texts_ok (xml_node_append_attr nd n v)" using "1.prems" by (cases "(nd, n, v)" rule: xml_node_append_attr.cases) auto
  with 1 show ?case by simp
qed simp_all

lemma add_child_ok: "add_child nd b = Ret b' \<Longrightarrow> texts_ok nd \<Longrightarrow> builder_ok b \<Longrightarrow> builder_ok b'"
  by (auto simp: add_child_def builder_ok_def split: list.splits)

lemma builder_ops_ok:
  assumes "builder_ok b"
  shows "on_start_element t as b = Ret b1 \<Longrightarrow> builder_ok b1" "on_end_element b = Ret b1 \<Longrightarrow> builder_ok b1"
    "on_text t n b = Ret b1 \<Longrightarrow> builder_ok b1" "on_comment t n b = Ret b1 \<Longrightarrow> builder_ok b1"
    "on_pi_element t as b = Ret b1 \<Longrightarrow> builder_ok b1"
proof -
  have nodes: "texts_ok (xml_node_create_normal t as)" "texts_ok (xml_node_create_pi t as)"
    by (simp_all add: xml_node_create_normal_def xml_node_create_pi_def append_attrs_ok)
  show "on_start_element t as b = Ret b1 \<Longrightarrow> builder_ok b1"
    using assms nodes(1) by (auto simp: on_start_element_def builder_ok_def split: list.splits xml_node.splits)
  show "on_end_element b = Ret b1 \<Longrightarrow> builder_ok b1"
    using assms by (auto simp: on_end_element_def builder_ok_def split: list.splits)
  show "on_text t n b = Ret b1 \<Longrightarrow> builder_ok b1" "on_comment t n b = Ret b1 \<Longrightarrow> builder_ok b1"
    using assms by (auto simp: on_text_def on_comment_def xml_node_create_text_def xml_node_create_comment_def strndup_def
        elim!: add_child_ok dest: set_takeWhileD in_set_takeD)
  show "on_pi_element t as b = Ret b1 \<Longrightarrow> builder_ok b1"
    using assms nodes(2) by (auto simp: on_pi_element_def elim!: add_child_ok)
qed

lemma element_ok:
  "start_element p off b = Ret b' \<Longrightarrow> builder_ok b \<Longrightarrow> builder_ok b'"
  "pi_element p off b = Ret b' \<Longrightarrow> builder_ok b \<Longrightarrow> builder_ok b'"
  by (auto simp: start_element_def pi_element_def split: option.splits dest: builder_ops_ok)

lemmas builder_ok_intros = element_ok builder_ops_ok(2) [rotated] builder_ops_ok(3) [rotated] builder_ops_ok(4) [rotated]

lemma comment_loop_ok: "comment_loop m start st i b = Ret (j, b') \<Longrightarrow> builder_ok b \<Longrightarrow> builder_ok b'"
proof (induction "length m - i" arbitrary: i st rule: less_induct)
  case less
  have ih: "comment_loop m start st' (Suc i) b = Ret (j, b') \<Longrightarrow> i < length m \<Longrightarrow> builder_ok b'" for st'
    by (rule less.hyps [of "Suc i" st']) (simp_all add: less.prems(2))
  from less.prems show ?case
    by (subst (asm) comment_loop.simps)
      (auto simp: load_def split: if_splits comment_state.splits dest: ih builder_ops_ok(4))
qed

lemma start_tag_ok: "xml_parser_parse_start_tag m i p b = Ret (j, p', b') \<Longrightarrow> builder_ok b \<Longrightarrow> builder_ok b'"
  by (auto simp: xml_parser_parse_start_tag_def split: if_splits) (metis builder_ok_intros(1,3), metis builder_ok_intros(1))

lemma xml_step_ok: "xml_step m c st i p b = Ret (st', j, p', b') \<Longrightarrow> builder_ok b \<Longrightarrow> builder_ok b'"
  by (cases st) (auto simp: xml_parser_parse_end_tag_def xml_parser_parse_pi_def
      xml_parser_parse_text_def comment_step_def xml_parser_parse_comment_def Let_def
      split: if_splits intro: builder_ok_intros comment_loop_ok start_tag_ok)

lemma xml_loop_ok: "xml_loop m st i p b = Ret (p', b') \<Longrightarrow> builder_ok b \<Longrightarrow> builder_ok b'"
proof (induction m st i p b rule: xml_loop.induct)
  case (1 m st i p b)
  from "1.prems"(1) obtain c where c: "load m i = Ret c" by (subst (asm) xml_loop.simps) auto
  show ?case
  proof (cases "c = NUL")
    case True
    with 1(2,3) c show ?thesis by (subst (asm) xml_loop.simps) simp
  next
    case False
    with "1.prems"(1) c obtain st1 j p1 b1 c1 where
      s: "xml_step m c st i p b = Ret (st1, j, p1, b1)" "load m j = Ret c1"
      and n: "if c1 = NUL then p' = p1 \<and> b' = b1 else xml_loop m st1 (Suc j) p1 b1 = Ret (p', b')"
      by (subst (asm) xml_loop.simps) (auto split: if_splits)
    have "builder_ok b1" by (rule xml_step_ok [OF s(1) "1.prems"(2)])
    with 1(1) [OF c False s(1) refl refl refl s(2)] n show ?thesis by (cases "c1 = NUL") auto
  qed
qed

lemma close_frames_ok: "list_all (\<lambda>f. texts_ok (XmlNode (fst f) (snd f))) fs \<Longrightarrow> nd \<in> set (close_frames fs) \<Longrightarrow> texts_ok nd"
  by (induction fs rule: close_frames.induct) auto

lemma parsed_texts_ok:
  assumes "xml_parser_parse xml_parser_create xml_builder_tree_create m = Ret (p, b)" "nd \<in> set (xml_builder_get_tree b)"
  shows "texts_ok nd"
proof -
  have "builder_ok xml_builder_tree_create" by (simp add: builder_ok_def xml_builder_tree_create_def)
  from xml_loop_ok [OF assms(1) [unfolded xml_parser_parse_def] this] assms(2) show ?thesis
    by (auto simp: xml_builder_get_tree_def builder_ok_def intro: close_frames_ok)
qed

section \<open>The configuration is well-formed\<close>

lemma texts_ok_named: "x \<in> set (named name nd) \<Longrightarrow> texts_ok nd \<Longrightarrow> texts_ok x"
  by (cases nd) (auto simp: named_def)

lemma texts_ok_child: "child name nd = Some x \<Longrightarrow> texts_ok nd \<Longrightarrow> texts_ok x"
  by (rule texts_ok_named [of x name nd]) (auto simp: child_def split: list.splits)

lemma text_in_ok: "text_in nd = Some t \<Longrightarrow> texts_ok nd \<Longrightarrow> NUL \<notin> set t"
  by (cases nd) (auto simp: text_in_def split: list.splits xml_node.splits xml_data.splits)

lemma child_text_ok: "child_text name nd = Some t \<Longrightarrow> texts_ok nd \<Longrightarrow> conf_str (server_string t)"
  by (auto simp: child_text_def bind_eq_Some_conv conf_str_def dest: texts_ok_child text_in_ok)

lemma own_or_ok: "texts_ok nd \<Longrightarrow> conf_str pr \<Longrightarrow> conf_str (own_or pr nd)"
  by (auto simp: own_or_def child_text_ok split: option.splits)

definition vhost_view_ok :: "vhost_view \<Rightarrow> bool" where
  "vhost_view_ok = (\<lambda>(n, r, ls). conf_str n \<and> (\<forall>l \<in> set ls. conf_str (pattern_str l) \<and> conf_str (loc_root l)))"

lemma loc_of_ok:
  assumes "loc_of sos pr nd = Some l" "texts_ok nd" "conf_str pr"
  shows "conf_str (pattern_str l) \<and> conf_str (loc_root l)"
  using assms by (auto simp: loc_of_def bind_eq_Some_conv child_text_ok own_or_ok)

lemma those_map_in: "those (map f xs) = Some ys \<Longrightarrow> y \<in> set ys \<Longrightarrow> \<exists>x \<in> set xs. f x = Some y"
  using those_in by fastforce

lemma vhost_of_ok:
  assumes "vhost_of sos pr nd = Some v" "texts_ok nd" "conf_str pr"
  shows "vhost_view_ok v"
proof -
  obtain name ls where v: "child_text ''name'' nd = Some name" "v = (server_string name, own_or pr nd, ls)"
    "those (map (loc_of sos (own_or pr nd)) (named ''location'' nd)) = Some ls"
    using assms(1) by (auto simp: vhost_of_def bind_eq_Some_conv)
  have "conf_str (pattern_str l) \<and> conf_str (loc_root l)" if l: "l \<in> set ls" for l
  proof -
    obtain x where x: "x \<in> set (named ''location'' nd)" "loc_of sos (own_or pr nd) x = Some l"
      using those_map_in [OF v(3) l] by blast
    from loc_of_ok [OF x(2) texts_ok_named [OF x(1) assms(2)] own_or_ok [OF assms(2,3)]] show ?thesis .
  qed
  then show ?thesis using v assms(2) by (simp add: vhost_view_ok_def child_text_ok)
qed

lemma conf_holds_wf:
  assumes d: "described dlopen root = Some (rt, sos, vs)" and t: "texts_ok root" and c: "conf_holds root (rt, sos, vs) c"
  shows "conf_wf c"
proof -
  have rt: "child_text ''root'' root = Some rt" and vs: "those (map (vhost_of sos (server_string rt)) (named ''vhost'' root)) = Some vs"
    using d by (auto simp: described_def bind_eq_Some_conv)
  have ok: "vhost_view_ok v" if "v \<in> set vs" for v
    using those_map_in [OF vs that] t by (auto intro!: vhost_of_ok child_text_ok [OF rt] dest: texts_ok_named)
  have m: "map vhost_view (elts (vhosts c)) = vs" "elts (vhosts c) \<noteq> []" "default_vhost c = hd (elts (vhosts c))"
    using c by (auto simp: conf_holds_def)
  have "vhost_view_ok (vhost_view v)" if "v \<in> insert (default_vhost c) (set (elts (vhosts c)))" for v
  proof -
    have "v \<in> set (elts (vhosts c))" using that m(2,3) by auto
    then have "vhost_view v \<in> set vs" using m(1) by auto
    then show ?thesis by (rule ok)
  qed
  moreover have "conf_str (default_page c)" using c by (auto simp: conf_holds_def conf_str_def)
  ultimately show ?thesis by (auto simp: conf_wf_def vhost_view_ok_def vhost_view_def)
qed



section \<open>Destroying the configuration\<close>

lemma destroy_loop_stuck:
  assumes ret: "destroy_loop vs i freed = Some y" and n: "2 < length vs" "length (elts (locs (vs ! 2))) = 1"
  shows "i \<noteq> 2"
proof -
  have "2 < length vs \<longrightarrow> length (elts (locs (vs ! 2))) = 1 \<longrightarrow> i \<noteq> 2"
    by (rule destroy_loop.raw_induct
        [where P = "\<lambda>vs i freed y. 2 < length vs \<longrightarrow> length (elts (locs (vs ! 2))) = 1 \<longrightarrow> i \<noteq> 2", OF _ ret])
      (auto simp: Let_def numeral_2_eq_2 split: if_splits)
  with n show ?thesis by simp
qed

text \<open>With one virtual host the cleanup of the configuration frees the pattern of every location exactly once.\<close>

lemma conf_destroy_one_vhost:
  assumes "elts (vhosts c) = [v]"
  shows "conf_destroy c = Some (map (Pair 0) [0..<length (elts (locs v))])"
  using assms by (simp add: conf_destroy_def destroy_loop.simps Let_def)

text \<open>A configuration with hosts that have the given numbers of locations.\<close>

definition sample_loc_conf :: vhost_loc_conf_t where
  "sample_loc_conf = \<lparr>loc_root = shipped_root, pattern_str = server_string ''/'', handler_name = server_string ''default'',
     handler = Module_Default\<rparr>"

definition vhost_with :: "nat \<Rightarrow> vhost_conf_t" where
  "vhost_with n = \<lparr>vhost_name = server_string ''a'', vhost_root = shipped_root,
     locs = \<lparr>elts = replicate n sample_loc_conf, nalloc = 10\<rparr>\<rparr>"

definition conf_with :: "nat list \<Rightarrow> conf_t" where
  "conf_with ns = \<lparr>request_pool_size = 8192, connection_timeout = 30, client_header_size = 2048, large_client_header_size = 4096,
     content_body_buf_size = 4096, max_content_len = 1048576, conf_ip = server_string ''127.0.0.1'', conf_port = 80,
     conf_root = shipped_root, default_page = server_string ''index.html'', max_threads = 50, worker_num = 1,
     module_sos = \<lparr>elts = [], nalloc = 10\<rparr>, vhosts = \<lparr>elts = map vhost_with ns, nalloc = 10\<rparr>,
     default_vhost = vhost_with (hd ns)\<rparr>"

text \<open>C30: The two loops of the cleanup share their index: with three or more virtual hosts of which the first and the third
  have one location each, the cleanup frees the third one's pattern again and again and never ends.\<close>

theorem conf_destroy_diverges:
  assumes "2 < length (elts (vhosts c))" "length (elts (locs (elts (vhosts c) ! 0))) = 1" "length (elts (locs (elts (vhosts c) ! 2))) = 1"
  shows "conf_destroy c = None"
proof -
  let ?vs = "elts (vhosts c)"
  have "destroy_loop ?vs 0 [] = destroy_loop ?vs 2 [(0, 0)]"
    using assms(1,2) by (subst destroy_loop.simps) (auto simp: numeral_2_eq_2)
  with destroy_loop_stuck [of ?vs 2 "[(0, 0)]"] assms show ?thesis
    by (cases "destroy_loop ?vs 2 [(0, 0)]") (auto simp: conf_destroy_def)
qed

theorem conf_destroy_diverges_witness: "conf_destroy (conf_with [1, 1, 1]) = None"
  using conf_destroy_diverges [of "conf_with [1, 1, 1]"] by (simp add: conf_with_def vhost_with_def)

end
