(* ===== verification/Master.thy ===== *)
theory Master
  imports Conf_Correct Server
begin

text \<open>
  The processes (\<open>src/main.c\<close>): the options, the start of the server, the signals and the master process that replaces a worker
  which has ended. The file system, the libraries, the logger, the socket calls and \<open>fork\<close> answer through a record of
  the surroundings; processes that end and signals are events of the master's machine.
\<close>

section \<open>Options\<close>

datatype command_option = Opt_c string | Opt_l string | Opt_unknown

definition MAX_CONF_LEN :: nat where
  "MAX_CONF_LEN = 512"

definition XWP_CONF_PATH :: string where
  "XWP_CONF_PATH = ''../conf/xwp.xml''"

definition LOG_CONF_PATH :: string where
  "LOG_CONF_PATH = ''../conf/zlog.conf''"

text \<open>\<open>strncpy(buffer, text, MAX_CONF_LEN)\<close> fills the whole buffer, and leaves no NUL when the text is as long.\<close>

definition option_buffer :: "string \<Rightarrow> region" where
  "option_buffer t = take MAX_CONF_LEN (t @ replicate MAX_CONF_LEN NUL)"

fun read_options :: "command_option list \<Rightarrow> region \<Rightarrow> region \<Rightarrow> (region \<times> region) option" where
  "read_options [] cb lb = Some (cb, lb)"
| "read_options (Opt_c t # os) cb lb = read_options os (option_buffer t) lb"
| "read_options (Opt_l t # os) cb lb = read_options os cb (option_buffer t)"
| "read_options (Opt_unknown # os) cb lb = None"

definition or_default :: "string \<Rightarrow> region \<Rightarrow> region" where
  "or_default dflt b = (if b ! 0 = NUL then option_buffer dflt else b)"

definition path_in :: "region \<Rightarrow> string res" where
  "path_in b = (if nul_from b 0 then Ret (cstr_at b 0) else Crash Out_Of_Bounds)"

section \<open>Signals and the master process\<close>

datatype signal = SIGINT | SIGTERM | SIGCHLD | Other_Signal

datatype master_pc = M_Loop | M_Check nat | M_Exit

text \<open>\<open>s_worker_processes\<close>, \<open>s_worker_count\<close>, \<open>s_exit_flag\<close> and \<open>s_child_exited\<close>, the master's place in its loop, and the kernel's
  table of its children: those that run and those that have ended and wait to be asked for.\<close>

record master_t =
  worker_processes :: "int list"
  worker_count :: nat
  exit_flag :: bool
  child_exited :: bool
  master_pc :: master_pc
  live :: "int list"
  zombies :: "int list"

fun xwp_signal_handler :: "signal \<Rightarrow> master_t \<Rightarrow> master_t" where
  "xwp_signal_handler SIGINT m = m\<lparr>exit_flag := True\<rparr>"
| "xwp_signal_handler SIGTERM m = m\<lparr>exit_flag := True\<rparr>"
| "xwp_signal_handler SIGCHLD m = m\<lparr>child_exited := True\<rparr>"
| "xwp_signal_handler Other_Signal m = m"

text \<open>\<open>fork\<close> in the parent: a new process or a failure.\<close>

definition fork_ok :: "int \<Rightarrow> master_t \<Rightarrow> bool" where
  "fork_ok pid m \<longleftrightarrow> pid \<noteq> 0 \<and> (0 < pid \<longrightarrow> pid \<notin> set (live m) \<and> pid \<notin> set (zombies m))"

definition forked :: "nat \<Rightarrow> int \<Rightarrow> master_t \<Rightarrow> master_t" where
  "forked i pid m = (if 0 < pid then m\<lparr>worker_processes := (worker_processes m)[i := pid], live := pid # live m\<rparr> else m)"

text \<open>One entry of the inner loop: \<open>waitpid(..., WNOHANG)\<close> is positive for a process that has ended, which it removes.\<close>

definition check_worker :: "nat \<Rightarrow> int \<Rightarrow> master_t \<Rightarrow> master_t option" where
  "check_worker i pid m =
     (let w = worker_processes m ! i in
      if w \<in> set (zombies m) then
        (let m1 = m\<lparr>zombies := filter (\<lambda>z. z \<noteq> w) (zombies m)\<rparr> in
         if exit_flag m then Some m1 else if fork_ok pid m1 then Some (forked i pid m1) else None)
      else Some m)"

text \<open>The steps of \<open>master_main\<close>, with the answer \<open>fork\<close> gives if it is called.\<close>

definition master_main_step :: "int \<Rightarrow> master_t \<Rightarrow> master_t option" where
  "master_main_step pid m = (case master_pc m of
       M_Loop \<Rightarrow>
         Some (if exit_flag m then m\<lparr>master_pc := M_Exit\<rparr>
               else if child_exited m then m\<lparr>child_exited := False, master_pc := M_Check 0\<rparr>
               else m)
     | M_Check i \<Rightarrow>
         if i < worker_count m then map_option (\<lambda>m'. m'\<lparr>master_pc := M_Check (Suc i)\<rparr>) (check_worker i pid m)
         else Some (m\<lparr>master_pc := M_Loop\<rparr>)
     | M_Exit \<Rightarrow> None)"

inductive master_step :: "master_t \<Rightarrow> master_t \<Rightarrow> bool" where
  by_master: "master_main_step pid m = Some m' \<Longrightarrow> master_step m m'"
| by_signal: "master_step m (xwp_signal_handler sg m)"
| by_exit: "pid \<in> set (live m) \<Longrightarrow> master_step m (xwp_signal_handler SIGCHLD
    (m\<lparr>live := filter (\<lambda>p. p \<noteq> pid) (live m), zombies := pid # zombies m\<rparr>))"

section \<open>Starting\<close>

record surroundings =
  sr_files :: "string \<Rightarrow> string option"
  sr_dlopen :: dl
  sr_log_init :: "string \<Rightarrow> bool"
  sr_socket :: int
  sr_setsockopt :: bool
  sr_bind :: bool
  sr_listen :: bool
  sr_forks :: "int list"

datatype main_result = Main_Usage | Main_No_Log | Main_No_Listen | Main_Master conf_t int master_t

text \<open>The loop that starts the workers; with more than one, a failing \<open>fork\<close> would leave a gap before the count.\<close>

fun start_workers :: "nat \<Rightarrow> nat \<Rightarrow> int list \<Rightarrow> master_t \<Rightarrow> master_t" where
  "start_workers i n (pid # pids) m =
     (if i < n then start_workers (Suc i) n pids
        (if 0 < pid then (forked i pid m)\<lparr>worker_count := Suc (worker_count m)\<rparr> else m) else m)"
| "start_workers i n [] m = m"

definition no_workers :: master_t where
  "no_workers = \<lparr>worker_processes = replicate 32 0, worker_count = 0, exit_flag = False, child_exited = False,
     master_pc = M_Loop, live = [], zombies = []\<rparr>"

definition main :: "surroundings \<Rightarrow> command_option list \<Rightarrow> main_result res" where
  "main sr os = (case read_options os (replicate MAX_CONF_LEN NUL) (replicate MAX_CONF_LEN NUL) of
       None \<Rightarrow> Ret Main_Usage
     | Some (cb, lb) \<Rightarrow>
         bnd (path_in (or_default LOG_CONF_PATH lb)) (\<lambda>log_conf_file.
         if \<not> sr_log_init sr log_conf_file then Ret Main_No_Log
         else
           bnd (path_in (or_default XWP_CONF_PATH cb)) (\<lambda>xwp_conf_file.
           bnd (conf_parse (sr_dlopen sr) (sr_files sr xwp_conf_file) True) (\<lambda>cf.
           bnd (open_listen_fd (conf_port cf) (max_threads cf) (sr_socket sr) (sr_setsockopt sr) (sr_bind sr) (sr_listen sr)) (\<lambda>(fd, fds).
           if fd < 0 then Ret Main_No_Listen
           else let cf1 = cf\<lparr>worker_num := 1\<rparr> in
             Ret (Main_Master cf1 fd (start_workers 0 (nat (worker_num cf1)) (sr_forks sr) no_workers)))))))"

text \<open>A worker is a server over the configuration.\<close>

definition worker_main :: "conf_t \<Rightarrow> server_t res" where
  "worker_main cf = server_create cf"

section \<open>Options and start\<close>

lemma option_buffer_path:
  assumes "length t < MAX_CONF_LEN" "NUL \<notin> set t"
  shows "path_in (option_buffer t) = Ret t" "option_buffer t ! 0 = NUL \<longleftrightarrow> t = []"
proof -
  obtain k where k: "MAX_CONF_LEN = Suc (length t + k)" using assms(1) less_imp_Suc_add by blast
  then have "MAX_CONF_LEN - length t = Suc k" by simp
  then have b: "option_buffer t = t @ NUL # replicate k NUL" using assms(1) by (simp add: option_buffer_def)
  have "takeWhile (\<lambda>c. c \<noteq> NUL) (t @ NUL # replicate k NUL) = t" using assms(2) by (subst takeWhile_append2) auto
  then show "path_in (option_buffer t) = Ret t" unfolding b by (simp add: path_in_def nul_from_def cstr_at_def)
  show "option_buffer t ! 0 = NUL \<longleftrightarrow> t = []" unfolding b using assms(2) by (cases t) auto
qed

lemma option_buffer_full:
  assumes "MAX_CONF_LEN \<le> length t" "NUL \<notin> set t"
  shows "path_in (option_buffer t) = Crash Out_Of_Bounds" "option_buffer t ! 0 \<noteq> NUL"
proof -
  have b: "option_buffer t = take MAX_CONF_LEN t" using assms(1) by (simp add: option_buffer_def)
  have n: "NUL \<notin> set (take MAX_CONF_LEN t)" using assms(2) by (auto dest: in_set_takeD)
  then show "path_in (option_buffer t) = Crash Out_Of_Bounds" by (simp add: path_in_def b nul_from_def)
  have "option_buffer t ! 0 \<in> set (take MAX_CONF_LEN t)" unfolding b using assms(1) by (intro nth_mem) (auto simp: MAX_CONF_LEN_def)
  with n show "option_buffer t ! 0 \<noteq> NUL" by metis
qed

lemma default_paths:
  "path_in (or_default XWP_CONF_PATH (replicate MAX_CONF_LEN NUL)) = Ret XWP_CONF_PATH"
  "path_in (or_default LOG_CONF_PATH (replicate MAX_CONF_LEN NUL)) = Ret LOG_CONF_PATH"
  using option_buffer_path(1) [of XWP_CONF_PATH] option_buffer_path(1) [of LOG_CONF_PATH]
  by (simp_all add: or_default_def XWP_CONF_PATH_def LOG_CONF_PATH_def MAX_CONF_LEN_def)


text \<open>The surroundings in which the shipped configuration is at its place.\<close>

definition shipped_surroundings :: surroundings where
  "shipped_surroundings = \<lparr>sr_files = (\<lambda>f. if f = ''xwp.xml'' then Some (xml_print [shipped_conf]) else None), sr_dlopen = shipped_libs,
     sr_log_init = (\<lambda>_. True), sr_socket = 3, sr_setsockopt = True, sr_bind = True, sr_listen = True, sr_forks = [4711]\<rparr>"


text \<open>A path of 512 characters or more given with \<open>-c\<close> fills its buffer without a terminating NUL, and the program reads past it.\<close>

lemma long_option_overreads:
  assumes "MAX_CONF_LEN \<le> length f" "NUL \<notin> set f" "sr_log_init sr LOG_CONF_PATH"
  shows "main sr [Opt_c f] = Crash Out_Of_Bounds"
  using option_buffer_full [OF assms(1,2)] default_paths(2) assms(3) by (simp add: main_def or_default_def [of XWP_CONF_PATH])

section \<open>The master\<close>

text \<open>A worker that has ended is known to the master: the flag is up, or the loop has not yet come to it.\<close>

definition noticed :: "master_t \<Rightarrow> bool" where
  "noticed m \<longleftrightarrow> (\<forall>i < worker_count m. worker_processes m ! i \<in> set (zombies m) \<longrightarrow>
     child_exited m \<or> (\<exists>j \<le> i. master_pc m = M_Check j))"

definition started :: "master_t \<Rightarrow> bool" where
  "started m \<longleftrightarrow> (\<exists>n pids. m = start_workers 0 n pids no_workers)"

lemma start_workers_frame:
  "zombies (start_workers i n pids m) = zombies m \<and> master_pc (start_workers i n pids m) = master_pc m
    \<and> exit_flag (start_workers i n pids m) = exit_flag m"
  by (induction i n pids m rule: start_workers.induct) (auto simp: forked_def)

lemma check_worker_frame:
  assumes "check_worker i pid m = Some m'"
  shows "worker_count m' = worker_count m \<and> child_exited m' = child_exited m \<and> exit_flag m' = exit_flag m
    \<and> set (zombies m') \<subseteq> set (zombies m) \<and> worker_processes m ! i \<notin> set (zombies m')
    \<and> (\<forall>j. j \<noteq> i \<longrightarrow> worker_processes m' ! j = worker_processes m ! j)"
  using assms by (auto simp: check_worker_def forked_def Let_def split: if_splits)

lemma check_worker_self:
  assumes "check_worker i pid m = Some m'"
  shows "worker_processes m' ! i \<notin> set (zombies m')"
  using assms by (cases "i < length (worker_processes m)")
    (auto simp: check_worker_def forked_def fork_ok_def Let_def list_update_beyond split: if_splits)

lemma check_worker_noticed:
  assumes n: "noticed m" and pc: "master_pc m = M_Check i" and c: "check_worker i pid m = Some m'"
  shows "noticed (m'\<lparr>master_pc := M_Check (Suc i)\<rparr>)"
  unfolding noticed_def
proof (intro allI impI)
  fix j assume j: "j < worker_count (m'\<lparr>master_pc := M_Check (Suc i)\<rparr>)"
    and z: "worker_processes (m'\<lparr>master_pc := M_Check (Suc i)\<rparr>) ! j \<in> set (zombies (m'\<lparr>master_pc := M_Check (Suc i)\<rparr>))"
  have ji: "j \<noteq> i" using z check_worker_self [OF c] by auto
  then have "worker_processes m ! j \<in> set (zombies m)" "j < worker_count m" using j z check_worker_frame [OF c] by auto
  then have "child_exited m \<or> (\<exists>k \<le> j. M_Check i = M_Check k)" using n pc by (auto simp: noticed_def)
  then show "child_exited (m'\<lparr>master_pc := M_Check (Suc i)\<rparr>) \<or> (\<exists>k \<le> j. master_pc (m'\<lparr>master_pc := M_Check (Suc i)\<rparr>) = M_Check k)"
    using ji check_worker_frame [OF c] by auto
qed

lemma master_step_noticed: "noticed m \<Longrightarrow> master_step m m' \<Longrightarrow> noticed m'"
proof (erule master_step.cases)
  fix pid m1 m2
  assume n: "noticed m" and eq: "m = m1" "m' = m2" and s: "master_main_step pid m1 = Some m2"
  show "noticed m'"
  proof (cases "master_pc m")
    case (M_Check i)
    show ?thesis
    proof (cases "i < worker_count m")
      case True
      then show ?thesis using s n M_Check eq check_worker_noticed [OF n M_Check] by (auto simp: master_main_step_def)
    next
      case False
      then show ?thesis using s n M_Check eq by (fastforce simp: master_main_step_def noticed_def)
    qed
  qed (use s n eq in \<open>auto simp: master_main_step_def noticed_def split: if_splits\<close>)
next
  fix m1 sg
  show "noticed m \<Longrightarrow> m = m1 \<Longrightarrow> m' = xwp_signal_handler sg m1 \<Longrightarrow> noticed m'"
    by (cases sg) (auto simp: noticed_def)
next
  fix pid m1
  show "noticed m \<Longrightarrow> m = m1 \<Longrightarrow> m' = xwp_signal_handler SIGCHLD (m1\<lparr>live := filter (\<lambda>p. p \<noteq> pid) (live m1), zombies := pid # zombies m1\<rparr>)
      \<Longrightarrow> noticed m'"
    by (auto simp: noticed_def)
qed

interpretation master_run: inductive_invariant started master_step noticed
proof unfold_locales
  show "noticed m" if "started m" for m
    using that start_workers_frame [of 0 _ _ no_workers] by (auto simp: started_def noticed_def no_workers_def)
qed (rule master_step_noticed)

text \<open>C27: No worker's end is missed: in every state the master reaches, a worker that has ended is one the flag or the running check still leads to, even
  when it ends in the middle of a check. So when the master is about to sleep and its worker has ended, one more turn of the loop, with a
  \<open>fork\<close> that succeeds, removes the old process and puts a new one in its place.\<close>

theorem master_restarts_worker:
  assumes r: "reach started master_step m" and m: "worker_count m = 1" "worker_processes m \<noteq> []" "master_pc m = M_Loop" "\<not> exit_flag m"
    and z: "worker_processes m ! 0 \<in> set (zombies m)" and p: "0 < pid" "pid \<notin> set (live m)" "pid \<notin> set (zombies m)"
  shows "\<exists>m'. run_actions master_main_step [pid, pid, pid] m = Some m' \<and> master_pc m' = M_Loop
    \<and> worker_processes m' ! 0 = pid \<and> pid \<in> set (live m') \<and> worker_processes m ! 0 \<notin> set (zombies m')"
proof -
  have "noticed m" by (rule master_run.reach_inv [OF r])
  then have "child_exited m" using m(1,3) z by (auto simp: noticed_def)
  with m z p show ?thesis
    by (auto simp: master_main_step_def check_worker_def fork_ok_def forked_def Let_def)
qed

definition one_worker :: master_t where
  "one_worker = start_workers 0 1 [4711] no_workers"

definition worker_ended :: master_t where
  "worker_ended = one_worker\<lparr>live := [], zombies := [4711], child_exited := True\<rparr>"

lemma worker_ended_reach: "reach started master_step worker_ended"
proof -
  have "reach started master_step one_worker" by (rule reach_start) (unfold started_def one_worker_def, blast)
  moreover have "master_step one_worker worker_ended"
    using master_step.by_exit [of 4711 one_worker] by (simp add: worker_ended_def one_worker_def no_workers_def forked_def)
  ultimately show ?thesis by (rule reach_step)
qed

theorem master_restarts_worker_witness:
  "\<exists>m'. run_actions master_main_step [4712, 4712, 4712] worker_ended = Some m' \<and> worker_processes m' ! 0 = 4712 \<and> 4712 \<in> set (live m')"
  using master_restarts_worker [OF worker_ended_reach, of 4712]
  by (auto simp: worker_ended_def one_worker_def no_workers_def forked_def)

text \<open>A master whose only worker is gone without being replaced.\<close>

definition bereft :: "master_t \<Rightarrow> bool" where
  "bereft m \<longleftrightarrow> worker_count m = 1 \<and> live m = [] \<and> worker_processes m ! 0 \<notin> set (zombies m)"

lemma bereft_stays: "bereft m \<Longrightarrow> master_step m m' \<Longrightarrow> bereft m'"
proof (erule master_step.cases)
  fix pid m1 m2
  show "bereft m \<Longrightarrow> m = m1 \<Longrightarrow> m' = m2 \<Longrightarrow> master_main_step pid m1 = Some m2 \<Longrightarrow> bereft m'"
    by (auto simp: bereft_def master_main_step_def check_worker_def Let_def split: master_pc.splits if_splits)
next
  fix m1 sg
  show "bereft m \<Longrightarrow> m = m1 \<Longrightarrow> m' = xwp_signal_handler sg m1 \<Longrightarrow> bereft m'" by (cases sg) (auto simp: bereft_def)
qed (simp add: bereft_def)

interpretation bereft_run: inductive_invariant "\<lambda>x. x = m \<and> bereft m" master_step bereft for m
  by unfold_locales (auto intro: bereft_stays)

text \<open>When the \<open>fork\<close> that should replace a worker fails, the master never tries again: it goes on without exiting, and in no later state is
  there a worker.\<close>

lemma failed_fork_loses_worker:
  "\<exists>m. reach started master_step m \<and> \<not> exit_flag m \<and> (\<forall>m'. reach (\<lambda>x. x = m) master_step m' \<longrightarrow> live m' = [])"
proof -
  let ?m = "worker_ended\<lparr>child_exited := False, zombies := [], master_pc := M_Check 1\<rparr>"
  have "run_actions master_main_step [- 1, - 1] worker_ended = Some ?m"
    by (simp add: worker_ended_def one_worker_def no_workers_def master_main_step_def check_worker_def fork_ok_def forked_def Let_def)
  from run_actions_reach [OF this master_step.by_master worker_ended_reach] have r: "reach started master_step ?m" .
  have b: "bereft ?m" by (simp add: bereft_def worker_ended_def one_worker_def no_workers_def forked_def)
  have "bereft m'" if "reach (\<lambda>x. x = ?m) master_step m'" for m'
    using bereft_run.reach_inv [of ?m m'] that b by simp
  moreover have "\<not> exit_flag ?m" by (simp add: worker_ended_def one_worker_def no_workers_def forked_def)
  ultimately show ?thesis using r by (auto simp: bereft_def)
qed

end
