(* ===== verification/Zlog_Buf.thy ===== *)
theory Zlog_Buf
  imports Prelude
begin

text \<open>
  The buffer a log message is put together in (\<open>zlog/src/buf.c\<close>): a block that grows up to a limit, behind which the message is cut and ends in a mark.

  \<^item> \<open>start\<close> is the block, or \<open>None\<close> after a failed \<open>realloc\<close>; \<open>tail\<close>, \<open>buf_end\<close> and \<open>end_plus_1\<close> are offsets into it. Every write checks its range.
  \<^item> The text \<open>vsnprintf\<close> would print is an argument (\<open>None\<close> for an encoding error).
  \<^item> \<open>Zlog_Buf_Text\<close> shows that each of the six writing functions appends a text and cuts the result at the limit.
\<close>

unbundle bit_operations_syntax

section \<open>The buffer\<close>

record zlog_buf =
  start :: "region option"
  tail :: nat
  buf_end :: nat
  end_plus_1 :: nat
  size_min :: nat
  size_max :: nat
  size_real :: nat
  truncate_str :: string
  truncate_str_len :: nat

definition ZLOG_INT32_LEN :: nat where
  "ZLOG_INT32_LEN = 11"

definition ZLOG_INT64_LEN :: nat where
  "ZLOG_INT64_LEN = 20"

text \<open>\<open>memcpy\<close> and \<open>memset\<close> into the block; copying nothing to a null pointer does nothing.\<close>

definition put_at :: "zlog_buf \<Rightarrow> nat \<Rightarrow> string \<Rightarrow> zlog_buf res" where
  "put_at b p s =
     (case start b of
        None \<Rightarrow> if s = [] then Ret b else Crash Null_Deref
      | Some r \<Rightarrow> bnd (write_at r p s) (\<lambda>r'. Ret (b\<lparr>start := Some r'\<rparr>)))"

text \<open>The size of the array \<open>truncate_str\<close> is \<open>MAXLEN_PATH + 1\<close>.\<close>

definition zlog_buf_new :: "bool \<Rightarrow> bool \<Rightarrow> nat \<Rightarrow> nat \<Rightarrow> string option \<Rightarrow> zlog_buf option" where
  "zlog_buf_new mem1 mem2 buf_size_min buf_size_max a_truncate_str =
     (if buf_size_min = 0 then None
      else if buf_size_max \<noteq> 0 \<and> buf_size_max < buf_size_min then None
      else if \<not> mem1 then None
      else if (case a_truncate_str of None \<Rightarrow> False | Some s \<Rightarrow> length s > 1024) then None
      else if \<not> mem2 then None
      else Some \<lparr>start = Some (replicate buf_size_min NUL), tail = 0, buf_end = buf_size_min - 1, end_plus_1 = buf_size_min,
                 size_min = buf_size_min, size_max = buf_size_max, size_real = buf_size_min,
                 truncate_str = (case a_truncate_str of None \<Rightarrow> [] | Some s \<Rightarrow> s),
                 truncate_str_len = (case a_truncate_str of None \<Rightarrow> 0 | Some s \<Rightarrow> length s)\<rparr>)"

text \<open>The offset \<open>tail - truncate_str_len\<close> is cut off at \<open>start\<close>. With no block the computed pointer lies in front of address 0.\<close>

definition zlog_buf_truncate :: "zlog_buf \<Rightarrow> zlog_buf res" where
  "zlog_buf_truncate b =
     (if truncate_str b = [] then Ret b
      else if start b = None then Crash Null_Deref
      else let p = tail b - truncate_str_len b; n = tail b - p in put_at b p (take n (truncate_str b)))"

text \<open>\<open>1.5 * increment\<close> is a double, cut to an integer. What \<open>realloc\<close> adds to the block is not read before it is written.\<close>

definition zlog_buf_resize :: "bool \<Rightarrow> zlog_buf \<Rightarrow> nat \<Rightarrow> int \<times> zlog_buf" where
  "zlog_buf_resize mem b increment =
     (if size_max b \<noteq> 0 \<and> size_real b \<ge> size_max b then (1, b)
      else
        let (new_size, rc) =
          (if size_max b = 0 then (size_real b + increment + increment div 2, 0)
           else if size_real b + increment \<le> size_max b then (size_real b + increment, 0)
           else (size_max b, 1)) in
        if \<not> mem then (-1, b\<lparr>start := None, tail := 0, buf_end := 0, end_plus_1 := 0\<rparr>)
        else (rc, b\<lparr>start := Some (case start b of
                         None \<Rightarrow> replicate new_size NUL
                       | Some r \<Rightarrow> take new_size r @ replicate (new_size - length r) NUL),
                    size_real := new_size, end_plus_1 := new_size, buf_end := new_size - 1\<rparr>))"

section \<open>Writing\<close>

text \<open>\<open>vsnprintf(tail, size_left, format, ap)\<close> for the text \<open>s\<close>.\<close>

definition vsnprintf_at :: "zlog_buf \<Rightarrow> nat \<Rightarrow> string \<Rightarrow> zlog_buf res" where
  "vsnprintf_at b size_left s = (if size_left = 0 then Ret b else put_at b (tail b) (take (size_left - 1) s @ [NUL]))"

definition zlog_buf_vprintf :: "bool \<Rightarrow> zlog_buf \<Rightarrow> string option \<Rightarrow> (int \<times> zlog_buf) res" where
  "zlog_buf_vprintf mem b printed =
     (if start b = None then Ret (-1, b)
      else
        case printed of
          None \<Rightarrow> Ret (-1, b)
        | Some s \<Rightarrow>
            let size_left = end_plus_1 b - tail b; nwrite = length s in
            bnd (vsnprintf_at b size_left s) (\<lambda>b1.
            if nwrite < size_left then Ret (0, b1\<lparr>tail := tail b1 + nwrite\<rparr>)
            else
              let (rc, b2) = zlog_buf_resize mem b1 (nwrite - size_left + 1) in
              if rc > 0 then
                let size_left = end_plus_1 b2 - tail b2 in
                bnd (vsnprintf_at b2 size_left s) (\<lambda>b3.
                bnd (zlog_buf_truncate (b3\<lparr>tail := tail b3 + size_left - 1\<rparr>)) (\<lambda>b4. Ret (1, b4)))
              else if rc < 0 then Ret (-1, b2)
              else
                let size_left = end_plus_1 b2 - tail b2 in
                bnd (vsnprintf_at b2 size_left s) (\<lambda>b3. Ret (0, b3\<lparr>tail := tail b3 + nwrite\<rparr>))))"

text \<open>The digit loops, writing backwards from \<open>p\<close> into an array that must not be left at the front.\<close>

fun dec_digits :: "nat \<Rightarrow> nat \<Rightarrow> string \<Rightarrow> string res" where
  "dec_digits 0 v ds = Crash Out_Of_Bounds"
| "dec_digits (Suc p) v ds =
     (let ds' = digit_char (v mod 10) # ds in if v div 10 = 0 then Ret ds' else dec_digits p (v div 10) ds')"

definition hex_char :: "nat \<Rightarrow> char" where
  "hex_char d = ''0123456789abcdef'' ! d"

fun hex_digits :: "nat \<Rightarrow> 32 word \<Rightarrow> string \<Rightarrow> string res" where
  "hex_digits 0 v ds = Crash Out_Of_Bounds"
| "hex_digits (Suc p) v ds =
     (let ds' = hex_char (unat (v AND 15)) # ds in if drop_bit 4 v = 0 then Ret ds' else hex_digits p (drop_bit 4 v) ds')"

text \<open>The common rest of \<open>zlog_buf_printf_dec32\<close>, \<open>zlog_buf_printf_dec64\<close> and \<open>zlog_buf_printf_hex\<close>: the digits \<open>ds\<close> behind zeros up to \<open>width\<close>. The
  widths are constants from 0 to 10.\<close>

definition put_number :: "bool \<Rightarrow> zlog_buf \<Rightarrow> string \<Rightarrow> nat \<Rightarrow> (int \<times> zlog_buf) res" where
  "put_number mem b ds width =
     (let num_len = length ds;
          (zero_len, out_len) = (if width > num_len then (width - num_len, width) else (0, num_len));
          q = tail b + out_len in
      if q > buf_end b then
        let (rc, b1) = zlog_buf_resize mem b (out_len - (buf_end b - tail b)) in
        if rc > 0 then
          let len_left = buf_end b1 - tail b1;
              (zero_len, num_len) = (if len_left \<le> zero_len then (len_left, 0) else (zero_len, len_left - zero_len)) in
          bnd (put_at b1 (tail b1) (replicate zero_len (CHR ''0''))) (\<lambda>b2.
          bnd (put_at b2 (tail b2 + zero_len) (take num_len ds)) (\<lambda>b3.
          bnd (zlog_buf_truncate (b3\<lparr>tail := tail b3 + len_left\<rparr>)) (\<lambda>b4. Ret (1, b4))))
        else if rc < 0 then Ret (-1, b1)
        else
          bnd (put_at b1 (tail b1) (replicate zero_len (CHR ''0''))) (\<lambda>b2.
          bnd (put_at b2 (tail b2 + zero_len) ds) (\<lambda>b3. Ret (0, b3\<lparr>tail := tail b1 + out_len\<rparr>)))
      else
        bnd (put_at b (tail b) (replicate zero_len (CHR ''0''))) (\<lambda>b2.
        bnd (put_at b2 (tail b2 + zero_len) ds) (\<lambda>b3. Ret (0, b3\<lparr>tail := q\<rparr>))))"

definition zlog_buf_printf_dec32 :: "bool \<Rightarrow> zlog_buf \<Rightarrow> 32 word \<Rightarrow> nat \<Rightarrow> (int \<times> zlog_buf) res" where
  "zlog_buf_printf_dec32 mem b ui32 width =
     (if start b = None then Ret (-1, b)
      else bnd (dec_digits ZLOG_INT32_LEN (unat ui32) []) (\<lambda>ds. put_number mem b ds width))"

definition zlog_buf_printf_dec64 :: "bool \<Rightarrow> zlog_buf \<Rightarrow> 64 word \<Rightarrow> nat \<Rightarrow> (int \<times> zlog_buf) res" where
  "zlog_buf_printf_dec64 mem b ui64 width =
     (if start b = None then Ret (-1, b)
      else
        bnd (if ui64 \<le> 0xffffffff then dec_digits ZLOG_INT64_LEN (unat (ucast ui64 :: 32 word)) []
             else dec_digits ZLOG_INT64_LEN (unat ui64) []) (\<lambda>ds. put_number mem b ds width))"

definition zlog_buf_printf_hex :: "bool \<Rightarrow> zlog_buf \<Rightarrow> 32 word \<Rightarrow> nat \<Rightarrow> (int \<times> zlog_buf) res" where
  "zlog_buf_printf_hex mem b ui32 width =
     (if start b = None then Ret (-1, b)
      else bnd (hex_digits ZLOG_INT32_LEN ui32 []) (\<lambda>ds. put_number mem b ds width))"

definition zlog_buf_append :: "bool \<Rightarrow> zlog_buf \<Rightarrow> string \<Rightarrow> (int \<times> zlog_buf) res" where
  "zlog_buf_append mem b str =
     (let p = tail b + length str in
      if p > buf_end b then
        let (rc, b1) = zlog_buf_resize mem b (length str - (buf_end b - tail b)) in
        if rc > 0 then
          let len_left = buf_end b1 - tail b1 in
          bnd (put_at b1 (tail b1) (take len_left str)) (\<lambda>b2.
          bnd (zlog_buf_truncate (b2\<lparr>tail := tail b2 + len_left\<rparr>)) (\<lambda>b3. Ret (1, b3)))
        else if rc < 0 then Ret (-1, b1)
        else bnd (put_at b1 (tail b1) str) (\<lambda>b2. Ret (0, b2\<lparr>tail := tail b1 + length str\<rparr>))
      else bnd (put_at b (tail b) str) (\<lambda>b2. Ret (0, b2\<lparr>tail := p\<rparr>)))"

text \<open>The two \<open>memset\<close>/\<open>memcpy\<close> pairs of \<open>zlog_buf_adjust_append\<close>.\<close>

definition put_adjusted :: "zlog_buf \<Rightarrow> bool \<Rightarrow> string \<Rightarrow> nat \<Rightarrow> nat \<Rightarrow> zlog_buf res" where
  "put_adjusted b left_adjust str source_len space_len =
     (if left_adjust
      then bnd (put_at b (tail b + source_len) (replicate space_len (CHR '' ''))) (\<lambda>b1. put_at b1 (tail b1) (take source_len str))
      else bnd (put_at b (tail b) (replicate space_len (CHR '' ''))) (\<lambda>b1. put_at b1 (tail b1 + space_len) (take source_len str)))"

definition zlog_buf_adjust_append :: "bool \<Rightarrow> zlog_buf \<Rightarrow> string \<Rightarrow> bool \<Rightarrow> nat \<Rightarrow> nat \<Rightarrow> (int \<times> zlog_buf) res" where
  "zlog_buf_adjust_append mem b str left_adjust in_width out_width =
     (if start b = None then Ret (-1, b)
      else
        let source_len = (if out_width = 0 \<or> length str < out_width then length str else out_width);
            (append_len, space_len) = (if in_width = 0 \<or> source_len \<ge> in_width then (source_len, 0) else (in_width, in_width - source_len)) in
        if append_len > buf_end b - tail b then
          let (rc, b1) = zlog_buf_resize mem b (append_len - (buf_end b - tail b)) in
          if rc > 0 then
            let append_len = buf_end b1 - tail b1;
                (source_len, space_len) =
                  (if left_adjust
                   then (if source_len < append_len then (source_len, append_len - source_len) else (append_len, 0))
                   else (if space_len < append_len then (append_len - space_len, space_len) else (0, append_len))) in
            bnd (put_adjusted b1 left_adjust str source_len space_len) (\<lambda>b2.
            bnd (zlog_buf_truncate (b2\<lparr>tail := tail b2 + append_len\<rparr>)) (\<lambda>b3. Ret (1, b3)))
          else if rc < 0 then Ret (-1, b1)
          else bnd (put_adjusted b1 left_adjust str source_len space_len) (\<lambda>b2. Ret (0, b2\<lparr>tail := tail b2 + append_len\<rparr>))
        else bnd (put_adjusted b left_adjust str source_len space_len) (\<lambda>b2. Ret (0, b2\<lparr>tail := tail b2 + append_len\<rparr>)))"

text \<open>The macros \<open>zlog_buf_restart\<close> and \<open>zlog_buf_seal\<close>.\<close>

definition zlog_buf_restart :: "zlog_buf \<Rightarrow> zlog_buf" where
  "zlog_buf_restart b = b\<lparr>tail := 0\<rparr>"

definition zlog_buf_seal :: "zlog_buf \<Rightarrow> zlog_buf res" where
  "zlog_buf_seal b = put_at b (tail b) [NUL]"

end
