(* ===== verification/Zlog_Buf_Text.thy ===== *)
theory Zlog_Buf_Text
  imports Zlog_Buf
begin

text \<open>
  What the writing functions of \<open>Zlog_Buf\<close> do to the text of the buffer: each of them appends a text and cuts the result at the limit.
\<close>

section \<open>The text of a buffer and its limit\<close>

definition buf_ok :: "zlog_buf \<Rightarrow> bool" where
  "buf_ok b \<longleftrightarrow> (\<exists>r. start b = Some r \<and> length r = size_real b) \<and> 0 < size_real b \<and> end_plus_1 b = size_real b \<and> buf_end b = size_real b - 1
     \<and> tail b \<le> buf_end b \<and> (size_max b = 0 \<or> size_real b \<le> size_max b) \<and> truncate_str_len b = length (truncate_str b)"

definition buf_text :: "zlog_buf \<Rightarrow> string" where
  "buf_text b = take (tail b) (the (start b))"

text \<open>A text whose end is overwritten with a mark, and what a limit leaves of a text.\<close>

definition marked :: "string \<Rightarrow> string \<Rightarrow> string" where
  "marked m t = (let k = min (length t) (length m) in take (length t - k) t @ take k m)"

definition fits :: "zlog_buf \<Rightarrow> string \<Rightarrow> bool" where
  "fits b t \<longleftrightarrow> size_max b = 0 \<or> length t < size_max b"

definition limited :: "zlog_buf \<Rightarrow> string \<Rightarrow> string" where
  "limited b t = (if fits b t then t else marked (truncate_str b) (take (size_max b - 1) t))"

text \<open>The result of a call that had to append \<open>s\<close>.\<close>

definition appended :: "zlog_buf \<Rightarrow> string \<Rightarrow> int \<Rightarrow> zlog_buf \<Rightarrow> bool" where
  "appended b s rc b' \<longleftrightarrow> buf_ok b' \<and> buf_text b' = limited b (buf_text b @ s) \<and> rc = (if fits b (buf_text b @ s) then 0 else 1)
     \<and> size_max b' = size_max b \<and> truncate_str b' = truncate_str b"

lemma length_marked [simp]: "length (marked m t) = length t"
  by (simp add: marked_def Let_def)

lemma marked_Nil [simp]: "marked [] t = t"
  by (simp add: marked_def)

lemma marked_again: "marked m (marked m t) = marked m t"
  by (cases "length t \<le> length m") (simp_all add: marked_def Let_def)

lemma length_buf_text: "buf_ok b \<Longrightarrow> length (buf_text b) = tail b"
  by (auto simp: buf_ok_def buf_text_def)

lemma buf_okE:
  assumes "buf_ok b"
  obtains u v where "start b = Some (u @ v)" "length u = tail b" "buf_text b = u" "v \<noteq> []" "size_real b = length u + length v"
proof -
  from assms obtain r where r: "start b = Some r" "length r = size_real b" "tail b < size_real b" by (auto simp: buf_ok_def)
  then show ?thesis
    by (intro that [of "take (tail b) r" "drop (tail b) r"]) (auto simp: buf_text_def)
qed

section \<open>Writing into the block\<close>

lemma write_at_twice: "bnd (write_at r p s) (\<lambda>r'. write_at r' (p + length s) t) = write_at r p (s @ t)"
  by (auto simp: write_at_def ac_simps)

lemma write_at_twice_back: "bnd (write_at r (p + length s) t) (\<lambda>r'. write_at r' p s) = write_at r p (s @ t)"
  by (auto simp: write_at_def min_def add.assoc)

lemma put_at_fields:
  assumes "put_at b p s = Ret b'"
  shows "tail b' = tail b" "buf_end b' = buf_end b" "end_plus_1 b' = end_plus_1 b" "size_max b' = size_max b" "size_real b' = size_real b"
    "truncate_str b' = truncate_str b" "truncate_str_len b' = truncate_str_len b"
  using assms by (auto simp: put_at_def split: option.splits if_splits)

lemma put_at_twice: "bnd (put_at b p s) (\<lambda>b'. put_at b' (p + length s) t) = put_at b p (s @ t)"
proof (cases "start b")
  case (Some r)
  then show ?thesis
    by (cases "write_at r p s") (simp_all add: put_at_def flip: write_at_twice)
qed (simp add: put_at_def)

lemma put_at_twice_back: "bnd (put_at b (p + length s) t) (\<lambda>b'. put_at b' p s) = put_at b p (s @ t)"
proof (cases "start b")
  case (Some r)
  then show ?thesis
    by (cases "write_at r (p + length s) t") (simp_all add: put_at_def flip: write_at_twice_back)
qed (simp add: put_at_def)

lemma put_at_tail:
  assumes ok: "buf_ok b" and s: "tail b + length s \<le> size_real b"
  shows "\<exists>r. put_at b (tail b) s = Ret (b\<lparr>start := Some r\<rparr>) \<and> length r = size_real b \<and> take (tail b + length s) r = buf_text b @ s"
proof -
  obtain u v where b: "start b = Some (u @ v)" "length u = tail b" "buf_text b = u" "v \<noteq> []" "size_real b = length u + length v"
    by (rule buf_okE [OF ok])
  have "write_at (u @ v) (tail b) s = Ret (u @ s @ drop (length s) v)"
    using b s write_at_append [of s v u] by simp
  with b s show ?thesis by (auto simp: put_at_def)
qed

lemma wrote_tail:
  assumes ok: "buf_ok b" and s: "tail b + length s \<le> buf_end b"
  shows "\<exists>r. put_at b (tail b) s = Ret (b\<lparr>start := Some r\<rparr>) \<and> buf_ok (b\<lparr>start := Some r, tail := tail b + length s\<rparr>)
    \<and> buf_text (b\<lparr>start := Some r, tail := tail b + length s\<rparr>) = buf_text b @ s"
proof -
  have "tail b + length s \<le> size_real b" using ok s by (auto simp: buf_ok_def)
  from put_at_tail [OF ok this] obtain r where
    "put_at b (tail b) s = Ret (b\<lparr>start := Some r\<rparr>)" "length r = size_real b" "take (tail b + length s) r = buf_text b @ s" by blast
  with ok s show ?thesis by (auto simp: buf_ok_def buf_text_def)
qed

lemma truncate_marks:
  assumes ok: "buf_ok b"
  shows "\<exists>b'. zlog_buf_truncate b = Ret b' \<and> buf_ok b' \<and> buf_text b' = marked (truncate_str b) (buf_text b)
    \<and> size_max b' = size_max b \<and> truncate_str b' = truncate_str b"
proof (cases "truncate_str b = []")
  case True
  with ok show ?thesis by (simp add: zlog_buf_truncate_def)
next
  case False
  obtain u v where b: "start b = Some (u @ v)" "length u = tail b" "buf_text b = u" "v \<noteq> []" "size_real b = length u + length v"
    by (rule buf_okE [OF ok])
  define k where "k = min (length u) (length (truncate_str b))"
  let ?m = "take k (truncate_str b)"
  have k: "tail b - truncate_str_len b = length u - k" "tail b - (length u - k) = k" "length ?m = k" "k \<le> length u"
    using ok b by (auto simp: k_def buf_ok_def)
  have w: "write_at (u @ v) (length u - k) ?m = Ret (take (length u - k) u @ ?m @ v)"
    using k by (simp add: write_at_def)
  have "zlog_buf_truncate b = Ret (b\<lparr>start := Some (take (length u - k) u @ ?m @ v)\<rparr>)"
    using False b k w by (simp add: zlog_buf_truncate_def put_at_def Let_def)
  moreover have "marked (truncate_str b) u = take (length u - k) u @ ?m" by (simp add: marked_def k_def Let_def)
  ultimately show ?thesis using ok b k by (auto simp: buf_ok_def buf_text_def)
qed

lemma resize_cases:
  assumes ok: "buf_ok b" and n: "tail b + n > buf_end b" and r: "zlog_buf_resize True b (n - (buf_end b - tail b)) = (rc, b1)"
  shows "buf_ok b1 \<and> buf_text b1 = buf_text b \<and> tail b1 = tail b \<and> size_max b1 = size_max b \<and> truncate_str b1 = truncate_str b
    \<and> (rc = 0 \<and> tail b + n \<le> buf_end b1 \<and> (size_max b = 0 \<or> tail b + n < size_max b)
       \<or> rc = 1 \<and> size_max b \<noteq> 0 \<and> size_real b1 = size_max b \<and> size_max b \<le> tail b + n)"
proof -
  obtain u v where b: "start b = Some (u @ v)" "length u = tail b" "buf_text b = u" "v \<noteq> []" "size_real b = length u + length v"
    by (rule buf_okE [OF ok])
  let ?i = "n - (buf_end b - tail b)"
  have e: "buf_end b = size_real b - 1" "tail b \<le> buf_end b" "0 < size_real b" "truncate_str_len b = length (truncate_str b)"
    "size_max b = 0 \<or> size_real b \<le> size_max b" using ok by (auto simp: buf_ok_def)
  have grow: "size_real b + ?i = tail b + n + 1" using e n by simp
  have big: "buf_ok (b\<lparr>start := Some (take m (u @ v) @ replicate (m - length (u @ v)) NUL), size_real := m, end_plus_1 := m, buf_end := m - 1\<rparr>)
      \<and> buf_text (b\<lparr>start := Some (take m (u @ v) @ replicate (m - length (u @ v)) NUL), size_real := m, end_plus_1 := m, buf_end := m - 1\<rparr>) = u"
    if m: "size_real b \<le> m" "size_max b = 0 \<or> m \<le> size_max b" for m
  proof -
    obtain k where "m = Suc k" using m e by (cases m) auto
    then show ?thesis using m b e by (auto simp: buf_ok_def buf_text_def)
  qed
  consider "size_max b \<noteq> 0" "size_real b \<ge> size_max b" | "size_max b = 0"
    | "size_max b \<noteq> 0" "size_real b < size_max b" "tail b + n + 1 \<le> size_max b"
    | "size_max b \<noteq> 0" "size_real b < size_max b" "tail b + n + 1 > size_max b" by linarith
  then show ?thesis
  proof cases
    case 1
    with r have "rc = 1" "b1 = b" by (auto simp: zlog_buf_resize_def)
    with 1 ok e n show ?thesis by auto
  next
    case 2
    let ?m = "size_real b + ?i + ?i div 2"
    have "rc = 0" "b1 = b\<lparr>start := Some (take ?m (u @ v) @ replicate (?m - length (u @ v)) NUL), size_real := ?m, end_plus_1 := ?m, buf_end := ?m - 1\<rparr>"
      using 2 r b(1) by (auto simp: zlog_buf_resize_def Let_def)
    with big [of ?m] 2 b(3) grow show ?thesis by simp
  next
    case 3
    let ?m = "size_real b + ?i"
    have "rc = 0" "b1 = b\<lparr>start := Some (take ?m (u @ v) @ replicate (?m - length (u @ v)) NUL), size_real := ?m, end_plus_1 := ?m, buf_end := ?m - 1\<rparr>"
      using 3 r b(1) grow by (auto simp: zlog_buf_resize_def Let_def)
    with big [of ?m] 3 b(3) grow show ?thesis by simp
  next
    case 4
    let ?m = "size_max b"
    have "rc = 1" "b1 = b\<lparr>start := Some (take ?m (u @ v) @ replicate (?m - length (u @ v)) NUL), size_real := ?m, end_plus_1 := ?m, buf_end := ?m - 1\<rparr>"
      using 4 r b(1) grow by (auto simp: zlog_buf_resize_def Let_def)
    with big [of ?m] 4 b(3) show ?thesis by simp
  qed
qed

section \<open>Appending\<close>

lemma fits_size: "fits b (buf_text b @ s) \<longleftrightarrow> size_max b = 0 \<or> length (buf_text b) + length s < size_max b"
  by (simp add: fits_def)

text \<open>What is written at the end when the limit is reached.\<close>

lemma full_buffer_cut:
  assumes ok: "buf_ok b1" and b1: "size_real b1 = size_max b" "size_max b \<noteq> 0" "size_max b1 = size_max b" "truncate_str b1 = truncate_str b"
      "buf_text b1 = buf_text b" and s: "size_max b \<le> tail b1 + length s"
  shows "\<exists>r b3. put_at b1 (tail b1) (take (buf_end b1 - tail b1) s) = Ret (b1\<lparr>start := Some r\<rparr>)
    \<and> zlog_buf_truncate (b1\<lparr>start := Some r, tail := tail b1 + (buf_end b1 - tail b1)\<rparr>) = Ret b3 \<and> appended b s 1 b3"
proof -
  let ?n = "buf_end b1 - tail b1"
  have e: "buf_end b1 = size_max b - 1" "tail b1 \<le> buf_end b1" "length (buf_text b) = tail b1"
    using ok b1 length_buf_text [OF ok] by (auto simp: buf_ok_def)
  have n: "length (take ?n s) = ?n" using e s b1(2) by simp
  then have "tail b1 + length (take ?n s) \<le> buf_end b1" using e(2) by simp
  from wrote_tail [OF ok this] obtain r where
    put: "put_at b1 (tail b1) (take ?n s) = Ret (b1\<lparr>start := Some r\<rparr>)" and
    w: "buf_ok (b1\<lparr>start := Some r, tail := tail b1 + ?n\<rparr>)" "buf_text (b1\<lparr>start := Some r, tail := tail b1 + ?n\<rparr>) = buf_text b1 @ take ?n s"
    unfolding n by blast
  from truncate_marks [OF w(1)] obtain b3 where
    b3: "zlog_buf_truncate (b1\<lparr>start := Some r, tail := tail b1 + ?n\<rparr>) = Ret b3" "buf_ok b3" "buf_text b3 = marked (truncate_str b) (buf_text b @ take ?n s)"
      "size_max b3 = size_max b" "truncate_str b3 = truncate_str b"
    using w(2) b1 by auto
  have "take (size_max b - 1) (buf_text b @ s) = buf_text b @ take ?n s" using e b1 by simp
  moreover have "\<not> fits b (buf_text b @ s)" using e s b1 by (simp add: fits_size)
  ultimately have "appended b s 1 b3" using b3 by (simp add: appended_def limited_def)
  with put b3(1) show ?thesis by blast
qed

lemma append_appended:
  assumes ok: "buf_ok b"
  shows "\<exists>rc b'. zlog_buf_append True b s = Ret (rc, b') \<and> appended b s rc b'"
proof -
  have len: "length (buf_text b) = tail b" by (rule length_buf_text [OF ok])
  show ?thesis
  proof (cases "tail b + length s > buf_end b")
    case False
    have "size_max b = 0 \<or> buf_end b < size_max b" using ok by (auto simp: buf_ok_def)
    with False have "fits b (buf_text b @ s)" using len by (auto simp: fits_size)
    moreover obtain r where "put_at b (tail b) s = Ret (b\<lparr>start := Some r\<rparr>)" "buf_ok (b\<lparr>start := Some r, tail := tail b + length s\<rparr>)"
        "buf_text (b\<lparr>start := Some r, tail := tail b + length s\<rparr>) = buf_text b @ s"
      using wrote_tail [OF ok, of s] False by auto
    ultimately show ?thesis using False by (simp add: zlog_buf_append_def appended_def limited_def)
  next
    case True
    obtain rc b1 where r: "zlog_buf_resize True b (length s - (buf_end b - tail b)) = (rc, b1)" by fastforce
    note c = resize_cases [OF ok True r]
    show ?thesis
    proof (cases "rc = 0")
      case rc: True
      with c have b1: "buf_ok b1" "tail b1 + length s \<le> buf_end b1" "fits b (buf_text b @ s)"
        using len by (auto simp: fits_size)
      from wrote_tail [OF b1(1,2)] obtain r' where
        "put_at b1 (tail b1) s = Ret (b1\<lparr>start := Some r'\<rparr>)" "buf_ok (b1\<lparr>start := Some r', tail := tail b1 + length s\<rparr>)"
        "buf_text (b1\<lparr>start := Some r', tail := tail b1 + length s\<rparr>) = buf_text b1 @ s" by blast
      with True r rc b1(3) c show ?thesis by (simp add: zlog_buf_append_def appended_def limited_def)
    next
      case rc: False
      with c have b1: "buf_ok b1" "size_real b1 = size_max b" "size_max b \<noteq> 0" "size_max b1 = size_max b" "truncate_str b1 = truncate_str b"
          "buf_text b1 = buf_text b" "size_max b \<le> tail b1 + length s" "rc = 1" by auto
      from full_buffer_cut [OF b1(1-7)] obtain r' b3 where
        "put_at b1 (tail b1) (take (buf_end b1 - tail b1) s) = Ret (b1\<lparr>start := Some r'\<rparr>)"
        "zlog_buf_truncate (b1\<lparr>start := Some r', tail := tail b1 + (buf_end b1 - tail b1)\<rparr>) = Ret b3" "appended b s 1 b3" by blast
      with True r b1(8) show ?thesis by (simp add: zlog_buf_append_def)
    qed
  qed
qed

section \<open>The other writers\<close>

definition zero_pad :: "nat \<Rightarrow> string \<Rightarrow> string" where
  "zero_pad width ds = replicate (width - length ds) (CHR ''0'') @ ds"

definition adjusted :: "string \<Rightarrow> bool \<Rightarrow> nat \<Rightarrow> nat \<Rightarrow> string" where
  "adjusted str left_adjust in_width out_width =
     (let s = (if out_width = 0 then str else take out_width str); sp = replicate (in_width - length s) (CHR '' '')
      in if left_adjust then s @ sp else sp @ s)"

lemma bnd_assoc: "bnd (bnd m f) g = bnd m (\<lambda>x. bnd (f x) g)"
  by (cases m) simp_all

lemma bnd_put_cong:
  assumes "\<And>b'. put_at b p s = Ret b' \<Longrightarrow> f b' = g b'"
  shows "bnd (put_at b p s) f = bnd (put_at b p s) g"
  using assms by (cases "put_at b p s") simp_all

lemma put_two:
  assumes "\<And>b1. put_at b (tail b) s = Ret b1 \<Longrightarrow> f b1 = bnd (put_at b1 (tail b + length s) t) g"
  shows "bnd (put_at b (tail b) s) f = bnd (put_at b (tail b) (s @ t)) g"
proof -
  have "bnd (put_at b (tail b) s) f = bnd (put_at b (tail b) s) (\<lambda>b1. bnd (put_at b1 (tail b + length s) t) g)"
    by (rule bnd_put_cong) (rule assms)
  then show ?thesis by (simp add: bnd_assoc flip: put_at_twice)
qed

text \<open>A number is appended as its digits behind the zeros.\<close>

lemma put_number_append: "put_number mem b ds width = zlog_buf_append mem b (zero_pad width ds)"
proof -
  let ?z = "width - length ds"
  let ?s = "zero_pad width ds"
  have out: "(if width > length ds then (width - length ds, width) else (0, length ds)) = (?z, length ?s)" by (auto simp: zero_pad_def)
  have put: "bnd (put_at c (tail c) (replicate ?z (CHR ''0''))) (\<lambda>b2. bnd (put_at b2 (tail b2 + ?z) ds) h) = bnd (put_at c (tail c) ?s) h"
    for c and h :: "zlog_buf \<Rightarrow> (int \<times> zlog_buf) res"
    unfolding zero_pad_def by (rule put_two) (simp add: put_at_fields)
  have cutput: "bnd (put_at c (tail c) (replicate z (CHR ''0''))) (\<lambda>b2. bnd (put_at b2 (tail b2 + z) (take m ds)) h) = bnd (put_at c (tail c) (take n ?s)) h"
    if "(if n \<le> ?z then (n, 0) else (?z, n - ?z)) = (z, m)" for c n z m and h :: "zlog_buf \<Rightarrow> (int \<times> zlog_buf) res"
  proof -
    have "take n ?s = replicate z (CHR ''0'') @ take m ds" using that by (auto simp: zero_pad_def split: if_splits)
    then show ?thesis by (simp only:) (rule put_two, simp add: put_at_fields)
  qed
  have zeros: "bnd (put_at c (tail c) (replicate n (CHR ''0''))) (\<lambda>b2. bnd (put_at b2 (tail b2 + n) []) h) = bnd (put_at c (tail c) (take n ?s)) h"
    if "n \<le> ?z" for c n and h :: "zlog_buf \<Rightarrow> (int \<times> zlog_buf) res"
    using cutput [of n n 0 c h] that by simp
  show ?thesis
    unfolding put_number_def zlog_buf_append_def Let_def out prod.case put
    by (simp split: prod.split add: cutput zeros)
qed

text \<open>An adjusted text, once its two parts are put side by side.\<close>

lemma put_adjusted_put:
  assumes "n \<le> length str"
  shows "bnd (put_adjusted b la str n m) h =
    bnd (put_at b (tail b) (if la then take n str @ replicate m (CHR '' '') else replicate m (CHR '' '') @ take n str)) h"
proof (cases la)
  case True
  have "bnd (put_at b (tail b + n) (replicate m (CHR '' ''))) (\<lambda>b1. put_at b1 (tail b1) (take n str))
      = bnd (put_at b (tail b + length (take n str)) (replicate m (CHR '' ''))) (\<lambda>b1. put_at b1 (tail b) (take n str))"
    using assms by (simp add: min_absorb2) (rule bnd_put_cong, simp add: put_at_fields)
  then show ?thesis by (simp only: put_adjusted_def True if_True put_at_twice_back)
next
  case False
  have "bnd (put_at b (tail b) (replicate m (CHR '' ''))) (\<lambda>b1. put_at b1 (tail b1 + m) (take n str))
      = bnd (put_at b (tail b) (replicate m (CHR '' ''))) (\<lambda>b1. put_at b1 (tail b + length (replicate m (CHR '' ''))) (take n str))"
    by (rule bnd_put_cong) (simp add: put_at_fields)
  then show ?thesis by (simp only: put_adjusted_def False if_False put_at_twice)
qed

lemma resize_full:
  assumes ok: "buf_ok b" and n: "tail b + n > buf_end b" and r: "zlog_buf_resize mem b (n - (buf_end b - tail b)) = (rc, b1)" "rc > 0"
  shows "buf_end b1 - tail b1 < n"
proof (cases mem)
  case True
  then have "zlog_buf_resize True b (n - (buf_end b - tail b)) = (rc, b1)" using r(1) by simp
  from resize_cases [OF ok n this] r(2) have "buf_ok b1" "tail b1 = tail b" "size_real b1 = size_max b" "size_max b \<noteq> 0" "size_max b \<le> tail b + n" by auto
  then show ?thesis by (auto simp: buf_ok_def)
next
  case False
  with r have "b1 = b" by (auto simp: zlog_buf_resize_def Let_def split: if_splits)
  with n show ?thesis using ok by (auto simp: buf_ok_def)
qed

lemma adjust_append_eq:
  assumes ok: "buf_ok b"
  shows "zlog_buf_adjust_append mem b str la iw ow = zlog_buf_append mem b (adjusted str la iw ow)"
proof -
  define n m s where "n = (if ow = 0 \<or> length str < ow then length str else ow)" and "m = iw - n" and "s = adjusted str la iw ow"
  have n: "n \<le> length str" by (auto simp: n_def)
  have s: "s = (if la then take n str @ replicate m (CHR '' '') else replicate m (CHR '' '') @ take n str)"
    by (auto simp: s_def adjusted_def n_def m_def Let_def)
  have len: "length s = n + m" using n by (simp add: s)
  have parts: "(if iw = 0 \<or> n \<ge> iw then (n, 0) else (iw, iw - n)) = (length s, m)" by (auto simp: len m_def)
  have put: "bnd (put_adjusted c la str n m) h = bnd (put_at c (tail c) s) h" for c and h :: "zlog_buf \<Rightarrow> (int \<times> zlog_buf) res"
    using put_adjusted_put [OF n, of c la m h] by (simp add: s)
  have cond: "(length s > buf_end b - tail b) = (tail b + length s > buf_end b)" using ok by (auto simp: buf_ok_def)
  have cutput: "bnd (put_adjusted c la str n' m') h = bnd (put_at c (tail c) (take k s)) h"
    if k: "k < length s" and nm: "(if la then (if n < k then (n, k - n) else (k, 0)) else (if m < k then (k - m, m) else (0, k))) = (n', m')"
    for c k n' m' and h :: "zlog_buf \<Rightarrow> (int \<times> zlog_buf) res"
  proof -
    have "n' \<le> length str" using k nm n len by (auto split: if_splits)
    moreover have "take k s = (if la then take n' str @ replicate m' (CHR '' '') else replicate m' (CHR '' '') @ take n' str)"
      using k nm n len unfolding s by (auto simp: min_def split: if_splits)
    ultimately show ?thesis using put_adjusted_put [of n' str c la m' h] by simp
  qed
  have st: "start b \<noteq> None" using ok by (auto simp: buf_ok_def)
  obtain rc b1 where r: "zlog_buf_resize mem b (length s - (buf_end b - tail b)) = (rc, b1)" by fastforce
  define k where "k = buf_end b1 - tail b1"
  obtain n' m' where nm: "(if la then (if n < k then (n, k - n) else (k, 0)) else (if m < k then (k - m, m) else (0, k))) = (n', m')" by fastforce
  have tl: "bnd (put_at c (tail c) x) (\<lambda>b2. Ret (0, b2\<lparr>tail := tail b2 + length s\<rparr>)) = bnd (put_at c (tail c) x) (\<lambda>b2. Ret (0, b2\<lparr>tail := tail c + length s\<rparr>))"
    for c x by (rule bnd_put_cong) (simp add: put_at_fields)
  have run: "zlog_buf_adjust_append mem b str la iw ow =
      (if tail b + length s > buf_end b then
         if rc > 0 then bnd (put_adjusted b1 la str n' m') (\<lambda>b2. bnd (zlog_buf_truncate (b2\<lparr>tail := tail b2 + k\<rparr>)) (\<lambda>b3. Ret (1, b3)))
         else if rc < 0 then Ret (-1, b1)
         else bnd (put_adjusted b1 la str n m) (\<lambda>b2. Ret (0, b2\<lparr>tail := tail b2 + length s\<rparr>))
       else bnd (put_adjusted b la str n m) (\<lambda>b2. Ret (0, b2\<lparr>tail := tail b2 + length s\<rparr>)))"
    unfolding zlog_buf_adjust_append_def Let_def n_def [symmetric] parts prod.case r cond k_def [symmetric] nm by (simp add: st)
  show ?thesis
  proof (cases "tail b + length s > buf_end b \<and> rc > 0")
    case True
    then have "k < length s" using resize_full [OF ok _ r] by (simp add: k_def)
    from cutput [OF this nm] True show ?thesis
      unfolding run s_def [symmetric] by (simp add: zlog_buf_append_def Let_def r flip: k_def)
  next
    case False
    then show ?thesis
      unfolding run s_def [symmetric] put tl by (auto simp: zlog_buf_append_def Let_def r)
  qed
qed

lemma vsnprintf_tail:
  assumes ok: "buf_ok b" and k: "k = min (length s) (buf_end b - tail b)"
  shows "\<exists>r. vsnprintf_at b (end_plus_1 b - tail b) s = Ret (b\<lparr>start := Some r\<rparr>) \<and> buf_ok (b\<lparr>start := Some r\<rparr>)
    \<and> buf_text (b\<lparr>start := Some r\<rparr>) = buf_text b \<and> buf_ok (b\<lparr>start := Some r, tail := tail b + k\<rparr>)
    \<and> buf_text (b\<lparr>start := Some r, tail := tail b + k\<rparr>) = buf_text b @ take k s"
proof -
  let ?s = "take (buf_end b - tail b) s @ [NUL]"
  have e: "end_plus_1 b = size_real b" "buf_end b = size_real b - 1" "tail b \<le> buf_end b" "0 < size_real b" using ok by (auto simp: buf_ok_def)
  have "tail b + length ?s \<le> size_real b" using e by auto
  from put_at_tail [OF ok this] obtain r where
    r: "put_at b (tail b) ?s = Ret (b\<lparr>start := Some r\<rparr>)" "length r = size_real b" "take (tail b + length ?s) r = buf_text b @ ?s" by blast
  have len: "length (buf_text b) = tail b" by (rule length_buf_text [OF ok])
  have t: "take (tail b + j) r = buf_text b @ take j ?s" if "j \<le> length ?s" for j
  proof -
    have "take (tail b + j) r = take (tail b + j) (take (tail b + length ?s) r)" using that by simp
    also have "\<dots> = buf_text b @ take j ?s" unfolding r(3) using len by simp
    finally show ?thesis .
  qed
  have "k \<le> length ?s" "take k ?s = take k s" using k by (auto simp: min_def)
  then have "take (tail b + k) r = buf_text b @ take k s" "take (tail b) r = buf_text b" using t [of k] t [of 0] by simp_all
  moreover have "end_plus_1 b - tail b \<noteq> 0" "end_plus_1 b - tail b - 1 = buf_end b - tail b" using e by auto
  ultimately show ?thesis
    using r ok e k by (intro exI [of _ r]) (auto simp: vsnprintf_at_def buf_ok_def buf_text_def)
qed

lemma vprintf_appended:
  assumes ok: "buf_ok b"
  shows "\<exists>rc b'. zlog_buf_vprintf True b (Some s) = Ret (rc, b') \<and> appended b s rc b'"
proof -
  have e: "end_plus_1 b = size_real b" "buf_end b = size_real b - 1" "tail b \<le> buf_end b" "0 < size_real b" "start b \<noteq> None"
    "size_max b = 0 \<or> size_real b \<le> size_max b" using ok by (auto simp: buf_ok_def)
  have len: "length (buf_text b) = tail b" by (rule length_buf_text [OF ok])
  let ?k = "min (length s) (buf_end b - tail b)"
  obtain r where r: "vsnprintf_at b (end_plus_1 b - tail b) s = Ret (b\<lparr>start := Some r\<rparr>)" "buf_ok (b\<lparr>start := Some r\<rparr>)"
      "buf_text (b\<lparr>start := Some r\<rparr>) = buf_text b" "buf_ok (b\<lparr>start := Some r, tail := tail b + ?k\<rparr>)"
      "buf_text (b\<lparr>start := Some r, tail := tail b + ?k\<rparr>) = buf_text b @ take ?k s"
    using vsnprintf_tail [OF ok refl, of s] by blast
  show ?thesis
  proof (cases "length s < end_plus_1 b - tail b")
    case True
    then have "?k = length s" "fits b (buf_text b @ s)" using e len by (auto simp: fits_size)
    with True r e show ?thesis by (simp add: zlog_buf_vprintf_def appended_def limited_def)
  next
    case False
    let ?b = "b\<lparr>start := Some r\<rparr>"
    have inc: "length s - (end_plus_1 b - tail b) + 1 = length s - (buf_end ?b - tail ?b)" and n: "tail ?b + length s > buf_end ?b"
      using False e by auto
    obtain rc b1 where rs: "zlog_buf_resize True ?b (length s - (buf_end ?b - tail ?b)) = (rc, b1)" by fastforce
    from resize_cases [OF r(2) n rs] r(3) have
      c: "buf_ok b1" "buf_text b1 = buf_text b" "tail b1 = tail b" "size_max b1 = size_max b" "truncate_str b1 = truncate_str b"
        "rc = 0 \<and> tail b + length s \<le> buf_end b1 \<and> (size_max b = 0 \<or> tail b + length s < size_max b)
         \<or> rc = 1 \<and> size_max b \<noteq> 0 \<and> size_real b1 = size_max b \<and> size_max b \<le> tail b + length s" by auto
    let ?k1 = "min (length s) (buf_end b1 - tail b1)"
    obtain r1 where r1: "vsnprintf_at b1 (end_plus_1 b1 - tail b1) s = Ret (b1\<lparr>start := Some r1\<rparr>)"
        "buf_ok (b1\<lparr>start := Some r1, tail := tail b1 + ?k1\<rparr>)"
        "buf_text (b1\<lparr>start := Some r1, tail := tail b1 + ?k1\<rparr>) = buf_text b1 @ take ?k1 s"
      using vsnprintf_tail [OF c(1) refl, of s] by blast
    have run: "zlog_buf_vprintf True b (Some s) =
        (if rc > 0 then bnd (zlog_buf_truncate (b1\<lparr>start := Some r1, tail := tail b1 + (end_plus_1 b1 - tail b1) - 1\<rparr>)) (\<lambda>b4. Ret (1, b4))
         else if rc < 0 then Ret (-1, b1) else Ret (0, b1\<lparr>start := Some r1, tail := tail b1 + length s\<rparr>))"
      unfolding zlog_buf_vprintf_def Let_def option.case r(1) bnd_Ret inc rs prod.case r1(1) using e(5) False by auto
    show ?thesis
    proof (cases "rc = 0")
      case True
      with c have "?k1 = length s" "fits b (buf_text b @ s)" using len by (auto simp: fits_size buf_ok_def)
      with r1 c True run show ?thesis by (simp add: appended_def limited_def)
    next
      case rc: False
      have e1: "end_plus_1 b1 = size_max b" "buf_end b1 = size_max b - 1" "tail b1 \<le> buf_end b1" "size_max b \<noteq> 0" "rc = 1"
          "size_max b \<le> tail b + length s"
        using c rc by (auto simp: buf_ok_def)
      have k1: "?k1 = buf_end b1 - tail b1" "tail b1 + (end_plus_1 b1 - tail b1) - 1 = tail b1 + ?k1" using e1 c(3) by auto
      from truncate_marks [OF r1(2)] obtain b4 where
        b4: "zlog_buf_truncate (b1\<lparr>start := Some r1, tail := tail b1 + ?k1\<rparr>) = Ret b4" "buf_ok b4"
          "buf_text b4 = marked (truncate_str b) (buf_text b @ take ?k1 s)" "size_max b4 = size_max b" "truncate_str b4 = truncate_str b"
        using r1(3) c by auto
      have "take (size_max b - 1) (buf_text b @ s) = buf_text b @ take ?k1 s" using len e1 c(3) k1 by simp
      moreover have "\<not> fits b (buf_text b @ s)" using len e1 by (simp add: fits_size)
      ultimately have "appended b s 1 b4" using b4 by (simp add: appended_def limited_def)
      with b4(1) show ?thesis unfolding run k1(2) using e1(5) by simp
    qed
  qed
qed

section \<open>Numbers\<close>

lemma dec_digits_show: "v < 10 ^ p \<Longrightarrow> 0 < p \<Longrightarrow> dec_digits p v ds = Ret (show_nat v @ ds)"
proof (induction p arbitrary: v ds)
  case (Suc p)
  show ?case
  proof (cases "v div 10 = 0")
    case True
    then have "v < 10" by simp
    then show ?thesis by (simp add: show_nat.simps [of v])
  next
    case False
    then have "v div 10 < 10 ^ p" "0 < p" "\<not> v < 10" using Suc.prems(1) by (auto intro: Nat.gr0I)
    with Suc.IH [of "v div 10"] False show ?thesis by (simp add: show_nat.simps [of v])
  qed
qed simp

fun show_hex :: "nat \<Rightarrow> string" where
  "show_hex n = (if n < 16 then [hex_char n] else show_hex (n div 16) @ [hex_char (n mod 16)])"

declare show_hex.simps [simp del]

lemma unat_low_nibble: "unat (v AND 15 :: 32 word) = unat v mod 16"
proof -
  have "v AND 15 = take_bit 4 v" by (simp add: take_bit_eq_mask mask_eq_exp_minus_1)
  then show ?thesis by (simp add: take_bit_eq_mod unat_mod_distrib)
qed

lemma unat_high_nibbles: "unat (drop_bit 4 v :: 32 word) = unat v div 16"
  by (simp add: drop_bit_eq_div unat_div_distrib)

lemma hex_digits_show: "unat v < 16 ^ p \<Longrightarrow> 0 < p \<Longrightarrow> hex_digits p v ds = Ret (show_hex (unat v) @ ds)"
proof (induction p arbitrary: v ds)
  case (Suc p)
  have z: "drop_bit 4 v = 0 \<longleftrightarrow> unat v div 16 = 0" by (metis unat_0 unat_eq_zero unat_high_nibbles)
  show ?case
  proof (cases "unat v div 16 = 0")
    case True
    then have "unat v < 16" by simp
    with True z show ?thesis by (simp add: show_hex.simps [of "unat v"] unat_low_nibble)
  next
    case False
    then have "unat (drop_bit 4 v) < 16 ^ p" "0 < p" "\<not> unat v < 16" using Suc.prems(1) by (auto simp: unat_high_nibbles intro: Nat.gr0I)
    with Suc.IH [of "drop_bit 4 v"] False z show ?thesis
      by (simp add: show_hex.simps [of "unat v"] unat_low_nibble unat_high_nibbles)
  qed
qed simp

lemma dec32_append: "buf_ok b \<Longrightarrow> zlog_buf_printf_dec32 mem b v w = zlog_buf_append mem b (zero_pad w (show_nat (unat v)))"
proof -
  assume "buf_ok b"
  then obtain r where st: "start b = Some r" by (auto simp: buf_ok_def)
  have "unat v < 10 ^ 11" using unsigned_less [of v, where ?'a = nat] by simp
  with st dec_digits_show [of "unat v" 11 "[]"] show ?thesis
    by (simp add: zlog_buf_printf_dec32_def ZLOG_INT32_LEN_def put_number_append)
qed

lemma dec64_append: "buf_ok b \<Longrightarrow> zlog_buf_printf_dec64 mem b v w = zlog_buf_append mem b (zero_pad w (show_nat (unat v)))"
proof -
  assume "buf_ok b"
  then obtain r where st: "start b = Some r" by (auto simp: buf_ok_def)
  have lim: "unat v < 10 ^ 20" using unsigned_less [of v, where ?'a = nat] by simp
  have low: "unat (ucast v :: 32 word) = unat v" if "v \<le> 0xffffffff"
  proof -
    have "unat v \<le> unat (0xffffffff :: 64 word)" using that by (simp add: word_le_nat_alt)
    then show ?thesis by (simp add: unsigned_ucast_eq take_bit_nat_eq_self)
  qed
  show ?thesis
    using st low dec_digits_show [OF lim, of "[]"]
    by (simp add: zlog_buf_printf_dec64_def ZLOG_INT64_LEN_def put_number_append)
qed

lemma hex_append: "buf_ok b \<Longrightarrow> zlog_buf_printf_hex mem b v w = zlog_buf_append mem b (zero_pad w (show_hex (unat v)))"
proof -
  assume "buf_ok b"
  then obtain r where st: "start b = Some r" by (auto simp: buf_ok_def)
  have "unat v < 16 ^ 11" using unsigned_less [of v, where ?'a = nat] by simp
  with st hex_digits_show [of v 11 "[]"] show ?thesis
    by (simp add: zlog_buf_printf_hex_def ZLOG_INT32_LEN_def put_number_append)
qed

section \<open>A message\<close>

lemma limited_limited: "limited b (limited b t @ u) = limited b (t @ u)"
proof (cases "fits b t")
  case False
  let ?n = "size_max b - 1"
  have n: "size_max b \<noteq> 0" "size_max b \<le> length t" using False by (auto simp: fits_def)
  have c: "limited b t = marked (truncate_str b) (take ?n t)" "length (limited b t) = ?n" using False n by (auto simp: limited_def)
  have r: "limited b (t @ u) = limited b t" using n c(1) by (simp add: limited_def fits_def)
  show ?thesis
  proof (cases "u = []")
    case True
    have "fits b (limited b t)" using n c(2) by (auto simp: fits_def)
    with True r show ?thesis by (simp add: limited_def [of b "limited b t"])
  next
    case u: False
    then have "\<not> fits b (limited b t @ u)" using n c(2) by (cases u) (auto simp: fits_def)
    moreover have "take ?n (limited b t @ u) = limited b t" using c(2) by simp
    ultimately have "limited b (limited b t @ u) = marked (truncate_str b) (limited b t)" by (simp add: limited_def)
    then show ?thesis using c(1) r by (simp add: marked_again)
  qed
qed (simp add: limited_def)

lemma limited_text: "buf_ok b \<Longrightarrow> limited b (buf_text b) = buf_text b"
  using length_buf_text [of b] by (auto simp: limited_def fits_def buf_ok_def)

text \<open>A sequence of writes, all of them whatever they return, and one that stops at the first return value that is not 0.\<close>

primrec write_all :: "('op \<Rightarrow> zlog_buf \<Rightarrow> (int \<times> zlog_buf) res) \<Rightarrow> 'op list \<Rightarrow> zlog_buf \<Rightarrow> zlog_buf res" where
  "write_all w [] b = Ret b"
| "write_all w (op # ops) b = bnd (w op b) (\<lambda>(rc, b'). write_all w ops b')"

primrec write_until :: "('op \<Rightarrow> zlog_buf \<Rightarrow> (int \<times> zlog_buf) res) \<Rightarrow> 'op list \<Rightarrow> zlog_buf \<Rightarrow> (int \<times> zlog_buf) res" where
  "write_until w [] b = Ret (0, b)"
| "write_until w (op # ops) b = bnd (w op b) (\<lambda>(rc, b'). if rc \<noteq> 0 then Ret (rc, b') else write_until w ops b')"

locale buf_writer =
  fixes wr :: "'op \<Rightarrow> zlog_buf \<Rightarrow> (int \<times> zlog_buf) res" and out :: "'op \<Rightarrow> string" and good :: "'op \<Rightarrow> bool"
  assumes writes: "good op \<Longrightarrow> buf_ok b \<Longrightarrow> \<exists>rc b'. wr op b = Ret (rc, b') \<and> appended b (out op) rc b'"
begin

lemma same_limit: "appended b s rc b' \<Longrightarrow> limited b' = limited b \<and> fits b' = fits b"
  by (simp add: appended_def fun_eq_iff limited_def fits_def)

lemma write_all_cut:
  "\<forall>op \<in> set ops. good op \<Longrightarrow> buf_ok b \<Longrightarrow> \<exists>b'. write_all wr ops b = Ret b' \<and> buf_ok b' \<and> buf_text b' = limited b (buf_text b @ concat (map out ops))"
proof (induction ops arbitrary: b)
  case (Cons op ops)
  from writes [of op b] Cons.prems obtain rc b1 where b1: "wr op b = Ret (rc, b1)" "appended b (out op) rc b1" by auto
  then have "buf_ok b1" "buf_text b1 = limited b (buf_text b @ out op)" by (simp_all add: appended_def)
  with Cons.IH [of b1] Cons.prems b1 same_limit [OF b1(2)] show ?case by (auto simp: limited_limited)
qed (simp add: limited_text)

lemma write_until_appended:
  "\<forall>op \<in> set ops. good op \<Longrightarrow> buf_ok b \<Longrightarrow> \<exists>rc b'. write_until wr ops b = Ret (rc, b') \<and> appended b (concat (map out ops)) rc b'"
proof (induction ops arbitrary: b)
  case Nil
  then show ?case using length_buf_text [of b] by (auto simp: appended_def limited_text fits_def buf_ok_def)
next
  case (Cons op ops)
  let ?rest = "concat (map out ops)"
  from writes [of op b] Cons.prems obtain rc b1 where b1: "wr op b = Ret (rc, b1)" "appended b (out op) rc b1" by auto
  note lim = same_limit [OF b1(2)]
  show ?case
  proof (cases "fits b (buf_text b @ out op)")
    case True
    with b1(2) have t: "rc = 0" "buf_ok b1" "buf_text b1 = buf_text b @ out op" "size_max b1 = size_max b" "truncate_str b1 = truncate_str b"
      by (auto simp: appended_def limited_def)
    with Cons.IH [of b1] Cons.prems(1) b1(1) lim show ?thesis by (auto simp: appended_def)
  next
    case False
    then have "\<not> fits b (buf_text b @ out op @ ?rest)" by (auto simp: fits_def)
    moreover have "limited b (buf_text b @ out op @ ?rest) = limited b (buf_text b @ out op)"
      using False by (auto simp: limited_def fits_def)
    ultimately have "rc = 1" "appended b (out op @ ?rest) 1 b1" using b1(2) False by (auto simp: appended_def)
    with b1(1) show ?thesis by auto
  qed
qed

end

text \<open>The calls of the writing functions; \<open>mem\<close> says whether a block can grow during the call.\<close>

datatype buf_op = Append string | Adjust string bool nat nat | Printf "string option" | Dec32 "32 word" nat | Dec64 "64 word" nat | Hex "32 word" nat

primrec run_buf_op :: "bool \<Rightarrow> buf_op \<Rightarrow> zlog_buf \<Rightarrow> (int \<times> zlog_buf) res" where
  "run_buf_op mem (Append s) b = zlog_buf_append mem b s"
| "run_buf_op mem (Adjust s la iw ow) b = zlog_buf_adjust_append mem b s la iw ow"
| "run_buf_op mem (Printf p) b = zlog_buf_vprintf mem b p"
| "run_buf_op mem (Dec32 v w) b = zlog_buf_printf_dec32 mem b v w"
| "run_buf_op mem (Dec64 v w) b = zlog_buf_printf_dec64 mem b v w"
| "run_buf_op mem (Hex v w) b = zlog_buf_printf_hex mem b v w"

primrec printed_by :: "buf_op \<Rightarrow> string" where
  "printed_by (Append s) = s"
| "printed_by (Adjust s la iw ow) = adjusted s la iw ow"
| "printed_by (Printf p) = (case p of Some s \<Rightarrow> s | None \<Rightarrow> [])"
| "printed_by (Dec32 v w) = zero_pad w (show_nat (unat v))"
| "printed_by (Dec64 v w) = zero_pad w (show_nat (unat v))"
| "printed_by (Hex v w) = zero_pad w (show_hex (unat v))"

definition good_op :: "buf_op \<Rightarrow> bool" where
  "good_op op \<longleftrightarrow> op \<noteq> Printf None"

interpretation buf_ops: buf_writer "run_buf_op True" printed_by good_op
proof
  fix b op assume "good_op op" and ok: "buf_ok b"
  then show "\<exists>rc b'. run_buf_op True op b = Ret (rc, b') \<and> appended b (printed_by op) rc b'"
    by (cases op) (auto simp: good_op_def append_appended vprintf_appended adjust_append_eq dec32_append dec64_append hex_append ok
      split: option.split)
qed

lemma new_buf_ok:
  assumes "zlog_buf_new True True mn mx tr = Some b"
  shows "buf_ok b \<and> buf_text b = [] \<and> size_max b = mx \<and> truncate_str b = (case tr of None \<Rightarrow> [] | Some s \<Rightarrow> s)"
  using assms by (auto simp: zlog_buf_new_def buf_ok_def buf_text_def split: if_splits option.splits)

text \<open>C33: With memory, a message put together by any sequence of calls of the six writing functions of a log buffer, whatever their sizes, is the concatenation of what each
  of them prints, and nothing is ever written outside the block. With a limit \<open>max\<close> the message is cut at \<open>max - 1\<close> bytes and its last bytes are
  overwritten with the truncation mark.\<close>

theorem buf_message:
  assumes "zlog_buf_new True True mn mx (Some mark) = Some b" and "\<forall>op \<in> set ops. good_op op"
  shows "\<exists>b'. write_all (run_buf_op True) ops b = Ret b'
    \<and> buf_text b' = (let t = concat (map printed_by ops) in
         if mx = 0 \<or> length t < mx then t else marked mark (take (mx - 1) t))"
proof -
  have b: "buf_ok b" "buf_text b = []" "size_max b = mx" "truncate_str b = mark" using new_buf_ok [OF assms(1)] by simp_all
  from buf_ops.write_all_cut [OF assms(2) b(1)] b(2-) show ?thesis by (auto simp: limited_def fits_def Let_def)
qed

theorem buf_message_witness:
  "\<exists>b'. write_all (run_buf_op True) [Append ''GET /'', Dec32 7 3, Hex 255 2] (the (zlog_buf_new True True 4 8 (Some ''...''))) = Ret b'
     \<and> buf_text b' = ''GET ...''"
proof -
  obtain b where b: "zlog_buf_new True True 4 8 (Some ''...'') = Some b" by (simp add: zlog_buf_new_def)
  from buf_message [OF b, of "[Append ''GET /'', Dec32 7 3, Hex 255 2]"] b show ?thesis
    by (auto simp: good_op_def Let_def zero_pad_def show_nat.simps show_hex.simps marked_def)
qed

end
