(* ===== verification/Zc_Arraylist.thy ===== *)
theory Zc_Arraylist
  imports Prelude
begin

text \<open>
  The growing array of pointers of the logging library (\<open>zlog/src/zc_arraylist.c\<close>).

  \<^item> \<open>array\<close> is the block of slots, a slot \<open>None\<close> is a null pointer, and a list whose block has been freed has no block (\<open>None\<close>): reading, writing or
    freeing it again is a crash. \<open>al_deleted\<close> records the calls of the destructor.
  \<^item> \<open>arraylist_ok\<close> is the invariant. Setting a slot works exactly up to twice the size of the block; adding always works; sorted insertion is a stable
    insertion sort.
\<close>

section \<open>The list and its operations\<close>

record 'a zc_arraylist =
  array :: "'a option list option"
  al_len :: int
  al_size :: int
  al_del :: bool
  al_deleted :: "'a list"

definition ARRAY_LIST_DEFAULT_SIZE :: int where
  "ARRAY_LIST_DEFAULT_SIZE = 32"

definition zc_arraylist_new :: "bool \<Rightarrow> bool \<Rightarrow> bool \<Rightarrow> 'a zc_arraylist option" where
  "zc_arraylist_new mem1 mem2 del =
     (if \<not> mem1 then None
      else if \<not> mem2 then None
      else Some \<lparr>array = Some (replicate (nat ARRAY_LIST_DEFAULT_SIZE) None), al_len = 0, al_size = ARRAY_LIST_DEFAULT_SIZE,
                 al_del = del, al_deleted = []\<rparr>)"

definition slot_at :: "'a zc_arraylist \<Rightarrow> int \<Rightarrow> 'a option res" where
  "slot_at l i = (case array l of
       None \<Rightarrow> Crash Out_Of_Bounds
     | Some xs \<Rightarrow> if 0 \<le> i \<and> i < int (length xs) then Ret (xs ! nat i) else Crash Out_Of_Bounds)"

definition set_slot :: "'a zc_arraylist \<Rightarrow> int \<Rightarrow> 'a option \<Rightarrow> 'a zc_arraylist res" where
  "set_slot l i v = (case array l of
       None \<Rightarrow> Crash Out_Of_Bounds
     | Some xs \<Rightarrow> if 0 \<le> i \<and> i < int (length xs) then Ret (l\<lparr>array := Some (xs[nat i := v])\<rparr>) else Crash Out_Of_Bounds)"

text \<open>The destructor is called for the slots that are not null; \<open>rest\<close> slots are left.\<close>

primrec delete_slots :: "nat \<Rightarrow> int \<Rightarrow> 'a zc_arraylist \<Rightarrow> 'a zc_arraylist res" where
  "delete_slots 0 i l = Ret l"
| "delete_slots (Suc rest) i l =
     bnd (slot_at l i) (\<lambda>v.
     delete_slots rest (i + 1) (case v of Some x \<Rightarrow> l\<lparr>al_deleted := al_deleted l @ [x]\<rparr> | None \<Rightarrow> l))"

text \<open>\<open>zc_arraylist_del\<close>: the calls of the destructor that were made over the life of the list. Its argument is not null.\<close>

definition zc_arraylist_del :: "'a zc_arraylist \<Rightarrow> 'a list res" where
  "zc_arraylist_del l =
     bnd (if al_del l then delete_slots (nat (al_len l)) 0 l else Ret l) (\<lambda>l'.
     case array l' of None \<Rightarrow> Crash Out_Of_Bounds | Some _ \<Rightarrow> Ret (al_deleted l'))"

definition zc_max :: "int \<Rightarrow> int \<Rightarrow> int" where
  "zc_max a b = (if a > b then a else b)"

text \<open>When \<open>realloc\<close> fails the block is freed, but the list keeps its pointer to it. Sizes are far from the bounds of \<open>int\<close>: a block of \<open>2\<^sup>3\<^sup>0\<close> slots takes 8 GB.\<close>

definition zc_arraylist_expand_inner :: "bool \<Rightarrow> 'a zc_arraylist \<Rightarrow> int \<Rightarrow> (int \<times> 'a zc_arraylist) res" where
  "zc_arraylist_expand_inner mem l mx =
     (case array l of
        None \<Rightarrow> Crash Out_Of_Bounds
      | Some xs \<Rightarrow>
          let new_size = zc_max (al_size l * 2) mx in
          if \<not> mem then Ret (-1, l\<lparr>array := None\<rparr>)
          else Ret (0, l\<lparr>array := Some (take (nat (al_size l)) xs @ replicate (nat (new_size - al_size l)) None), al_size := new_size\<rparr>))"

definition zc_arraylist_set :: "bool \<Rightarrow> 'a zc_arraylist \<Rightarrow> int \<Rightarrow> 'a \<Rightarrow> (int \<times> 'a zc_arraylist) res" where
  "zc_arraylist_set mem l idx a_data =
     bnd (if idx > al_size l - 1 then zc_arraylist_expand_inner mem l idx else Ret (0, l)) (\<lambda>(rc, l1).
     if rc \<noteq> 0 then Ret (-1, l1)
     else
       bnd (slot_at l1 idx) (\<lambda>old.
       bnd (set_slot (case old of Some x \<Rightarrow> if al_del l1 then l1\<lparr>al_deleted := al_deleted l1 @ [x]\<rparr> else l1 | None \<Rightarrow> l1) idx (Some a_data)) (\<lambda>l2.
       Ret (0, if al_len l2 \<le> idx then l2\<lparr>al_len := idx + 1\<rparr> else l2))))"

definition zc_arraylist_add :: "bool \<Rightarrow> 'a zc_arraylist \<Rightarrow> 'a \<Rightarrow> (int \<times> 'a zc_arraylist) res" where
  "zc_arraylist_add mem l a_data = zc_arraylist_set mem l (al_len l) a_data"

text \<open>\<open>memmove\<close> of the slots from \<open>idx\<close> to the length, one place up.\<close>

definition shift_up :: "'a zc_arraylist \<Rightarrow> nat \<Rightarrow> 'a zc_arraylist res" where
  "shift_up l idx = (case array l of
       None \<Rightarrow> Crash Out_Of_Bounds
     | Some xs \<Rightarrow>
         if nat (al_len l) + 1 \<le> length xs
         then Ret (l\<lparr>array := Some (take (idx + 1) xs @ take (nat (al_len l) - idx) (drop idx xs) @ drop (nat (al_len l) + 1) xs)\<rparr>)
         else Crash Out_Of_Bounds)"

definition zc_arraylist_insert_inner :: "bool \<Rightarrow> 'a zc_arraylist \<Rightarrow> int \<Rightarrow> 'a \<Rightarrow> (int \<times> 'a zc_arraylist) res" where
  "zc_arraylist_insert_inner mem l idx a_data =
     bnd (slot_at l idx) (\<lambda>v.
     if v = None then bnd (set_slot l idx (Some a_data)) (\<lambda>l'. Ret (0, l'))
     else
       bnd (if al_len l > al_size l - 1 then zc_arraylist_expand_inner mem l 0 else Ret (0, l)) (\<lambda>(rc, l1).
       if rc \<noteq> 0 then Ret (-1, l1)
       else
         bnd (shift_up l1 (nat idx)) (\<lambda>l2.
         bnd (set_slot l2 idx (Some a_data)) (\<lambda>l3.
         Ret (0, l3\<lparr>al_len := al_len l3 + 1\<rparr>)))))"

text \<open>The loop of \<open>zc_arraylist_sortadd\<close>: the first slot that is greater than the new pointer, or the length.\<close>

primrec first_greater :: "nat \<Rightarrow> ('a option \<Rightarrow> 'a \<Rightarrow> int) \<Rightarrow> 'a zc_arraylist \<Rightarrow> 'a \<Rightarrow> int \<Rightarrow> int res" where
  "first_greater 0 cmp l a_data i = Ret i"
| "first_greater (Suc rest) cmp l a_data i =
     bnd (slot_at l i) (\<lambda>v. if cmp v a_data > 0 then Ret i else first_greater rest cmp l a_data (i + 1))"

definition zc_arraylist_sortadd :: "bool \<Rightarrow> 'a zc_arraylist \<Rightarrow> ('a option \<Rightarrow> 'a \<Rightarrow> int) \<Rightarrow> 'a \<Rightarrow> (int \<times> 'a zc_arraylist) res" where
  "zc_arraylist_sortadd mem l cmp a_data =
     bnd (first_greater (nat (al_len l)) cmp l a_data 0) (\<lambda>i.
     if i = al_len l then zc_arraylist_add mem l a_data else zc_arraylist_insert_inner mem l i a_data)"

text \<open>The macro \<open>zc_arraylist_get\<close>, which looks at the upper bound only.\<close>

definition zc_arraylist_get :: "'a zc_arraylist \<Rightarrow> int \<Rightarrow> 'a option res" where
  "zc_arraylist_get l i = (if i \<ge> al_len l then Ret None else slot_at l i)"

section \<open>The invariant\<close>

definition slots :: "'a zc_arraylist \<Rightarrow> 'a option list" where
  "slots l = take (nat (al_len l)) (the (array l))"

definition arraylist_ok :: "'a zc_arraylist \<Rightarrow> bool" where
  "arraylist_ok l \<longleftrightarrow> (\<exists>xs. array l = Some xs \<and> int (length xs) = al_size l \<and> 0 \<le> al_len l \<and> al_len l \<le> al_size l \<and> 0 < al_size l
     \<and> (\<forall>i. nat (al_len l) \<le> i \<and> i < length xs \<longrightarrow> xs ! i = None))"

lemma arraylist_okE:
  assumes "arraylist_ok l"
  obtains us vs where "array l = Some (us @ vs)" "al_len l = int (length us)" "al_size l = int (length us + length vs)" "0 < al_size l"
    "\<forall>v \<in> set vs. v = None" "slots l = us"
proof -
  from assms obtain xs where xs: "array l = Some xs" "int (length xs) = al_size l" "0 \<le> al_len l" "al_len l \<le> al_size l" "0 < al_size l"
      "\<forall>i. nat (al_len l) \<le> i \<and> i < length xs \<longrightarrow> xs ! i = None"
    by (auto simp: arraylist_ok_def)
  have "\<forall>v \<in> set (drop (nat (al_len l)) xs). v = None"
    using xs by (auto simp: in_set_conv_nth)
  with xs show ?thesis
    by (intro that [of "take (nat (al_len l)) xs" "drop (nat (al_len l)) xs"]) (auto simp: slots_def)
qed

lemma arraylist_okI:
  assumes "array l = Some (us @ vs)" "al_len l = int (length us)" "al_size l = int (length us + length vs)" "0 < al_size l"
    "\<forall>v \<in> set vs. v = None"
  shows "arraylist_ok l \<and> slots l = us"
  using assms by (auto simp: arraylist_ok_def slots_def nth_append intro: nth_mem)

lemma new_arraylist_ok:
  "zc_arraylist_new True True del = Some l \<Longrightarrow> arraylist_ok l \<and> slots l = [] \<and> al_size l = 32 \<and> al_del l = del \<and> al_deleted l = []"
  by (auto simp: zc_arraylist_new_def arraylist_ok_def slots_def ARRAY_LIST_DEFAULT_SIZE_def)

text \<open>What writing slot \<open>i\<close> does to the slots in use.\<close>

definition write_slot :: "'a option list \<Rightarrow> nat \<Rightarrow> 'a \<Rightarrow> 'a option list" where
  "write_slot us i x = (if i < length us then us[i := Some x] else us @ replicate (i - length us) None @ [Some x])"

definition dropped_by_set :: "'a zc_arraylist \<Rightarrow> nat \<Rightarrow> 'a list" where
  "dropped_by_set l i = (if al_del l \<and> i < length (slots l) then (case slots l ! i of Some x \<Rightarrow> [x] | None \<Rightarrow> []) else [])"

lemma expand_ok:
  assumes "arraylist_ok l"
  shows "\<exists>l'. zc_arraylist_expand_inner True l mx = Ret (0, l') \<and> arraylist_ok l' \<and> slots l' = slots l
    \<and> al_size l' = max (2 * al_size l) mx \<and> al_len l' = al_len l \<and> al_del l' = al_del l \<and> al_deleted l' = al_deleted l"
proof -
  obtain us vs where l: "array l = Some (us @ vs)" "al_len l = int (length us)" "al_size l = int (length us + length vs)" "0 < al_size l"
      "\<forall>v \<in> set vs. v = None" "slots l = us"
    by (rule arraylist_okE [OF assms])
  let ?n = "zc_max (al_size l * 2) mx"
  let ?l = "l\<lparr>array := Some (us @ (vs @ replicate (nat (?n - al_size l)) None)), al_size := ?n\<rparr>"
  have n: "?n = max (2 * al_size l) mx" "al_size l \<le> ?n" using l by (auto simp: zc_max_def)
  have "arraylist_ok ?l \<and> slots ?l = us"
    by (rule arraylist_okI [where vs = "vs @ replicate (nat (?n - al_size l)) None"]) (use l n in auto)
  with l n show ?thesis by (simp add: zc_arraylist_expand_inner_def Let_def)
qed

lemma slot_at_block: "array l = Some xs \<Longrightarrow> 0 \<le> i \<Longrightarrow> nat i < length xs \<Longrightarrow> slot_at l i = Ret (xs ! nat i)"
  by (auto simp: slot_at_def)

lemma set_slot_block: "array l = Some xs \<Longrightarrow> 0 \<le> i \<Longrightarrow> nat i < length xs \<Longrightarrow> set_slot l i v = Ret (l\<lparr>array := Some (xs[nat i := v])\<rparr>)"
  by (auto simp: set_slot_def)

lemma set_in_range:
  assumes ok: "arraylist_ok l" and idx: "0 \<le> idx" "idx < al_size l"
  shows "\<exists>l'. zc_arraylist_set mem l idx x = Ret (0, l') \<and> arraylist_ok l' \<and> slots l' = write_slot (slots l) (nat idx) x
    \<and> al_size l' = al_size l \<and> al_del l' = al_del l \<and> al_deleted l' = al_deleted l @ dropped_by_set l (nat idx)"
proof -
  obtain us vs where l: "array l = Some (us @ vs)" "al_len l = int (length us)" "al_size l = int (length us + length vs)" "0 < al_size l"
      "\<forall>v \<in> set vs. v = None" "slots l = us"
    by (rule arraylist_okE [OF ok])
  define i where "i = nat idx"
  have i: "i < length (us @ vs)" "idx = int i" using idx l by (auto simp: i_def)
  define l1 where "l1 = l\<lparr>al_deleted := al_deleted l @ dropped_by_set l i\<rparr>"
  have at: "slot_at l idx = Ret ((us @ vs) ! i)" using slot_at_block [OF l(1) idx(1)] i by simp
  have old: "(case (us @ vs) ! i of Some y \<Rightarrow> if al_del l then l\<lparr>al_deleted := al_deleted l @ [y]\<rparr> else l | None \<Rightarrow> l) = l1"
    using i l by (auto simp: l1_def dropped_by_set_def nth_append split: option.splits)
  have set: "set_slot l1 idx (Some x) = Ret (l1\<lparr>array := Some ((us @ vs)[i := Some x])\<rparr>)"
    using set_slot_block [of l1 "us @ vs" idx] i l by (simp add: l1_def)
  have run: "zc_arraylist_set mem l idx x =
      Ret (0, l1\<lparr>array := Some ((us @ vs)[i := Some x]), al_len := (if length us \<le> i then idx + 1 else al_len l)\<rparr>)"
    using idx at old set i l by (simp add: zc_arraylist_set_def l1_def)
  show ?thesis
  proof (cases "i < length us")
    case True
    let ?l = "l1\<lparr>array := Some (us[i := Some x] @ vs), al_len := al_len l\<rparr>"
    have "arraylist_ok ?l \<and> slots ?l = us[i := Some x]"
      by (rule arraylist_okI [where vs = vs]) (use l in \<open>auto simp: l1_def\<close>)
    with run True l show ?thesis by (simp add: list_update_append write_slot_def l1_def flip: i_def)
  next
    case False
    define k where "k = i - length us"
    have k: "k < length vs" using i False by (simp add: k_def)
    have "take k vs = replicate k None" using l(5) k by (intro replicate_eqI) (auto dest: in_set_takeD)
    then have upd: "(us @ vs)[i := Some x] = (us @ replicate k None @ [Some x]) @ drop (Suc k) vs"
      using False k by (simp add: list_update_append upd_conv_take_nth_drop flip: k_def)
    let ?l = "l1\<lparr>array := Some ((us @ replicate k None @ [Some x]) @ drop (Suc k) vs), al_len := idx + 1\<rparr>"
    have "arraylist_ok ?l \<and> slots ?l = us @ replicate k None @ [Some x]"
      by (rule arraylist_okI [where vs = "drop (Suc k) vs"]) (use l k i False in \<open>auto simp: l1_def k_def dest: in_set_dropD\<close>)
    with run False l upd show ?thesis by (simp add: write_slot_def l1_def k_def flip: i_def)
  qed
qed

text \<open>Growing first and setting then is what \<open>zc_arraylist_set\<close> does for a slot behind the block.\<close>

lemma set_grows:
  assumes "arraylist_ok l" "al_size l \<le> idx"
  shows "\<exists>l1. arraylist_ok l1 \<and> slots l1 = slots l \<and> al_size l1 = max (2 * al_size l) idx \<and> al_del l1 = al_del l
    \<and> al_deleted l1 = al_deleted l \<and> (idx < al_size l1 \<longrightarrow> zc_arraylist_set True l idx x = zc_arraylist_set True l1 idx x)
    \<and> (idx = al_size l1 \<longrightarrow> zc_arraylist_set True l idx x = Crash Out_Of_Bounds)"
proof -
  obtain l1 where l1: "zc_arraylist_expand_inner True l idx = Ret (0, l1)" "arraylist_ok l1" "slots l1 = slots l"
      "al_size l1 = max (2 * al_size l) idx" "al_del l1 = al_del l" "al_deleted l1 = al_deleted l"
    using expand_ok [OF assms(1)] by blast
  moreover have "slot_at l1 idx = Crash Out_Of_Bounds" if "idx = al_size l1"
    using l1(2) that by (auto simp: arraylist_ok_def slot_at_def)
  ultimately show ?thesis using assms(2) by (intro exI [of _ l1]) (auto simp: zc_arraylist_set_def)
qed

lemma set_ok:
  assumes ok: "arraylist_ok l" and idx: "0 \<le> idx" "idx < 2 * al_size l"
  shows "\<exists>l'. zc_arraylist_set True l idx x = Ret (0, l') \<and> arraylist_ok l' \<and> slots l' = write_slot (slots l) (nat idx) x
    \<and> al_size l' = (if idx < al_size l then al_size l else 2 * al_size l) \<and> al_del l' = al_del l
    \<and> al_deleted l' = al_deleted l @ dropped_by_set l (nat idx)"
proof (cases "idx < al_size l")
  case True
  with set_in_range [OF ok idx(1) True] show ?thesis by auto
next
  case False
  obtain l1 where l1: "arraylist_ok l1" "slots l1 = slots l" "al_size l1 = max (2 * al_size l) idx" "al_del l1 = al_del l"
      "al_deleted l1 = al_deleted l" "idx < al_size l1 \<longrightarrow> zc_arraylist_set True l idx x = zc_arraylist_set True l1 idx x"
    using set_grows [OF ok, of idx x] False by force
  have "dropped_by_set l1 = dropped_by_set l" by (simp add: fun_eq_iff dropped_by_set_def l1)
  with set_in_range [OF l1(1) idx(1), of True x] l1 idx False show ?thesis by auto
qed

lemma set_overruns:
  assumes "arraylist_ok l" "2 * al_size l \<le> idx"
  shows "zc_arraylist_set True l idx x = Crash Out_Of_Bounds"
proof -
  have "al_size l \<le> idx" using assms by (auto simp: arraylist_ok_def)
  with set_grows [OF assms(1) this, of x] assms(2) show ?thesis by auto
qed

text \<open>\<open>zc_arraylist_set\<close> on a well-formed list: up to twice the size of the block it stores the pointer, growing the block and filling the gap with
  null pointers as needed, and hands the pointer it replaces to the destructor; from twice the size on it writes one slot behind the block it has just
  grown to \<open>idx\<close> slots.\<close>

lemma arraylist_set_bounds:
  assumes ok: "arraylist_ok l" and idx: "0 \<le> idx"
  shows "(idx < 2 * al_size l \<longrightarrow> (\<exists>l'. zc_arraylist_set True l idx x = Ret (0, l') \<and> arraylist_ok l'
      \<and> slots l' = write_slot (slots l) (nat idx) x \<and> al_deleted l' = al_deleted l @ dropped_by_set l (nat idx)))
    \<and> (2 * al_size l \<le> idx \<longrightarrow> zc_arraylist_set True l idx x = Crash Out_Of_Bounds)"
  using set_ok [OF ok idx, of x] set_overruns [OF ok, of idx x] by auto

section \<open>Adding and sorted insertion\<close>

lemma write_slot_end: "write_slot us (length us) x = us @ [Some x]"
  by (simp add: write_slot_def)

lemma len_slots: "arraylist_ok l \<Longrightarrow> al_len l = int (length (slots l))"
  by (erule arraylist_okE) simp

lemma add_ok:
  assumes ok: "arraylist_ok l"
  shows "\<exists>l'. zc_arraylist_add True l x = Ret (0, l') \<and> arraylist_ok l' \<and> slots l' = slots l @ [Some x]
    \<and> al_del l' = al_del l \<and> al_deleted l' = al_deleted l"
proof -
  let ?n = "length (slots l)"
  have len: "al_len l = int ?n" "int ?n \<le> al_size l" "0 < al_size l"
    using ok len_slots [OF ok] by (auto simp: arraylist_ok_def)
  have drop: "dropped_by_set l' ?n = []" if "slots l' = slots l" for l' using that by (simp add: dropped_by_set_def)
  show ?thesis
  proof (cases "int ?n < al_size l")
    case True
    from set_in_range [OF ok _ True, of True x] drop show ?thesis
      by (auto simp: zc_arraylist_add_def len(1) write_slot_end)
  next
    case False
    obtain l1 where l1: "arraylist_ok l1" "slots l1 = slots l" "al_size l1 = max (2 * al_size l) (int ?n)" "al_del l1 = al_del l"
        "al_deleted l1 = al_deleted l" "int ?n < al_size l1 \<longrightarrow> zc_arraylist_set True l (int ?n) x = zc_arraylist_set True l1 (int ?n) x"
      using set_grows [OF ok, of "int ?n" x] False by force
    from l1(3) len have n: "int ?n < al_size l1" by auto
    from set_in_range [OF l1(1) _ n, of True x] drop [OF l1(2)] l1 n show ?thesis
      by (auto simp: zc_arraylist_add_def len(1) write_slot_end)
  qed
qed

lemma first_greater_scan:
  assumes "arraylist_ok l" "slots l = ys @ zs"
  shows "first_greater (length zs) cmp l x (int (length ys)) = Ret (int (length ys + length (takeWhile (\<lambda>v. \<not> cmp v x > 0) zs)))"
  using assms(2)
proof (induction zs arbitrary: ys)
  case (Cons z zs)
  obtain us vs where l: "array l = Some (us @ vs)" "slots l = us"
    by (rule arraylist_okE [OF assms(1)])
  have "slot_at l (int (length ys)) = Ret z"
    using slot_at_block [OF l(1), of "int (length ys)"] l(2) Cons.prems by (auto simp: nth_append)
  moreover have "first_greater (length zs) cmp l x (int (length (ys @ [z]))) =
      Ret (int (length (ys @ [z]) + length (takeWhile (\<lambda>v. \<not> cmp v x > 0) zs)))"
    by (rule Cons.IH) (simp add: Cons.prems)
  ultimately show ?case by (simp add: add.commute)
qed simp

lemma shift_up_ok:
  assumes "array l = Some (us @ v # vs)" "al_len l = int (length us)" "i < length us"
  shows "shift_up l i = Ret (l\<lparr>array := Some (take (Suc i) us @ drop i us @ vs)\<rparr>)"
  using assms by (simp add: shift_up_def)

lemma insert_inner_ok:
  assumes ok: "arraylist_ok l" and i: "i < length (slots l)" "slots l ! i \<noteq> None"
  shows "\<exists>l'. zc_arraylist_insert_inner True l (int i) x = Ret (0, l') \<and> arraylist_ok l'
    \<and> slots l' = take i (slots l) @ Some x # drop i (slots l) \<and> al_del l' = al_del l \<and> al_deleted l' = al_deleted l"
proof -
  define grown where "grown = (if al_len l > al_size l - 1 then zc_arraylist_expand_inner True l 0 else Ret (0, l))"
  have "\<exists>l1. grown = Ret (0, l1) \<and> arraylist_ok l1 \<and> slots l1 = slots l \<and> al_len l1 < al_size l1
      \<and> al_del l1 = al_del l \<and> al_deleted l1 = al_deleted l"
    using ok expand_ok [OF ok, of 0] unfolding grown_def by (auto simp: arraylist_ok_def)
  then obtain l1 where l1: "grown = Ret (0, l1)" "arraylist_ok l1" "slots l1 = slots l" "al_len l1 < al_size l1"
      "al_del l1 = al_del l" "al_deleted l1 = al_deleted l" by blast
  obtain us ws where a1: "array l1 = Some (us @ ws)" "al_len l1 = int (length us)" "al_size l1 = int (length us + length ws)"
      "\<forall>v \<in> set ws. v = None" "slots l1 = us"
    by (rule arraylist_okE [OF l1(2)])
  obtain v vs where ws: "ws = v # vs" using l1(4) a1(2,3) by (cases ws) auto
  obtain us' vs' where a: "array l = Some (us' @ vs')" "slots l = us'" by (rule arraylist_okE [OF ok])
  have us: "us' = us" "i < length us" using a(2) a1(5) l1(3) i by auto
  have at: "slot_at l (int i) = Ret (us ! i)" using slot_at_block [OF a(1), of "int i"] us by (simp add: nth_append)
  let ?l = "l1\<lparr>array := Some ((take i us @ Some x # drop i us) @ vs), al_len := al_len l1 + 1\<rparr>"
  have l2: "shift_up l1 i = Ret (l1\<lparr>array := Some (take (Suc i) us @ drop i us @ vs)\<rparr>)"
    using shift_up_ok a1 us ws by simp
  have "take (Suc i) us = take i us @ [us ! i]" using us(2) by (simp add: take_Suc_conv_app_nth)
  then have l3: "set_slot (l1\<lparr>array := Some (take (Suc i) us @ drop i us @ vs)\<rparr>) (int i) (Some x) =
      Ret (l1\<lparr>array := Some ((take i us @ Some x # drop i us) @ vs)\<rparr>)"
    using us(2) by (simp add: set_slot_def list_update_append)
  have "zc_arraylist_insert_inner True l (int i) x = Ret (0, ?l)"
    unfolding zc_arraylist_insert_inner_def grown_def [symmetric] using at i us a(2) l1(1) l2 l3 by auto
  moreover have "arraylist_ok ?l \<and> slots ?l = take i us @ Some x # drop i us"
    by (rule arraylist_okI [where vs = vs]) (use a1 us ws in auto)
  ultimately show ?thesis using us a(2) l1 by auto
qed

text \<open>A comparison that orders by a key, and a list without null pointers: the new pointer goes behind the elements that are not greater.\<close>

lemma sortadd_ok:
  fixes key :: "'a \<Rightarrow> 'b :: linorder"
  assumes ok: "arraylist_ok l" and xs: "slots l = map Some xs" and cmp: "\<And>a b. cmp (Some a) b > 0 \<longleftrightarrow> key a > key b"
  shows "\<exists>l'. zc_arraylist_sortadd True l cmp x = Ret (0, l') \<and> arraylist_ok l'
    \<and> slots l' = map Some (takeWhile (\<lambda>y. key y \<le> key x) xs @ x # dropWhile (\<lambda>y. key y \<le> key x) xs)
    \<and> al_del l' = al_del l \<and> al_deleted l' = al_deleted l"
proof -
  let ?P = "\<lambda>y. key y \<le> key x"
  have tw: "takeWhile (\<lambda>v. \<not> cmp v x > 0) (map Some xs) = map Some (takeWhile ?P xs)"
    using cmp by (simp only: takeWhile_map comp_def not_less) (simp flip: not_less)
  define i where "i = length (takeWhile ?P xs)"
  have scan: "first_greater (nat (al_len l)) cmp l x 0 = Ret (int i)"
    using first_greater_scan [OF ok, of "[]" "slots l" cmp x] len_slots [OF ok] tw xs by (simp add: i_def)
  have split: "takeWhile ?P xs = take i xs" "dropWhile ?P xs = drop i xs"
    unfolding i_def by (rule takeWhile_eq_take, rule dropWhile_eq_drop)
  show ?thesis
  proof (cases "i = length xs")
    case True
    with add_ok [OF ok, of x] scan len_slots [OF ok] xs show ?thesis
      unfolding split by (auto simp: zc_arraylist_sortadd_def)
  next
    case False
    then have i: "i < length (slots l)" "slots l ! i \<noteq> None" using xs length_takeWhile_le [of ?P xs] by (auto simp: i_def)
    from insert_inner_ok [OF ok i, of x] scan len_slots [OF ok] xs False show ?thesis
      unfolding split by (auto simp: zc_arraylist_sortadd_def take_map drop_map)
  qed
qed

lemma delete_slots_ret:
  assumes "array l = Some xs" "0 \<le> i" "i + int k \<le> int (length xs)"
  shows "\<exists>l'. delete_slots k i l = Ret l' \<and> array l' = Some xs"
  using assms
proof (induction k arbitrary: i l)
  case (Suc k)
  then show ?case by (cases "xs ! nat i") (auto simp: slot_at_def)
qed simp

lemma arraylist_del_ret: "arraylist_ok l \<Longrightarrow> \<exists>ds. zc_arraylist_del l = Ret ds"
  using delete_slots_ret [of l _ 0 "nat (al_len l)"] by (fastforce simp: zc_arraylist_del_def arraylist_ok_def)

text \<open>When the block cannot grow, \<open>zc_arraylist_add\<close> returns -1 and has freed the block the list still points to: the list cannot even be deleted
  after that, \<open>zc_arraylist_del\<close> frees the block a second time (or reads it, when the list has a destructor).\<close>

lemma arraylist_failed_grow_dangles:
  assumes ok: "arraylist_ok l" and full: "al_len l = al_size l"
  shows "\<exists>l'. zc_arraylist_add False l x = Ret (-1, l') \<and> zc_arraylist_del l' = Crash Out_Of_Bounds"
proof -
  obtain xs where xs: "array l = Some xs" "0 < al_len l" using ok full by (auto simp: arraylist_ok_def)
  have "delete_slots (nat (al_len l)) 0 (l\<lparr>array := None\<rparr>) = Crash Out_Of_Bounds"
    using xs(2) by (cases "nat (al_len l)") (auto simp: slot_at_def)
  with xs full show ?thesis
    by (simp add: zc_arraylist_add_def zc_arraylist_set_def zc_arraylist_expand_inner_def zc_arraylist_del_def Let_def)
qed

end
