(* ===== verification/Zlog_Level.thy ===== *)
theory Zlog_Level
  imports Zc_Arraylist
begin

text \<open>
  The levels of the logging library (\<open>zlog/src/level.c\<close>, \<open>zlog/src/level_list.c\<close>): the line that defines a level, and the list of levels indexed by
  their numbers.

  The list is the growing array of \<open>Zc_Arraylist\<close>, whose \<open>set\<close> overruns its block for an index that is too far behind it. The
  default levels, set in rising order, grow the block to exactly the 256 slots every later level fits into (\<open>level_list_safe\<close>).
\<close>

section \<open>A level\<close>

record zlog_level =
  int_level :: int
  str_uppercase :: string
  str_lowercase :: string
  str_len :: nat
  syslog_level :: int

definition MAXLEN_PATH :: nat where
  "MAXLEN_PATH = 1024"

definition MAXLEN_CFG_LINE :: nat where
  "MAXLEN_CFG_LINE = MAXLEN_PATH * 4"

definition syslog_level_atoi :: "string \<Rightarrow> int" where
  "syslog_level_atoi s =
     (if strcasecmp_eq s ''LOG_EMERG'' then 0
      else if strcasecmp_eq s ''LOG_ALERT'' then 1
      else if strcasecmp_eq s ''LOG_CRIT'' then 2
      else if strcasecmp_eq s ''LOG_ERR'' then 3
      else if strcasecmp_eq s ''LOG_WARNING'' then 4
      else if strcasecmp_eq s ''LOG_NOTICE'' then 5
      else if strcasecmp_eq s ''LOG_INFO'' then 6
      else if strcasecmp_eq s ''LOG_DEBUG'' then 7
      else -187)"

text \<open>\<open>sscanf(line, " %[^= \t] = %d ,%s", str, &l, sl)\<close>: the number of conversions and the three values. \<open>%d\<close> skips white space, wants a digit behind an optional
  sign and takes the value of \<open>strtol\<close>, cut to 32 bits.\<close>

definition skip_space :: "string \<Rightarrow> string" where
  "skip_space s = dropWhile isspace s"

definition name_char :: "char \<Rightarrow> bool" where
  "name_char c \<longleftrightarrow> c \<noteq> CHR ''='' \<and> c \<noteq> CHR '' '' \<and> c \<noteq> CHR 0x09"

definition unsigned_part :: "string \<Rightarrow> string" where
  "unsigned_part s = (case s of [] \<Rightarrow> [] | c # cs \<Rightarrow> if c = CHR ''-'' \<or> c = CHR ''+'' then cs else s)"

definition scan_int :: "string \<Rightarrow> (int \<times> string) option" where
  "scan_int s =
     (case unsigned_part (skip_space s) of
        [] \<Rightarrow> None
      | c # cs \<Rightarrow> if isdigit c then Some (atoi s, dropWhile isdigit (c # cs)) else None)"

definition scan_level :: "string \<Rightarrow> nat \<times> string \<times> int \<times> string" where
  "scan_level line =
     (let t = skip_space line; str = takeWhile name_char t in
      if str = [] then (0, [], 0, [])
      else case skip_space (dropWhile name_char t) of
        [] \<Rightarrow> (1, str, 0, [])
      | c # t2 \<Rightarrow>
          if c \<noteq> CHR ''='' then (1, str, 0, [])
          else case scan_int t2 of
            None \<Rightarrow> (1, str, 0, [])
          | Some (l, t3) \<Rightarrow>
              (case skip_space t3 of
                 [] \<Rightarrow> (2, str, l, [])
               | c # t4 \<Rightarrow>
                   if c \<noteq> CHR '','' then (2, str, l, [])
                   else let sl = takeWhile (\<lambda>c. \<not> isspace c) (skip_space t4) in
                     if sl = [] then (2, str, l, []) else (3, str, l, sl)))"

text \<open>\<open>zlog_level_new\<close>; \<open>str\<close> and \<open>sl\<close> are arrays of \<open>MAXLEN_CFG_LINE + 1\<close> bytes, which \<open>sscanf\<close> does not look at. Its argument is not null.\<close>

definition zlog_level_new :: "bool \<Rightarrow> string \<Rightarrow> zlog_level option res" where
  "zlog_level_new mem line =
     (let (nscan, str, l, sl) = scan_level line in
      if length str > MAXLEN_CFG_LINE \<or> length sl > MAXLEN_CFG_LINE then Crash Out_Of_Bounds
      else if nscan < 2 then Ret None
      else if l < 0 \<or> l > 255 then Ret None
      else if str = [] then Ret None
      else if \<not> mem then Ret None
      else
        let slevel = (if sl = [] then 7 else syslog_level_atoi sl) in
        if slevel = -187 then Ret None
        else if length str > MAXLEN_PATH then Ret None
        else Ret (Some \<lparr>int_level = l, str_uppercase = map toupper str, str_lowercase = map tolower str,
                        str_len = length str, syslog_level = slevel\<rparr>))"

section \<open>The list of levels\<close>

type_synonym zlog_levels = "zlog_level zc_arraylist"

text \<open>\<open>fst mem\<close> and \<open>snd mem\<close> say whether the allocation of the level and the growing of the list succeed.\<close>

definition zlog_level_list_set :: "bool \<times> bool \<Rightarrow> zlog_levels \<Rightarrow> string \<Rightarrow> (int \<times> zlog_levels) res" where
  "zlog_level_list_set mem levels line =
     bnd (zlog_level_new (fst mem) line) (\<lambda>a_level.
     case a_level of
       None \<Rightarrow> Ret (-1, levels)
     | Some lv \<Rightarrow> bnd (zc_arraylist_set (snd mem) levels (int_level lv) lv) (\<lambda>(rc, levels'). Ret (if rc \<noteq> 0 then -1 else 0, levels')))"

text \<open>A chain of \<open>||\<close>: the first line that fails ends it.\<close>

primrec set_lines :: "(nat \<Rightarrow> bool \<times> bool) \<Rightarrow> nat \<Rightarrow> string list \<Rightarrow> zlog_levels \<Rightarrow> (bool \<times> zlog_levels) res" where
  "set_lines mem i [] levels = Ret (False, levels)"
| "set_lines mem i (line # lines) levels =
     bnd (zlog_level_list_set (mem i) levels line) (\<lambda>(rc, levels'). if rc \<noteq> 0 then Ret (True, levels') else set_lines mem (Suc i) lines levels')"

definition default_lines :: "string list" where
  "default_lines =
     [''* = 0, LOG_INFO'', ''DEBUG = 20, LOG_DEBUG'', ''INFO = 40, LOG_INFO'', ''NOTICE = 60, LOG_NOTICE'', ''WARN = 80, LOG_WARNING'',
      ''ERROR = 100, LOG_ERR'', ''FATAL = 120, LOG_ALERT'', ''UNKNOWN = 254, LOG_ERR'', ''! = 255, LOG_INFO'']"

definition zlog_level_list_set_default :: "(nat \<Rightarrow> bool \<times> bool) \<Rightarrow> zlog_levels \<Rightarrow> (bool \<times> zlog_levels) res" where
  "zlog_level_list_set_default mem levels = set_lines mem 0 default_lines levels"

definition zlog_level_list_new :: "bool \<Rightarrow> bool \<Rightarrow> (nat \<Rightarrow> bool \<times> bool) \<Rightarrow> zlog_levels option res" where
  "zlog_level_list_new mem1 mem2 mem =
     (case zc_arraylist_new mem1 mem2 True of
        None \<Rightarrow> Ret None
      | Some levels \<Rightarrow>
          bnd (zlog_level_list_set_default mem levels) (\<lambda>(failed, levels').
          if failed then bnd (zc_arraylist_del levels') (\<lambda>_. Ret None) else Ret (Some levels')))"

definition zlog_level_list_get :: "zlog_levels \<Rightarrow> int \<Rightarrow> zlog_level option res" where
  "zlog_level_list_get levels l =
     bnd (zc_arraylist_get levels l) (\<lambda>a_level.
     case a_level of Some lv \<Rightarrow> Ret (Some lv) | None \<Rightarrow> zc_arraylist_get levels 254)"

primrec find_name :: "nat \<Rightarrow> zlog_levels \<Rightarrow> string \<Rightarrow> int \<Rightarrow> int res" where
  "find_name 0 levels str i = Ret (-1)"
| "find_name (Suc rest) levels str i =
     bnd (slot_at levels i) (\<lambda>v.
     case v of
       Some lv \<Rightarrow> if strcasecmp_eq str (str_uppercase lv) then Ret i else find_name rest levels str (i + 1)
     | None \<Rightarrow> find_name rest levels str (i + 1))"

definition zlog_level_list_atoi :: "zlog_levels \<Rightarrow> string option \<Rightarrow> int res" where
  "zlog_level_list_atoi levels str =
     (case str of
        None \<Rightarrow> Ret (-1)
      | Some s \<Rightarrow>
          if s = [] then Ret (-1)
          else bnd (slot_at levels 0) (\<lambda>_. find_name (nat (al_len levels)) levels s 0))"

section \<open>Lines\<close>

lemma skip_space_id: "s = [] \<or> \<not> isspace (hd s) \<Longrightarrow> skip_space s = s"
  by (cases s) (auto simp: skip_space_def)

lemma skip_space_blank [simp]: "skip_space (CHR '' '' # s) = skip_space s"
  by (simp add: skip_space_def)

lemma digits_val_stop: "\<forall>c \<in> set s. isdigit c \<Longrightarrow> r = [] \<or> \<not> isdigit (hd r) \<Longrightarrow> digits_val acc (s @ r) = digits_val acc s"
proof (induction s arbitrary: acc)
  case Nil
  then show ?case by (cases r) auto
qed auto

lemma scan_int_show_nat:
  assumes n: "n < 2 ^ 31" and r: "r = [] \<or> \<not> isdigit (hd r)"
  shows "scan_int (CHR '' '' # show_nat n @ r) = Some (int n, r)"
proof -
  obtain c cs where s: "show_nat n = c # cs" using show_nat_nonempty [of n] by (cases "show_nat n") auto
  have d: "\<forall>c \<in> set (show_nat n). isdigit c" by (rule show_nat_digits)
  then have c: "isdigit c" and nc: "c \<noteq> CHR ''-''" "c \<noteq> CHR ''+''" "\<not> isspace c" using isdigit_not_sign [of c] by (auto simp: s)
  have val: "digits_val 0 (c # cs @ r) = digits_val 0 (c # cs)" using digits_val_stop [of "c # cs" r 0] d r by (simp add: s)
  have "strtol10 (CHR '' '' # show_nat n @ r) = strtol10 (show_nat n)"
    using nc val by (simp add: strtol10_def s Let_def)
  then have "atoi (CHR '' '' # show_nat n @ r) = int n" using atoi_show_nat [of n] n by (simp add: atoi_def)
  moreover have "dropWhile isdigit (c # cs @ r) = r"
    using d r by (cases r) (auto simp: s dropWhile_append)
  moreover have "skip_space (show_nat n @ r) = c # cs @ r" using nc by (simp add: s skip_space_def)
  ultimately show ?thesis using c nc by (simp add: scan_int_def unsigned_part_def)
qed

definition level_line :: "string \<Rightarrow> nat \<Rightarrow> string \<Rightarrow> string" where
  "level_line name n sl = name @ '' = '' @ show_nat n @ '', '' @ sl"

definition good_name :: "string \<Rightarrow> bool" where
  "good_name name \<longleftrightarrow> name \<noteq> [] \<and> length name \<le> MAXLEN_PATH \<and> (\<forall>c \<in> set name. name_char c \<and> \<not> isspace c)"

definition level_of :: "string \<Rightarrow> nat \<Rightarrow> string \<Rightarrow> zlog_level" where
  "level_of name n sl = \<lparr>int_level = int n, str_uppercase = map toupper name, str_lowercase = map tolower name,
     str_len = length name, syslog_level = syslog_level_atoi sl\<rparr>"

lemma isspace_comma: "\<not> isspace (CHR '','')" "\<not> isdigit (CHR '','')" "\<not> isspace (CHR ''='')"
  by (simp_all add: isspace_def isdigit_def byte_def)

lemma scan_level_line:
  assumes "good_name name" "n \<le> 255" "sl \<noteq> []" "\<forall>c \<in> set sl. \<not> isspace c"
  shows "scan_level (level_line name n sl) = (3, name, int n, sl)"
proof -
  have name: "name \<noteq> []" "\<forall>c \<in> set name. name_char c" "\<not> isspace (hd name)" using assms(1) by (auto simp: good_name_def)
  let ?r = "CHR '' '' # CHR ''='' # CHR '' '' # show_nat n @ '', '' @ sl"
  have line: "skip_space (level_line name n sl) = name @ ?r" using name by (cases name) (auto simp: level_line_def skip_space_def)
  have tw: "takeWhile name_char (name @ ?r) = name" "dropWhile name_char (name @ ?r) = ?r"
    using name(2) by (simp_all add: takeWhile_append dropWhile_append name_char_def)
  have eq: "skip_space ?r = CHR ''='' # CHR '' '' # show_nat n @ '', '' @ sl" by (simp add: skip_space_def isspace_comma)
  have int: "scan_int (CHR '' '' # show_nat n @ '', '' @ sl) = Some (int n, '', '' @ sl)"
    using assms(2) by (intro scan_int_show_nat) (simp_all add: isspace_comma)
  have "skip_space sl = sl" using assms(3,4) by (intro skip_space_id) auto
  moreover have "takeWhile (\<lambda>c. \<not> isspace c) sl = sl" using assms(4) by (simp add: takeWhile_eq_all_conv)
  moreover have "skip_space ('', '' @ sl) = '', '' @ sl" by (intro skip_space_id) (simp add: isspace_comma)
  ultimately show ?thesis
    using name(1) assms(3) line tw eq int unfolding scan_level_def by (simp add: Let_def del: takeWhile_eq_all_conv)
qed

lemma level_new_line:
  assumes "good_name name" "n \<le> 255" "syslog_level_atoi sl \<noteq> -187" "sl \<noteq> []" "length sl \<le> MAXLEN_CFG_LINE" "\<forall>c \<in> set sl. \<not> isspace c"
  shows "zlog_level_new True (level_line name n sl) = Ret (Some (level_of name n sl))"
  using scan_level_line [OF assms(1,2,4,6)] assms
  by (simp add: zlog_level_new_def level_of_def good_name_def MAXLEN_CFG_LINE_def)

text \<open>The line that defines a level, read back: a name without \<open>=\<close>, blanks and other white space, a number up to 255 and the name of a syslog level make
  the level with that name in upper and in lower case, that number and that syslog level.\<close>

lemma level_line_read:
  assumes "good_name name" "n \<le> 255" "syslog_level_atoi sl \<noteq> -187" "sl \<noteq> []" "length sl \<le> MAXLEN_CFG_LINE" "\<forall>c \<in> set sl. \<not> isspace c"
  shows "zlog_level_new True (level_line name n sl) = Ret (Some (level_of name n sl))"
  using assms by (rule level_new_line)

lemmas level_eval = level_line_def good_name_def name_char_def isspace_def MAXLEN_PATH_def MAXLEN_CFG_LINE_def
  syslog_level_atoi_def strcasecmp_eq_def tolower_def isupper_def byte_def

section \<open>The list\<close>

lemma level_new_range: "zlog_level_new mem line = Ret (Some lv) \<Longrightarrow> 0 \<le> int_level lv \<and> int_level lv \<le> 255"
  by (auto simp: zlog_level_new_def Let_def split: prod.splits if_splits)

lemma scan_level_short:
  assumes "scan_level line = (nscan, str, l, sl)"
  shows "length str \<le> length line \<and> length sl \<le> length line"
proof -
  have skip: "length (skip_space s) \<le> length s" for s by (simp add: skip_space_def length_dropWhile_le)
  have unsig: "length (unsigned_part s) \<le> length s" for s by (auto simp: unsigned_part_def split: list.split)
  have int: "length r \<le> length s" if "scan_int s = Some (i, r)" for s i r
  proof -
    have "\<exists>c cs. unsigned_part (skip_space s) = c # cs \<and> r = dropWhile isdigit (c # cs)"
      using that by (auto simp: scan_int_def split: list.splits if_splits)
    then show ?thesis using length_dropWhile_le [of isdigit] unsig [of "skip_space s"] skip [of s] by (metis le_trans)
  qed
  let ?t = "skip_space line"
  have str: "length (takeWhile name_char ?t) \<le> length line"
    using length_takeWhile_le [of name_char ?t] skip [of line] by linarith
  have rest: "length (skip_space (dropWhile name_char ?t)) \<le> length line"
    using length_dropWhile_le [of name_char ?t] skip [of line] skip [of "dropWhile name_char ?t"] by linarith
  have sl: "length (takeWhile (\<lambda>c. \<not> isspace c) (skip_space t4)) \<le> length line"
    if "skip_space (dropWhile name_char ?t) = c # t2" "scan_int t2 = Some (i, t3)" "skip_space t3 = c' # t4" for c t2 i t3 c' t4
  proof -
    have "length (takeWhile (\<lambda>c. \<not> isspace c) (skip_space t4)) \<le> length (skip_space t4)" by (rule length_takeWhile_le)
    also have "\<dots> \<le> length t4" by (rule skip)
    also have "\<dots> \<le> length (skip_space t3)" using that(3) by simp
    also have "\<dots> \<le> length t3" by (rule skip)
    also have "\<dots> \<le> length t2" using int [OF that(2)] .
    also have "\<dots> \<le> length line" using rest that(1) by simp
    finally show ?thesis .
  qed
  show ?thesis
    using assms str sl unfolding scan_level_def Let_def by (auto split: if_splits list.splits option.splits prod.splits)
qed

lemma level_new_returns:
  assumes "length line \<le> MAXLEN_CFG_LINE"
  shows "\<exists>lv. zlog_level_new mem line = Ret lv"
proof -
  obtain nscan str l sl where s: "scan_level line = (nscan, str, l, sl)" by (metis prod_cases4)
  with scan_level_short [OF s] assms show ?thesis by (simp add: zlog_level_new_def Let_def)
qed

text \<open>The list once the default levels are in.\<close>

definition levels_ok :: "zlog_levels \<Rightarrow> bool" where
  "levels_ok levels \<longleftrightarrow> arraylist_ok levels \<and> al_size levels = 256 \<and> length (slots levels) = 256 \<and> slots levels ! 254 \<noteq> None"

lemma level_list_set_levels_ok:
  assumes ok: "levels_ok levels" and line: "length line \<le> MAXLEN_CFG_LINE"
  shows "\<exists>rc levels'. zlog_level_list_set (True, True) levels line = Ret (rc, levels') \<and> levels_ok levels'"
proof -
  obtain r where r: "zlog_level_new True line = Ret r" using level_new_returns [OF line] by blast
  show ?thesis
  proof (cases r)
    case None
    with r ok show ?thesis by (simp add: zlog_level_list_set_def)
  next
    case (Some lv)
    have lv: "0 \<le> int_level lv" "int_level lv \<le> 255" using level_new_range r Some by auto
    with ok have "arraylist_ok levels" "int_level lv < 2 * al_size levels" by (auto simp: levels_ok_def)
    from set_ok [OF this(1) lv(1) this(2), of lv] obtain l' where
      l': "zc_arraylist_set True levels (int_level lv) lv = Ret (0, l')" "arraylist_ok l'"
        "slots l' = write_slot (slots levels) (nat (int_level lv)) lv" "al_size l' = 256"
      using ok lv by (auto simp: levels_ok_def)
    have "levels_ok l'" using l' ok lv by (auto simp: levels_ok_def write_slot_def nth_list_update)
    with r Some l'(1) show ?thesis by (simp add: zlog_level_list_set_def)
  qed
qed

lemma set_lines_levels_ok:
  assumes "levels_ok levels" "\<forall>line \<in> set lines. length line \<le> MAXLEN_CFG_LINE"
  shows "\<exists>failed levels'. set_lines (\<lambda>_. (True, True)) i lines levels = Ret (failed, levels') \<and> levels_ok levels'"
  using assms
proof (induction lines arbitrary: i levels)
  case (Cons line lines)
  from level_list_set_levels_ok [OF Cons.prems(1), of line] Cons.prems(2) obtain rc l' where
    l': "zlog_level_list_set (True, True) levels line = Ret (rc, l')" "levels_ok l'" by auto
  with Cons.IH [OF l'(2), of "Suc i"] Cons.prems(2) show ?case by auto
qed auto

lemma show_default:
  "show_nat 0 = ''0''" "show_nat 20 = ''20''" "show_nat 40 = ''40''" "show_nat 60 = ''60''" "show_nat 80 = ''80''" "show_nat 100 = ''100''" "show_nat 120 = ''120''" "show_nat 254 = ''254''" "show_nat 255 = ''255''"
  by code_simp+

lemma default_levels:
  "zlog_level_new True ''* = 0, LOG_INFO'' = Ret (Some (level_of ''*'' 0 ''LOG_INFO''))"
  "zlog_level_new True ''DEBUG = 20, LOG_DEBUG'' = Ret (Some (level_of ''DEBUG'' 20 ''LOG_DEBUG''))"
  "zlog_level_new True ''INFO = 40, LOG_INFO'' = Ret (Some (level_of ''INFO'' 40 ''LOG_INFO''))"
  "zlog_level_new True ''NOTICE = 60, LOG_NOTICE'' = Ret (Some (level_of ''NOTICE'' 60 ''LOG_NOTICE''))"
  "zlog_level_new True ''WARN = 80, LOG_WARNING'' = Ret (Some (level_of ''WARN'' 80 ''LOG_WARNING''))"
  "zlog_level_new True ''ERROR = 100, LOG_ERR'' = Ret (Some (level_of ''ERROR'' 100 ''LOG_ERR''))"
  "zlog_level_new True ''FATAL = 120, LOG_ALERT'' = Ret (Some (level_of ''FATAL'' 120 ''LOG_ALERT''))"
  "zlog_level_new True ''UNKNOWN = 254, LOG_ERR'' = Ret (Some (level_of ''UNKNOWN'' 254 ''LOG_ERR''))"
  "zlog_level_new True ''! = 255, LOG_INFO'' = Ret (Some (level_of ''!'' 255 ''LOG_INFO''))"
proof -
  show "zlog_level_new True ''* = 0, LOG_INFO'' = Ret (Some (level_of ''*'' 0 ''LOG_INFO''))"
    using level_new_line [of "''*''" 0 "''LOG_INFO''"] by (simp add: level_eval show_default)
  show "zlog_level_new True ''DEBUG = 20, LOG_DEBUG'' = Ret (Some (level_of ''DEBUG'' 20 ''LOG_DEBUG''))"
    using level_new_line [of "''DEBUG''" 20 "''LOG_DEBUG''"] by (simp add: level_eval show_default)
  show "zlog_level_new True ''INFO = 40, LOG_INFO'' = Ret (Some (level_of ''INFO'' 40 ''LOG_INFO''))"
    using level_new_line [of "''INFO''" 40 "''LOG_INFO''"] by (simp add: level_eval show_default)
  show "zlog_level_new True ''NOTICE = 60, LOG_NOTICE'' = Ret (Some (level_of ''NOTICE'' 60 ''LOG_NOTICE''))"
    using level_new_line [of "''NOTICE''" 60 "''LOG_NOTICE''"] by (simp add: level_eval show_default)
  show "zlog_level_new True ''WARN = 80, LOG_WARNING'' = Ret (Some (level_of ''WARN'' 80 ''LOG_WARNING''))"
    using level_new_line [of "''WARN''" 80 "''LOG_WARNING''"] by (simp add: level_eval show_default)
  show "zlog_level_new True ''ERROR = 100, LOG_ERR'' = Ret (Some (level_of ''ERROR'' 100 ''LOG_ERR''))"
    using level_new_line [of "''ERROR''" 100 "''LOG_ERR''"] by (simp add: level_eval show_default)
  show "zlog_level_new True ''FATAL = 120, LOG_ALERT'' = Ret (Some (level_of ''FATAL'' 120 ''LOG_ALERT''))"
    using level_new_line [of "''FATAL''" 120 "''LOG_ALERT''"] by (simp add: level_eval show_default)
  show "zlog_level_new True ''UNKNOWN = 254, LOG_ERR'' = Ret (Some (level_of ''UNKNOWN'' 254 ''LOG_ERR''))"
    using level_new_line [of "''UNKNOWN''" 254 "''LOG_ERR''"] by (simp add: level_eval show_default)
  show "zlog_level_new True ''! = 255, LOG_INFO'' = Ret (Some (level_of ''!'' 255 ''LOG_INFO''))"
    using level_new_line [of "''!''" 255 "''LOG_INFO''"] by (simp add: level_eval show_default)
qed

lemma int_level_of [simp]: "int_level (level_of name n sl) = int n"
  by (simp add: level_of_def)

lemma list_set_step:
  assumes "zlog_level_new True line = Ret (Some (level_of name n sl))" "arraylist_ok l" "int n < 2 * al_size l"
  shows "\<exists>l'. zlog_level_list_set (True, True) l line = Ret (0, l') \<and> arraylist_ok l' \<and> slots l' = write_slot (slots l) n (level_of name n sl)
    \<and> al_size l' = (if int n < al_size l then al_size l else 2 * al_size l)"
  using set_ok [of l "int n" "level_of name n sl"] assms by (auto simp: zlog_level_list_set_def)

lemma level_list_new_ok:
  "\<exists>levels. zlog_level_list_new True True (\<lambda>_. (True, True)) = Ret (Some levels) \<and> levels_ok levels"
proof -
  obtain l :: zlog_levels where new: "zc_arraylist_new True True True = Some l" by (simp add: zc_arraylist_new_def)
  then have l: "zc_arraylist_new True True True = Some l" "arraylist_ok l" "slots l = []" "al_size l = 32"
    using new_arraylist_ok [of True l] by simp_all
  obtain a where a: "zlog_level_list_set (True, True) l ''* = 0, LOG_INFO'' = Ret (0, a)" "arraylist_ok a" "length (slots a) = 1" "al_size a = 32"
    using list_set_step [OF default_levels(1) l(2)] l by (auto simp: write_slot_def)
  obtain b where b: "zlog_level_list_set (True, True) a ''DEBUG = 20, LOG_DEBUG'' = Ret (0, b)" "arraylist_ok b" "length (slots b) = 21" "al_size b = 32"
    using list_set_step [OF default_levels(2) a(2)] a by (auto simp: write_slot_def)
  obtain c where c: "zlog_level_list_set (True, True) b ''INFO = 40, LOG_INFO'' = Ret (0, c)" "arraylist_ok c" "length (slots c) = 41" "al_size c = 64"
    using list_set_step [OF default_levels(3) b(2)] b by (auto simp: write_slot_def)
  obtain d where d: "zlog_level_list_set (True, True) c ''NOTICE = 60, LOG_NOTICE'' = Ret (0, d)" "arraylist_ok d" "length (slots d) = 61" "al_size d = 64"
    using list_set_step [OF default_levels(4) c(2)] c by (auto simp: write_slot_def)
  obtain e where e: "zlog_level_list_set (True, True) d ''WARN = 80, LOG_WARNING'' = Ret (0, e)" "arraylist_ok e" "length (slots e) = 81" "al_size e = 128"
    using list_set_step [OF default_levels(5) d(2)] d by (auto simp: write_slot_def)
  obtain f where f: "zlog_level_list_set (True, True) e ''ERROR = 100, LOG_ERR'' = Ret (0, f)" "arraylist_ok f" "length (slots f) = 101" "al_size f = 128"
    using list_set_step [OF default_levels(6) e(2)] e by (auto simp: write_slot_def)
  obtain g where g: "zlog_level_list_set (True, True) f ''FATAL = 120, LOG_ALERT'' = Ret (0, g)" "arraylist_ok g" "length (slots g) = 121" "al_size g = 128"
    using list_set_step [OF default_levels(7) f(2)] f by (auto simp: write_slot_def)
  obtain h where h: "zlog_level_list_set (True, True) g ''UNKNOWN = 254, LOG_ERR'' = Ret (0, h)" "arraylist_ok h" "length (slots h) = 255" "al_size h = 256"
      "slots h ! 254 \<noteq> None"
    using list_set_step [OF default_levels(8) g(2)] g by (auto simp: write_slot_def nth_append)
  obtain i where i: "zlog_level_list_set (True, True) h ''! = 255, LOG_INFO'' = Ret (0, i)" "arraylist_ok i" "length (slots i) = 256" "al_size i = 256"
      "slots i ! 254 \<noteq> None"
    using list_set_step [OF default_levels(9) h(2)] h by (auto simp: write_slot_def nth_append)
  have "zlog_level_list_set_default (\<lambda>_. (True, True)) l = Ret (False, i)"
    by (simp add: zlog_level_list_set_default_def default_lines_def a(1) b(1) c(1) d(1) e(1) f(1) g(1) h(1) i(1))
  with l i show ?thesis by (simp add: zlog_level_list_new_def levels_ok_def)
qed

lemma levels_get:
  assumes ok: "levels_ok levels"
  shows "0 \<le> n \<Longrightarrow> n < 256 \<Longrightarrow> zc_arraylist_get levels n = Ret (slots levels ! nat n)"
    and "256 \<le> n \<Longrightarrow> zc_arraylist_get levels n = Ret None" and "n < 0 \<Longrightarrow> zc_arraylist_get levels n = Crash Out_Of_Bounds"
proof -
  obtain us vs where l: "array levels = Some (us @ vs)" "al_len levels = int (length us)" "slots levels = us"
    by (rule arraylist_okE [of levels]) (use ok in \<open>simp_all add: levels_ok_def\<close>)
  have us: "length us = 256" using ok l(3) by (simp add: levels_ok_def)
  show "zc_arraylist_get levels n = Ret (slots levels ! nat n)" if "0 \<le> n" "n < 256"
    using slot_at_block [OF l(1) that(1)] that us l by (simp add: zc_arraylist_get_def nth_append nat_less_iff)
  show "256 \<le> n \<Longrightarrow> zc_arraylist_get levels n = Ret None" "n < 0 \<Longrightarrow> zc_arraylist_get levels n = Crash Out_Of_Bounds"
    using us l by (simp_all add: zc_arraylist_get_def slot_at_def)
qed

text \<open>The list of levels with the defaults, and then any further level lines of the length the configuration reader allows: no line writes outside the
  list's block, although \<open>zc_arraylist_set\<close> can overrun it. \<open>zlog_level_list_get\<close> then returns a level for every number from 0 on, the one that was
  defined or UNKNOWN; for a negative number it reads in front of the block.\<close>

lemma level_list_safe:
  assumes "\<forall>line \<in> set lines. length line \<le> MAXLEN_CFG_LINE"
  shows "\<exists>l0 failed levels. zlog_level_list_new True True (\<lambda>_. (True, True)) = Ret (Some l0)
    \<and> set_lines (\<lambda>_. (True, True)) 0 lines l0 = Ret (failed, levels)
    \<and> (\<forall>n \<ge> 0. \<exists>lv. zlog_level_list_get levels n = Ret (Some lv))
    \<and> (\<forall>n < 0. zlog_level_list_get levels n = Crash Out_Of_Bounds)"
proof -
  obtain l0 where l0: "zlog_level_list_new True True (\<lambda>_. (True, True)) = Ret (Some l0)" "levels_ok l0"
    using level_list_new_ok by blast
  obtain failed levels where l: "set_lines (\<lambda>_. (True, True)) 0 lines l0 = Ret (failed, levels)" "levels_ok levels"
    using set_lines_levels_ok [OF l0(2) assms] by blast
  have u: "\<exists>lv. zc_arraylist_get levels 254 = Ret (Some lv)"
    using levels_get(1) [OF l(2), of 254] l(2) by (auto simp: levels_ok_def)
  have "\<exists>lv. zlog_level_list_get levels n = Ret (Some lv)" if "0 \<le> n" for n
    using levels_get(1,2) [OF l(2), of n] u that
    by (cases "n < 256"; cases "slots levels ! nat n") (auto simp: zlog_level_list_get_def)
  with l0 l levels_get(3) [OF l(2)] show ?thesis by (auto simp: zlog_level_list_get_def)
qed

lemma tolower_toupper: "tolower (toupper c) = tolower c"
proof (cases "islower c")
  case True
  then have b: "97 \<le> byte c" "byte c \<le> 122" by (simp_all add: islower_def)
  have "byte (char_of (byte c - 32)) = byte c - 32" using b by (simp add: byte_def)
  moreover have "65 \<le> byte c - 32" "byte c - 32 \<le> 90" "byte c - 32 + 32 = byte c" using b by arith+
  ultimately have "tolower (char_of (byte c - 32)) = char_of (byte c)" by (simp add: tolower_def isupper_def)
  with True b show ?thesis by (simp add: toupper_def tolower_def isupper_def byte_def)
qed (simp add: toupper_def)

definition level_named :: "string \<Rightarrow> zlog_level option \<Rightarrow> bool" where
  "level_named str v \<longleftrightarrow> (\<exists>lv. v = Some lv \<and> strcasecmp_eq str (str_uppercase lv))"

lemma find_name_hit:
  assumes ok: "levels_ok levels" and n: "n < 256" "level_named str (slots levels ! n)"
  shows "i \<le> n \<Longrightarrow> \<exists>m. find_name (256 - i) levels str (int i) = Ret (int m) \<and> i \<le> m \<and> m \<le> n \<and> level_named str (slots levels ! m)
    \<and> (\<forall>j. i \<le> j \<and> j < m \<longrightarrow> \<not> level_named str (slots levels ! j))"
proof (induction "n - i" arbitrary: i)
  have at: "slot_at levels (int i) = Ret (slots levels ! i)" if "i < 256" for i
    using levels_get(1) [OF ok, of "int i"] that ok len_slots [of levels]
    by (auto simp: zc_arraylist_get_def levels_ok_def split: if_splits)
  have step: "256 - i = Suc (255 - i)" if "i < 256" for i :: nat using that by simp
  {
    case (0 i)
    then have "i = n" by simp
    with n at [of n] step [of n] show ?case by (auto simp: level_named_def intro!: exI [of _ n])
  next
    case (Suc k i)
    then have i: "i < n" "i < 256" using n by auto
    show ?case
    proof (cases "level_named str (slots levels ! i)")
      case True
      with i at [of i] step [of i] show ?thesis by (auto simp: level_named_def intro!: exI [of _ i])
    next
      case False
      have "k = n - Suc i" "Suc i \<le> n" using Suc.hyps(2) i by simp_all
      from Suc.hyps(1) [OF this] obtain m where m: "find_name (256 - Suc i) levels str (int (Suc i)) = Ret (int m)" "Suc i \<le> m" "m \<le> n"
          "level_named str (slots levels ! m)" "\<forall>j. Suc i \<le> j \<and> j < m \<longrightarrow> \<not> level_named str (slots levels ! j)"
        by blast
      have "find_name (256 - i) levels str (int i) = find_name (256 - Suc i) levels str (int (Suc i))"
        using False i at [of i] step [of i] by (auto simp: level_named_def add.commute split: option.split)
      with m all_from_Suc [of "\<lambda>j. \<not> level_named str (slots levels ! j)" i m] False show ?thesis
        by (intro exI [of _ m]) auto
    qed
  }
qed



end
