(* ===== verification/Zc_Hashtable.thy ===== *)
theory Zc_Hashtable
  imports Prelude "HOL-Library.Multiset"
begin

text \<open>
  The hash table of the logging library (\<open>zlog/src/zc_hashtable.c\<close>): buckets of doubly linked entries.

  \<^item> An entry lives in a cell of the table's memory; a pointer to it is the number of the cell, \<open>NULL\<close> is \<open>None\<close>, and a freed cell is empty, so
    that reading it is a crash. The model links and unlinks entries the way the code does, pointer by pointer.
  \<^item> \<open>linked\<close> says that following \<open>next\<close> from a pointer gives a list of cells whose \<open>prev\<close> pointers lead back. \<open>table_ok\<close> is the invariant: the
    chain of a bucket holds exactly the entries whose hash falls in it.
  \<^item> Every operation refines the finite map \<open>table_map\<close>, deletes each key and each value it drops once, and the iteration meets every entry once.
\<close>

section \<open>Entries, memory and the table\<close>

record ('k, 'v) zc_hashtable_entry =
  hash_key :: "32 word"
  ekey :: 'k
  evalue :: 'v
  eprev :: "nat option"
  enext :: "nat option"

type_synonym ('k, 'v) cells = "('k, 'v) zc_hashtable_entry option list"

text \<open>A call of one of the two destructors; a table whose destructor is \<open>NULL\<close> makes none.\<close>

datatype ('k, 'v) destroyed = Key_Del 'k | Value_Del 'v

record ('k, 'v) zc_hashtable =
  nelem :: nat
  tab :: "nat option list"
  tab_size :: nat
  hash :: "'k \<Rightarrow> 32 word"
  equal_key :: "'k \<Rightarrow> 'k \<Rightarrow> bool"
  key_del :: bool
  value_del :: bool
  cells :: "('k, 'v) cells"
  destroyed :: "('k, 'v) destroyed list"

definition entry_at :: "('k, 'v) cells \<Rightarrow> nat \<Rightarrow> ('k, 'v) zc_hashtable_entry res" where
  "entry_at cs p = (if p < length cs then (case cs ! p of Some e \<Rightarrow> Ret e | None \<Rightarrow> Crash Out_Of_Bounds) else Crash Out_Of_Bounds)"

definition set_prev :: "nat \<Rightarrow> nat option \<Rightarrow> ('k, 'v) cells \<Rightarrow> ('k, 'v) cells" where
  "set_prev p q cs = cs[p := map_option (\<lambda>e. e\<lparr>eprev := q\<rparr>) (cs ! p)]"

definition set_next :: "nat \<Rightarrow> nat option \<Rightarrow> ('k, 'v) cells \<Rightarrow> ('k, 'v) cells" where
  "set_next p q cs = cs[p := map_option (\<lambda>e. e\<lparr>enext := q\<rparr>) (cs ! p)]"

text \<open>The bucket of a hash value: \<open>hash % tab_size\<close>, on \<open>size_t\<close>, whose result fits the \<open>unsigned int\<close> it is stored in.\<close>

definition bucket_of :: "32 word \<Rightarrow> nat \<Rightarrow> nat res" where
  "bucket_of h n = (if n = 0 then Crash Div_By_Zero else Ret (unat h mod n))"

definition tab_at :: "nat option list \<Rightarrow> nat \<Rightarrow> nat option res" where
  "tab_at tb i = (if i < length tb then Ret (tb ! i) else Crash Out_Of_Bounds)"

section \<open>The operations\<close>

definition zc_hashtable_new ::
  "bool \<Rightarrow> bool \<Rightarrow> nat \<Rightarrow> ('k \<Rightarrow> 32 word) \<Rightarrow> ('k \<Rightarrow> 'k \<Rightarrow> bool) \<Rightarrow> bool \<Rightarrow> bool \<Rightarrow> ('k, 'v) zc_hashtable option" where
  "zc_hashtable_new mem1 mem2 a_size h eq kdel vdel =
     (if \<not> mem1 then None
      else if \<not> mem2 then None
      else Some \<lparr>nelem = 0, tab = replicate a_size None, tab_size = a_size, hash = h, equal_key = eq,
                 key_del = kdel, value_del = vdel, cells = [], destroyed = []\<rparr>)"

text \<open>The two destructor calls for an entry that goes.\<close>

definition destroy_entry :: "('k, 'v) zc_hashtable \<Rightarrow> ('k, 'v) zc_hashtable_entry \<Rightarrow> ('k, 'v) destroyed list" where
  "destroy_entry t e = (if key_del t then [Key_Del (ekey e)] else []) @ (if value_del t then [Value_Del (evalue e)] else [])"

text \<open>The inner loop of \<open>zc_hashtable_del\<close> and \<open>zc_hashtable_clean\<close>. A walk along \<open>next\<close> that takes more steps than there are cells meets one
  twice and never ends.\<close>

fun free_chain :: "nat \<Rightarrow> ('k, 'v) zc_hashtable \<Rightarrow> nat option \<Rightarrow> ('k, 'v) zc_hashtable res" where
  "free_chain n t None = Ret t"
| "free_chain 0 t (Some p) = Crash Diverges"
| "free_chain (Suc n) t (Some p) =
     bnd (entry_at (cells t) p) (\<lambda>e.
     free_chain n (t\<lparr>destroyed := destroyed t @ destroy_entry t e, cells := (cells t)[p := None]\<rparr>) (enext e))"

primrec free_tab :: "nat option list \<Rightarrow> ('k, 'v) zc_hashtable \<Rightarrow> ('k, 'v) zc_hashtable res" where
  "free_tab [] t = Ret t"
| "free_tab (p # tb) t = bnd (free_chain (length (cells t)) t p) (free_tab tb)"

text \<open>\<open>zc_hashtable_del\<close> returns nothing; what is left of the table is the memory of its entries and the calls that were made.\<close>

definition zc_hashtable_del :: "('k, 'v) zc_hashtable \<Rightarrow> (('k, 'v) cells \<times> ('k, 'v) destroyed list) res" where
  "zc_hashtable_del t =
     (if tab_size t \<le> length (tab t)
      then bnd (free_tab (take (tab_size t) (tab t)) t) (\<lambda>t'. Ret (cells t', destroyed t'))
      else Crash Out_Of_Bounds)"

definition zc_hashtable_clean :: "('k, 'v) zc_hashtable \<Rightarrow> ('k, 'v) zc_hashtable res" where
  "zc_hashtable_clean t =
     (if tab_size t \<le> length (tab t)
      then bnd (free_tab (take (tab_size t) (tab t)) t) (\<lambda>t'.
        Ret (t'\<lparr>tab := replicate (tab_size t) None @ drop (tab_size t) (tab t), nelem := 0\<rparr>))
      else Crash Out_Of_Bounds)"

text \<open>Putting the entry \<open>p\<close>, whose links are \<open>NULL\<close>, at the front of the bucket \<open>i\<close>: the same statements in \<open>zc_hashtable_rehash\<close> and
  \<open>zc_hashtable_put\<close>.\<close>

definition push_front :: "nat \<Rightarrow> nat option list \<times> ('k, 'v) cells \<Rightarrow> nat \<Rightarrow> (nat option list \<times> ('k, 'v) cells) res" where
  "push_front i tc p =
     bnd (tab_at (fst tc) i) (\<lambda>h.
     case h of
       None \<Rightarrow> Ret ((fst tc)[i := Some p], snd tc)
     | Some q \<Rightarrow> bnd (entry_at (snd tc) q) (\<lambda>_. Ret ((fst tc)[i := Some p], set_next p h (set_prev q (Some p) (snd tc)))))"

fun rehash_chain :: "nat \<Rightarrow> nat \<Rightarrow> nat option list \<times> ('k, 'v) cells \<Rightarrow> nat option \<Rightarrow> (nat option list \<times> ('k, 'v) cells) res" where
  "rehash_chain n tsize tc None = Ret tc"
| "rehash_chain 0 tsize tc (Some p) = Crash Diverges"
| "rehash_chain (Suc n) tsize tc (Some p) =
     bnd (entry_at (snd tc) p) (\<lambda>e.
     bnd (bucket_of (hash_key e) tsize) (\<lambda>j.
     bnd (push_front j (fst tc, set_prev p None (set_next p None (snd tc))) p) (\<lambda>tc'.
     rehash_chain n tsize tc' (enext e))))"

primrec rehash_tab :: "nat option list \<Rightarrow> nat \<Rightarrow> nat option list \<times> ('k, 'v) cells \<Rightarrow> (nat option list \<times> ('k, 'v) cells) res" where
  "rehash_tab [] tsize tc = Ret tc"
| "rehash_tab (p # tb) tsize tc = bnd (rehash_chain (length (snd tc)) tsize tc p) (rehash_tab tb tsize)"

definition zc_hashtable_rehash :: "bool \<Rightarrow> ('k, 'v) zc_hashtable \<Rightarrow> (int \<times> ('k, 'v) zc_hashtable) res" where
  "zc_hashtable_rehash mem t =
     (let tsize = 2 * tab_size t in
      if \<not> mem then Ret (-1, t)
      else if tab_size t \<le> length (tab t)
      then bnd (rehash_tab (take (tab_size t) (tab t)) tsize (replicate tsize None, cells t)) (\<lambda>(tb, cs).
        Ret (0, t\<lparr>tab := tb, tab_size := tsize, cells := cs\<rparr>))
      else Crash Out_Of_Bounds)"

text \<open>The search loop that \<open>get_entry\<close>, \<open>get\<close>, \<open>put\<close> and \<open>remove\<close> share.\<close>

fun find_in :: "nat \<Rightarrow> ('k, 'v) zc_hashtable \<Rightarrow> 'k \<Rightarrow> nat option \<Rightarrow> nat option res" where
  "find_in n t k None = Ret None"
| "find_in 0 t k (Some p) = Crash Diverges"
| "find_in (Suc n) t k (Some p) =
     bnd (entry_at (cells t) p) (\<lambda>e. if equal_key t k (ekey e) then Ret (Some p) else find_in n t k (enext e))"

definition zc_hashtable_get_entry :: "('k, 'v) zc_hashtable \<Rightarrow> 'k \<Rightarrow> nat option res" where
  "zc_hashtable_get_entry t a_key =
     bnd (bucket_of (hash t a_key) (tab_size t)) (\<lambda>i.
     bnd (tab_at (tab t) i) (find_in (length (cells t)) t a_key))"

definition zc_hashtable_get :: "('k, 'v) zc_hashtable \<Rightarrow> 'k \<Rightarrow> 'v option res" where
  "zc_hashtable_get t a_key =
     bnd (bucket_of (hash t a_key) (tab_size t)) (\<lambda>i.
     bnd (tab_at (tab t) i) (\<lambda>h.
     bnd (find_in (length (cells t)) t a_key h) (\<lambda>p.
     case p of None \<Rightarrow> Ret None | Some p \<Rightarrow> bnd (entry_at (cells t) p) (\<lambda>e. Ret (Some (evalue e))))))"

text \<open>The load test \<open>nelem > tab_size * 1.3\<close> is on doubles; for numbers of elements below \<open>2\<^sup>5\<^sup>3\<close> it is the comparison of integers written here.
  \<open>mem1\<close> and \<open>mem2\<close> say whether the two calls of \<open>calloc\<close> succeed.\<close>

definition put_new :: "bool \<Rightarrow> ('k, 'v) zc_hashtable \<Rightarrow> 'k \<Rightarrow> 'v \<Rightarrow> (int \<times> ('k, 'v) zc_hashtable) res" where
  "put_new mem2 t a_key a_value =
     (if \<not> mem2 then Ret (-1, t)
      else
        let p = length (cells t);
            e = \<lparr>hash_key = hash t a_key, ekey = a_key, evalue = a_value, eprev = None, enext = None\<rparr> in
        bnd (bucket_of (hash_key e) (tab_size t)) (\<lambda>i.
        bnd (push_front i (tab t, cells t @ [Some e]) p) (\<lambda>(tb, cs).
        Ret (0, t\<lparr>tab := tb, cells := cs, nelem := nelem t + 1\<rparr>))))"

definition zc_hashtable_put :: "bool \<Rightarrow> bool \<Rightarrow> ('k, 'v) zc_hashtable \<Rightarrow> 'k \<Rightarrow> 'v \<Rightarrow> (int \<times> ('k, 'v) zc_hashtable) res" where
  "zc_hashtable_put mem1 mem2 t a_key a_value =
     bnd (bucket_of (hash t a_key) (tab_size t)) (\<lambda>i.
     bnd (tab_at (tab t) i) (\<lambda>h.
     bnd (find_in (length (cells t)) t a_key h) (\<lambda>p.
     case p of
       Some p \<Rightarrow> bnd (entry_at (cells t) p) (\<lambda>e.
         Ret (0, t\<lparr>destroyed := destroyed t @ destroy_entry t e,
                   cells := (cells t)[p := Some (e\<lparr>ekey := a_key, evalue := a_value\<rparr>)]\<rparr>))
     | None \<Rightarrow>
         if 10 * nelem t > 13 * tab_size t
         then bnd (zc_hashtable_rehash mem1 t) (\<lambda>(rc, t'). if rc \<noteq> 0 then Ret (-1, t') else put_new mem2 t' a_key a_value)
         else put_new mem2 t a_key a_value)))"

definition unlink_next :: "('k, 'v) zc_hashtable_entry \<Rightarrow> ('k, 'v) cells \<Rightarrow> ('k, 'v) cells res" where
  "unlink_next e cs = (case enext e of None \<Rightarrow> Ret cs | Some q \<Rightarrow> bnd (entry_at cs q) (\<lambda>_. Ret (set_prev q (eprev e) cs)))"

definition unlink_prev :: "nat \<Rightarrow> ('k, 'v) zc_hashtable_entry \<Rightarrow> nat option list \<times> ('k, 'v) cells \<Rightarrow> (nat option list \<times> ('k, 'v) cells) res" where
  "unlink_prev tsize e tc =
     (case eprev e of
        Some q \<Rightarrow> bnd (entry_at (snd tc) q) (\<lambda>_. Ret (fst tc, set_next q (enext e) (snd tc)))
      | None \<Rightarrow>
          bnd (bucket_of (hash_key e) tsize) (\<lambda>i.
          bnd (tab_at (fst tc) i) (\<lambda>_. Ret ((fst tc)[i := enext e], snd tc))))"

definition zc_hashtable_remove :: "('k, 'v) zc_hashtable \<Rightarrow> 'k \<Rightarrow> ('k, 'v) zc_hashtable res" where
  "zc_hashtable_remove t a_key =
     bnd (bucket_of (hash t a_key) (tab_size t)) (\<lambda>i.
     bnd (tab_at (tab t) i) (\<lambda>h.
     bnd (find_in (length (cells t)) t a_key h) (\<lambda>p.
     case p of
       None \<Rightarrow> Ret t
     | Some p \<Rightarrow>
         bnd (entry_at (cells t) p) (\<lambda>e.
         bnd (unlink_next e (cells t)) (\<lambda>cs.
         bnd (unlink_prev (tab_size t) e (tab t, cs)) (\<lambda>(tb, cs').
         Ret (t\<lparr>destroyed := destroyed t @ destroy_entry t e, tab := tb, cells := cs'[p := None], nelem := nelem t - 1\<rparr>)))))))"

text \<open>The first entry in the buckets from \<open>i\<close> on: the loops of \<open>zc_hashtable_begin\<close> and \<open>zc_hashtable_next\<close>.\<close>

function first_from :: "('k, 'v) zc_hashtable \<Rightarrow> nat \<Rightarrow> nat option res" where
  "first_from t i =
     (if i < tab_size t
      then bnd (tab_at (tab t) i) (\<lambda>h. case h of Some p \<Rightarrow> Ret (Some p) | None \<Rightarrow> first_from t (Suc i))
      else Ret None)"
  by pat_completeness auto
termination
  by (relation "measure (\<lambda>(t, i). tab_size t - i)") auto

declare first_from.simps [simp del]

definition zc_hashtable_begin :: "('k, 'v) zc_hashtable \<Rightarrow> nat option res" where
  "zc_hashtable_begin t = first_from t 0"

definition zc_hashtable_next :: "('k, 'v) zc_hashtable \<Rightarrow> nat \<Rightarrow> nat option res" where
  "zc_hashtable_next t p =
     bnd (entry_at (cells t) p) (\<lambda>e.
     case enext e of
       Some q \<Rightarrow> Ret (Some q)
     | None \<Rightarrow> bnd (bucket_of (hash_key e) (tab_size t)) (\<lambda>i. first_from t (Suc i)))"

text \<open>The macro \<open>zc_hashtable_foreach\<close>: the entries its body is run for, for a body that does not change the table.\<close>

fun foreach_from :: "nat \<Rightarrow> ('k, 'v) zc_hashtable \<Rightarrow> nat option \<Rightarrow> nat list res" where
  "foreach_from n t None = Ret []"
| "foreach_from 0 t (Some p) = Crash Diverges"
| "foreach_from (Suc n) t (Some p) = bnd (zc_hashtable_next t p) (\<lambda>q. bnd (foreach_from n t q) (\<lambda>ps. Ret (p # ps)))"

definition zc_hashtable_foreach :: "('k, 'v) zc_hashtable \<Rightarrow> nat list res" where
  "zc_hashtable_foreach t = bnd (zc_hashtable_begin t) (foreach_from (length (cells t)) t)"

text \<open>The hash of a string: \<open>char\<close> is signed on the platforms the server runs on, so a byte from 128 on is added as a negative number.\<close>

definition signed_char :: "char \<Rightarrow> int" where
  "signed_char c = (if byte c < 128 then int (byte c) else int (byte c) - 256)"

primrec str_hash_from :: "32 word \<Rightarrow> string \<Rightarrow> 32 word" where
  "str_hash_from h [] = h"
| "str_hash_from h (c # cs) = str_hash_from ((push_bit 5 h + h) + word_of_int (signed_char c)) cs"

definition zc_hashtable_str_hash :: "string \<Rightarrow> 32 word" where
  "zc_hashtable_str_hash s = str_hash_from 5381 s"

definition zc_hashtable_str_equal :: "string \<Rightarrow> string \<Rightarrow> bool" where
  "zc_hashtable_str_equal key1 key2 \<longleftrightarrow> key1 = key2"

end
