(* ===== verification/Zlog_Spec.thy ===== *)
theory Zlog_Spec
  imports Zlog_Buf_Text Zlog_Level Zc_Hashtable
begin

text \<open>
  The conversion specifiers of a log format (\<open>zlog/src/spec.c\<close>, \<open>zlog/src/format.c\<close>), the event they print (\<open>zlog/src/event.c\<close>) and the diagnostic context of a
  thread (\<open>zlog/src/mdc.c\<close>).

  \<^item> A function \<open>zlog_spec_write_...\<close> of the code makes calls of the buffer functions, and stops at the first that does not return 0. It is modelled by the event it
    leaves and the list of these calls; \<open>write_buf\<close> runs them (\<open>write_until\<close>).
  \<^item> What the clock, \<open>localtime_r\<close>, \<open>strftime\<close> and \<open>getpid\<close> answer is the record \<open>log_env\<close>; the text that \<open>vsnprintf\<close> makes of the user's message is part of the event.
\<close>

section \<open>The diagnostic context\<close>

record zlog_mdc_kv =
  mdc_kv_key :: string
  mdc_kv_value :: string
  value_len :: nat

type_synonym zlog_mdc = "(string, zlog_mdc_kv) zc_hashtable"

text \<open>Key and value are arrays of \<open>MAXLEN_PATH + 1\<close> bytes, which \<open>snprintf\<close> cuts its text for; it returns the length of the whole text.\<close>

definition zlog_mdc_kv_new :: "bool \<Rightarrow> string \<Rightarrow> string \<Rightarrow> zlog_mdc_kv option" where
  "zlog_mdc_kv_new mem key a_value =
     (if mem then Some \<lparr>mdc_kv_key = take MAXLEN_PATH key, mdc_kv_value = take MAXLEN_PATH a_value, value_len = length a_value\<rparr> else None)"

definition zlog_mdc_new :: "bool \<Rightarrow> bool \<Rightarrow> bool \<Rightarrow> zlog_mdc option" where
  "zlog_mdc_new mem mem1 mem2 =
     (if mem then zc_hashtable_new mem1 mem2 20 zc_hashtable_str_hash zc_hashtable_str_equal False True else None)"

definition zlog_mdc_put :: "bool \<Rightarrow> bool \<Rightarrow> bool \<Rightarrow> zlog_mdc \<Rightarrow> string \<Rightarrow> string \<Rightarrow> (int \<times> zlog_mdc) res" where
  "zlog_mdc_put mem mem1 mem2 mdc key a_value =
     (case zlog_mdc_kv_new mem key a_value of
        None \<Rightarrow> Ret (-1, mdc)
      | Some kv \<Rightarrow> bnd (zc_hashtable_put mem1 mem2 mdc (mdc_kv_key kv) kv) (\<lambda>(rc, mdc'). Ret (if rc \<noteq> 0 then -1 else 0, mdc')))"

definition zlog_mdc_clean :: "zlog_mdc \<Rightarrow> zlog_mdc res" where
  "zlog_mdc_clean mdc = zc_hashtable_clean mdc"

definition zlog_mdc_get :: "zlog_mdc \<Rightarrow> string \<Rightarrow> string option res" where
  "zlog_mdc_get mdc key = bnd (zc_hashtable_get mdc key) (\<lambda>kv. Ret (map_option mdc_kv_value kv))"

definition zlog_mdc_get_kv :: "zlog_mdc \<Rightarrow> string \<Rightarrow> zlog_mdc_kv option res" where
  "zlog_mdc_get_kv mdc key = zc_hashtable_get mdc key"

definition zlog_mdc_remove :: "zlog_mdc \<Rightarrow> string \<Rightarrow> zlog_mdc res" where
  "zlog_mdc_remove mdc key = zc_hashtable_remove mdc key"

section \<open>The event\<close>

text \<open>What is to be printed: a formatted text (\<open>None\<close> for a null format; the text is \<open>None\<close> for an encoding error) or the bytes of a dump.\<close>

datatype zlog_event_cmd = ZLOG_FMT "string option option" | ZLOG_HEX "string option"

record zlog_time_cache =
  cache_str :: string
  cache_sec :: int

record 'tm zlog_event =
  category_name :: string
  host_name :: string
  event_file :: "string option"
  event_func :: "string option"
  event_line :: int
  event_level :: int
  generate_cmd :: zlog_event_cmd
  tv_sec :: int
  tv_usec :: int
  time_local_sec :: int
  time_local :: 'tm
  time_caches :: "zlog_time_cache list"
  event_pid :: int
  last_pid :: int
  pid_str :: string
  tid_str :: string
  tid_hex_str :: string

record 'tm log_env =
  gettimeofday :: "int \<times> int"
  localtime :: "int \<Rightarrow> 'tm"
  strftime :: "string \<Rightarrow> 'tm \<Rightarrow> string"
  getpid :: int

definition zlog_event_set_fmt ::
  "'tm zlog_event \<Rightarrow> string \<Rightarrow> string option \<Rightarrow> string option \<Rightarrow> int \<Rightarrow> int \<Rightarrow> string option option \<Rightarrow> 'tm zlog_event" where
  "zlog_event_set_fmt ev cat file func line lvl printed =
     ev\<lparr>category_name := cat, event_file := file, event_func := func, event_line := line, event_level := lvl,
        generate_cmd := ZLOG_FMT printed, event_pid := 0, tv_sec := 0\<rparr>"

definition zlog_event_set_hex ::
  "'tm zlog_event \<Rightarrow> string \<Rightarrow> string option \<Rightarrow> string option \<Rightarrow> int \<Rightarrow> int \<Rightarrow> string option \<Rightarrow> 'tm zlog_event" where
  "zlog_event_set_hex ev cat file func line lvl bytes =
     ev\<lparr>category_name := cat, event_file := file, event_func := func, event_line := line, event_level := lvl,
        generate_cmd := ZLOG_HEX bytes, event_pid := 0, tv_sec := 0\<rparr>"

section \<open>Specifiers\<close>

datatype write_fn = Write_Time | Write_Ms | Write_Us | Write_Mdc | Write_Str | Write_Category | Write_Srcfile | Write_Srcfile_Neat
  | Write_Srcline | Write_Srcfunc | Write_Hostname | Write_Newline | Write_Percent | Write_Pid | Write_Tid_Hex | Write_Tid_Long
  | Write_Level_Lowercase | Write_Level_Uppercase | Write_Usrmsg

text \<open>\<open>reformat\<close> tells which of the two families of \<open>gen\<close> functions the specifier has.\<close>

record zlog_spec =
  spec_str :: string
  spec_len :: nat
  time_fmt :: string
  time_cache_index :: nat
  mdc_key :: string
  print_fmt :: string
  left_adjust :: bool
  max_width :: nat
  min_width :: nat
  write_fn :: write_fn
  reformat :: bool

definition stamp :: "'tm log_env \<Rightarrow> 'tm zlog_event \<Rightarrow> 'tm zlog_event" where
  "stamp env ev = (if tv_sec ev = 0 then ev\<lparr>tv_sec := fst (gettimeofday env), tv_usec := snd (gettimeofday env)\<rparr> else ev)"

definition zlog_spec_write_time :: "'tm log_env \<Rightarrow> zlog_spec \<Rightarrow> 'tm zlog_event \<Rightarrow> ('tm zlog_event \<times> buf_op list) res" where
  "zlog_spec_write_time env sp ev =
     (let ev1 = stamp env ev; now_sec = tv_sec ev1;
          ev2 = (if time_local_sec ev1 \<noteq> now_sec then ev1\<lparr>time_local := localtime env now_sec, time_local_sec := now_sec\<rparr> else ev1);
          i = time_cache_index sp in
      if i \<ge> length (time_caches ev2) then Crash Out_Of_Bounds
      else
        let c = time_caches ev2 ! i;
            c' = (if cache_sec c \<noteq> now_sec then \<lparr>cache_str = strftime env (time_fmt sp) (time_local ev2), cache_sec = now_sec\<rparr> else c) in
        Ret (ev2\<lparr>time_caches := (time_caches ev2)[i := c']\<rparr>, [Append (cache_str c')]))"

definition zlog_spec_write_ms :: "'tm log_env \<Rightarrow> 'tm zlog_event \<Rightarrow> 'tm zlog_event \<times> buf_op list" where
  "zlog_spec_write_ms env ev = (let ev1 = stamp env ev in (ev1, [Dec32 (word_of_int (tv_usec ev1 div 1000)) 3]))"

definition zlog_spec_write_us :: "'tm log_env \<Rightarrow> 'tm zlog_event \<Rightarrow> 'tm zlog_event \<times> buf_op list" where
  "zlog_spec_write_us env ev = (let ev1 = stamp env ev in (ev1, [Dec32 (word_of_int (tv_usec ev1)) 6]))"

text \<open>The value is read for \<open>value_len\<close> bytes from its array.\<close>

definition zlog_spec_write_mdc :: "zlog_mdc \<Rightarrow> zlog_spec \<Rightarrow> buf_op list res" where
  "zlog_spec_write_mdc mdc sp =
     bnd (zlog_mdc_get_kv mdc (mdc_key sp)) (\<lambda>kv.
     case kv of
       None \<Rightarrow> Ret []
     | Some kv \<Rightarrow>
         if value_len kv > MAXLEN_PATH + 1 then Crash Out_Of_Bounds
         else Ret [Append (take (value_len kv) (mdc_kv_value kv @ replicate (MAXLEN_PATH + 1 - length (mdc_kv_value kv)) NUL))])"

definition zlog_spec_write_str :: "zlog_spec \<Rightarrow> buf_op list" where
  "zlog_spec_write_str sp = [Append (take (spec_len sp) (spec_str sp))]"

definition zlog_spec_write_srcfile :: "'tm zlog_event \<Rightarrow> buf_op list" where
  "zlog_spec_write_srcfile ev = (case event_file ev of None \<Rightarrow> [Append ''(file=null)''] | Some f \<Rightarrow> [Append f])"

text \<open>The text behind the last slash.\<close>

definition after_slash :: "string \<Rightarrow> string" where
  "after_slash f = rev (takeWhile (\<lambda>c. c \<noteq> CHR ''/'') (rev f))"

definition zlog_spec_write_srcfile_neat :: "'tm zlog_event \<Rightarrow> buf_op list res" where
  "zlog_spec_write_srcfile_neat ev =
     (case event_file ev of
        None \<Rightarrow> Crash Null_Deref
      | Some f \<Rightarrow> Ret [Append (if CHR ''/'' \<in> set f then after_slash f else f)])"

definition zlog_spec_write_srcline :: "'tm zlog_event \<Rightarrow> buf_op list" where
  "zlog_spec_write_srcline ev = [Dec64 (word_of_int (event_line ev)) 0]"

definition zlog_spec_write_srcfunc :: "'tm zlog_event \<Rightarrow> buf_op list res" where
  "zlog_spec_write_srcfunc ev =
     (case event_file ev of
        None \<Rightarrow> Ret [Append ''(func=null)'']
      | Some _ \<Rightarrow> (case event_func ev of None \<Rightarrow> Crash Null_Deref | Some f \<Rightarrow> Ret [Append f]))"

definition zlog_spec_write_pid :: "'tm log_env \<Rightarrow> 'tm zlog_event \<Rightarrow> 'tm zlog_event \<times> buf_op list" where
  "zlog_spec_write_pid env ev =
     (let ev1 = (if event_pid ev = 0
                 then let e = ev\<lparr>event_pid := getpid env\<rparr> in
                   if event_pid e \<noteq> last_pid e then e\<lparr>last_pid := event_pid e, pid_str := show_nat (nat (event_pid e))\<rparr> else e
                 else ev)
      in (ev1, [Append (pid_str ev1)]))"

text \<open>The name of the event's level, in lower and in upper case.\<close>

definition level_name :: "zlog_levels \<Rightarrow> (zlog_level \<Rightarrow> string) \<Rightarrow> 'tm zlog_event \<Rightarrow> buf_op list res" where
  "level_name levels name ev =
     bnd (zlog_level_list_get levels (event_level ev)) (\<lambda>lv.
     case lv of None \<Rightarrow> Crash Null_Deref | Some lv \<Rightarrow> Ret [Append (take (str_len lv) (name lv))])"

definition zlog_spec_write_level_lowercase :: "zlog_levels \<Rightarrow> 'tm zlog_event \<Rightarrow> buf_op list res" where
  "zlog_spec_write_level_lowercase levels ev = level_name levels str_lowercase ev"

definition zlog_spec_write_level_uppercase :: "zlog_levels \<Rightarrow> 'tm zlog_event \<Rightarrow> buf_op list res" where
  "zlog_spec_write_level_uppercase levels ev = level_name levels str_uppercase ev"

text \<open>The dump of a buffer: a head, and then a line for every 16 bytes, the last one filled up, with the bytes in hexadecimal and as characters.\<close>

definition ZLOG_HEX_HEAD :: string where
  "ZLOG_HEX_HEAD = LF # ''             0  1  2  3  4  5  6  7  8  9  A  B  C  D  E  F    0123456789ABCDEF''"

definition hex_byte :: "string \<Rightarrow> nat \<Rightarrow> buf_op list" where
  "hex_byte bytes k = (if k < length bytes then [Hex (of_nat (byte (bytes ! k))) 2, Append '' ''] else [Append ''   ''])"

definition char_byte :: "string \<Rightarrow> nat \<Rightarrow> buf_op" where
  "char_byte bytes k =
     (if k < length bytes
      then (if byte (bytes ! k) \<ge> 32 \<and> byte (bytes ! k) \<le> 126 then Append [bytes ! k] else Append ''.'')
      else Append '' '')"

definition hex_line :: "string \<Rightarrow> nat \<Rightarrow> buf_op list" where
  "hex_line bytes i =
     [Append [LF], Dec64 (of_nat (i + 1)) 10, Append ''   '']
     @ concat (map (\<lambda>j. hex_byte bytes (i * 16 + j)) [0 ..< 16]) @ [Append ''  ''] @ map (\<lambda>j. char_byte bytes (i * 16 + j)) [0 ..< 16]"

function hex_lines :: "string \<Rightarrow> nat \<Rightarrow> buf_op list" where
  "hex_lines bytes i = hex_line bytes i @ (if i * 16 + 16 \<ge> length bytes then [] else hex_lines bytes (Suc i))"
  by pat_completeness auto
termination
  by (relation "measure (\<lambda>(bytes, i). length bytes - i)") auto

declare hex_lines.simps [simp del]

definition zlog_spec_write_usrmsg :: "'tm zlog_event \<Rightarrow> buf_op list" where
  "zlog_spec_write_usrmsg ev =
     (case generate_cmd ev of
        ZLOG_FMT None \<Rightarrow> [Append ''format=(null)'']
      | ZLOG_FMT (Some printed) \<Rightarrow> [Printf printed]
      | ZLOG_HEX None \<Rightarrow> [Append ''buf=(null)'']
      | ZLOG_HEX (Some bytes) \<Rightarrow> Append ZLOG_HEX_HEAD # hex_lines bytes 0)"

text \<open>The function \<open>a_spec->write_buf\<close> points to.\<close>

definition write_ops :: "'tm log_env \<Rightarrow> zlog_levels \<Rightarrow> zlog_mdc \<Rightarrow> zlog_spec \<Rightarrow> 'tm zlog_event \<Rightarrow> ('tm zlog_event \<times> buf_op list) res" where
  "write_ops env levels mdc sp ev =
     (case write_fn sp of
        Write_Time \<Rightarrow> zlog_spec_write_time env sp ev
      | Write_Ms \<Rightarrow> Ret (zlog_spec_write_ms env ev)
      | Write_Us \<Rightarrow> Ret (zlog_spec_write_us env ev)
      | Write_Mdc \<Rightarrow> bnd (zlog_spec_write_mdc mdc sp) (\<lambda>ops. Ret (ev, ops))
      | Write_Str \<Rightarrow> Ret (ev, zlog_spec_write_str sp)
      | Write_Category \<Rightarrow> Ret (ev, [Append (category_name ev)])
      | Write_Srcfile \<Rightarrow> Ret (ev, zlog_spec_write_srcfile ev)
      | Write_Srcfile_Neat \<Rightarrow> bnd (zlog_spec_write_srcfile_neat ev) (\<lambda>ops. Ret (ev, ops))
      | Write_Srcline \<Rightarrow> Ret (ev, zlog_spec_write_srcline ev)
      | Write_Srcfunc \<Rightarrow> bnd (zlog_spec_write_srcfunc ev) (\<lambda>ops. Ret (ev, ops))
      | Write_Hostname \<Rightarrow> Ret (ev, [Append (host_name ev)])
      | Write_Newline \<Rightarrow> Ret (ev, [Append [LF]])
      | Write_Percent \<Rightarrow> Ret (ev, [Append ''%''])
      | Write_Pid \<Rightarrow> Ret (zlog_spec_write_pid env ev)
      | Write_Tid_Hex \<Rightarrow> Ret (ev, [Append (tid_hex_str ev)])
      | Write_Tid_Long \<Rightarrow> Ret (ev, [Append (tid_str ev)])
      | Write_Level_Lowercase \<Rightarrow> bnd (zlog_spec_write_level_lowercase levels ev) (\<lambda>ops. Ret (ev, ops))
      | Write_Level_Uppercase \<Rightarrow> bnd (zlog_spec_write_level_uppercase levels ev) (\<lambda>ops. Ret (ev, ops))
      | Write_Usrmsg \<Rightarrow> Ret (ev, zlog_spec_write_usrmsg ev))"

definition write_buf ::
  "bool \<Rightarrow> 'tm log_env \<Rightarrow> zlog_levels \<Rightarrow> zlog_mdc \<Rightarrow> zlog_spec \<Rightarrow> 'tm zlog_event \<Rightarrow> zlog_buf \<Rightarrow> (int \<times> 'tm zlog_event \<times> zlog_buf) res" where
  "write_buf mem env levels mdc sp ev b =
     bnd (write_ops env levels mdc sp ev) (\<lambda>(ev', ops).
     bnd (write_until (run_buf_op mem) ops b) (\<lambda>(rc, b'). Ret (rc, ev', b')))"

section \<open>Generating\<close>

record 'tm zlog_thread =
  thread_event :: "'tm zlog_event"
  thread_mdc :: zlog_mdc
  msg_buf :: zlog_buf
  pre_msg_buf :: zlog_buf
  path_buf :: zlog_buf
  pre_path_buf :: zlog_buf
  archive_path_buf :: zlog_buf

text \<open>The bodies the three \<open>direct\<close> and the three \<open>reformat\<close> functions share: writing into the buffer \<open>b\<close>, and writing into the buffer \<open>pre\<close> to append its text adjusted.\<close>

definition gen_reformat ::
  "bool \<Rightarrow> 'tm log_env \<Rightarrow> zlog_levels \<Rightarrow> zlog_mdc \<Rightarrow> zlog_spec \<Rightarrow> 'tm zlog_event \<Rightarrow> zlog_buf \<Rightarrow> zlog_buf \<Rightarrow> (int \<times> 'tm zlog_event \<times> zlog_buf \<times> zlog_buf) res" where
  "gen_reformat mem env levels mdc sp ev pre b =
     bnd (write_buf mem env levels mdc sp ev (zlog_buf_restart pre)) (\<lambda>(rc, ev', pre').
     if rc < 0 then Ret (-1, ev', pre', b)
     else
       bnd (zlog_buf_adjust_append mem b (take (tail pre') (the (start pre'))) (left_adjust sp) (min_width sp) (max_width sp)) (\<lambda>(rc', b').
       Ret (rc', ev', pre', b')))"

definition zlog_spec_gen_msg_direct :: "bool \<Rightarrow> 'tm log_env \<Rightarrow> zlog_levels \<Rightarrow> zlog_spec \<Rightarrow> 'tm zlog_thread \<Rightarrow> (int \<times> 'tm zlog_thread) res" where
  "zlog_spec_gen_msg_direct mem env levels sp th =
     bnd (write_buf mem env levels (thread_mdc th) sp (thread_event th) (msg_buf th)) (\<lambda>(rc, ev, b).
     Ret (rc, th\<lparr>thread_event := ev, msg_buf := b\<rparr>))"

definition zlog_spec_gen_msg_reformat :: "bool \<Rightarrow> 'tm log_env \<Rightarrow> zlog_levels \<Rightarrow> zlog_spec \<Rightarrow> 'tm zlog_thread \<Rightarrow> (int \<times> 'tm zlog_thread) res" where
  "zlog_spec_gen_msg_reformat mem env levels sp th =
     bnd (gen_reformat mem env levels (thread_mdc th) sp (thread_event th) (pre_msg_buf th) (msg_buf th)) (\<lambda>(rc, ev, pre, b).
     Ret (rc, th\<lparr>thread_event := ev, pre_msg_buf := pre, msg_buf := b\<rparr>))"

definition zlog_spec_gen_path_direct :: "bool \<Rightarrow> 'tm log_env \<Rightarrow> zlog_levels \<Rightarrow> zlog_spec \<Rightarrow> 'tm zlog_thread \<Rightarrow> (int \<times> 'tm zlog_thread) res" where
  "zlog_spec_gen_path_direct mem env levels sp th =
     bnd (write_buf mem env levels (thread_mdc th) sp (thread_event th) (path_buf th)) (\<lambda>(rc, ev, b).
     Ret (rc, th\<lparr>thread_event := ev, path_buf := b\<rparr>))"

definition zlog_spec_gen_path_reformat :: "bool \<Rightarrow> 'tm log_env \<Rightarrow> zlog_levels \<Rightarrow> zlog_spec \<Rightarrow> 'tm zlog_thread \<Rightarrow> (int \<times> 'tm zlog_thread) res" where
  "zlog_spec_gen_path_reformat mem env levels sp th =
     bnd (gen_reformat mem env levels (thread_mdc th) sp (thread_event th) (pre_path_buf th) (path_buf th)) (\<lambda>(rc, ev, pre, b).
     Ret (rc, th\<lparr>thread_event := ev, pre_path_buf := pre, path_buf := b\<rparr>))"

definition zlog_spec_gen_archive_path_direct :: "bool \<Rightarrow> 'tm log_env \<Rightarrow> zlog_levels \<Rightarrow> zlog_spec \<Rightarrow> 'tm zlog_thread \<Rightarrow> (int \<times> 'tm zlog_thread) res" where
  "zlog_spec_gen_archive_path_direct mem env levels sp th =
     bnd (write_buf mem env levels (thread_mdc th) sp (thread_event th) (archive_path_buf th)) (\<lambda>(rc, ev, b).
     Ret (rc, th\<lparr>thread_event := ev, archive_path_buf := b\<rparr>))"

definition zlog_spec_gen_archive_path_reformat :: "bool \<Rightarrow> 'tm log_env \<Rightarrow> zlog_levels \<Rightarrow> zlog_spec \<Rightarrow> 'tm zlog_thread \<Rightarrow> (int \<times> 'tm zlog_thread) res" where
  "zlog_spec_gen_archive_path_reformat mem env levels sp th =
     bnd (gen_reformat mem env levels (thread_mdc th) sp (thread_event th) (pre_path_buf th) (archive_path_buf th)) (\<lambda>(rc, ev, pre, b).
     Ret (rc, th\<lparr>thread_event := ev, pre_path_buf := pre, archive_path_buf := b\<rparr>))"

definition zlog_spec_gen_msg :: "bool \<Rightarrow> 'tm log_env \<Rightarrow> zlog_levels \<Rightarrow> zlog_spec \<Rightarrow> 'tm zlog_thread \<Rightarrow> (int \<times> 'tm zlog_thread) res" where
  "zlog_spec_gen_msg mem env levels sp th =
     (if reformat sp then zlog_spec_gen_msg_reformat mem env levels sp th else zlog_spec_gen_msg_direct mem env levels sp th)"

primrec gen_specs :: "bool \<Rightarrow> 'tm log_env \<Rightarrow> zlog_levels \<Rightarrow> zlog_spec list \<Rightarrow> 'tm zlog_thread \<Rightarrow> (int \<times> 'tm zlog_thread) res" where
  "gen_specs mem env levels [] th = Ret (0, th)"
| "gen_specs mem env levels (sp # sps) th =
     bnd (zlog_spec_gen_msg mem env levels sp th) (\<lambda>(rc, th'). if rc = 0 then gen_specs mem env levels sps th' else Ret (-1, th'))"

definition zlog_format_gen_msg :: "bool \<Rightarrow> 'tm log_env \<Rightarrow> zlog_levels \<Rightarrow> zlog_spec list \<Rightarrow> 'tm zlog_thread \<Rightarrow> (int \<times> 'tm zlog_thread) res" where
  "zlog_format_gen_msg mem env levels pattern_specs th =
     gen_specs mem env levels pattern_specs (th\<lparr>msg_buf := zlog_buf_restart (msg_buf th)\<rparr>)"

end
