(* ===== verification/Zlog_Pattern.thy ===== *)
theory Zlog_Pattern
  imports Zlog_Spec
begin

text \<open>
  Reading the pattern of a log format: \<open>zlog_spec_new\<close> (\<open>zlog/src/spec.c\<close>) takes one specifier off the front, and the loop of \<open>zlog_format_new\<close> and of the dynamic
  paths (\<open>zlog/src/format.c\<close>) repeats it to the end of the pattern.
\<close>

section \<open>One specifier\<close>

text \<open>A C string is read as the list of its characters, with a NUL behind.\<close>

definition char_at :: "string \<Rightarrow> char" where
  "char_at s = (case s of [] \<Rightarrow> NUL | c # _ \<Rightarrow> c)"

definition fmt_char :: "char \<Rightarrow> bool" where
  "fmt_char c \<longleftrightarrow> c = CHR ''.'' \<or> isdigit c \<or> c = CHR ''-''"

text \<open>\<open>%ld\<close>, which leaves its variable 0 when there is no number; the widths are converted to \<open>size_t\<close>.\<close>

definition scan_long :: "string \<Rightarrow> int" where
  "scan_long s = (case unsigned_part (skip_space s) of [] \<Rightarrow> 0 | c # _ \<Rightarrow> if isdigit c then strtol10 s else 0)"

definition zlog_spec_parse_print_fmt :: "zlog_spec \<Rightarrow> zlog_spec" where
  "zlog_spec_parse_print_fmt sp =
     (let left = (char_at (print_fmt sp) = CHR ''-'');
          p = (if left then tl (print_fmt sp) else print_fmt sp);
          q = dropWhile (\<lambda>c. c \<noteq> CHR ''.'') p;
          i = scan_long p;
          j = (if q = [] then 0 else scan_long (tl q)) in
      sp\<lparr>left_adjust := left, min_width := nat (i mod 2 ^ 64), max_width := nat (j mod 2 ^ 64)\<rparr>)"

text \<open>\<open>sscanf(p, "x(%[^)])%n", dst, &nread)\<close> for a text whose first two characters match: the argument, and what follows the closing parenthesis. When that is
  missing \<open>nread\<close> stays 0 and the code reports an error, as it does for an empty argument.\<close>

definition paren_arg :: "string \<Rightarrow> string \<times> string option" where
  "paren_arg t =
     (let a = takeWhile (\<lambda>c. c \<noteq> CHR '')'') t; r = dropWhile (\<lambda>c. c \<noteq> CHR '')'') t in
      (a, if a = [] \<or> r = [] then None else Some (tl r)))"

definition simple_writer :: "char \<Rightarrow> write_fn option" where
  "simple_writer c =
     (if c = CHR ''c'' then Some Write_Category
      else if c = CHR ''D'' then Some Write_Time
      else if c = CHR ''F'' then Some Write_Srcfile
      else if c = CHR ''f'' then Some Write_Srcfile_Neat
      else if c = CHR ''H'' then Some Write_Hostname
      else if c = CHR ''L'' then Some Write_Srcline
      else if c = CHR ''m'' then Some Write_Usrmsg
      else if c = CHR ''n'' then Some Write_Newline
      else if c = CHR ''p'' then Some Write_Pid
      else if c = CHR ''U'' then Some Write_Srcfunc
      else if c = CHR ''v'' then Some Write_Level_Lowercase
      else if c = CHR ''V'' then Some Write_Level_Uppercase
      else if c = CHR ''t'' then Some Write_Tid_Hex
      else if c = CHR ''T'' then Some Write_Tid_Long
      else if c = CHR ''%'' then Some Write_Percent
      else None)"

definition ZLOG_DEFAULT_TIME_FMT :: string where
  "ZLOG_DEFAULT_TIME_FMT = ''%F %T''"

definition empty_spec :: "string \<Rightarrow> zlog_spec" where
  "empty_spec s = \<lparr>spec_str = s, spec_len = 0, time_fmt = [], time_cache_index = 0, mdc_key = [], print_fmt = [], left_adjust = False,
     max_width = 0, min_width = 0, write_fn = Write_Str, reformat = False\<rparr>"

text \<open>A specifier that is complete, with the rest of the pattern and the number of time caches.\<close>

definition spec_done :: "zlog_spec \<Rightarrow> string \<Rightarrow> nat \<Rightarrow> (zlog_spec \<times> string \<times> nat) option res" where
  "spec_done sp next_p n = Ret (Some (sp\<lparr>spec_len := length (spec_str sp) - length next_p\<rparr>, next_p, n))"

definition spec_time :: "zlog_spec \<Rightarrow> string \<Rightarrow> nat \<Rightarrow> (zlog_spec \<times> string \<times> nat) option res" where
  "spec_time sp p n =
     (let cached = (\<lambda>f. sp\<lparr>time_fmt := f, time_cache_index := n, write_fn := Write_Time\<rparr>) in
      if char_at (tl p) \<noteq> CHR ''('' then spec_done (cached ZLOG_DEFAULT_TIME_FMT) (tl p) (n + 1)
      else if take 3 p = ''d()'' then spec_done (cached ZLOG_DEFAULT_TIME_FMT) (drop 3 p) (n + 1)
      else
        let (a, r) = paren_arg (drop 2 p) in
        if length a > MAXLEN_CFG_LINE then Crash Out_Of_Bounds
        else case r of None \<Rightarrow> Ret None | Some r \<Rightarrow> spec_done (cached a) r (n + 1))"

definition spec_mdc :: "zlog_spec \<Rightarrow> string \<Rightarrow> nat \<Rightarrow> (zlog_spec \<times> string \<times> nat) option res" where
  "spec_mdc sp p n =
     (if char_at (tl p) \<noteq> CHR ''('' then Ret None
      else
        let (a, r) = paren_arg (drop 2 p) in
        if length a > MAXLEN_PATH then Crash Out_Of_Bounds
        else case r of
          Some r \<Rightarrow> spec_done (sp\<lparr>mdc_key := a, write_fn := Write_Mdc\<rparr>) r n
        | None \<Rightarrow> if take 3 p = ''M()'' then spec_done (sp\<lparr>write_fn := Write_Mdc\<rparr>) (drop 3 p) n else Ret None)"

definition spec_percent :: "zlog_spec \<Rightarrow> string \<Rightarrow> nat \<Rightarrow> (zlog_spec \<times> string \<times> nat) option res" where
  "spec_percent sp p n =
     (if char_at p = CHR ''d'' then spec_time sp p n
      else if char_at p = CHR ''M'' then spec_mdc sp p n
      else if take 2 p = ''ms'' then spec_done (sp\<lparr>write_fn := Write_Ms\<rparr>) (drop 2 p) n
      else if take 2 p = ''us'' then spec_done (sp\<lparr>write_fn := Write_Us\<rparr>) (drop 2 p) n
      else case simple_writer (char_at p) of
        None \<Rightarrow> Ret None
      | Some w \<Rightarrow>
          if char_at p = CHR ''D''
          then spec_done (sp\<lparr>time_fmt := ZLOG_DEFAULT_TIME_FMT, time_cache_index := n, write_fn := w\<rparr>) (tl p) (n + 1)
          else spec_done (sp\<lparr>write_fn := w\<rparr>) (tl p) n)"

text \<open>\<open>print_fmt\<close> and \<open>time_fmt\<close> are arrays of \<open>MAXLEN_CFG_LINE + 1\<close> bytes, \<open>mdc_key\<close> is one of \<open>MAXLEN_PATH + 1\<close>; \<open>sscanf\<close> does not look at their sizes. The pattern is not empty.\<close>

definition zlog_spec_new :: "bool \<Rightarrow> string \<Rightarrow> nat \<Rightarrow> (zlog_spec \<times> string \<times> nat) option res" where
  "zlog_spec_new mem pattern n =
     (if \<not> mem then Ret None
      else if char_at pattern = CHR ''%'' then
        let f = takeWhile fmt_char (tl pattern); sp = empty_spec pattern in
        if length f > MAXLEN_CFG_LINE then Crash Out_Of_Bounds
        else if f = [] then spec_percent sp (tl pattern) n
        else spec_percent (zlog_spec_parse_print_fmt (sp\<lparr>print_fmt := f, reformat := True\<rparr>)) (drop (length f) (tl pattern)) n
      else spec_done (empty_spec pattern) (dropWhile (\<lambda>c. c \<noteq> CHR ''%'') pattern) n)"

section \<open>The pattern\<close>

text \<open>A specifier takes its text off the front of the pattern, at least one character, and a time specifier takes the next cache.\<close>

definition is_time :: "zlog_spec \<Rightarrow> bool" where
  "is_time sp \<longleftrightarrow> write_fn sp = Write_Time"

definition taken :: "string \<Rightarrow> nat \<Rightarrow> zlog_spec \<times> string \<times> nat \<Rightarrow> bool" where
  "taken pattern n r = (case r of (sp, q, n') \<Rightarrow>
     spec_str sp = pattern \<and> pattern = take (spec_len sp) pattern @ q \<and> 0 < spec_len sp
     \<and> (if is_time sp then time_cache_index sp = n \<and> n' = n + 1 else n' = n))"

lemma spec_done_taken:
  assumes "spec_done sp q n' = Ret (Some r)" "spec_str sp = u @ q" "u \<noteq> []" "if is_time sp then time_cache_index sp = n \<and> n' = n + 1 else n' = n"
  shows "taken (spec_str sp) n r"
  using assms by (auto simp: spec_done_def taken_def is_time_def)

lemma char_at_Cons: "char_at p = c \<Longrightarrow> c \<noteq> NUL \<Longrightarrow> \<exists>t. p = c # t"
  by (cases p) (auto simp: char_at_def)

lemma simple_writer_NUL: "simple_writer NUL = None"
  by (simp add: simple_writer_def)

lemma simple_writer_time: "simple_writer c = Some Write_Time \<longleftrightarrow> c = CHR ''D''"
  by (simp add: simple_writer_def)

lemma paren_arg_split:
  assumes "paren_arg t = (a, Some r)"
  shows "t = (a @ '')'') @ r"
proof (cases "dropWhile (\<lambda>c. c \<noteq> CHR '')'') t")
  case Nil
  with assms show ?thesis by (simp add: paren_arg_def Let_def)
next
  case (Cons c q)
  then have "c = CHR '')''" using hd_dropWhile [of "\<lambda>c. c \<noteq> CHR '')''" t] by simp
  moreover have "a = takeWhile (\<lambda>c. c \<noteq> CHR '')'') t" "r = q" using assms Cons by (auto simp: paren_arg_def Let_def split: if_splits)
  moreover have "t = takeWhile (\<lambda>c. c \<noteq> CHR '')'') t @ c # q" using takeWhile_dropWhile_id [of "\<lambda>c. c \<noteq> CHR '')''" t] Cons by simp
  ultimately show ?thesis by simp
qed

lemma spec_time_taken:
  assumes "spec_time sp p n = Ret (Some r)" "spec_str sp = u @ p" "char_at p = CHR ''d''"
  shows "taken (spec_str sp) n r"
proof -
  obtain t where p: "p = CHR ''d'' # t" using char_at_Cons [OF assms(3)] by auto
  let ?c = "\<lambda>f. sp\<lparr>time_fmt := f, time_cache_index := n, write_fn := Write_Time\<rparr>"
  have ok: "taken (spec_str sp) n r" if "spec_done (?c f) q (n + 1) = Ret (Some r)" "spec_str sp = v @ q" "v \<noteq> []" for f q v
    using spec_done_taken [OF that(1), of v n] that(2,3) by (simp add: is_time_def)
  consider "char_at t \<noteq> CHR ''(''" | "take 3 p = ''d()''" | "char_at t = CHR ''(''" "take 3 p \<noteq> ''d()''" by blast
  then show ?thesis
  proof cases
    case 1
    with assms(1) ok [of _ t "u @ ''d''"] assms(2) show ?thesis by (simp add: spec_time_def p)
  next
    case 2
    then obtain q where "p = ''d()'' @ q" by (metis append_take_drop_id)
    with assms(1) ok [of _ q "u @ ''d()''"] assms(2) show ?thesis by (simp add: spec_time_def char_at_def)
  next
    case 3
    then obtain t' where t: "t = CHR ''('' # t'" using char_at_Cons by blast
    obtain a r' where a: "paren_arg t' = (a, r')" by fastforce
    from assms(1) 3 obtain q where "r' = Some q" "spec_done (?c a) q (n + 1) = Ret (Some r)"
      by (auto simp: spec_time_def p t a char_at_def split: if_splits option.splits)
    with paren_arg_split [of t' a q] a ok [of a q "u @ ''d('' @ a @ '')''"] assms(2) show ?thesis by (simp add: p t)
  qed
qed

lemma spec_mdc_taken:
  assumes "spec_mdc sp p n = Ret (Some r)" "spec_str sp = u @ p" "char_at p = CHR ''M''" "\<not> is_time sp"
  shows "taken (spec_str sp) n r"
proof -
  obtain t where p: "p = CHR ''M'' # t" using char_at_Cons [OF assms(3)] by auto
  with assms(1) obtain t' where t: "t = CHR ''('' # t'" using char_at_Cons [of t "CHR ''(''"] by (auto simp: spec_mdc_def split: if_splits)
  obtain a r' where a: "paren_arg t' = (a, r')" by fastforce
  show ?thesis
  proof (cases r')
    case (Some q)
    with assms(1) have "spec_done (sp\<lparr>mdc_key := a, write_fn := Write_Mdc\<rparr>) q n = Ret (Some r)"
      by (auto simp: spec_mdc_def p t a char_at_def split: if_splits)
    from spec_done_taken [OF this, of "u @ ''M('' @ a @ '')''" n] paren_arg_split [of t' a q] a Some assms(2) show ?thesis
      by (simp add: p t is_time_def)
  next
    case None
    with assms(1) have "take 3 p = ''M()''" and d: "spec_done (sp\<lparr>write_fn := Write_Mdc\<rparr>) (drop 3 p) n = Ret (Some r)"
      by (auto simp: spec_mdc_def p t a char_at_def split: if_splits)
    then have "p = ''M()'' @ drop 3 p" by (metis append_take_drop_id)
    with spec_done_taken [OF d, of "u @ ''M()''" n] assms(2) show ?thesis by (simp add: is_time_def)
  qed
qed

lemma spec_two_taken:
  assumes "spec_done (sp\<lparr>write_fn := w\<rparr>) (drop 2 p) n = Ret (Some r)" "take 2 p = v" "v \<noteq> []" "w \<noteq> Write_Time" "spec_str sp = u @ p"
  shows "taken (spec_str sp) n r"
proof -
  have "p = v @ drop 2 p" using assms(2) append_take_drop_id by metis
  with spec_done_taken [OF assms(1), of "u @ v" n] assms(3-5) show ?thesis by (simp add: is_time_def)
qed

lemma spec_one_taken:
  assumes "spec_done (sp\<lparr>write_fn := w\<rparr>) (tl p) n' = Ret (Some r)" "char_at p \<noteq> NUL" "spec_str sp = u @ p"
    "if w = Write_Time then time_cache_index sp = n \<and> n' = n + 1 else n' = n"
  shows "taken (spec_str sp) n r"
proof -
  have "p = [char_at p] @ tl p" using assms(2) by (cases p) (auto simp: char_at_def)
  with spec_done_taken [OF assms(1), of "u @ [char_at p]" n] assms(3,4) show ?thesis by (simp add: is_time_def)
qed

lemma spec_percent_taken:
  assumes r: "spec_percent sp p n = Ret (Some r)" and s: "spec_str sp = u @ p" "\<not> is_time sp"
  shows "taken (spec_str sp) n r"
proof -
  consider "char_at p = CHR ''d''" | "char_at p = CHR ''M''" | "take 2 p = ''ms''" "char_at p \<noteq> CHR ''d''" "char_at p \<noteq> CHR ''M''"
    | "take 2 p = ''us''" "char_at p \<noteq> CHR ''d''" "char_at p \<noteq> CHR ''M''"
    | "take 2 p \<noteq> ''ms''" "take 2 p \<noteq> ''us''" "char_at p \<noteq> CHR ''d''" "char_at p \<noteq> CHR ''M''" by blast
  then show ?thesis
  proof cases
    case 1
    with r spec_time_taken [OF _ s(1)] show ?thesis by (simp add: spec_percent_def)
  next
    case 2
    with r spec_mdc_taken [OF _ s(1) _ s(2)] show ?thesis by (simp add: spec_percent_def)
  next
    case 3
    with r spec_two_taken [OF _ 3(1) _ _ s(1), of Write_Ms n r] show ?thesis by (simp add: spec_percent_def)
  next
    case 4
    with r spec_two_taken [OF _ 4(1) _ _ s(1), of Write_Us n r] show ?thesis by (simp add: spec_percent_def)
  next
    case 5
    with r obtain w where w: "simple_writer (char_at p) = Some w" by (auto simp: spec_percent_def split: option.splits)
    then have NUL: "char_at p \<noteq> NUL" using simple_writer_NUL by auto
    show ?thesis
    proof (cases "char_at p = CHR ''D''")
      case True
      with w have "w = Write_Time" by (simp add: simple_writer_def)
      with r 5 w True NUL s(1)
        spec_one_taken [of w "sp\<lparr>time_fmt := ZLOG_DEFAULT_TIME_FMT, time_cache_index := n\<rparr>" p "n + 1" r u n] show ?thesis
        by (simp add: spec_percent_def)
    next
      case False
      with w simple_writer_time have "w \<noteq> Write_Time" by auto
      with r 5 w False NUL s(1) spec_one_taken [of w sp p n r u n] show ?thesis by (simp add: spec_percent_def)
    qed
  qed
qed

lemma spec_new_taken:
  assumes r: "zlog_spec_new mem pattern n = Ret (Some r)" and ne: "pattern \<noteq> []"
  shows "taken pattern n r"
proof (cases "char_at pattern = CHR ''%''")
  case True
  then obtain t where p: "pattern = CHR ''%'' # t" using char_at_Cons by blast
  let ?f = "takeWhile fmt_char t" and ?sp = "empty_spec pattern"
  have sp: "spec_str (zlog_spec_parse_print_fmt (?sp\<lparr>print_fmt := f, reformat := True\<rparr>)) = pattern"
      "\<not> is_time (zlog_spec_parse_print_fmt (?sp\<lparr>print_fmt := f, reformat := True\<rparr>))" "spec_str ?sp = pattern" "\<not> is_time ?sp" for f
    by (simp_all add: zlog_spec_parse_print_fmt_def empty_spec_def Let_def is_time_def)
  show ?thesis
  proof (cases "?f = []")
    case f: True
    with r True p have "spec_percent ?sp t n = Ret (Some r)" by (auto simp: zlog_spec_new_def Let_def split: if_splits)
    from spec_percent_taken [OF this, of "''%''"] sp(3,4) p show ?thesis by simp
  next
    case f: False
    have u: "pattern = (CHR ''%'' # ?f) @ drop (length ?f) t" using p by (simp flip: dropWhile_eq_drop)
    have tl: "tl pattern = t" using p by simp
    have "spec_percent (zlog_spec_parse_print_fmt (?sp\<lparr>print_fmt := ?f, reformat := True\<rparr>)) (drop (length ?f) t) n = Ret (Some r)"
      using r f unfolding zlog_spec_new_def Let_def tl by (simp add: True split: if_splits)
    from spec_percent_taken [OF this _ sp(2)] sp(1) u show ?thesis by metis
  qed
next
  case False
  let ?q = "dropWhile (\<lambda>c. c \<noteq> CHR ''%'') pattern" and ?u = "takeWhile (\<lambda>c. c \<noteq> CHR ''%'') pattern"
  have "?u \<noteq> []" using False ne by (cases pattern) (auto simp: char_at_def)
  with spec_done_taken [of "empty_spec pattern" ?q n r ?u n] r False show ?thesis
    by (auto simp: zlog_spec_new_def empty_spec_def is_time_def split: if_splits)
qed

text \<open>With texts that fit its arrays \<open>zlog_spec_new\<close> returns.\<close>

lemma paren_arg_length: "length (fst (paren_arg t)) \<le> length t"
  by (simp add: paren_arg_def Let_def length_takeWhile_le)

lemma spec_done_ret [simp]: "is_ret (spec_done sp q n)"
  by (simp add: spec_done_def)

lemma spec_percent_ret:
  assumes "length p \<le> MAXLEN_PATH"
  shows "is_ret (spec_percent sp p n)"
proof -
  have "length (fst (paren_arg (drop 2 p))) \<le> MAXLEN_PATH" using paren_arg_length [of "drop 2 p"] assms by simp
  then show ?thesis
    by (auto simp: spec_percent_def spec_time_def spec_mdc_def MAXLEN_CFG_LINE_def Let_def split: option.split prod.split)
qed

lemma spec_new_ret:
  assumes "length pattern \<le> MAXLEN_PATH"
  shows "\<exists>r. zlog_spec_new mem pattern n = Ret r"
proof -
  have "length (takeWhile fmt_char (tl pattern)) \<le> length (tl pattern)" by (rule length_takeWhile_le)
  then have "length (takeWhile fmt_char (tl pattern)) \<le> MAXLEN_CFG_LINE" using assms by (simp add: MAXLEN_CFG_LINE_def)
  then have "is_ret (zlog_spec_new mem pattern n)"
    using assms spec_percent_ret by (auto simp: zlog_spec_new_def Let_def)
  then show ?thesis by (simp add: is_ret_iff)
qed

section \<open>All specifiers of a pattern\<close>

text \<open>The loop over the pattern, with the allocations for each specifier and for its place in the list.\<close>

function parse_pattern ::
  "(nat \<Rightarrow> bool \<times> bool) \<Rightarrow> string \<Rightarrow> nat \<Rightarrow> zlog_spec zc_arraylist \<Rightarrow> (int \<times> zlog_spec zc_arraylist \<times> nat) res" where
  "parse_pattern mem p n specs =
     (if p = [] then Ret (0, specs, n)
      else
        bnd (zlog_spec_new (fst (mem (nat (al_len specs)))) p n) (\<lambda>r.
        case r of
          None \<Rightarrow> Ret (-1, specs, n)
        | Some (a_spec, q, n') \<Rightarrow>
            bnd (zc_arraylist_add (snd (mem (nat (al_len specs)))) specs a_spec) (\<lambda>(rc, specs').
            if rc \<noteq> 0 then Ret (-1, specs', n') else parse_pattern mem q n' specs')))"
  by pat_completeness auto
termination
proof (relation "measure (\<lambda>(mem, p, n, specs). length p)")
  fix mem :: "nat \<Rightarrow> bool \<times> bool" and p q :: string and n n' :: nat and specs specs' :: "zlog_spec zc_arraylist" and r sp w rc x y
  assume a: "p \<noteq> []" "zlog_spec_new (fst (mem (nat (al_len specs)))) p n = Ret r" "r = Some w" "(sp, y) = w" "(q, n') = y"
  then have "taken p n (sp, q, n')" using spec_new_taken by blast
  then have "length p = min (length p) (spec_len sp) + length q" "0 < spec_len sp"
    by (simp_all add: taken_def) (metis length_append length_take)
  then show "((mem, q, n', specs'), mem, p, n, specs) \<in> measure (\<lambda>(mem, p, n, specs). length p)" using a(1) by (cases "spec_len sp \<le> length p") auto
qed simp

declare parse_pattern.simps [simp del]

text \<open>The part of \<open>zlog_format_new\<close> behind the copying of the pattern: the list, the loop, and on an error the deletion of the format.\<close>

definition format_specs ::
  "bool \<Rightarrow> bool \<Rightarrow> (nat \<Rightarrow> bool \<times> bool) \<Rightarrow> string \<Rightarrow> nat \<Rightarrow> (zlog_spec zc_arraylist option \<times> nat) res" where
  "format_specs mem1 mem2 mem pattern n =
     (case zc_arraylist_new mem1 mem2 True of
        None \<Rightarrow> Ret (None, n)
      | Some specs \<Rightarrow>
          bnd (parse_pattern mem pattern n specs) (\<lambda>(rc, specs', n').
          if rc \<noteq> 0 then bnd (zc_arraylist_del specs') (\<lambda>_. Ret (None, n')) else Ret (Some specs', n')))"

lemma parse_pattern_ok:
  assumes "length p \<le> MAXLEN_PATH" "arraylist_ok specs" "length fmts = n"
  shows "\<exists>rc specs' n' sps. parse_pattern (\<lambda>_. (True, True)) p n specs = Ret (rc, specs', n') \<and> arraylist_ok specs' \<and> slots specs' = slots specs @ map Some sps
    \<and> n' = n + length (filter is_time sps)
    \<and> (rc = 0 \<longrightarrow> concat (map (\<lambda>sp. take (spec_len sp) (spec_str sp)) sps) = p)
    \<and> (\<forall>sp \<in> set sps. is_time sp \<longrightarrow> time_cache_index sp < n' \<and> (fmts @ map time_fmt (filter is_time sps)) ! time_cache_index sp = time_fmt sp)"
  using assms
proof (induction p arbitrary: n specs fmts rule: length_induct)
  case (1 p)
  show ?case
  proof (cases "p = []")
    case True
    with 1(3) show ?thesis by (subst parse_pattern.simps) simp
  next
    case ne: False
    obtain r where r: "zlog_spec_new True p n = Ret r" using spec_new_ret [OF 1(2)] by blast
    show ?thesis
    proof (cases r)
      case None
      with r ne 1(3) show ?thesis by (subst parse_pattern.simps) (auto intro: exI [of _ "[]"])
    next
      case (Some a)
      obtain sp q n1 where a: "a = (sp, q, n1)" by (cases a)
      with Some r have t: "taken p n (sp, q, n1)" using spec_new_taken [of True p n a] ne by simp
      then have p: "p = take (spec_len sp) (spec_str sp) @ q" and q: "length q < length p" and n1: "n1 = n + length (filter is_time [sp])"
        using ne by (auto simp: taken_def) (metis append_eq_conv_conj length_append less_add_same_cancel2 take_eq_Nil length_greater_0_conv gr_implies_not0)
      obtain l where l: "zc_arraylist_add True specs sp = Ret (0, l)" "arraylist_ok l" "slots l = slots specs @ [Some sp]" using add_ok [OF 1(3)] by blast
      let ?fmts = "fmts @ map time_fmt (filter is_time [sp])"
      have q': "length q \<le> MAXLEN_PATH" "length ?fmts = n1" using q 1(2,4) n1 by simp_all
      from 1(1) [rule_format, OF q q'(1) l(2) q'(2)] obtain rc specs' n' sps where IH: "parse_pattern (\<lambda>_. (True, True)) q n1 l = Ret (rc, specs', n')" "arraylist_ok specs'"
          "slots specs' = slots l @ map Some sps" "n' = n1 + length (filter is_time sps)"
          "rc = 0 \<longrightarrow> concat (map (\<lambda>sp. take (spec_len sp) (spec_str sp)) sps) = q"
          "\<forall>sp \<in> set sps. is_time sp \<longrightarrow> time_cache_index sp < n' \<and> (?fmts @ map time_fmt (filter is_time sps)) ! time_cache_index sp = time_fmt sp"
        by blast
      have run: "parse_pattern (\<lambda>_. (True, True)) p n specs = Ret (rc, specs', n')" using ne r Some a l(1) IH(1) by (subst parse_pattern.simps) simp
      have here: "is_time sp \<Longrightarrow> time_cache_index sp = length fmts" using t 1(4) by (simp add: taken_def)
      show ?thesis
      proof (intro exI conjI)
        show "\<forall>s \<in> set (sp # sps). is_time s \<longrightarrow> time_cache_index s < n' \<and> (fmts @ map time_fmt (filter is_time (sp # sps))) ! time_cache_index s = time_fmt s"
          using IH(4,6) here n1 1(4) by (auto simp: nth_append)
      qed (use run IH l(3) p n1 in auto)
    qed
  qed
qed

lemma long_mdc_key:
  assumes "CHR '')'' \<notin> set key" "length key > MAXLEN_PATH"
  shows "zlog_spec_new True (''%M('' @ key @ '')'') n = Crash Out_Of_Bounds"
proof -
  have "takeWhile (\<lambda>c. c \<noteq> CHR '')'') (key @ '')'') = key" using assms(1) by (subst takeWhile_append2) auto
  then have "fst (paren_arg (key @ '')'')) = key" by (simp add: paren_arg_def Let_def)
  then obtain r where "paren_arg (key @ '')'') = (key, r)" by (cases "paren_arg (key @ '')'')") auto
  moreover have "\<not> fmt_char CHR ''M''" by code_simp
  ultimately show ?thesis using assms(2)
    by (simp add: zlog_spec_new_def spec_percent_def spec_mdc_def char_at_def)
qed

text \<open>C34: Reading a pattern of at most 1024 characters, with memory, always comes to an end and writes nothing outside the arrays. When the pattern is accepted the texts of
  the specifiers are, put together, the pattern, and every time specifier has a cache of its own: the one of its number among all the time specifiers read so far, also
  by other formats. A pattern may be four times as long, though, and the array for the key of a \<open>%M(...)\<close> is overrun by a longer key.\<close>

theorem pattern_specs:
  assumes "length pattern \<le> MAXLEN_PATH" "length fmts = n"
  shows "(\<exists>specs n'. format_specs True True (\<lambda>_. (True, True)) pattern n = Ret (specs, n')
      \<and> (\<forall>l. specs = Some l \<longrightarrow> (\<exists>sps. arraylist_ok l \<and> slots l = map Some sps \<and> concat (map (\<lambda>sp. take (spec_len sp) (spec_str sp)) sps) = pattern
          \<and> n' = n + length (filter is_time sps)
          \<and> (\<forall>sp \<in> set sps. is_time sp \<longrightarrow> time_cache_index sp < n' \<and> (fmts @ map time_fmt (filter is_time sps)) ! time_cache_index sp = time_fmt sp))))
    \<and> (\<forall>key. CHR '')'' \<notin> set key \<and> length key > MAXLEN_PATH
        \<longrightarrow> format_specs True True (\<lambda>_. (True, True)) (''%M('' @ key @ '')'') n = Crash Out_Of_Bounds)"


proof (intro conjI)
  obtain l :: "zlog_spec zc_arraylist" where l: "zc_arraylist_new True True True = Some l" "arraylist_ok l" "slots l = []" by (simp add: zc_arraylist_new_def arraylist_ok_def slots_def ARRAY_LIST_DEFAULT_SIZE_def)
  from parse_pattern_ok [OF assms(1) l(2) assms(2)] obtain rc l' n' sps where p: "parse_pattern (\<lambda>_. (True, True)) pattern n l = Ret (rc, l', n')"
      "arraylist_ok l'" "slots l' = map Some sps" "n' = n + length (filter is_time sps)"
      "rc = 0 \<longrightarrow> concat (map (\<lambda>sp. take (spec_len sp) (spec_str sp)) sps) = pattern"
      "\<forall>sp \<in> set sps. is_time sp \<longrightarrow> time_cache_index sp < n' \<and> (fmts @ map time_fmt (filter is_time sps)) ! time_cache_index sp = time_fmt sp"
    using l(3) by auto
  obtain ds where "zc_arraylist_del l' = Ret ds" using arraylist_del_ret [OF p(2)] by blast
  with l(1) p(1) have run: "format_specs True True (\<lambda>_. (True, True)) pattern n = Ret (if rc = 0 then Some l' else None, n')"
    by (simp add: format_specs_def)
  show "\<exists>specs n'. format_specs True True (\<lambda>_. (True, True)) pattern n = Ret (specs, n')
      \<and> (\<forall>l. specs = Some l \<longrightarrow> (\<exists>sps. arraylist_ok l \<and> slots l = map Some sps \<and> concat (map (\<lambda>sp. take (spec_len sp) (spec_str sp)) sps) = pattern
          \<and> n' = n + length (filter is_time sps)
          \<and> (\<forall>sp \<in> set sps. is_time sp \<longrightarrow> time_cache_index sp < n' \<and> (fmts @ map time_fmt (filter is_time sps)) ! time_cache_index sp = time_fmt sp)))"
    unfolding run using p(2-6) by (auto simp del: filter.simps)
  show "\<forall>key. CHR '')'' \<notin> set key \<and> length key > MAXLEN_PATH
      \<longrightarrow> format_specs True True (\<lambda>_. (True, True)) (''%M('' @ key @ '')'') n = Crash Out_Of_Bounds"
    using long_mdc_key by (auto simp: format_specs_def l(1) parse_pattern.simps)
qed

theorem pattern_specs_witness:
  "\<exists>l sps. format_specs True True (\<lambda>_. (True, True)) ''%d(%T) %-6V %m%n'' 1 = Ret (Some l, 2) \<and> slots l = map Some sps
     \<and> concat (map (\<lambda>sp. take (spec_len sp) (spec_str sp)) sps) = ''%d(%T) %-6V %m%n''"
proof -
  have "case format_specs True True (\<lambda>_. (True, True)) ''%d(%T) %-6V %m%n'' 1 of Ret (Some l, n) \<Rightarrow> n = 2 | _ \<Rightarrow> False" by code_simp
  then obtain l where "format_specs True True (\<lambda>_. (True, True)) ''%d(%T) %-6V %m%n'' 1 = Ret (Some l, 2)"
    by (auto split: res.splits option.splits)
  with pattern_specs [of "''%d(%T) %-6V %m%n''" "[''%F'']" 1] show ?thesis by (auto simp: MAXLEN_PATH_def)
qed

end
