(* ===== verification/Zc_Hashtable_Map.thy ===== *)
theory Zc_Hashtable_Map
  imports Zc_Hashtable
begin

text \<open>
  The hash table of \<open>Zc_Hashtable\<close> is a finite map: its chains are well linked, every operation keeps them so and does to the map what its name says.
\<close>

section \<open>Chains\<close>

definition payload :: "('k, 'v) zc_hashtable_entry \<Rightarrow> 32 word \<times> 'k \<times> 'v" where
  "payload e = (hash_key e, ekey e, evalue e)"

definition payloads :: "('k, 'v) cells \<Rightarrow> (32 word \<times> 'k \<times> 'v) option list" where
  "payloads cs = map (map_option payload) cs"

definition live :: "('k, 'v) cells \<Rightarrow> nat set" where
  "live cs = {x. x < length cs \<and> cs ! x \<noteq> None}"

definition slot :: "('k, 'v) cells \<Rightarrow> nat \<Rightarrow> nat \<Rightarrow> nat" where
  "slot cs n x = unat (hash_key (the (cs ! x))) mod n"

text \<open>From the pointer \<open>p\<close>, whose entry has the previous entry \<open>pr\<close>, the cells \<open>xs\<close> follow and then the pointer \<open>q\<close>.\<close>

primrec linked :: "('k, 'v) cells \<Rightarrow> nat option \<Rightarrow> nat option \<Rightarrow> nat list \<Rightarrow> nat option \<Rightarrow> bool" where
  "linked cs pr p [] q \<longleftrightarrow> p = q"
| "linked cs pr p (x # xs) q \<longleftrightarrow>
     p = Some x \<and> x < length cs \<and> (\<exists>e. cs ! x = Some e \<and> eprev e = pr \<and> linked cs (Some x) (enext e) xs q)"

definition chained :: "nat set \<Rightarrow> ('k, 'v) cells \<Rightarrow> nat option list \<Rightarrow> nat \<Rightarrow> bool" where
  "chained M cs tb n \<longleftrightarrow> length tb = n \<and> M \<subseteq> live cs \<and>
     (\<forall>i < n. \<exists>xs. linked cs None (tb ! i) xs None \<and> distinct xs \<and> set xs = {x \<in> M. slot cs n x = i})"

lemma length_set_links [simp]: "length (set_prev p q cs) = length cs" "length (set_next p q cs) = length cs"
  by (simp_all add: set_prev_def set_next_def)

lemma payload_links [simp]: "payload (e\<lparr>eprev := q\<rparr>) = payload e" "payload (e\<lparr>enext := q\<rparr>) = payload e"
  by (simp_all add: payload_def)

lemma payloads_set_prev [simp]: "payloads (set_prev p q cs) = payloads cs"
  by (cases "p < length cs")
    (auto simp: payloads_def set_prev_def map_update option.map_comp comp_def list_update_same_conv list_update_beyond)

lemma payloads_set_next [simp]: "payloads (set_next p q cs) = payloads cs"
  by (cases "p < length cs")
    (auto simp: payloads_def set_next_def map_update option.map_comp comp_def list_update_same_conv list_update_beyond)

lemma set_links_other [simp]:
  "x \<noteq> p \<Longrightarrow> set_prev p q cs ! x = cs ! x" "x \<noteq> p \<Longrightarrow> set_next p q cs ! x = cs ! x"
  by (simp_all add: set_prev_def set_next_def)

lemma set_links_same:
  "p < length cs \<Longrightarrow> set_prev p q cs ! p = map_option (\<lambda>e. e\<lparr>eprev := q\<rparr>) (cs ! p)"
  "p < length cs \<Longrightarrow> set_next p q cs ! p = map_option (\<lambda>e. e\<lparr>enext := q\<rparr>) (cs ! p)"
  by (simp_all add: set_prev_def set_next_def)

lemma entry_at_Ret [simp]: "entry_at cs p = Ret e \<longleftrightarrow> p < length cs \<and> cs ! p = Some e"
  by (auto simp: entry_at_def split: option.splits)

lemma payloads_length: "payloads cs = payloads cs' \<Longrightarrow> length cs = length cs'"
  by (metis length_map payloads_def)

lemma payloads_nth: "payloads cs = payloads cs' \<Longrightarrow> x < length cs \<Longrightarrow> map_option payload (cs ! x) = map_option payload (cs' ! x)"
  unfolding payloads_def by (metis length_map nth_map)

lemma live_payloads: "payloads cs = payloads cs' \<Longrightarrow> live cs = live cs'"
  unfolding live_def using payloads_length payloads_nth by (metis (lifting) map_option_is_None)

lemma slot_payloads:
  assumes "payloads cs = payloads cs'" "x \<in> live cs"
  shows "slot cs n x = slot cs' n x"
proof -
  obtain e where e: "x < length cs" "cs ! x = Some e" using assms(2) by (auto simp: live_def)
  with payloads_nth [OF assms(1) e(1)] obtain e' where "cs' ! x = Some e'" "payload e = payload e'"
    by (cases "cs' ! x") auto
  with e show ?thesis by (simp add: slot_def payload_def)
qed

lemma live_free: "live (cs[x := None]) = live cs - {x}"
proof (rule set_eqI)
  fix y show "y \<in> live (cs[x := None]) \<longleftrightarrow> y \<in> live cs - {x}"
    by (cases "y = x") (auto simp: live_def)
qed

lemma live_entry: "x \<in> live cs \<Longrightarrow> \<exists>e. x < length cs \<and> cs ! x = Some e"
  by (auto simp: live_def)

lemma linked_frame:
  "linked cs pr p xs q \<Longrightarrow> length cs \<le> length cs' \<Longrightarrow> (\<And>x. x \<in> set xs \<Longrightarrow> cs' ! x = cs ! x) \<Longrightarrow> linked cs' pr p xs q"
  by (induction xs arbitrary: pr p) auto

lemma linked_append:
  "linked cs pr p (xs @ ys) q \<longleftrightarrow>
     (\<exists>r. linked cs pr p xs r \<and> linked cs (if xs = [] then pr else Some (last xs)) r ys q)"
proof (induction xs arbitrary: pr p)
  case (Cons x xs)
  then show ?case by (cases xs) auto
qed simp

lemma linked_live: "linked cs pr p xs q \<Longrightarrow> set xs \<subseteq> live cs"
  by (induction xs arbitrary: pr p) (auto simp: live_def)

lemma linked_head: "linked cs pr (Some x) xs None \<Longrightarrow> \<exists>ys. xs = x # ys"
  by (cases xs) auto

lemma linked_first:
  assumes "linked cs pr (Some x) xs None"
  shows "x \<in> set xs" "x < length cs" "cs ! x \<noteq> None"
  using assms by (cases xs; auto)+

lemma card_live: "card (live cs) \<le> length cs"
  using card_mono [of "{..<length cs}" "live cs"] by (auto simp: live_def)

lemma chain_short: "linked cs pr p xs q \<Longrightarrow> distinct xs \<Longrightarrow> length xs \<le> length cs"
  using linked_live [of cs pr p xs q] card_live [of cs]
  by (metis card_mono distinct_card finite_Collect_conjI finite_Collect_less_nat live_def le_trans)

lemma chained_frame:
  assumes "chained M cs tb n" "length cs \<le> length cs'" "\<forall>y \<in> M. cs' ! y = cs ! y"
  shows "chained M cs' tb n"
  unfolding chained_def
proof (intro conjI allI impI)
  show "length tb = n" using assms(1) by (simp add: chained_def)
  show "M \<subseteq> live cs'" using assms by (auto simp: chained_def live_def)
  fix i assume "i < n"
  with assms(1) obtain xs where xs: "linked cs None (tb ! i) xs None" "distinct xs" "set xs = {x \<in> M. slot cs n x = i}"
    by (auto simp: chained_def)
  moreover have "linked cs' None (tb ! i) xs None"
    using xs assms(2,3) by (intro linked_frame [OF xs(1)]) auto
  moreover have "slot cs' n x = slot cs n x" if "x \<in> M" for x
    using that assms(3) by (simp add: slot_def)
  ultimately show "\<exists>xs. linked cs' None (tb ! i) xs None \<and> distinct xs \<and> set xs = {x \<in> M. slot cs' n x = i}"
    by (intro exI [of _ xs]) auto
qed

lemma chained_empty: "chained {} cs (replicate n None) n"
  unfolding chained_def by (auto intro: exI [of _ "[]"])

section \<open>Linking an entry\<close>

lemma linked_set_prev_head:
  assumes "linked cs pr (Some q) xs None" "distinct xs"
  shows "linked (set_prev q pr' cs) pr' (Some q) xs None"
proof -
  obtain ys where xs: "xs = q # ys" using assms(1) linked_head by blast
  with assms obtain e where e: "cs ! q = Some e" "q < length cs" "linked cs (Some q) (enext e) ys None" by auto
  have "linked (set_prev q pr' cs) (Some q) (enext e) ys None"
    using assms(2) xs by (intro linked_frame [OF e(3)]) (simp, metis distinct.simps(2) set_links_other(1))
  with xs e show ?thesis by (simp add: set_links_same)
qed

lemma push_front_chained:
  assumes ch: "chained M cs tb n" and x: "x \<in> live cs" "x \<notin> M" and i: "i = slot cs n x" "i < n"
    and e: "cs ! x = Some e" "eprev e = None" "enext e = None"
  shows "\<exists>tb' cs'. push_front i (tb, cs) x = Ret (tb', cs') \<and> chained (insert x M) cs' tb' n \<and> payloads cs' = payloads cs
           \<and> (\<forall>y. y \<notin> insert x M \<longrightarrow> cs' ! y = cs ! y)"
proof -
  from ch have tb: "length tb = n" "M \<subseteq> live cs" by (auto simp: chained_def)
  from ch i obtain xs where xs: "linked cs None (tb ! i) xs None" "distinct xs" "set xs = {x \<in> M. slot cs n x = i}"
    by (auto simp: chained_def)
  have xl: "x < length cs" using x by (simp add: live_def)
  define cs' where "cs' = (case tb ! i of None \<Rightarrow> cs | Some q \<Rightarrow> set_next x (Some q) (set_prev q (Some x) cs))"
  have pay: "payloads cs' = payloads cs" by (simp add: cs'_def split: option.split)
  note lv = live_payloads [OF pay] and ln = payloads_length [OF pay]
  have sl: "slot cs' n y = slot cs n y" if "y \<in> live cs" for y using slot_payloads [OF pay] that lv by metis
  have other: "cs' ! y = cs ! y" if "y \<noteq> x" "tb ! i \<noteq> Some y" for y
    using that by (auto simp: cs'_def split: option.split)
  have head: "linked cs' None (Some x) (x # xs) None"
  proof (cases "tb ! i")
    case None
    with xs have "xs = []" by (cases xs) auto
    with None e xl show ?thesis by (simp add: cs'_def)
  next
    case (Some q)
    have "x \<notin> set xs" using xs x by auto
    have "linked (set_prev q (Some x) cs) (Some x) (Some q) xs None"
      using linked_set_prev_head xs Some by metis
    then have "linked cs' (Some x) (Some q) xs None"
    proof (rule linked_frame)
      fix y assume "y \<in> set xs"
      with \<open>x \<notin> set xs\<close> have "y \<noteq> x" by auto
      then show "cs' ! y = set_prev q (Some x) cs ! y" by (simp add: cs'_def Some)
    qed (simp add: cs'_def Some)
    moreover have "x \<noteq> q" using xs(1) Some linked_first(1) \<open>x \<notin> set xs\<close> by metis
    ultimately show ?thesis using e xl Some by (simp add: cs'_def set_links_same)
  qed
  have "chained (insert x M) cs' (tb[i := Some x]) n"
    unfolding chained_def
  proof (intro conjI allI impI)
    show "insert x M \<subseteq> live cs'" using x tb lv by auto
    fix j assume j: "j < n"
    show "\<exists>ys. linked cs' None (tb[i := Some x] ! j) ys None \<and> distinct ys \<and> set ys = {y \<in> insert x M. slot cs' n y = j}"
    proof (cases "j = i")
      case True
      then show ?thesis using head xs x i j tb sl by (intro exI [of _ "x # xs"]) auto
    next
      case False
      from ch j obtain ys where ys: "linked cs None (tb ! j) ys None" "distinct ys" "set ys = {y \<in> M. slot cs n y = j}"
        by (auto simp: chained_def)
      have "linked cs' None (tb ! j) ys None"
      proof (rule linked_frame [OF ys(1)])
        fix y assume "y \<in> set ys"
        then have "y \<noteq> x" "y \<notin> set xs" using ys xs x False by auto
        moreover from this(2) have "tb ! i \<noteq> Some y" using xs(1) linked_first(1) by metis
        ultimately show "cs' ! y = cs ! y" using other by blast
      qed (simp add: ln)
      then show ?thesis using ys tb j False x i sl by (intro exI [of _ ys]) auto
    qed
  qed (simp add: tb)
  moreover have "push_front i (tb, cs) x = Ret (tb[i := Some x], cs')"
  proof (cases "tb ! i")
    case (Some q)
    with xs(1) have "q < length cs" "cs ! q \<noteq> None" using linked_first by metis+
    then show ?thesis using Some i tb by (auto simp: push_front_def tab_at_def cs'_def entry_at_def)
  qed (use i tb in \<open>simp add: push_front_def tab_at_def cs'_def\<close>)
  moreover have "cs' ! y = cs ! y" if "y \<notin> insert x M" for y
  proof (rule other)
    have "y \<notin> set xs" using that xs by auto
    then show "tb ! i \<noteq> Some y" using xs(1) linked_first(1) by metis
  qed (use that in auto)
  ultimately show ?thesis using pay by blast
qed

section \<open>The map a table stands for\<close>

definition contents :: "('k, 'v) cells \<Rightarrow> (32 word \<times> 'k \<times> 'v) list" where
  "contents cs = List.map_filter (\<lambda>x. x) (payloads cs)"

definition table_map :: "('k, 'v) zc_hashtable \<Rightarrow> 'k \<rightharpoonup> 'v" where
  "table_map t = map_of (map snd (contents (cells t)))"

definition keys_ok :: "('k \<Rightarrow> 32 word) \<Rightarrow> (32 word \<times> 'k \<times> 'v) list \<Rightarrow> bool" where
  "keys_ok hs ps \<longleftrightarrow> distinct (map (fst \<circ> snd) ps) \<and> (\<forall>(h, k, v) \<in> set ps. h = hs k)"

definition table_ok :: "('k, 'v) zc_hashtable \<Rightarrow> bool" where
  "table_ok t \<longleftrightarrow> 0 < tab_size t \<and> chained (live (cells t)) (cells t) (tab t) (tab_size t)
     \<and> nelem t = length (contents (cells t)) \<and> keys_ok (hash t) (contents (cells t)) \<and> equal_key t = (=)"

lemma contents_append [simp]: "contents (cs @ ds) = contents cs @ contents ds"
  by (simp add: contents_def payloads_def List.map_filter_def)

lemma contents_simps [simp]: "contents [] = []" "contents (None # cs) = contents cs" "contents (Some e # cs) = payload e # contents cs"
  by (simp_all add: contents_def payloads_def List.map_filter_def payload_def)

lemma contents_payloads: "payloads cs = payloads cs' \<Longrightarrow> contents cs = contents cs'"
  by (simp add: contents_def)

lemma set_contents: "set (contents cs) = (\<lambda>x. payload (the (cs ! x))) ` live cs"
proof (induction cs rule: rev_induct)
  case (snoc c cs)
  have "live (cs @ [c]) = live cs \<union> (if c = None then {} else {length cs})"
    by (auto simp: live_def nth_append)
  moreover have "(\<lambda>x. payload (the ((cs @ [c]) ! x))) ` live cs = (\<lambda>x. payload (the (cs ! x))) ` live cs"
    by (intro image_cong) (auto simp: live_def nth_append)
  ultimately show ?case using snoc by (cases c) auto
qed (simp add: live_def)

lemma contents_update:
  assumes "x < length cs" "cs ! x = Some e"
  obtains us vs where "contents cs = us @ payload e # vs" "contents (cs[x := None]) = us @ vs"
    "\<And>e'. contents (cs[x := Some e']) = us @ payload e' # vs"
proof -
  obtain us vs where cs: "cs = us @ Some e # vs" "length us = x"
    using assms id_take_nth_drop [of x cs] by (metis length_take min.absorb4)
  then have "cs[x := c] = us @ c # vs" for c by auto
  with cs show ?thesis by (intro that [of "contents us" "contents vs"]) simp_all
qed

lemma live_in_contents: "x \<in> live cs \<Longrightarrow> cs ! x = Some e \<Longrightarrow> payload e \<in> set (contents cs)"
  unfolding set_contents by force

lemma table_map_Some:
  "keys_ok (hash t) (contents (cells t)) \<Longrightarrow> table_map t k = Some v \<longleftrightarrow> (\<exists>h. (h, k, v) \<in> set (contents (cells t)))"
  unfolding table_map_def keys_ok_def by (subst map_of_eq_Some_iff) (force simp: comp_def image_iff)+

lemma table_map_None: "table_map t k = None \<longleftrightarrow> (\<forall>h v. (h, k, v) \<notin> set (contents (cells t)))"
  unfolding table_map_def map_of_eq_None_iff by force

section \<open>Searching\<close>

lemma find_in_linked:
  assumes "linked (cells t) pr p xs None" "length xs \<le> n" "equal_key t = (=)"
  shows "find_in n t k p = Ret (find (\<lambda>x. k = ekey (the (cells t ! x))) xs)"
  using assms
proof (induction xs arbitrary: pr p n)
  case (Cons x xs)
  then obtain m where "n = Suc m" "length xs \<le> m" by (cases n) auto
  with Cons show ?case by (auto simp: entry_at_def)
qed simp

lemma table_search:
  assumes ok: "table_ok t"
  obtains i h r where "bucket_of (hash t k) (tab_size t) = Ret i" "tab_at (tab t) i = Ret h"
    "find_in (length (cells t)) t k h = Ret r" "i = unat (hash t k) mod tab_size t" "i < tab_size t"
    "case r of None \<Rightarrow> table_map t k = None
       | Some x \<Rightarrow> x \<in> live (cells t) \<and> ekey (the (cells t ! x)) = k"
proof -
  define i where "i = unat (hash t k) mod tab_size t"
  have i: "i < tab_size t" using ok by (simp add: i_def table_ok_def)
  from ok i obtain xs where xs: "linked (cells t) None (tab t ! i) xs None" "distinct xs"
      "set xs = {x \<in> live (cells t). slot (cells t) (tab_size t) x = i}"
    by (auto simp: table_ok_def chained_def)
  let ?r = "find (\<lambda>x. k = ekey (the (cells t ! x))) xs"
  have f: "find_in (length (cells t)) t k (tab t ! i) = Ret ?r"
    using ok xs chain_short by (intro find_in_linked) (auto simp: table_ok_def)
  have key: "case ?r of None \<Rightarrow> table_map t k = None | Some x \<Rightarrow> x \<in> live (cells t) \<and> ekey (the (cells t ! x)) = k"
  proof (cases ?r)
    case None
    have "(h, k, v) \<notin> set (contents (cells t))" for h v
    proof
      assume "(h, k, v) \<in> set (contents (cells t))"
      moreover from this ok have "h = hash t k" by (auto simp: table_ok_def keys_ok_def)
      ultimately obtain x where "x \<in> live (cells t)" "payload (the (cells t ! x)) = (hash t k, k, v)"
        by (auto simp: set_contents)
      then have "x \<in> set xs" "ekey (the (cells t ! x)) = k"
        using xs(3) by (auto simp: slot_def payload_def i_def)
      with None show False by (auto simp: find_None_iff)
    qed
    with None show ?thesis by (simp add: table_map_None)
  next
    case (Some x)
    then have "x \<in> set xs" "k = ekey (the (cells t ! x))" by (auto simp: find_Some_iff)
    with xs Some show ?thesis by auto
  qed
  show ?thesis
  proof (rule that [of i "tab t ! i" ?r])
    show "bucket_of (hash t k) (tab_size t) = Ret i" using ok by (simp add: bucket_of_def i_def table_ok_def)
    show "tab_at (tab t) i = Ret (tab t ! i)" using ok i by (simp add: tab_at_def table_ok_def chained_def)
  qed (use f key i in \<open>simp_all add: i_def\<close>)
qed

lemma get_table_map:
  assumes "table_ok t"
  shows "zc_hashtable_get t k = Ret (table_map t k)"
proof -
  obtain i h r where s: "bucket_of (hash t k) (tab_size t) = Ret i" "tab_at (tab t) i = Ret h"
      "find_in (length (cells t)) t k h = Ret r" "i = unat (hash t k) mod tab_size t" "i < tab_size t"
      and r: "case r of None \<Rightarrow> table_map t k = None | Some x \<Rightarrow> x \<in> live (cells t) \<and> ekey (the (cells t ! x)) = k"
    by (rule table_search [OF assms, of k])
  show ?thesis
  proof (cases r)
    case (Some x)
    with r obtain e where e: "x < length (cells t)" "cells t ! x = Some e" "ekey e = k"
      by (auto simp: live_def)
    then have "(hash_key e, k, evalue e) \<in> set (contents (cells t))"
      using live_in_contents [of x "cells t" e] by (auto simp: live_def payload_def)
    then have "table_map t k = Some (evalue e)"
      using assms by (auto simp: table_map_Some table_ok_def)
    with s Some e show ?thesis by (simp add: zc_hashtable_get_def entry_at_def)
  qed (use s r in \<open>simp add: zc_hashtable_get_def\<close>)
qed

section \<open>Rehashing\<close>

lemma rehash_chain_chained:
  assumes "linked cs pr p xs None" "distinct xs" "length xs \<le> m" "chained M cs tb n" "set xs \<inter> M = {}" "0 < n"
  shows "\<exists>tb' cs'. rehash_chain m n (tb, cs) p = Ret (tb', cs') \<and> chained (M \<union> set xs) cs' tb' n
    \<and> payloads cs' = payloads cs \<and> (\<forall>y. y \<notin> M \<union> set xs \<longrightarrow> cs' ! y = cs ! y)"
  using assms
proof (induction xs arbitrary: cs pr p m M tb)
  case (Cons x xs)
  then obtain e m' where e: "p = Some x" "x < length cs" "cs ! x = Some e" "linked cs (Some x) (enext e) xs None"
      and m: "m = Suc m'" "length xs \<le> m'"
    by (cases m) auto
  define cs1 where "cs1 = set_prev x None (set_next x None cs)"
  have pay1: "payloads cs1 = payloads cs" by (simp add: cs1_def)
  have same1: "cs1 ! y = cs ! y" if "y \<noteq> x" for y using that by (simp add: cs1_def)
  have ch1: "chained M cs1 tb n"
  proof (rule chained_frame [OF Cons.prems(4)])
    have "x \<notin> M" using Cons.prems(5) by auto
    then show "\<forall>y\<in>M. cs1 ! y = cs ! y" using same1 by metis
  qed (simp add: cs1_def)
  have x1: "cs1 ! x = Some (e\<lparr>enext := None, eprev := None\<rparr>)" using e by (simp add: cs1_def set_links_same)
  have "x \<in> live cs1" "x \<notin> M" "slot cs1 n x < n" using e x1 pay1 Cons.prems by (auto simp: live_def slot_def cs1_def)
  from push_front_chained [OF ch1 this(1,2) refl this(3) x1] obtain tb2 cs2 where
    p2: "push_front (slot cs1 n x) (tb, cs1) x = Ret (tb2, cs2)" "chained (insert x M) cs2 tb2 n"
      "payloads cs2 = payloads cs1" "\<forall>y. y \<notin> insert x M \<longrightarrow> cs2 ! y = cs1 ! y"
    by auto
  have len2: "length cs \<le> length cs2" using payloads_length [of cs2 cs] p2(3) pay1 by simp
  have "linked cs2 (Some x) (enext e) xs None"
  proof (rule linked_frame [OF e(4) len2])
    fix y assume "y \<in> set xs"
    then have "y \<notin> insert x M" "y \<noteq> x" using Cons.prems by auto
    then show "cs2 ! y = cs ! y" using p2(4) same1 by simp
  qed
  from Cons.IH [OF this _ m(2) p2(2)] Cons.prems obtain tb3 cs3 where
    p3: "rehash_chain m' n (tb2, cs2) (enext e) = Ret (tb3, cs3)" "chained (insert x M \<union> set xs) cs3 tb3 n"
      "payloads cs3 = payloads cs2" "\<forall>y. y \<notin> insert x M \<union> set xs \<longrightarrow> cs3 ! y = cs2 ! y"
    by auto
  have "rehash_chain m n (tb, cs) p = Ret (tb3, cs3)"
    using e m p2(1) p3(1) Cons.prems(6) x1 by (simp add: entry_at_def bucket_of_def slot_def flip: cs1_def)
  moreover have "\<forall>y. y \<notin> M \<union> set (x # xs) \<longrightarrow> cs3 ! y = cs ! y" using p3(4) p2(4) same1 by simp
  ultimately show ?case using p3(2,3) p2(3) pay1 by auto
qed auto

lemma rehash_tab_chained:
  assumes "\<forall>i < length ps. \<exists>xs. linked cs None (ps ! i) xs None \<and> distinct xs \<and> set xs = S i"
    and "chained M cs tb n" "0 < n" "\<forall>i < length ps. S i \<inter> M = {}"
    and "\<forall>i < length ps. \<forall>j < length ps. i \<noteq> j \<longrightarrow> S i \<inter> S j = {}"
  shows "\<exists>tb' cs'. rehash_tab ps n (tb, cs) = Ret (tb', cs') \<and> chained (M \<union> (\<Union>i<length ps. S i)) cs' tb' n
    \<and> payloads cs' = payloads cs"
  using assms
proof (induction ps arbitrary: cs tb M S)
  case (Cons p ps)
  from Cons.prems(1) [rule_format, of 0] obtain xs where xs: "linked cs None p xs None" "distinct xs" "set xs = S 0"
    by auto
  have "set xs \<inter> M = {}" using xs(3) Cons.prems(4) [rule_format, of 0] by simp
  from rehash_chain_chained [OF xs(1,2) chain_short [OF xs(1,2)] Cons.prems(2) this Cons.prems(3)] xs(3) obtain tb1 cs1 where
    p1: "rehash_chain (length cs) n (tb, cs) p = Ret (tb1, cs1)" "chained (M \<union> S 0) cs1 tb1 n" "payloads cs1 = payloads cs"
      "\<forall>y. y \<notin> M \<union> S 0 \<longrightarrow> cs1 ! y = cs ! y"
    by metis
  have dis: "S (Suc i) \<inter> (M \<union> S 0) = {}" if "i < length ps" for i
    using Cons.prems(4) [rule_format, of "Suc i"] Cons.prems(5) [rule_format, of "Suc i" 0] that by auto
  have "\<exists>xs. linked cs1 None (ps ! i) xs None \<and> distinct xs \<and> set xs = S (Suc i)" if i: "i < length ps" for i
  proof -
    obtain ys where ys: "linked cs None (ps ! i) ys None" "distinct ys" "set ys = S (Suc i)"
      using Cons.prems(1) [rule_format, of "Suc i"] i by auto
    have "linked cs1 None (ps ! i) ys None"
    proof (rule linked_frame [OF ys(1)])
      fix y assume "y \<in> set ys"
      then show "cs1 ! y = cs ! y" using p1(4) dis [OF i] ys(3) by blast
    qed (simp add: payloads_length [OF p1(3)])
    with ys show ?thesis by blast
  qed
  with Cons.IH [of cs1 "\<lambda>i. S (Suc i)" "M \<union> S 0" tb1] p1(2) Cons.prems(3,5) dis obtain tb2 cs2 where
    p2: "rehash_tab ps n (tb1, cs1) = Ret (tb2, cs2)" "chained (M \<union> S 0 \<union> (\<Union>i<length ps. S (Suc i))) cs2 tb2 n"
      "payloads cs2 = payloads cs1"
    by auto
  moreover have "(\<Union>i<length (p # ps). S i) = S 0 \<union> (\<Union>i<length ps. S (Suc i))"
    by (simp add: lessThan_Suc_eq_insert_0)
  ultimately show ?case using p1 by (simp add: Un_assoc)
qed simp

lemma rehash_ok:
  assumes ok: "table_ok t"
  shows "\<exists>t'. zc_hashtable_rehash True t = Ret (0, t') \<and> table_ok t' \<and> payloads (cells t') = payloads (cells t)
    \<and> t' = t\<lparr>tab := tab t', tab_size := 2 * tab_size t, cells := cells t'\<rparr>"
proof -
  let ?n = "tab_size t" and ?L = "live (cells t)"
  let ?S = "\<lambda>i. {x \<in> ?L. slot (cells t) ?n x = i}"
  from ok have n: "0 < ?n" "length (tab t) = ?n" by (auto simp: table_ok_def chained_def)
  have "\<exists>tb cs. rehash_tab (tab t) (2 * ?n) (replicate (2 * ?n) None, cells t) = Ret (tb, cs)
      \<and> chained ({} \<union> (\<Union>i<length (tab t). ?S i)) cs tb (2 * ?n) \<and> payloads cs = payloads (cells t)"
    using ok n by (intro rehash_tab_chained chained_empty) (auto simp: table_ok_def chained_def)
  then obtain tb cs where r: "rehash_tab (tab t) (2 * ?n) (replicate (2 * ?n) None, cells t) = Ret (tb, cs)"
      "chained ({} \<union> (\<Union>i<length (tab t). ?S i)) cs tb (2 * ?n)" "payloads cs = payloads (cells t)"
    by blast
  have "{} \<union> (\<Union>i<length (tab t). ?S i) = live cs"
    using n live_payloads [OF r(3)] by (auto simp: slot_def)
  with r ok n contents_payloads [OF r(3)] show ?thesis
    by (simp add: zc_hashtable_rehash_def table_ok_def)
qed

section \<open>Storing\<close>

text \<open>What has been handed to a table and is its own: what it still holds and what it has deleted.\<close>

definition key_dels :: "('k, 'v) destroyed list \<Rightarrow> 'k list" where
  "key_dels ds = List.map_filter (\<lambda>d. case d of Key_Del k \<Rightarrow> Some k | Value_Del _ \<Rightarrow> None) ds"

definition value_dels :: "('k, 'v) destroyed list \<Rightarrow> 'v list" where
  "value_dels ds = List.map_filter (\<lambda>d. case d of Key_Del _ \<Rightarrow> None | Value_Del v \<Rightarrow> Some v) ds"

definition owned_keys :: "('k, 'v) zc_hashtable \<Rightarrow> 'k multiset" where
  "owned_keys t = mset (key_dels (destroyed t)) + mset (map (fst \<circ> snd) (contents (cells t)))"

definition owned_values :: "('k, 'v) zc_hashtable \<Rightarrow> 'v multiset" where
  "owned_values t = mset (value_dels (destroyed t)) + mset (map (snd \<circ> snd) (contents (cells t)))"

lemma key_dels_simps [simp]: "key_dels [] = []" "key_dels (Key_Del k # ds) = k # key_dels ds" "key_dels (Value_Del v # ds) = key_dels ds"
  "key_dels (ds @ ds') = key_dels ds @ key_dels ds'"
  by (simp_all add: key_dels_def List.map_filter_def)

lemma value_dels_simps [simp]: "value_dels [] = []" "value_dels (Key_Del k # ds) = value_dels ds" "value_dels (Value_Del v # ds) = v # value_dels ds"
  "value_dels (ds @ ds') = value_dels ds @ value_dels ds'"
  by (simp_all add: value_dels_def List.map_filter_def)

lemma dels_destroy_entry [simp]:
  "key_dels (destroy_entry t e) = (if key_del t then [ekey e] else [])"
  "value_dels (destroy_entry t e) = (if value_del t then [evalue e] else [])"
  by (simp_all add: destroy_entry_def)

text \<open>What no operation changes.\<close>

definition same_setup :: "('k, 'v) zc_hashtable \<Rightarrow> ('k, 'v) zc_hashtable \<Rightarrow> bool" where
  "same_setup t t' \<longleftrightarrow> hash t' = hash t \<and> equal_key t' = equal_key t \<and> key_del t' = key_del t \<and> value_del t' = value_del t"

text \<open>The effect of a successful \<open>put\<close> and of a failed one.\<close>

definition stored :: "('k, 'v) zc_hashtable \<Rightarrow> 'k \<Rightarrow> 'v \<Rightarrow> ('k, 'v) zc_hashtable \<Rightarrow> bool" where
  "stored t k v t' \<longleftrightarrow> table_ok t' \<and> same_setup t t' \<and> table_map t' = (table_map t)(k \<mapsto> v)
     \<and> (key_del t \<longrightarrow> owned_keys t' = add_mset k (owned_keys t)) \<and> (value_del t \<longrightarrow> owned_values t' = add_mset v (owned_values t))"

definition unchanged :: "('k, 'v) zc_hashtable \<Rightarrow> ('k, 'v) zc_hashtable \<Rightarrow> bool" where
  "unchanged t t' \<longleftrightarrow> table_ok t' \<and> same_setup t t' \<and> table_map t' = table_map t
     \<and> owned_keys t' = owned_keys t \<and> owned_values t' = owned_values t"

lemma map_of_mid_upd: "k \<notin> fst ` set us \<Longrightarrow> map_of (us @ (k, v') # vs) = (map_of (us @ (k, v) # vs))(k \<mapsto> v')"
  by (simp add: map_of_append map_add_upd_left dom_map_of_conv_image_fst)

lemma map_of_mid_del: "k \<notin> fst ` set us \<Longrightarrow> k \<notin> fst ` set vs \<Longrightarrow> map_of (us @ vs) = (map_of (us @ (k, v) # vs))(k := None)"
proof -
  assume "k \<notin> fst ` set us" "k \<notin> fst ` set vs"
  then have "map_of us k = None" "map_of vs k = None" by (simp_all only: map_of_eq_None_iff not_False_eq_True)
  then show ?thesis by (intro ext) (simp add: map_add_def split: option.split)
qed

lemma linked_links:
  assumes "linked cs pr p xs q" "length cs' = length cs"
    "\<And>x. x \<in> set xs \<Longrightarrow> map_option (\<lambda>e. (eprev e, enext e)) (cs' ! x) = map_option (\<lambda>e. (eprev e, enext e)) (cs ! x)"
  shows "linked cs' pr p xs q"
  using assms
proof (induction xs arbitrary: pr p)
  case (Cons x xs)
  from Cons.prems(3) [of x] have "map_option (\<lambda>e. (eprev e, enext e)) (cs' ! x) = map_option (\<lambda>e. (eprev e, enext e)) (cs ! x)"
    by simp
  with Cons show ?case by (cases "cs' ! x") auto
qed simp

lemma overwrite_stored:
  assumes ok: "table_ok t" and x: "x < length (cells t)" "cells t ! x = Some e" "ekey e = k"
  shows "stored t k v (t\<lparr>destroyed := destroyed t @ destroy_entry t e, cells := (cells t)[x := Some (e\<lparr>ekey := k, evalue := v\<rparr>)]\<rparr>)"
    (is "stored t k v ?t")
proof -
  let ?cs = "cells t" and ?n = "tab_size t"
  define cs' where "cs' = (cells t)[x := Some (e\<lparr>ekey := k, evalue := v\<rparr>)]"
  have lv: "live cs' = live ?cs" using x by (auto simp: live_def cs'_def nth_list_update)
  have sl: "slot cs' ?n y = slot ?cs ?n y" for y using x by (auto simp: slot_def cs'_def nth_list_update)
  have "linked cs' None p xs None" if "linked ?cs None p xs None" for p xs
    using x by (intro linked_links [OF that]) (auto simp: cs'_def nth_list_update)
  then have ch: "chained (live cs') cs' (tab t) ?n"
    using ok by (fastforce simp: table_ok_def chained_def lv sl)
  obtain us vs where c: "contents ?cs = us @ payload e # vs" "contents cs' = us @ (hash_key e, k, v) # vs"
    by (rule contents_update [OF x(1,2)]) (simp add: cs'_def payload_def)
  have nk: "k \<notin> fst ` set (map snd us)"
    using ok x(3) by (simp add: table_ok_def keys_ok_def c(1) payload_def image_image comp_def)
  have "table_map ?t = (table_map t)(k \<mapsto> v)"
    using map_of_mid_upd [OF nk, of v "map snd vs" "evalue e"] x(3) by (simp add: table_map_def c payload_def flip: cs'_def)
  moreover have "table_ok ?t"
    using ok ch x(3) unfolding table_ok_def keys_ok_def by (auto simp: c payload_def simp flip: cs'_def)
  ultimately show ?thesis
    using x(3) by (simp add: stored_def same_setup_def owned_keys_def owned_values_def c payload_def flip: cs'_def)
qed

lemma put_new_stored:
  assumes ok: "table_ok t" and k: "table_map t k = None"
  shows "\<exists>t'. put_new True t k v = Ret (0, t') \<and> stored t k v t'"
proof -
  let ?cs = "cells t" and ?n = "tab_size t" and ?x = "length (cells t)"
  define e where "e = \<lparr>hash_key = hash t k, ekey = k, evalue = v, eprev = None, enext = None\<rparr>"
  define cs1 where "cs1 = ?cs @ [Some e]"
  have ch: "chained (live ?cs) cs1 (tab t) ?n"
  proof (rule chained_frame)
    show "chained (live ?cs) ?cs (tab t) ?n" using ok by (simp add: table_ok_def)
  qed (auto simp: cs1_def live_def nth_append)
  have x: "?x \<in> live cs1" "?x \<notin> live ?cs" "cs1 ! ?x = Some e" by (auto simp: live_def cs1_def)
  have lv: "live cs1 = insert ?x (live ?cs)" by (auto simp: live_def cs1_def nth_append)
  have "slot cs1 ?n ?x < ?n" using ok by (simp add: slot_def table_ok_def)
  from push_front_chained [OF ch x(1,2) refl this x(3)] obtain tb cs2 where
    p: "push_front (slot cs1 ?n ?x) (tab t, cs1) ?x = Ret (tb, cs2)" "chained (live cs1) cs2 tb ?n" "payloads cs2 = payloads cs1"
    by (auto simp: e_def lv)
  have c: "contents cs2 = contents ?cs @ [(hash t k, k, v)]"
    using contents_payloads [OF p(3)] by (simp add: cs1_def e_def payload_def)
  let ?t = "t\<lparr>tab := tb, cells := cs2, nelem := nelem t + 1\<rparr>"
  have "put_new True t k v = Ret (0, ?t)"
    using p(1) x(3) ok
    by (simp add: put_new_def bucket_of_def slot_def table_ok_def Let_def flip: e_def cs1_def)
  moreover have "table_map ?t = (table_map t)(k \<mapsto> v)"
    using k by (auto simp: table_map_def c map_of_append map_add_def fun_eq_iff split: option.split)
  moreover have "table_ok ?t"
    using ok k p(2) live_payloads [OF p(3)] by (auto simp: table_ok_def keys_ok_def c table_map_None)
  ultimately show ?thesis
    by (simp add: stored_def same_setup_def owned_keys_def owned_values_def c)
qed

lemma put_ok:
  assumes ok: "table_ok t"
  shows "\<exists>rc t'. zc_hashtable_put mem1 mem2 t k v = Ret (rc, t')
    \<and> (rc = 0 \<and> stored t k v t' \<or> rc = -1 \<and> \<not> (mem1 \<and> mem2) \<and> unchanged t t')"
proof -
  obtain i h r where s: "bucket_of (hash t k) (tab_size t) = Ret i" "tab_at (tab t) i = Ret h"
      "find_in (length (cells t)) t k h = Ret r" "i = unat (hash t k) mod tab_size t" "i < tab_size t"
      and r: "case r of None \<Rightarrow> table_map t k = None | Some x \<Rightarrow> x \<in> live (cells t) \<and> ekey (the (cells t ! x)) = k"
    by (rule table_search [OF ok, of k])
  show ?thesis
  proof (cases r)
    case None
    with r have k: "table_map t k = None" by simp
    have same: "unchanged t t" using ok by (simp add: unchanged_def same_setup_def)
    have new: "\<exists>rc t'. put_new mem2 u k v = Ret (rc, t') \<and> (rc = 0 \<and> stored t k v t' \<or> rc = -1 \<and> \<not> mem2 \<and> unchanged t t')"
      if u: "table_ok u" "payloads (cells u) = payloads (cells t)" "same_setup t u" "destroyed u = destroyed t" for u
    proof -
      have eq: "contents (cells u) = contents (cells t)" using contents_payloads [OF u(2)] .
      then have "table_map u = table_map t" "owned_keys u = owned_keys t" "owned_values u = owned_values t"
        by (simp_all add: table_map_def owned_keys_def owned_values_def u(4))
      with put_new_stored [OF u(1), of k v] k u show ?thesis
        by (cases mem2) (auto simp: stored_def unchanged_def same_setup_def put_new_def)
    qed
    show ?thesis
    proof (cases "10 * nelem t > 13 * tab_size t")
      case True
      show ?thesis
      proof (cases mem1)
        case mem: True
        obtain u where u: "zc_hashtable_rehash True t = Ret (0, u)" "table_ok u" "payloads (cells u) = payloads (cells t)"
            "u = t\<lparr>tab := tab u, tab_size := 2 * tab_size t, cells := cells u\<rparr>"
          using rehash_ok [OF ok] by blast
        have "same_setup t u" "destroyed u = destroyed t" by (subst u(4), simp add: same_setup_def)+
        from new [OF u(2,3) this] show ?thesis
          using s None True mem u(1) by (auto simp: zc_hashtable_put_def)
      qed (use s None True same in \<open>simp add: zc_hashtable_put_def zc_hashtable_rehash_def\<close>)
    next
      case False
      from new [OF ok] False s None show ?thesis
        by (auto simp: zc_hashtable_put_def same_setup_def)
    qed
  next
    case (Some x)
    with r obtain e where e: "x < length (cells t)" "cells t ! x = Some e" "ekey e = k"
      by (auto simp: live_def)
    from overwrite_stored [OF ok e, of v] s Some e show ?thesis
      by (simp add: zc_hashtable_put_def entry_at_def)
  qed
qed

section \<open>Removing\<close>

lemma linked_set_next_last:
  assumes "linked cs pr p (ws @ [w]) q" "w \<notin> set ws"
  shows "linked (set_next w q' cs) pr p (ws @ [w]) q'"
proof -
  let ?pr = "if ws = [] then pr else Some (last ws)"
  obtain e where w: "linked cs pr p ws (Some w)" "w < length cs" "cs ! w = Some e" "eprev e = ?pr"
    using assms(1) by (auto simp: linked_append)
  have "linked (set_next w q' cs) pr p ws (Some w)"
  proof (rule linked_frame [OF w(1)])
    fix y assume "y \<in> set ws"
    with assms(2) have "y \<noteq> w" by auto
    then show "set_next w q' cs ! y = cs ! y" by simp
  qed simp
  with w(2-) show ?thesis unfolding linked_append by (intro exI [of _ "Some w"]) (simp add: set_links_same)
qed

definition unlink :: "nat \<Rightarrow> ('k, 'v) zc_hashtable_entry \<Rightarrow> nat option list \<times> ('k, 'v) cells \<Rightarrow> (nat option list \<times> ('k, 'v) cells) res" where
  "unlink n e tc = bnd (unlink_next e (snd tc)) (\<lambda>cs. unlink_prev n e (fst tc, cs))"

lemma unlink_next_linked:
  assumes "linked cs pr (enext e) zs None" "distinct zs"
  shows "\<exists>cs1. unlink_next e cs = Ret cs1 \<and> linked cs1 (eprev e) (enext e) zs None \<and> payloads cs1 = payloads cs
    \<and> (\<forall>y. y \<notin> set zs \<longrightarrow> cs1 ! y = cs ! y)"
proof (cases "enext e")
  case None
  with assms(1) have "zs = []" by (cases zs) auto
  with None show ?thesis by (simp add: unlink_next_def)
next
  case (Some q)
  have q: "q \<in> set zs" "q < length cs" "cs ! q \<noteq> None" using assms(1) Some linked_first by metis+
  have "linked (set_prev q (eprev e) cs) (eprev e) (Some q) zs None"
    using linked_set_prev_head assms Some by metis
  moreover have "\<forall>y. y \<notin> set zs \<longrightarrow> set_prev q (eprev e) cs ! y = cs ! y"
  proof (intro allI impI)
    fix y assume "y \<notin> set zs"
    with q(1) have "y \<noteq> q" by auto
    then show "set_prev q (eprev e) cs ! y = cs ! y" by simp
  qed
  ultimately show ?thesis using Some q by (auto simp: unlink_next_def entry_at_def)
qed

text \<open>One chain: taking \<open>x\<close> out of it leaves the rest of the chain linked.\<close>

lemma unlink_linked:
  assumes ch: "linked cs None (tb ! i) (ys @ x # zs) None" "distinct (ys @ x # zs)" and x: "cs ! x = Some e"
    and i: "i < length tb" "n \<noteq> 0" "i = unat (hash_key e) mod n"
  shows "\<exists>tb' cs'. unlink n e (tb, cs) = Ret (tb', cs') \<and> linked cs' None (tb' ! i) (ys @ zs) None \<and> payloads cs' = payloads cs
    \<and> (\<forall>y. y \<notin> set ys \<union> set zs \<longrightarrow> cs' ! y = cs ! y) \<and> length tb' = length tb \<and> (\<forall>j. j \<noteq> i \<longrightarrow> tb' ! j = tb ! j)"
proof -
  let ?pr = "if ys = [] then None else Some (last ys)"
  from ch(1) x have y: "linked cs None (tb ! i) ys (Some x)" and z: "eprev e = ?pr" "linked cs (Some x) (enext e) zs None"
    by (auto simp: linked_append)
  from unlink_next_linked [OF z(2)] ch(2) obtain cs1 where
    u: "unlink_next e cs = Ret cs1" "linked cs1 (eprev e) (enext e) zs None" "payloads cs1 = payloads cs"
      "\<forall>y. y \<notin> set zs \<longrightarrow> cs1 ! y = cs ! y" by auto
  have len1: "length cs \<le> length cs1" using payloads_length [OF u(3)] by simp
  have "linked cs1 None (tb ! i) ys (Some x)"
    by (rule linked_frame [OF y len1]) (use ch(2) u(4) in auto)
  show ?thesis
  proof (cases ys rule: rev_cases)
    case Nil
    with u z(1) i show ?thesis
      by (intro exI [of _ "tb[i := enext e]"] exI [of _ cs1]) (simp add: unlink_def unlink_prev_def bucket_of_def tab_at_def)
  next
    case (snoc ws w)
    define cs2 where "cs2 = set_next w (enext e) cs1"
    have w: "w \<notin> set ws" "w \<notin> set zs" using ch(2) snoc by auto
    have "linked cs2 None (tb ! i) (ws @ [w]) (enext e)"
      unfolding cs2_def using \<open>linked cs1 None (tb ! i) ys (Some x)\<close> snoc w(1) linked_set_next_last by metis
    moreover have "linked cs2 (Some w) (enext e) zs None"
    proof (rule linked_frame)
      show "linked cs1 (Some w) (enext e) zs None" using u(2) z(1) snoc by simp
      fix y assume "y \<in> set zs"
      with w have "y \<noteq> w" by auto
      then show "cs2 ! y = cs1 ! y" by (simp add: cs2_def)
    qed (simp add: cs2_def)
    ultimately have "linked cs2 None (tb ! i) (ys @ zs) None"
      using linked_append [of cs2 None "tb ! i" ys zs None] snoc by (auto intro!: exI [of _ "enext e"])
    moreover have "w < length cs1 \<and> cs1 ! w \<noteq> None"
      using \<open>linked cs1 None (tb ! i) ys (Some x)\<close> snoc by (auto simp: linked_append)
    then have "unlink n e (tb, cs) = Ret (tb, cs2)"
      using u(1) z(1) snoc by (auto simp: unlink_def unlink_prev_def entry_at_def cs2_def)
    moreover have "\<forall>y. y \<notin> set ys \<union> set zs \<longrightarrow> cs2 ! y = cs ! y"
      using u(4) snoc by (auto simp: cs2_def)
    ultimately show ?thesis using u(3) by (auto simp: cs2_def)
  qed
qed

lemma unlink_chained:
  assumes ch: "chained M cs tb n" and x: "x \<in> M" "cs ! x = Some e" and n: "0 < n"
  shows "\<exists>tb' cs'. unlink n e (tb, cs) = Ret (tb', cs') \<and> payloads cs' = payloads cs \<and> chained (M - {x}) cs' tb' n"
proof -
  define i where "i = slot cs n x"
  have i: "i < n" "i = unat (hash_key e) mod n" using n x by (auto simp: i_def slot_def)
  from ch i obtain xs where xs: "linked cs None (tb ! i) xs None" "distinct xs" "set xs = {x \<in> M. slot cs n x = i}"
    and tb: "length tb = n" "M \<subseteq> live cs"
    by (auto simp: chained_def)
  have "x \<in> set xs" using xs x i_def by auto
  then obtain ys zs where xss: "xs = ys @ x # zs" by (meson split_list)
  from unlink_linked [of cs tb i ys x zs e n] xs xss x i tb n obtain tb' cs' where
    u: "unlink n e (tb, cs) = Ret (tb', cs')" "linked cs' None (tb' ! i) (ys @ zs) None" "payloads cs' = payloads cs"
      "\<forall>y. y \<notin> set ys \<union> set zs \<longrightarrow> cs' ! y = cs ! y" "length tb' = length tb" "\<forall>j. j \<noteq> i \<longrightarrow> tb' ! j = tb ! j"
    by auto
  have sl: "slot cs' n y = slot cs n y" if "y \<in> M" for y
    using slot_payloads [OF u(3)] live_payloads [OF u(3)] tb that by blast
  have "chained (M - {x}) cs' tb' n"
    unfolding chained_def
  proof (intro conjI allI impI)
    show "length tb' = n" "M - {x} \<subseteq> live cs'" using tb u(5) live_payloads [OF u(3)] by auto
    fix j assume j: "j < n"
    show "\<exists>ws. linked cs' None (tb' ! j) ws None \<and> distinct ws \<and> set ws = {y \<in> M - {x}. slot cs' n y = j}"
    proof (cases "j = i")
      case True
      have "set (ys @ zs) = set xs - {x}" using xs(2) xss by auto
      with True u(2) xs xss sl show ?thesis by (intro exI [of _ "ys @ zs"]) auto
    next
      case False
      from ch j obtain ws where ws: "linked cs None (tb ! j) ws None" "distinct ws" "set ws = {y \<in> M. slot cs n y = j}"
        by (auto simp: chained_def)
      have "linked cs' None (tb ! j) ws None"
      proof (rule linked_frame [OF ws(1)])
        fix y assume "y \<in> set ws"
        then have "y \<notin> set xs" using ws xs False by auto
        then show "cs' ! y = cs ! y" using u(4) xss by auto
      qed (simp add: payloads_length [OF u(3)])
      with False ws sl u(6) i_def show ?thesis by (intro exI [of _ ws]) auto
    qed
  qed
  with u show ?thesis by blast
qed

definition removed :: "('k, 'v) zc_hashtable \<Rightarrow> 'k \<Rightarrow> ('k, 'v) zc_hashtable \<Rightarrow> bool" where
  "removed t k t' \<longleftrightarrow> table_ok t' \<and> same_setup t t' \<and> table_map t' = (table_map t)(k := None)
     \<and> (key_del t \<longrightarrow> owned_keys t' = owned_keys t) \<and> (value_del t \<longrightarrow> owned_values t' = owned_values t)"

lemma remove_ok:
  assumes ok: "table_ok t"
  shows "\<exists>t'. zc_hashtable_remove t k = Ret t' \<and> removed t k t'"
proof -
  obtain i h r where s: "bucket_of (hash t k) (tab_size t) = Ret i" "tab_at (tab t) i = Ret h"
      "find_in (length (cells t)) t k h = Ret r" "i = unat (hash t k) mod tab_size t" "i < tab_size t"
      and r: "case r of None \<Rightarrow> table_map t k = None | Some x \<Rightarrow> x \<in> live (cells t) \<and> ekey (the (cells t ! x)) = k"
    by (rule table_search [OF ok, of k])
  show ?thesis
  proof (cases r)
    case None
    with s r ok show ?thesis by (auto simp: zc_hashtable_remove_def removed_def same_setup_def)
  next
    case (Some x)
    with r obtain e where e: "x < length (cells t)" "cells t ! x = Some e" "ekey e = k" "x \<in> live (cells t)"
      by (auto simp: live_def)
    have "0 < tab_size t" "chained (live (cells t)) (cells t) (tab t) (tab_size t)" using ok by (simp_all add: table_ok_def)
    from unlink_chained [OF this(2) e(4,2) this(1)] obtain tb cs where
      u: "unlink (tab_size t) e (tab t, cells t) = Ret (tb, cs)" "payloads cs = payloads (cells t)"
        "chained (live (cells t) - {x}) cs tb (tab_size t)" by blast
    let ?t = "t\<lparr>destroyed := destroyed t @ destroy_entry t e, tab := tb, cells := cs[x := None], nelem := nelem t - 1\<rparr>"
    have run: "zc_hashtable_remove t k = Ret ?t"
      using s Some e u(1) by (auto simp: zc_hashtable_remove_def entry_at_def unlink_def)
    have lv: "live (cs[x := None]) = live (cells t) - {x}"
      using live_payloads [OF u(2)] by (simp add: live_free)
    have ch: "chained (live (cs[x := None])) (cs[x := None]) tb (tab_size t)"
      unfolding lv by (rule chained_frame [OF u(3)]) auto
    obtain e' where e': "x < length cs" "cs ! x = Some e'" "payload e' = payload e"
    proof (cases "cs ! x")
      case (Some a)
      then show ?thesis using that payloads_length [OF u(2)] payloads_nth [OF u(2), of x] e(1,2) by simp
    qed (use payloads_length [OF u(2)] payloads_nth [OF u(2), of x] e(1,2) in simp)
    obtain us vs where c: "contents (cells t) = us @ payload e # vs" "contents (cs[x := None]) = us @ vs"
      by (rule contents_update [OF e'(1,2)]) (simp add: contents_payloads [OF u(2)] e'(3))
    have nk: "k \<notin> fst ` set (map snd us)" "k \<notin> fst ` set (map snd vs)"
      using ok e(3) by (simp_all add: table_ok_def keys_ok_def c(1) payload_def image_image comp_def)
    have "table_map ?t = (table_map t)(k := None)"
      using map_of_mid_del [OF nk, of "evalue e"] e(3) by (simp add: table_map_def c payload_def)
    moreover have "table_ok ?t"
      using ok ch unfolding table_ok_def keys_ok_def by (auto simp: c)
    ultimately show ?thesis
      using run e(3) by (simp add: removed_def same_setup_def owned_keys_def owned_values_def c payload_def)
  qed
qed

section \<open>Emptying a table\<close>

definition freed :: "('k, 'v) zc_hashtable \<Rightarrow> nat set \<Rightarrow> ('k, 'v) zc_hashtable \<Rightarrow> bool" where
  "freed t S t' \<longleftrightarrow> t' = t\<lparr>destroyed := destroyed t', cells := cells t'\<rparr> \<and> length (cells t') = length (cells t)
     \<and> live (cells t') = live (cells t) - S \<and> (\<forall>y. y \<notin> S \<longrightarrow> cells t' ! y = cells t ! y)
     \<and> (key_del t \<longrightarrow> owned_keys t' = owned_keys t) \<and> (value_del t \<longrightarrow> owned_values t' = owned_values t)"

lemma freed_trans:
  assumes "freed t S u" "freed u S' t'"
  shows "freed t (S \<union> S') t'"
proof -
  have u: "key_del u = key_del t" "value_del u = value_del t"
    using assms(1) unfolding freed_def by (metis zc_hashtable.select_convs(6,7) zc_hashtable.surjective zc_hashtable.update_convs(8,9))+
  have "t' = t\<lparr>destroyed := destroyed t', cells := cells t'\<rparr>"
    using assms unfolding freed_def
    by (metis zc_hashtable.surjective zc_hashtable.update_convs(8,9))
  with assms u show ?thesis unfolding freed_def by auto
qed

lemma freed_entry:
  assumes "x < length (cells t)" "cells t ! x = Some e"
  shows "freed t {x} (t\<lparr>destroyed := destroyed t @ destroy_entry t e, cells := (cells t)[x := None]\<rparr>)"
proof -
  obtain us vs where "contents (cells t) = us @ payload e # vs" "contents ((cells t)[x := None]) = us @ vs"
    by (rule contents_update [OF assms])
  then show ?thesis
    by (simp add: freed_def live_free owned_keys_def owned_values_def payload_def)
qed

lemma free_chain_freed:
  assumes "linked (cells t) pr p xs None" "distinct xs" "length xs \<le> m"
  shows "\<exists>t'. free_chain m t p = Ret t' \<and> freed t (set xs) t'"
  using assms
proof (induction xs arbitrary: t pr p m)
  case (Cons x xs)
  then obtain e m' where e: "p = Some x" "x < length (cells t)" "cells t ! x = Some e" "linked (cells t) (Some x) (enext e) xs None"
      and m: "m = Suc m'" "length xs \<le> m'"
    by (cases m) auto
  let ?u = "t\<lparr>destroyed := destroyed t @ destroy_entry t e, cells := (cells t)[x := None]\<rparr>"
  have "linked (cells ?u) (Some x) (enext e) xs None"
    using Cons.prems(2) by (intro linked_frame [OF e(4)]) (simp, metis distinct.simps(2) nth_list_update_neq zc_hashtable.select_convs(8) zc_hashtable.surjective zc_hashtable.update_convs(8))
  from Cons.IH [OF this _ m(2)] Cons.prems(2) obtain t' where
    "free_chain m' ?u (enext e) = Ret t'" "freed ?u (set xs) t'" by auto
  with freed_trans [OF freed_entry [OF e(2,3)] this(2)] e m show ?case
    by (auto simp: entry_at_def)
qed (simp add: freed_def)

lemma free_tab_freed:
  assumes "\<forall>i < length ps. \<exists>xs. linked (cells t) None (ps ! i) xs None \<and> distinct xs \<and> set xs = S i"
    and "\<forall>i < length ps. \<forall>j < length ps. i \<noteq> j \<longrightarrow> S i \<inter> S j = {}"
  shows "\<exists>t'. free_tab ps t = Ret t' \<and> freed t (\<Union>i<length ps. S i) t'"
  using assms
proof (induction ps arbitrary: t S)
  case (Cons p ps)
  from Cons.prems(1) [rule_format, of 0] obtain xs where xs: "linked (cells t) None p xs None" "distinct xs" "set xs = S 0"
    by auto
  from free_chain_freed [OF xs(1,2) chain_short [OF xs(1,2)]] xs(3) obtain u where
    u: "free_chain (length (cells t)) t p = Ret u" "freed t (S 0) u" by auto
  have "\<exists>ys. linked (cells u) None (ps ! i) ys None \<and> distinct ys \<and> set ys = S (Suc i)" if i: "i < length ps" for i
  proof -
    obtain ys where ys: "linked (cells t) None (ps ! i) ys None" "distinct ys" "set ys = S (Suc i)"
      using Cons.prems(1) [rule_format, of "Suc i"] i by auto
    have "linked (cells u) None (ps ! i) ys None"
    proof (rule linked_frame [OF ys(1)])
      fix y assume "y \<in> set ys"
      then show "cells u ! y = cells t ! y"
        using u(2) Cons.prems(2) [rule_format, of "Suc i" 0] ys(3) i by (auto simp: freed_def)
    qed (use u(2) in \<open>simp add: freed_def\<close>)
    with ys show ?thesis by blast
  qed
  with Cons.IH [of u "\<lambda>i. S (Suc i)"] Cons.prems(2) obtain t' where
    t': "free_tab ps u = Ret t'" "freed u (\<Union>i<length ps. S (Suc i)) t'" by auto
  have "(\<Union>i<length (p # ps). S i) = S 0 \<union> (\<Union>i<length ps. S (Suc i))"
    by (simp add: lessThan_Suc_eq_insert_0)
  with freed_trans [OF u(2) t'(2)] u(1) t'(1) show ?case by simp
qed (simp add: freed_def)

lemma free_table:
  assumes ok: "table_ok t"
  shows "\<exists>t'. free_tab (tab t) t = Ret t' \<and> freed t (live (cells t)) t' \<and> contents (cells t') = []"
proof -
  let ?S = "\<lambda>i. {x \<in> live (cells t). slot (cells t) (tab_size t) x = i}"
  from ok have n: "0 < tab_size t" "length (tab t) = tab_size t" by (auto simp: table_ok_def chained_def)
  have "\<exists>t'. free_tab (tab t) t = Ret t' \<and> freed t (\<Union>i<length (tab t). ?S i) t'"
    using ok n by (intro free_tab_freed) (auto simp: table_ok_def chained_def)
  moreover have "(\<Union>i<length (tab t). ?S i) = live (cells t)" using n by (auto simp: slot_def)
  ultimately obtain t' where t': "free_tab (tab t) t = Ret t'" "freed t (live (cells t)) t'" by auto
  from t'(2) have "live (cells t') = {}" by (simp add: freed_def)
  then have "set (contents (cells t')) = {}" by (simp add: set_contents)
  with t' show ?thesis by auto
qed

lemma clean_ok:
  assumes ok: "table_ok t"
  shows "\<exists>t'. zc_hashtable_clean t = Ret t' \<and> table_ok t' \<and> same_setup t t' \<and> table_map t' = Map.empty
    \<and> (key_del t \<longrightarrow> owned_keys t' = owned_keys t) \<and> (value_del t \<longrightarrow> owned_values t' = owned_values t)"
proof -
  from ok have n: "0 < tab_size t" "length (tab t) = tab_size t" "equal_key t = (=)" by (auto simp: table_ok_def chained_def)
  obtain t' where t': "free_tab (tab t) t = Ret t'" "freed t (live (cells t)) t'" "contents (cells t') = []"
    using free_table [OF ok] by blast
  define cs ds where "cs = cells t'" and "ds = destroyed t'"
  have eq: "t' = t\<lparr>destroyed := ds, cells := cs\<rparr>" using t'(2) by (simp add: freed_def cs_def ds_def)
  have "live cs = {}" using t'(2) by (simp add: freed_def cs_def)
  then have "chained (live cs) cs (replicate (tab_size t) None) (tab_size t)" by (simp add: chained_empty)
  with n t'(1) show ?thesis
    using t'(2,3) unfolding freed_def eq
    by (simp add: zc_hashtable_clean_def table_ok_def same_setup_def keys_ok_def table_map_def owned_keys_def owned_values_def)
qed

section \<open>Iterating\<close>

definition first_of :: "nat list \<Rightarrow> nat option" where
  "first_of xs = (case xs of [] \<Rightarrow> None | x # _ \<Rightarrow> Some x)"

lemma first_of_simps [simp]: "first_of [] = None" "first_of (x # xs) = Some x" "first_of (xs @ ys) = (if xs = [] then first_of ys else first_of xs)"
  by (auto simp: first_of_def split: list.split)

definition chains :: "('k, 'v) zc_hashtable \<Rightarrow> (nat \<Rightarrow> nat list) \<Rightarrow> bool" where
  "chains t ch \<longleftrightarrow> length (tab t) = tab_size t \<and> 0 < tab_size t \<and> (\<forall>i < tab_size t. linked (cells t) None (tab t ! i) (ch i) None
     \<and> distinct (ch i) \<and> set (ch i) = {x \<in> live (cells t). slot (cells t) (tab_size t) x = i})"

definition rest_of :: "('k, 'v) zc_hashtable \<Rightarrow> (nat \<Rightarrow> nat list) \<Rightarrow> nat \<Rightarrow> nat list" where
  "rest_of t ch i = concat (map ch [i ..< tab_size t])"

lemma rest_of_step: "i < tab_size t \<Longrightarrow> rest_of t ch i = ch i @ rest_of t ch (Suc i)"
  by (simp add: rest_of_def upt_conv_Cons)

lemma rest_of_end: "tab_size t \<le> i \<Longrightarrow> rest_of t ch i = []"
  by (simp add: rest_of_def)

lemma table_chains: "table_ok t \<Longrightarrow> \<exists>ch. chains t ch"
  unfolding table_ok_def chained_def chains_def by (simp add: choice_iff')

lemma linked_first_of: "linked cs pr p xs None \<Longrightarrow> p = first_of xs"
  by (cases xs) auto

lemma chains_at:
  assumes "chains t ch" "i < tab_size t"
  shows "linked (cells t) None (tab t ! i) (ch i) None" "distinct (ch i)"
    "set (ch i) = {x \<in> live (cells t). slot (cells t) (tab_size t) x = i}" "tab_at (tab t) i = Ret (first_of (ch i))"
proof -
  show l: "linked (cells t) None (tab t ! i) (ch i) None" and "distinct (ch i)"
    "set (ch i) = {x \<in> live (cells t). slot (cells t) (tab_size t) x = i}" using assms by (simp_all add: chains_def)
  show "tab_at (tab t) i = Ret (first_of (ch i))" using linked_first_of [OF l] assms by (simp add: chains_def tab_at_def)
qed

lemma first_from_rest:
  assumes "chains t ch"
  shows "first_from t i = Ret (first_of (rest_of t ch i))"
proof (induction "tab_size t - i" arbitrary: i)
  case 0
  then show ?case by (simp add: first_from.simps [of t i] rest_of_end)
next
  case (Suc m)
  then have i: "i < tab_size t" and "first_from t (Suc i) = Ret (first_of (rest_of t ch (Suc i)))" by simp_all
  then show ?case
    by (cases "ch i") (simp_all add: first_from.simps [of t i] rest_of_step chains_at [OF assms])
qed

lemma foreach_from_rest:
  assumes ch: "chains t ch"
  shows "i < tab_size t \<Longrightarrow> ch i = ys @ zs \<Longrightarrow> length (zs @ rest_of t ch (Suc i)) \<le> m
    \<Longrightarrow> foreach_from m t (first_of (zs @ rest_of t ch (Suc i))) = Ret (zs @ rest_of t ch (Suc i))"
proof (induction "m + (tab_size t - i)" arbitrary: i ys zs m rule: less_induct)
  case less
  show ?case
  proof (cases zs)
    case Nil
    show ?thesis
    proof (cases "Suc i < tab_size t")
      case True
      with less.hyps [of m "Suc i" "[]" "ch (Suc i)"] less.prems Nil show ?thesis
        by (simp add: rest_of_step)
    qed (simp add: Nil rest_of_end)
  next
    case (Cons z zs')
    let ?L = "zs' @ rest_of t ch (Suc i)"
    from less.prems Cons obtain m' where m: "m = Suc m'" "length ?L \<le> m'" by (cases m) auto
    have "linked (cells t) None (tab t ! i) (ys @ z # zs') None" "z \<in> set (ch i)"
      using chains_at [OF ch less.prems(1)] less.prems(2) Cons by auto
    then obtain e where e: "z < length (cells t)" "cells t ! z = Some e" "linked (cells t) (Some z) (enext e) zs' None"
        "slot (cells t) (tab_size t) z = i"
      using chains_at(3) [OF ch less.prems(1)] by (auto simp: linked_append)
    have "zc_hashtable_next t z = Ret (first_of ?L)"
      using e linked_first_of [OF e(3)] ch
      by (cases zs') (auto simp: zc_hashtable_next_def entry_at_def bucket_of_def slot_def first_from_rest [OF ch] chains_def)
    moreover have "foreach_from m' t (first_of ?L) = Ret ?L"
      using less.hyps [of m' i "ys @ [z]" zs'] less.prems m Cons by simp
    ultimately show ?thesis using Cons m by simp
  qed
qed

lemma rest_of_all:
  assumes "chains t ch"
  shows "distinct (rest_of t ch 0)" "set (rest_of t ch 0) = live (cells t)"
proof -
  have n: "0 < tab_size t" using assms by (simp add: chains_def)
  show "set (rest_of t ch 0) = live (cells t)"
    using n by (auto simp: rest_of_def chains_at [OF assms] slot_def intro!: bexI)
  have "distinct (concat (map ch [i ..< tab_size t]))" for i
  proof (induction "tab_size t - i" arbitrary: i)
    case (Suc m)
    then have i: "i < tab_size t" "distinct (concat (map ch [Suc i ..< tab_size t]))" by auto
    have "set (ch i) \<inter> (\<Union>j \<in> {Suc i ..< tab_size t}. set (ch j)) = {}"
      using i(1) chains_at(3) [OF assms] by auto
    then show ?case using i chains_at(2) [OF assms i(1)] by (simp add: upt_conv_Cons [OF i(1)])
  qed simp
  then show "distinct (rest_of t ch 0)" by (simp add: rest_of_def)
qed

lemma foreach_ok:
  assumes "table_ok t"
  shows "\<exists>ps. zc_hashtable_foreach t = Ret ps \<and> distinct ps \<and> set ps = live (cells t)"
proof -
  obtain ch where ch: "chains t ch" using table_chains [OF assms] by blast
  then have n: "0 < tab_size t" by (simp add: chains_def)
  let ?R = "rest_of t ch 0"
  note all = rest_of_all [OF ch]
  have "length ?R = card (live (cells t))" using all distinct_card by metis
  then have "length ?R \<le> length (cells t)" using card_live by simp
  with foreach_from_rest [OF ch n, of "[]" "ch 0" "length (cells t)"] n
  have "foreach_from (length (cells t)) t (first_of ?R) = Ret ?R" by (simp add: rest_of_step)
  then have "zc_hashtable_foreach t = Ret ?R"
    by (simp add: zc_hashtable_foreach_def zc_hashtable_begin_def first_from_rest [OF ch])
  with all show ?thesis by blast
qed

section \<open>The interface\<close>

text \<open>What the clients of the table (the categories, the records, the diagnostic context of a thread) rely on.\<close>

datatype ('k, 'v) table_op = Get 'k | Put bool bool 'k 'v | Remove 'k | Clean

datatype 'v table_result = Found "'v option" | Code int | Done

text \<open>A client's calls, one after the other, and the answers it gets; then what a map answers to the same calls, where a \<open>put\<close> may be refused when memory is short.\<close>

fun run_ops :: "('t \<Rightarrow> 'k \<Rightarrow> 'v option res) \<Rightarrow> (bool \<Rightarrow> bool \<Rightarrow> 't \<Rightarrow> 'k \<Rightarrow> 'v \<Rightarrow> (int \<times> 't) res) \<Rightarrow> ('t \<Rightarrow> 'k \<Rightarrow> 't res) \<Rightarrow> ('t \<Rightarrow> 't res)
    \<Rightarrow> ('k, 'v) table_op list \<Rightarrow> 't \<Rightarrow> ('v table_result list \<times> 't) res" where
  "run_ops g p r c [] t = Ret ([], t)"
| "run_ops g p r c (Get k # ops) t =
     bnd (g t k) (\<lambda>x. bnd (run_ops g p r c ops t) (\<lambda>(rs, t'). Ret (Found x # rs, t')))"
| "run_ops g p r c (Put mem1 mem2 k v # ops) t =
     bnd (p mem1 mem2 t k v) (\<lambda>(rc, t1). bnd (run_ops g p r c ops t1) (\<lambda>(rs, t'). Ret (Code rc # rs, t')))"
| "run_ops g p r c (Remove k # ops) t =
     bnd (r t k) (\<lambda>t1. bnd (run_ops g p r c ops t1) (\<lambda>(rs, t'). Ret (Done # rs, t')))"
| "run_ops g p r c (Clean # ops) t =
     bnd (c t) (\<lambda>t1. bnd (run_ops g p r c ops t1) (\<lambda>(rs, t'). Ret (Done # rs, t')))"

inductive map_answers :: "('k, 'v) table_op list \<Rightarrow> 'v table_result list \<Rightarrow> ('k \<rightharpoonup> 'v) \<Rightarrow> ('k \<rightharpoonup> 'v) \<Rightarrow> bool" where
  answers_none: "map_answers [] [] m m"
| answers_get: "map_answers ops rs m m' \<Longrightarrow> map_answers (Get k # ops) (Found (m k) # rs) m m'"
| answers_put: "map_answers ops rs (m(k \<mapsto> v)) m' \<Longrightarrow> map_answers (Put mem1 mem2 k v # ops) (Code 0 # rs) m m'"
| answers_refused: "map_answers ops rs m m' \<Longrightarrow> \<not> (mem1 \<and> mem2) \<Longrightarrow> map_answers (Put mem1 mem2 k v # ops) (Code (-1) # rs) m m'"
| answers_remove: "map_answers ops rs (m(k := None)) m' \<Longrightarrow> map_answers (Remove k # ops) (Done # rs) m m'"
| answers_clean: "map_answers ops rs Map.empty m' \<Longrightarrow> map_answers (Clean # ops) (Done # rs) m m'"

lemmas map_answers_intros = answers_none answers_get answers_put answers_refused answers_remove answers_clean

text \<open>What the client handed over: the pairs of the calls of \<open>put\<close> that returned 0.\<close>

fun accepted :: "('k, 'v) table_op list \<Rightarrow> 'v table_result list \<Rightarrow> ('k \<times> 'v) list" where
  "accepted (Put mem1 mem2 k v # ops) (Code rc # rs) = (if rc = 0 then (k, v) # accepted ops rs else accepted ops rs)"
| "accepted (op # ops) (r # rs) = accepted ops rs"
| "accepted ops rs = []"

locale key_value_table =
  fixes ok :: "'t \<Rightarrow> bool" and view :: "'t \<Rightarrow> 'k \<rightharpoonup> 'v"
    and get :: "'t \<Rightarrow> 'k \<Rightarrow> 'v option res" and put :: "bool \<Rightarrow> bool \<Rightarrow> 't \<Rightarrow> 'k \<Rightarrow> 'v \<Rightarrow> (int \<times> 't) res"
    and remove :: "'t \<Rightarrow> 'k \<Rightarrow> 't res" and clean :: "'t \<Rightarrow> 't res"
  assumes get: "ok t \<Longrightarrow> get t k = Ret (view t k)"
    and put: "ok t \<Longrightarrow> \<exists>rc t'. put mem1 mem2 t k v = Ret (rc, t') \<and> ok t'
      \<and> (rc = 0 \<and> view t' = (view t)(k \<mapsto> v) \<or> rc = -1 \<and> \<not> (mem1 \<and> mem2) \<and> view t' = view t)"
    and remove: "ok t \<Longrightarrow> \<exists>t'. remove t k = Ret t' \<and> ok t' \<and> view t' = (view t)(k := None)"
    and clean: "ok t \<Longrightarrow> \<exists>t'. clean t = Ret t' \<and> ok t' \<and> view t' = Map.empty"
begin

lemma run_as_map:
  "ok t \<Longrightarrow> \<exists>rs t'. run_ops get put remove clean ops t = Ret (rs, t') \<and> ok t' \<and> map_answers ops rs (view t) (view t')"
proof (induction ops arbitrary: t)
  case (Cons op ops)
  show ?case
  proof (cases op)
    case (Get k)
    with Cons.IH [OF Cons.prems] Cons.prems show ?thesis by (auto simp: get intro: map_answers_intros)
  next
    case (Put mem1 mem2 k v)
    from put [OF Cons.prems, of mem1 mem2 k v] obtain rc u where
      u: "put mem1 mem2 t k v = Ret (rc, u)" "ok u"
        "rc = 0 \<and> view u = (view t)(k \<mapsto> v) \<or> rc = -1 \<and> \<not> (mem1 \<and> mem2) \<and> view u = view t" by blast
    from Cons.IH [OF u(2)] obtain rs t' where
      r: "run_ops get put remove clean ops u = Ret (rs, t')" "ok t'" "map_answers ops rs (view u) (view t')" by blast
    have "map_answers (op # ops) (Code rc # rs) (view t) (view t')"
      using u(3) r(3) unfolding Put by (metis answers_put answers_refused)
    with Put u(1) r(1,2) show ?thesis by simp
  next
    case (Remove k)
    from remove [OF Cons.prems, of k] obtain u where "remove t k = Ret u" "ok u" "view u = (view t)(k := None)" by blast
    with Remove Cons.IH [of u] show ?thesis by (auto simp del: fun_upd_apply intro: map_answers_intros)
  next
    case Clean
    from clean [OF Cons.prems] obtain u where "clean t = Ret u" "ok u" "view u = Map.empty" by blast
    with Clean Cons.IH [of u] show ?thesis by (auto intro: map_answers_intros)
  qed
qed (auto intro: map_answers_intros)

lemma step_ok:
  "ok t \<Longrightarrow> put mem1 mem2 t k v = Ret (rc, t') \<Longrightarrow> ok t'"
  "ok t \<Longrightarrow> remove t k = Ret t' \<Longrightarrow> ok t'"
  "ok t \<Longrightarrow> clean t = Ret t' \<Longrightarrow> ok t'"
  using put [of t mem1 mem2 k v] remove [of t k] clean [of t] by auto

end

text \<open>A table with a destructor: what it owns is what it was given, until the end.\<close>

locale owning_table = key_value_table +
  fixes owned :: "'a \<Rightarrow> 'd multiset" and item :: "'b \<Rightarrow> 'c \<Rightarrow> 'd"
  assumes put_owned: "ok t \<Longrightarrow> put mem1 mem2 t k v = Ret (rc, t') \<Longrightarrow> owned t' = (if rc = 0 then add_mset (item k v) (owned t) else owned t)"
    and remove_owned: "ok t \<Longrightarrow> remove t k = Ret t' \<Longrightarrow> owned t' = owned t"
    and clean_owned: "ok t \<Longrightarrow> clean t = Ret t' \<Longrightarrow> owned t' = owned t"
begin

lemma run_owned:
  "ok t \<Longrightarrow> run_ops get put remove clean ops t = Ret (rs, t') \<Longrightarrow> ok t' \<and> owned t' = owned t + mset (map (\<lambda>(k, v). item k v) (accepted ops rs))"
proof (induction ops arbitrary: t rs)
  case (Cons op ops)
  show ?case
  proof (cases op)
    case (Put mem1 mem2 k v)
    with Cons.prems(2) obtain rc u rs' where u: "put mem1 mem2 t k v = Ret (rc, u)"
        "run_ops get put remove clean ops u = Ret (rs', t')" "rs = Code rc # rs'"
      by auto
    from Cons.IH [OF step_ok(1) [OF Cons.prems(1) u(1)] u(2)] put_owned [OF Cons.prems(1) u(1)] Put u(3) show ?thesis
      by simp
  next
    case (Remove k)
    with Cons.prems(2) obtain u rs' where u: "remove t k = Ret u" "run_ops get put remove clean ops u = Ret (rs', t')" "rs = Done # rs'"
      by auto
    from Cons.IH [OF step_ok(2) [OF Cons.prems(1) u(1)] u(2)] remove_owned [OF Cons.prems(1) u(1)] Remove u(3) show ?thesis
      by simp
  next
    case Clean
    with Cons.prems(2) obtain u rs' where u: "clean t = Ret u" "run_ops get put remove clean ops u = Ret (rs', t')" "rs = Done # rs'"
      by auto
    from Cons.IH [OF step_ok(3) [OF Cons.prems(1) u(1)] u(2)] clean_owned [OF Cons.prems(1) u(1)] Clean u(3) show ?thesis
      by simp
  next
    case (Get k)
    with Cons show ?thesis by (auto simp: get)
  qed
qed simp

end

lemmas table_effects = stored_def unchanged_def removed_def same_setup_def

interpretation table: key_value_table table_ok table_map zc_hashtable_get zc_hashtable_put zc_hashtable_remove zc_hashtable_clean
proof (unfold_locales, goal_cases)
  case (2 t mem1 mem2 k v)
  with put_ok [of t mem1 mem2 k v] show ?case by (auto simp: table_effects)
next
  case (3 t k)
  with remove_ok [of t k] show ?case by (auto simp: table_effects)
next
  case (4 t)
  with clean_ok [of t] show ?case by (auto simp: table_effects)
qed (simp add: get_table_map)

text \<open>The same table with the destructors set.\<close>

interpretation table_keys: owning_table "\<lambda>t. table_ok t \<and> key_del t" table_map zc_hashtable_get zc_hashtable_put
  zc_hashtable_remove zc_hashtable_clean owned_keys "\<lambda>k v. k"
proof (unfold_locales, goal_cases)
  case (2 t mem1 mem2 k v)
  with put_ok [of t mem1 mem2 k v] show ?case by (auto simp: table_effects)
next
  case (3 t k)
  with remove_ok [of t k] show ?case by (auto simp: table_effects)
next
  case (4 t)
  with clean_ok [of t] show ?case by (auto simp: table_effects)
next
  case (5 t mem1 mem2 k v rc t')
  with put_ok [of t mem1 mem2 k v] show ?case by (auto simp: table_effects)
next
  case (6 t k t')
  with remove_ok [of t k] show ?case by (auto simp: table_effects)
next
  case (7 t t')
  with clean_ok [of t] show ?case by (auto simp: table_effects)
qed (simp add: get_table_map)

interpretation table_values: owning_table "\<lambda>t. table_ok t \<and> value_del t" table_map zc_hashtable_get zc_hashtable_put
  zc_hashtable_remove zc_hashtable_clean owned_values "\<lambda>k v. v"
proof (unfold_locales, goal_cases)
  case (2 t mem1 mem2 k v)
  with put_ok [of t mem1 mem2 k v] show ?case by (auto simp: table_effects)
next
  case (3 t k)
  with remove_ok [of t k] show ?case by (auto simp: table_effects)
next
  case (4 t)
  with clean_ok [of t] show ?case by (auto simp: table_effects)
next
  case (5 t mem1 mem2 k v rc t')
  with put_ok [of t mem1 mem2 k v] show ?case by (auto simp: table_effects)
next
  case (6 t k t')
  with remove_ok [of t k] show ?case by (auto simp: table_effects)
next
  case (7 t t')
  with clean_ok [of t] show ?case by (auto simp: table_effects)
qed (simp add: get_table_map)

section \<open>The properties\<close>

lemma new_table_ok:
  assumes "zc_hashtable_new True True n hs (=) kd vd = Some t" "0 < n"
  shows "table_ok t" "table_map t = Map.empty" "owned_keys t = {#}" "owned_values t = {#}" "key_del t = kd" "value_del t = vd"
proof -
  have t: "t = \<lparr>nelem = 0, tab = replicate n None, tab_size = n, hash = hs, equal_key = (=), key_del = kd, value_del = vd, cells = [], destroyed = []\<rparr>"
    using assms(1) by (simp add: zc_hashtable_new_def)
  have "live (cells t) = {}" by (simp add: live_def t)
  with assms(2) show "table_ok t" using chained_empty [of "cells t" n] by (simp add: t table_ok_def keys_ok_def)
qed (use assms(1) in \<open>auto simp: zc_hashtable_new_def table_map_def owned_keys_def owned_values_def\<close>)

lemma str_equal_eq: "zc_hashtable_str_equal = (=)"
  by (simp add: fun_eq_iff zc_hashtable_str_equal_def)

lemma new_str_table: "zc_hashtable_new True True n hs zc_hashtable_str_equal kd vd = zc_hashtable_new True True n hs (=) kd vd"
  by (simp add: str_equal_eq)

text \<open>C10: A table of strings made with room for at least one bucket answers every sequence of \<open>get\<close>, \<open>put\<close>, \<open>remove\<close> and \<open>clean\<close> the way a finite map does: no
  call crashes or runs forever, a \<open>get\<close> finds what the last \<open>put\<close> of its key stored and nothing after a \<open>remove\<close> or a \<open>clean\<close>, rehashing on the way changes
  nothing, and a \<open>put\<close> fails only when memory is short and then leaves the map as it was.\<close>

theorem hashtable_refines_map:
  assumes "0 < n" "zc_hashtable_new True True n zc_hashtable_str_hash zc_hashtable_str_equal kd vd = Some t"
  shows "\<exists>rs t'. run_ops zc_hashtable_get zc_hashtable_put zc_hashtable_remove zc_hashtable_clean ops t = Ret (rs, t')
    \<and> map_answers ops rs Map.empty (table_map t') \<and> (\<forall>k. zc_hashtable_get t' k = Ret (table_map t' k))"
proof -
  note new = new_table_ok [OF assms(2) [unfolded new_str_table] assms(1)]
  from table.run_as_map [OF new(1), of ops] new(2) get_table_map show ?thesis by fastforce
qed

theorem hashtable_refines_map_witness:
  "\<exists>rs t'. run_ops zc_hashtable_get zc_hashtable_put zc_hashtable_remove zc_hashtable_clean
      [Put True True ''a'' (1 :: nat), Put True True ''b'' 2, Remove ''a'', Get ''b'']
      (the (zc_hashtable_new True True 1 zc_hashtable_str_hash zc_hashtable_str_equal True True)) = Ret (rs, t')
    \<and> map_answers [Put True True ''a'' (1 :: nat), Put True True ''b'' 2, Remove ''a'', Get ''b''] rs Map.empty (table_map t')"
  using hashtable_refines_map [of 1 True True "the (zc_hashtable_new True True 1 zc_hashtable_str_hash zc_hashtable_str_equal True True)"
    "[Put True True ''a'' (1 :: nat), Put True True ''b'' 2, Remove ''a'', Get ''b'']"]
  by (auto simp: zc_hashtable_new_def)

lemma live_key_unique:
  assumes "keys_ok hs (contents cs)" "x \<in> live cs" "y \<in> live cs" "ekey (the (cs ! x)) = ekey (the (cs ! y))"
  shows "x = y"
proof (rule ccontr)
  assume "x \<noteq> y"
  obtain e e' where e: "x < length cs" "cs ! x = Some e" and e': "y < length cs" "cs ! y = Some e'"
    using assms(2,3) live_entry by metis
  obtain us vs where c: "contents cs = us @ payload e # vs" "contents (cs[x := None]) = us @ vs"
    by (rule contents_update [OF e])
  have "y \<in> live (cs[x := None])" "cs[x := None] ! y = Some e'" using assms(3) e' \<open>x \<noteq> y\<close> by (auto simp: live_free)
  from live_in_contents [OF this] have "payload e' \<in> set (us @ vs)" by (simp add: c(2))
  then have "ekey e' \<in> (fst \<circ> snd) ` set (us @ vs)" by (force simp: payload_def)
  with assms(1,4) e e' show False by (auto simp: keys_ok_def c(1) payload_def)
qed

text \<open>C37: \<open>zc_hashtable_foreach\<close> runs its body once for every pair of the map and for nothing else, and the iteration ends.\<close>

theorem hashtable_foreach_complete:
  assumes ok: "table_ok t"
  shows "\<exists>ps. zc_hashtable_foreach t = Ret ps \<and> distinct ps \<and> card (dom (table_map t)) = length ps
    \<and> (\<forall>p \<in> set ps. \<exists>e. entry_at (cells t) p = Ret e \<and> table_map t (ekey e) = Some (evalue e))"
proof -
  have k: "keys_ok (hash t) (contents (cells t))" using ok by (simp add: table_ok_def)
  obtain ps where ps: "zc_hashtable_foreach t = Ret ps" "distinct ps" "set ps = live (cells t)"
    using foreach_ok [OF ok] by blast
  have "dom (table_map t) = (\<lambda>p. ekey (the (cells t ! p))) ` set ps"
    by (auto simp: dom_def table_map_Some [OF k] set_contents ps(3) payload_def image_iff)
  moreover have "inj_on (\<lambda>p. ekey (the (cells t ! p))) (set ps)"
    using live_key_unique [OF k] ps(3) by (auto intro: inj_onI)
  ultimately have "card (dom (table_map t)) = length ps" using ps(2) by (simp add: card_image distinct_card)
  moreover have "\<exists>e. entry_at (cells t) p = Ret e \<and> table_map t (ekey e) = Some (evalue e)" if p: "p \<in> set ps" for p
  proof -
    from p ps(3) obtain e where e: "p < length (cells t)" "cells t ! p = Some e" using live_entry by metis
    have "payload e \<in> set (contents (cells t))" using live_in_contents p ps(3) e(2) by metis
    with e show ?thesis by (auto simp: table_map_Some [OF k] payload_def)
  qed
  ultimately show ?thesis using ps by blast
qed

definition sample_table :: "(string, nat) zc_hashtable" where
  "sample_table = the (zc_hashtable_new True True 2 zc_hashtable_str_hash zc_hashtable_str_equal True True)"

lemma sample_table_ok: "table_ok sample_table"
  by (rule new_table_ok(1) [of 2 zc_hashtable_str_hash True True])
    (simp_all add: sample_table_def zc_hashtable_new_def zc_hashtable_str_equal_def fun_eq_iff)

theorem hashtable_foreach_complete_witness:
  "\<exists>t ps. zc_hashtable_put True True sample_table ''a'' 7 = Ret (0, t) \<and> zc_hashtable_foreach t = Ret ps
     \<and> card (dom (table_map t)) = length ps"
proof -
  obtain t where "zc_hashtable_put True True sample_table ''a'' 7 = Ret (0, t)" "table_ok t"
    using put_ok [OF sample_table_ok, of True True "''a''" 7] by (auto simp: stored_def)
  with hashtable_foreach_complete [of t] show ?thesis by blast
qed

text \<open>C36: With destructors set, every key and every value that a \<open>put\<close> accepted is handed to its destructor exactly once by the time \<open>zc_hashtable_del\<close>
  returns, whatever calls came between, and no entry is left allocated.\<close>

theorem hashtable_deletes_once:
  assumes "0 < n" "zc_hashtable_new True True n zc_hashtable_str_hash zc_hashtable_str_equal True True = Some t"
    and run: "run_ops zc_hashtable_get zc_hashtable_put zc_hashtable_remove zc_hashtable_clean ops t = Ret (rs, t')"
  shows "\<exists>cs ds. zc_hashtable_del t' = Ret (cs, ds) \<and> live cs = {}
    \<and> mset (key_dels ds) = mset (map fst (accepted ops rs)) \<and> mset (value_dels ds) = mset (map snd (accepted ops rs))"
proof -
  note new = new_table_ok [OF assms(2) [unfolded new_str_table] assms(1)]
  have k: "table_ok t' \<and> key_del t'" "owned_keys t' = mset (map fst (accepted ops rs))"
    using table_keys.run_owned [OF _ run] new by (simp_all add: case_prod_unfold)
  have v: "table_ok t' \<and> value_del t'" "owned_values t' = mset (map snd (accepted ops rs))"
    using table_values.run_owned [OF _ run] new by (simp_all add: case_prod_unfold)
  obtain u where u: "free_tab (tab t') t' = Ret u" "freed t' (live (cells t')) u" "contents (cells u) = []"
    using free_table k(1) by blast
  have "length (tab t') = tab_size t'" using k(1) by (simp add: table_ok_def chained_def)
  with u k v show ?thesis
    by (simp add: zc_hashtable_del_def freed_def owned_keys_def owned_values_def)
qed

theorem hashtable_deletes_once_witness:
  "\<exists>rs t' cs ds. run_ops zc_hashtable_get zc_hashtable_put zc_hashtable_remove zc_hashtable_clean
      [Put True True ''a'' 7, Put True True ''a'' 8, Remove ''a''] sample_table = Ret (rs, t')
    \<and> zc_hashtable_del t' = Ret (cs, ds) \<and> mset (value_dels ds) = mset (map snd (accepted [Put True True ''a'' 7, Put True True ''a'' 8, Remove ''a''] rs))"
proof -
  let ?ops = "[Put True True ''a'' 7, Put True True ''a'' 8, Remove ''a''] :: (string, nat) table_op list"
  have new: "zc_hashtable_new True True 2 zc_hashtable_str_hash zc_hashtable_str_equal True True = Some sample_table"
    by (simp add: sample_table_def zc_hashtable_new_def)
  obtain rs t' where "run_ops zc_hashtable_get zc_hashtable_put zc_hashtable_remove zc_hashtable_clean ?ops sample_table = Ret (rs, t')"
    using table.run_as_map [OF sample_table_ok, of ?ops] by blast
  with hashtable_deletes_once [OF _ new this] show ?thesis by auto
qed

end
