(* ===== verification/Zlog_Message.thy ===== *)
theory Zlog_Message
  imports Zlog_Pattern Zc_Hashtable_Map
begin

text \<open>
  What a format prints: the abstract text of a specifier, without caches, buffers and limits, and the proof that the code, with all of them, prints it.
\<close>

section \<open>The text of a specifier\<close>

definition usr_text :: "'tm zlog_event \<Rightarrow> string" where
  "usr_text ev =
     (case generate_cmd ev of
        ZLOG_FMT None \<Rightarrow> ''format=(null)''
      | ZLOG_FMT (Some printed) \<Rightarrow> (case printed of Some s \<Rightarrow> s | None \<Rightarrow> [])
      | ZLOG_HEX None \<Rightarrow> ''buf=(null)''
      | ZLOG_HEX (Some bytes) \<Rightarrow> ZLOG_HEX_HEAD @ concat (map printed_by (hex_lines bytes 0)))"

definition spec_text :: "'tm log_env \<Rightarrow> zlog_levels \<Rightarrow> zlog_mdc \<Rightarrow> 'tm zlog_event \<Rightarrow> zlog_spec \<Rightarrow> string" where
  "spec_text env levels mdc ev sp =
     (case write_fn sp of
        Write_Time \<Rightarrow> strftime env (time_fmt sp) (localtime env (fst (gettimeofday env)))
      | Write_Ms \<Rightarrow> zero_pad 3 (show_nat (nat (snd (gettimeofday env)) div 1000))
      | Write_Us \<Rightarrow> zero_pad 6 (show_nat (nat (snd (gettimeofday env))))
      | Write_Mdc \<Rightarrow> (case table_map mdc (mdc_key sp) of None \<Rightarrow> [] | Some kv \<Rightarrow> mdc_kv_value kv)
      | Write_Str \<Rightarrow> take (spec_len sp) (spec_str sp)
      | Write_Category \<Rightarrow> category_name ev
      | Write_Srcfile \<Rightarrow> (case event_file ev of None \<Rightarrow> ''(file=null)'' | Some f \<Rightarrow> f)
      | Write_Srcfile_Neat \<Rightarrow> (case event_file ev of None \<Rightarrow> [] | Some f \<Rightarrow> after_slash f)
      | Write_Srcline \<Rightarrow> show_nat (nat (event_line ev mod 2 ^ 64))
      | Write_Srcfunc \<Rightarrow> (case event_file ev of None \<Rightarrow> ''(func=null)'' | Some _ \<Rightarrow> the (event_func ev))
      | Write_Hostname \<Rightarrow> host_name ev
      | Write_Newline \<Rightarrow> [LF]
      | Write_Percent \<Rightarrow> ''%''
      | Write_Pid \<Rightarrow> show_nat (nat (getpid env))
      | Write_Tid_Hex \<Rightarrow> tid_hex_str ev
      | Write_Tid_Long \<Rightarrow> tid_str ev
      | Write_Level_Lowercase \<Rightarrow> (case zlog_level_list_get levels (event_level ev) of Ret (Some lv) \<Rightarrow> take (str_len lv) (str_lowercase lv) | _ \<Rightarrow> [])
      | Write_Level_Uppercase \<Rightarrow> (case zlog_level_list_get levels (event_level ev) of Ret (Some lv) \<Rightarrow> take (str_len lv) (str_uppercase lv) | _ \<Rightarrow> [])
      | Write_Usrmsg \<Rightarrow> usr_text ev)"

text \<open>What a specifier needs: a time cache of its own, a level that is not negative, a file, a function, a text.\<close>

definition spec_ok :: "string list \<Rightarrow> zlog_levels \<Rightarrow> zlog_mdc \<Rightarrow> 'tm zlog_event \<Rightarrow> zlog_spec \<Rightarrow> bool" where
  "spec_ok fmts levels mdc ev sp \<longleftrightarrow>
     (case write_fn sp of
        Write_Time \<Rightarrow> time_cache_index sp < length fmts \<and> fmts ! time_cache_index sp = time_fmt sp
      | Write_Mdc \<Rightarrow> table_ok mdc \<and> (\<forall>kv. table_map mdc (mdc_key sp) = Some kv \<longrightarrow> value_len kv = length (mdc_kv_value kv) \<and> value_len kv \<le> MAXLEN_PATH)
      | Write_Srcfile_Neat \<Rightarrow> event_file ev \<noteq> None
      | Write_Srcfunc \<Rightarrow> event_file ev = None \<or> event_func ev \<noteq> None
      | Write_Level_Lowercase \<Rightarrow> levels_ok levels \<and> 0 \<le> event_level ev
      | Write_Level_Uppercase \<Rightarrow> levels_ok levels \<and> 0 \<le> event_level ev
      | Write_Usrmsg \<Rightarrow> generate_cmd ev \<noteq> ZLOG_FMT (Some None)
      | _ \<Rightarrow> True)"

section \<open>The caches of an event\<close>

definition log_env_ok :: "'tm log_env \<Rightarrow> bool" where
  "log_env_ok env \<longleftrightarrow> 0 < fst (gettimeofday env) \<and> 0 \<le> snd (gettimeofday env) \<and> snd (gettimeofday env) < 1000000 \<and> 0 < getpid env"

text \<open>A cached time or process number is the one it was made for; 0 stands for nothing cached.\<close>

definition caches_ok :: "'tm log_env \<Rightarrow> string list \<Rightarrow> 'tm zlog_event \<Rightarrow> bool" where
  "caches_ok env fmts ev \<longleftrightarrow> length (time_caches ev) = length fmts
     \<and> (time_local_sec ev = 0 \<or> time_local ev = localtime env (time_local_sec ev))
     \<and> (\<forall>i < length fmts. cache_sec (time_caches ev ! i) = 0
          \<or> cache_str (time_caches ev ! i) = strftime env (fmts ! i) (localtime env (cache_sec (time_caches ev ! i))))
     \<and> (last_pid ev = 0 \<or> pid_str ev = show_nat (nat (last_pid ev)))"

text \<open>During one message the time and the process number are fetched at most once.\<close>

definition event_ok :: "'tm log_env \<Rightarrow> string list \<Rightarrow> 'tm zlog_event \<Rightarrow> bool" where
  "event_ok env fmts ev \<longleftrightarrow> caches_ok env fmts ev \<and> (tv_sec ev = 0 \<or> (tv_sec ev, tv_usec ev) = gettimeofday env)
     \<and> (event_pid ev = 0 \<or> event_pid ev = getpid env \<and> last_pid ev = getpid env)"

definition same_event :: "'tm zlog_event \<Rightarrow> 'tm zlog_event \<Rightarrow> bool" where
  "same_event ev ev' \<longleftrightarrow> category_name ev' = category_name ev \<and> host_name ev' = host_name ev \<and> event_file ev' = event_file ev
     \<and> event_func ev' = event_func ev \<and> event_line ev' = event_line ev \<and> event_level ev' = event_level ev
     \<and> generate_cmd ev' = generate_cmd ev \<and> tid_str ev' = tid_str ev \<and> tid_hex_str ev' = tid_hex_str ev"

definition prints :: "'tm log_env \<Rightarrow> string list \<Rightarrow> 'tm zlog_event \<Rightarrow> string \<Rightarrow> ('tm zlog_event \<times> buf_op list) res \<Rightarrow> bool" where
  "prints env fmts ev t r \<longleftrightarrow> (\<exists>ev' ops. r = Ret (ev', ops) \<and> event_ok env fmts ev' \<and> same_event ev ev'
     \<and> concat (map printed_by ops) = t \<and> (\<forall>op \<in> set ops. good_op op))"

lemma printsI:
  "event_ok env fmts ev' \<Longrightarrow> same_event ev ev' \<Longrightarrow> concat (map printed_by ops) = t \<Longrightarrow> \<forall>op \<in> set ops. good_op op
    \<Longrightarrow> prints env fmts ev t (Ret (ev', ops))"
  by (auto simp: prints_def)

lemma same_event_refl [simp]: "same_event ev ev"
  by (simp add: same_event_def)

lemma good_ops [simp]: "good_op (Append s)" "good_op (Dec32 v w)" "good_op (Dec64 u w)" "good_op (Hex v w)" "good_op (Printf (Some s))"
  by (simp_all add: good_op_def)

lemma stamp_ok:
  assumes "event_ok env fmts ev" "log_env_ok env"
  shows "event_ok env fmts (stamp env ev)" "same_event ev (stamp env ev)" "tv_sec (stamp env ev) = fst (gettimeofday env)"
    "tv_usec (stamp env ev) = snd (gettimeofday env)"
  using assms by (auto simp: stamp_def event_ok_def caches_ok_def same_event_def log_env_ok_def prod_eq_iff)

lemma write_time_prints:
  assumes ev: "event_ok env fmts ev" and env: "log_env_ok env" and i: "time_cache_index sp < length fmts" "fmts ! time_cache_index sp = time_fmt sp"
  shows "prints env fmts ev (strftime env (time_fmt sp) (localtime env (fst (gettimeofday env)))) (zlog_spec_write_time env sp ev)"
proof -
  let ?now = "fst (gettimeofday env)" and ?i = "time_cache_index sp"
  define e1 where "e1 = stamp env ev"
  note s = stamp_ok [OF ev env, folded e1_def]
  define e2 where "e2 = (if time_local_sec e1 \<noteq> ?now then e1\<lparr>time_local := localtime env ?now, time_local_sec := ?now\<rparr> else e1)"
  have now: "0 < ?now" using env by (simp add: log_env_ok_def)
  have e2: "event_ok env fmts e2" "same_event ev e2" "time_local e2 = localtime env ?now" "?i < length (time_caches e2)"
    using s now i(1) by (auto simp: e2_def event_ok_def caches_ok_def same_event_def)
  define c where "c = time_caches e2 ! ?i"
  define c' where "c' = (if cache_sec c \<noteq> ?now then \<lparr>cache_str = strftime env (time_fmt sp) (time_local e2), cache_sec = ?now\<rparr> else c)"
  have c': "cache_sec c' = ?now" "cache_str c' = strftime env (time_fmt sp) (localtime env ?now)"
    using e2 now i by (auto simp: c'_def c_def event_ok_def caches_ok_def)
  have run: "zlog_spec_write_time env sp ev = Ret (e2\<lparr>time_caches := (time_caches e2)[?i := c']\<rparr>, [Append (cache_str c')])"
    unfolding zlog_spec_write_time_def Let_def e1_def [symmetric] s(3) e2_def [symmetric] c_def [symmetric] c'_def [symmetric]
    using e2(4) by simp
  show ?thesis unfolding run
  proof (rule printsI)
    show "event_ok env fmts (e2\<lparr>time_caches := (time_caches e2)[?i := c']\<rparr>)"
      using e2(1) c' i by (auto simp: event_ok_def caches_ok_def nth_list_update)
    show "same_event ev (e2\<lparr>time_caches := (time_caches e2)[?i := c']\<rparr>)" using e2(2) by (simp add: same_event_def)
  qed (simp_all add: c')
qed

lemma write_pid_prints:
  assumes ev: "event_ok env fmts ev" and env: "log_env_ok env"
  shows "prints env fmts ev (show_nat (nat (getpid env))) (Ret (zlog_spec_write_pid env ev))"
proof (cases "event_pid ev = 0")
  case False
  with ev have "pid_str ev = show_nat (nat (getpid env))" using env by (auto simp: event_ok_def caches_ok_def log_env_ok_def)
  with False ev show ?thesis by (auto simp: zlog_spec_write_pid_def intro!: printsI)
next
  case True
  let ?e = "ev\<lparr>event_pid := getpid env\<rparr>"
  let ?e' = "if getpid env \<noteq> last_pid ev then ?e\<lparr>last_pid := getpid env, pid_str := show_nat (nat (getpid env))\<rparr> else ?e"
  have p: "pid_str ?e' = show_nat (nat (getpid env))" "last_pid ?e' = getpid env" using ev env by (auto simp: event_ok_def caches_ok_def log_env_ok_def)
  have "event_ok env fmts ?e'" "same_event ev ?e'" using ev p env by (auto simp: event_ok_def caches_ok_def same_event_def)
  moreover have "zlog_spec_write_pid env ev = (?e', [Append (pid_str ?e')])" using True by (simp add: zlog_spec_write_pid_def Let_def)
  ultimately show ?thesis using p(1) by (simp add: printsI del: if_split)
qed

lemma unat_word_of_int: "unat (word_of_int i :: 64 word) = nat (i mod 2 ^ 64)"
  by (simp add: unat_eq_nat_uint uint_word_of_int)

lemma unat_usec: "0 \<le> i \<Longrightarrow> i < 1000000 \<Longrightarrow> unat (word_of_int i :: 32 word) = nat i"
  by (simp add: unat_eq_nat_uint uint_word_of_int)

lemma after_slash_no_slash: "CHR ''/'' \<notin> set f \<Longrightarrow> after_slash f = f"
proof -
  assume "CHR ''/'' \<notin> set f"
  then have "takeWhile (\<lambda>c. c \<noteq> CHR ''/'') (rev f) = rev f" unfolding takeWhile_eq_all_conv by auto
  then show ?thesis unfolding after_slash_def by (simp only: rev_rev_ident)
qed

lemma hex_lines_good: "\<forall>op \<in> set (hex_lines bytes i). good_op op"
proof (induction bytes i rule: hex_lines.induct)
  case (1 bytes i)
  have "\<forall>op \<in> set (hex_line bytes i). good_op op"
    by (auto simp: hex_line_def hex_byte_def char_byte_def)
  with 1 show ?case by (subst hex_lines.simps) auto
qed

lemma levels_get_Some: "levels_ok levels \<Longrightarrow> 0 \<le> n \<Longrightarrow> \<exists>lv. zlog_level_list_get levels n = Ret (Some lv)"
proof -
  assume ok: "levels_ok levels" and n: "0 \<le> n"
  obtain u where u: "zc_arraylist_get levels 254 = Ret (Some u)" using levels_get(1) [OF ok, of 254] ok by (auto simp: levels_ok_def)
  show ?thesis
  proof (cases "n < 256")
    case True
    with levels_get(1) [OF ok n True] u show ?thesis by (cases "slots levels ! nat n") (auto simp: zlog_level_list_get_def)
  qed (use levels_get(2) [OF ok, of n] u in \<open>simp add: zlog_level_list_get_def\<close>)
qed

lemma write_ops_prints:
  assumes ev: "event_ok env fmts ev" and env: "log_env_ok env" and sp: "spec_ok fmts levels mdc ev sp"
  shows "prints env fmts ev (spec_text env levels mdc ev sp) (write_ops env levels mdc sp ev)"
proof (cases "write_fn sp")
  case Write_Time
  with sp write_time_prints [OF ev env] show ?thesis by (simp add: write_ops_def spec_text_def spec_ok_def)
next
  case Write_Pid
  with write_pid_prints [OF ev env] show ?thesis by (simp add: write_ops_def spec_text_def)
next
  case Write_Ms
  have u: "unat (word_of_int (snd (gettimeofday env) div 1000) :: 32 word) = nat (snd (gettimeofday env)) div 1000"
  proof -
    have "0 \<le> snd (gettimeofday env)" "snd (gettimeofday env) < 1000000" using env by (simp_all add: log_env_ok_def)
    then show ?thesis using unat_usec [of "snd (gettimeofday env) div 1000"] by (simp add: nat_div_distrib pos_imp_zdiv_nonneg_iff)
  qed
  show ?thesis
    using Write_Ms stamp_ok [OF ev env] u by (auto simp: write_ops_def zlog_spec_write_ms_def Let_def spec_text_def intro!: printsI)
next
  case Write_Us
  have u: "unat (word_of_int (snd (gettimeofday env)) :: 32 word) = nat (snd (gettimeofday env))"
    using unat_usec [of "snd (gettimeofday env)"] env by (simp add: log_env_ok_def)
  show ?thesis
    using Write_Us stamp_ok [OF ev env] u by (auto simp: write_ops_def zlog_spec_write_us_def Let_def spec_text_def intro!: printsI)
next
  case Write_Mdc
  with sp have ok: "table_ok mdc" and kv: "\<forall>kv. table_map mdc (mdc_key sp) = Some kv \<longrightarrow> value_len kv = length (mdc_kv_value kv) \<and> value_len kv \<le> MAXLEN_PATH"
    unfolding spec_ok_def by auto
  show ?thesis
    using Write_Mdc get_table_map [OF ok, of "mdc_key sp"] kv ev
    by (cases "table_map mdc (mdc_key sp)")
      (auto simp: write_ops_def zlog_spec_write_mdc_def zlog_mdc_get_kv_def spec_text_def intro!: printsI)
next
  case Write_Level_Lowercase
  with sp levels_get_Some [of levels "event_level ev"] ev show ?thesis
    by (auto simp: write_ops_def zlog_spec_write_level_lowercase_def level_name_def spec_text_def spec_ok_def intro!: printsI)
next
  case Write_Level_Uppercase
  with sp levels_get_Some [of levels "event_level ev"] ev show ?thesis
    by (auto simp: write_ops_def zlog_spec_write_level_uppercase_def level_name_def spec_text_def spec_ok_def intro!: printsI)
next
  case Write_Usrmsg
  with sp ev hex_lines_good show ?thesis
    by (auto simp: write_ops_def zlog_spec_write_usrmsg_def usr_text_def spec_text_def spec_ok_def
      split: zlog_event_cmd.splits option.splits intro!: printsI)
next
  case Write_Srcfile_Neat
  with sp ev show ?thesis
    by (auto simp: write_ops_def zlog_spec_write_srcfile_neat_def spec_text_def spec_ok_def after_slash_no_slash intro!: printsI)
next
  case Write_Srcfunc
  with sp ev show ?thesis
    by (auto simp: write_ops_def zlog_spec_write_srcfunc_def spec_text_def spec_ok_def split: option.splits intro!: printsI)
next
  case Write_Srcline
  with ev show ?thesis by (auto simp: write_ops_def zlog_spec_write_srcline_def spec_text_def unat_word_of_int zero_pad_def intro!: printsI)
next
  case Write_Srcfile
  with ev show ?thesis by (auto simp: write_ops_def zlog_spec_write_srcfile_def spec_text_def split: option.split intro!: printsI)
qed (use ev in \<open>auto simp: write_ops_def zlog_spec_write_str_def spec_text_def intro!: printsI\<close>)

section \<open>A message\<close>

lemma write_buf_appends:
  assumes ev: "event_ok env fmts ev" and env: "log_env_ok env" and sp: "spec_ok fmts levels mdc ev sp" and b: "buf_ok b"
  shows "\<exists>rc ev' b'. write_buf True env levels mdc sp ev b = Ret (rc, ev', b') \<and> event_ok env fmts ev' \<and> same_event ev ev'
    \<and> appended b (spec_text env levels mdc ev sp) rc b'"
proof -
  obtain ev' ops where w: "write_ops env levels mdc sp ev = Ret (ev', ops)" "event_ok env fmts ev'" "same_event ev ev'"
      "concat (map printed_by ops) = spec_text env levels mdc ev sp" "\<forall>op \<in> set ops. good_op op"
    using write_ops_prints [OF ev env sp] by (auto simp: prints_def)
  from buf_ops.write_until_appended [OF w(5) b] w show ?thesis by (auto simp: write_buf_def)
qed

text \<open>The text a specifier adds to the message: adjusted when it has a width, after it went through the buffer \<open>pre_msg_buf\<close> with its limit.\<close>

definition spec_out :: "zlog_buf \<Rightarrow> 'tm log_env \<Rightarrow> zlog_levels \<Rightarrow> zlog_mdc \<Rightarrow> 'tm zlog_event \<Rightarrow> zlog_spec \<Rightarrow> string" where
  "spec_out pre env levels mdc ev sp =
     (let t = spec_text env levels mdc ev sp in
      if reformat sp then adjusted (limited pre t) (left_adjust sp) (min_width sp) (max_width sp) else t)"

lemma restart_ok: "buf_ok b \<Longrightarrow> buf_ok (zlog_buf_restart b) \<and> buf_text (zlog_buf_restart b) = []"
  by (auto simp: zlog_buf_restart_def buf_ok_def buf_text_def)

lemma limited_cong: "size_max b' = size_max b \<Longrightarrow> truncate_str b' = truncate_str b \<Longrightarrow> limited b' = limited b \<and> fits b' = fits b"
  by (simp add: fun_eq_iff limited_def fits_def)

lemma limited_restart [simp]: "limited (zlog_buf_restart b) = limited b" "fits (zlog_buf_restart b) = fits b"
  using limited_cong [of "zlog_buf_restart b" b] by (simp_all add: zlog_buf_restart_def)

lemma spec_text_same: "same_event ev ev' \<Longrightarrow> spec_text env levels mdc ev' sp = spec_text env levels mdc ev sp"
  by (auto simp: spec_text_def same_event_def usr_text_def split: write_fn.split option.split)

lemma spec_ok_same: "same_event ev ev' \<Longrightarrow> spec_ok fmts levels mdc ev' sp = spec_ok fmts levels mdc ev sp"
  by (simp add: spec_ok_def same_event_def split: write_fn.split)

lemma same_event_trans: "same_event a b \<Longrightarrow> same_event b c \<Longrightarrow> same_event a c"
  by (simp add: same_event_def)

definition thread_ok :: "'tm log_env \<Rightarrow> string list \<Rightarrow> 'tm zlog_thread \<Rightarrow> bool" where
  "thread_ok env fmts th \<longleftrightarrow> event_ok env fmts (thread_event th) \<and> buf_ok (msg_buf th) \<and> buf_ok (pre_msg_buf th)"

text \<open>What one specifier does to the thread.\<close>

definition adds :: "'tm log_env \<Rightarrow> string list \<Rightarrow> 'tm zlog_thread \<Rightarrow> string \<Rightarrow> int \<Rightarrow> 'tm zlog_thread \<Rightarrow> bool" where
  "adds env fmts th s rc th' \<longleftrightarrow> thread_ok env fmts th' \<and> same_event (thread_event th) (thread_event th') \<and> thread_mdc th' = thread_mdc th
     \<and> limited (pre_msg_buf th') = limited (pre_msg_buf th) \<and> appended (msg_buf th) s rc (msg_buf th')"

lemma gen_msg_adds:
  assumes th: "thread_ok env fmts th" and env: "log_env_ok env" and sp: "spec_ok fmts levels (thread_mdc th) (thread_event th) sp"
  shows "\<exists>rc th'. zlog_spec_gen_msg True env levels sp th = Ret (rc, th')
    \<and> adds env fmts th (spec_out (pre_msg_buf th) env levels (thread_mdc th) (thread_event th) sp) rc th'"
proof -
  let ?t = "spec_text env levels (thread_mdc th) (thread_event th) sp"
  have ev: "event_ok env fmts (thread_event th)" and b: "buf_ok (msg_buf th)" and pre: "buf_ok (pre_msg_buf th)"
    using th by (simp_all add: thread_ok_def)
  show ?thesis
  proof (cases "reformat sp")
    case False
    from write_buf_appends [OF ev env sp b] obtain rc ev' b' where
      "write_buf True env levels (thread_mdc th) sp (thread_event th) (msg_buf th) = Ret (rc, ev', b')" "event_ok env fmts ev'"
      "same_event (thread_event th) ev'" "appended (msg_buf th) ?t rc b'" by blast
    with False pre show ?thesis
      by (auto simp: zlog_spec_gen_msg_def zlog_spec_gen_msg_direct_def adds_def thread_ok_def spec_out_def appended_def)
  next
    case True
    from restart_ok [OF pre] have r: "buf_ok (zlog_buf_restart (pre_msg_buf th))" "buf_text (zlog_buf_restart (pre_msg_buf th)) = []" by auto
    from write_buf_appends [OF ev env sp r(1)] obtain rc ev' p where
      w: "write_buf True env levels (thread_mdc th) sp (thread_event th) (zlog_buf_restart (pre_msg_buf th)) = Ret (rc, ev', p)" "event_ok env fmts ev'"
        "same_event (thread_event th) ev'" "appended (zlog_buf_restart (pre_msg_buf th)) ?t rc p" by blast
    have p: "buf_ok p" "buf_text p = limited (pre_msg_buf th) ?t" "limited p = limited (pre_msg_buf th)" "\<not> rc < 0"
      using w(4) r(2) limited_cong [of p "zlog_buf_restart (pre_msg_buf th)"] by (auto simp: appended_def split: if_splits)
    let ?s = "adjusted (buf_text p) (left_adjust sp) (min_width sp) (max_width sp)"
    from append_appended [OF b, of ?s] obtain rc' b' where
      "zlog_buf_append True (msg_buf th) ?s = Ret (rc', b')" "appended (msg_buf th) ?s rc' b'" by blast
    with True w p b show ?thesis
      by (auto simp: zlog_spec_gen_msg_def zlog_spec_gen_msg_reformat_def gen_reformat_def adjust_append_eq adds_def thread_ok_def spec_out_def
        appended_def buf_text_def [of p, symmetric])
  qed
qed

lemma gen_specs_adds:
  assumes "thread_ok env fmts th" "log_env_ok env" "\<forall>sp \<in> set sps. spec_ok fmts levels (thread_mdc th) (thread_event th) sp"
  shows "\<exists>rc th'. gen_specs True env levels sps th = Ret (rc, th') \<and> thread_ok env fmts th' \<and> rc \<in> {0, -1}
    \<and> (let t = concat (map (spec_out (pre_msg_buf th) env levels (thread_mdc th) (thread_event th)) sps) in
       appended (msg_buf th) t (if rc = 0 then 0 else 1) (msg_buf th'))"
  using assms
proof (induction sps arbitrary: th)
  case Nil
  then show ?case using length_buf_text [of "msg_buf th"]
    by (auto simp: thread_ok_def appended_def limited_text fits_def buf_ok_def)
next
  case (Cons sp sps)
  let ?out = "spec_out (pre_msg_buf th) env levels (thread_mdc th) (thread_event th)"
  let ?rest = "concat (map ?out sps)"
  from gen_msg_adds [OF Cons.prems(1,2), of levels sp] Cons.prems(3) obtain rc th1 where
    g: "zlog_spec_gen_msg True env levels sp th = Ret (rc, th1)" "adds env fmts th (?out sp) rc th1" by auto
  have ap: "appended (msg_buf th) (?out sp) rc (msg_buf th1)" and th1: "thread_ok env fmts th1" using g(2) by (simp_all add: adds_def)
  show ?case
  proof (cases "fits (msg_buf th) (buf_text (msg_buf th) @ ?out sp)")
    case True
    with ap have t1: "rc = 0" "buf_text (msg_buf th1) = buf_text (msg_buf th) @ ?out sp" "size_max (msg_buf th1) = size_max (msg_buf th)"
        "truncate_str (msg_buf th1) = truncate_str (msg_buf th)"
      by (auto simp: appended_def limited_def)
    have same: "same_event (thread_event th) (thread_event th1)" "thread_mdc th1 = thread_mdc th" "limited (pre_msg_buf th1) = limited (pre_msg_buf th)"
      using g(2) by (simp_all add: adds_def)
    have out: "spec_out (pre_msg_buf th1) env levels (thread_mdc th1) (thread_event th1) = ?out"
      by (simp add: fun_eq_iff spec_out_def same spec_text_same [OF same(1)] Let_def)
    from Cons.IH [OF th1 Cons.prems(2), unfolded out] Cons.prems(3) obtain rc' th' where
      "gen_specs True env levels sps th1 = Ret (rc', th')" "thread_ok env fmts th'" "rc' \<in> {0, -1}"
      "appended (msg_buf th1) ?rest (if rc' = 0 then 0 else 1) (msg_buf th')"
      by (auto simp: same(2) spec_ok_same [OF same(1)] Let_def)
    with g(1) t1 limited_cong [OF t1(3,4)] show ?thesis by (auto simp: appended_def Let_def)
  next
    case False
    then have nf: "\<not> fits (msg_buf th) (buf_text (msg_buf th) @ ?out sp @ ?rest)" by (auto simp: fits_def)
    have "limited (msg_buf th) (buf_text (msg_buf th) @ ?out sp @ ?rest) = limited (msg_buf th) (buf_text (msg_buf th) @ ?out sp)"
      using False by (auto simp: limited_def fits_def)
    with ap False nf have "rc = 1" "appended (msg_buf th) (?out sp @ ?rest) 1 (msg_buf th1)" by (auto simp: appended_def)
    with g(1) th1 show ?thesis by (auto simp: Let_def)
  qed
qed

text \<open>C9: The message a format makes of an event. Given memory, working caches and specifiers that have what they print, \<open>zlog_format_gen_msg\<close> puts the texts of
  the specifiers together in order, each adjusted to its width: the time and the process number are those of now in spite of the caches, and stay
  so for the next message. When the message reaches the limit of the buffer it is cut and marked; the function then returns -1, although its comment promises
  0 for a full buffer, and its callers drop the message.\<close>

theorem format_message:
  assumes "thread_ok env fmts th" "log_env_ok env" "\<forall>sp \<in> set specs. spec_ok fmts levels (thread_mdc th) (thread_event th) sp"
  shows "\<exists>rc th'. zlog_format_gen_msg True env levels specs th = Ret (rc, th') \<and> thread_ok env fmts th'
    \<and> (let t = concat (map (spec_out (pre_msg_buf th) env levels (thread_mdc th) (thread_event th)) specs) in
       buf_text (msg_buf th') = limited (msg_buf th) t \<and> rc = (if fits (msg_buf th) t then 0 else -1))"
proof -
  let ?th = "th\<lparr>msg_buf := zlog_buf_restart (msg_buf th)\<rparr>"
  have r: "buf_ok (zlog_buf_restart (msg_buf th))" "buf_text (zlog_buf_restart (msg_buf th)) = []" using restart_ok assms(1) by (auto simp: thread_ok_def)
  then have "thread_ok env fmts ?th" using assms(1) by (simp add: thread_ok_def)
  from gen_specs_adds [OF this assms(2), of specs levels] assms(3) r(2) show ?thesis
    unfolding zlog_format_gen_msg_def by (auto simp: appended_def Let_def split: if_splits)
qed

definition sample_log_env :: "unit log_env" where
  "sample_log_env = \<lparr>gettimeofday = (5, 123456), localtime = (\<lambda>_. ()), strftime = (\<lambda>f _. f), getpid = 7\<rparr>"

definition sample_thread :: "unit zlog_thread" where
  "sample_thread =
     (let b = the (zlog_buf_new True True 8 16 (Some ''...'')) in
      \<lparr>thread_event =
         \<lparr>category_name = ''web'', host_name = ''h'', event_file = None, event_func = None, event_line = 1, event_level = 20,
          generate_cmd = ZLOG_FMT (Some (Some ''accepted'')), tv_sec = 0, tv_usec = 0, time_local_sec = 0, time_local = (),
          time_caches = [], event_pid = 0, last_pid = 0, pid_str = [], tid_str = [], tid_hex_str = []\<rparr>,
       thread_mdc = the (zlog_mdc_new True True True), msg_buf = b, pre_msg_buf = b, path_buf = b, pre_path_buf = b, archive_path_buf = b\<rparr>)"

definition sample_specs :: "zlog_spec list" where
  "sample_specs =
     [(empty_spec [])\<lparr>write_fn := Write_Category, reformat := True, min_width := 4\<rparr>, (empty_spec [])\<lparr>spec_str := ''] '', spec_len := 2\<rparr>,
      (empty_spec [])\<lparr>write_fn := Write_Ms\<rparr>, (empty_spec [])\<lparr>write_fn := Write_Usrmsg\<rparr>]"

theorem format_message_witness:
  "\<exists>rc th'. zlog_format_gen_msg True sample_log_env (the (zc_arraylist_new True True True)) sample_specs sample_thread = Ret (rc, th')
     \<and> buf_text (msg_buf th') = '' web] 123acc...'' \<and> rc = -1"
proof -
  have s123: "show_nat 123 = ''123''" by code_simp
  have b: "buf_ok (msg_buf sample_thread)" "buf_ok (pre_msg_buf sample_thread)" "size_max (msg_buf sample_thread) = 16" "truncate_str (msg_buf sample_thread) = ''...''"
      "size_max (pre_msg_buf sample_thread) = 16"
    by (simp_all add: sample_thread_def zlog_buf_new_def buf_ok_def Let_def)
  have "thread_ok sample_log_env [] sample_thread" using b(1,2)
    by (simp add: thread_ok_def event_ok_def caches_ok_def sample_thread_def sample_log_env_def Let_def)
  moreover have "log_env_ok sample_log_env" by (simp add: log_env_ok_def sample_log_env_def)
  moreover have "\<forall>sp \<in> set sample_specs. spec_ok [] levels mdc (thread_event sample_thread) sp" for levels mdc
    by (simp add: spec_ok_def sample_specs_def empty_spec_def sample_thread_def Let_def)
  moreover have "concat (map (spec_out (pre_msg_buf sample_thread) sample_log_env levels mdc (thread_event sample_thread)) sample_specs) = '' web] 123accepted''" for levels mdc
    using b(5)
    by (simp add: sample_specs_def spec_out_def spec_text_def sample_log_env_def sample_thread_def empty_spec_def limited_def fits_def
      adjusted_def usr_text_def zero_pad_def s123 Let_def)
  ultimately show ?thesis
    using format_message [of sample_log_env "[]" sample_thread sample_specs "the (zc_arraylist_new True True True)"] b(3,4)
    by (auto simp: Let_def limited_def fits_def marked_def)
qed

end
