(* ===== verification/Zlog_Rotater.thy ===== *)
theory Zlog_Rotater
  imports Zlog_Level Zlog_Buf_Text "HOL-Library.Multiset"
begin

text \<open>
  Rotating a log file (\<open>zlog/src/rotater.c\<close>): the archives of a log are listed, the old ones removed or renamed, and the log file is moved to a free number.

  \<^item> The disk is a map from paths to contents; \<open>free\<close> tells which paths the system lets the process change.
  \<^item> \<open>glob\<close> is the answer of the library function, whose order is arbitrary (\<open>GLOB_NOSORT\<close>).
  \<^item> A file of a path is read with the number in it (\<open>zlog_file_check_new\<close>), and the list is sorted by these numbers.
\<close>

section \<open>The disk\<close>

type_synonym disk = "string \<rightharpoonup> string"

definition disk_unlink :: "(string \<Rightarrow> bool) \<Rightarrow> disk \<Rightarrow> string \<Rightarrow> int \<times> disk" where
  "disk_unlink free d p = (if free p \<and> d p \<noteq> None then (0, d(p := None)) else (-1, d))"

definition disk_rename :: "(string \<Rightarrow> bool) \<Rightarrow> disk \<Rightarrow> string \<Rightarrow> string \<Rightarrow> int \<times> disk" where
  "disk_rename free d p q = (if free p \<and> free q \<and> d p \<noteq> None then (0, d(p := None, q := d p)) else (-1, d))"

datatype glob_answer = Glob_No_Match | Glob_Error | Glob_Paths "string list"

section \<open>The rotater\<close>

record zlog_file =
  file_index :: int
  file_path :: string

record zlog_rotater =
  lock_mutex :: bool
  base_path :: string
  archive_path :: string
  glob_path :: string
  num_start_len :: nat
  num_end_len :: nat
  num_width :: int
  mv_type :: nat
  max_count :: int
  files :: "zlog_file zc_arraylist option"

definition ROLLING :: nat where
  "ROLLING = 1"

definition SEQUENCE :: nat where
  "SEQUENCE = 2"

definition zlog_rotater_new :: "bool \<Rightarrow> bool \<Rightarrow> bool \<Rightarrow> zlog_rotater option" where
  "zlog_rotater_new mem mutex fd =
     (if mem \<and> mutex \<and> fd
      then Some \<lparr>lock_mutex = False, base_path = [], archive_path = [], glob_path = [], num_start_len = 0, num_end_len = 0, num_width = 0,
                 mv_type = 0, max_count = 0, files = None\<rparr>
      else None)"

text \<open>\<open>sscanf(s, "%d%n", ...)\<close> on variables that are \<open>0\<close>: the number and how much was read. The paths of \<open>glob\<close> are not empty.\<close>

definition scan_index :: "string \<Rightarrow> int \<times> nat" where
  "scan_index s = (case scan_int s of None \<Rightarrow> (0, 0) | Some (i, r) \<Rightarrow> (i, length s - length r))"

definition zlog_file_check_new :: "bool \<Rightarrow> zlog_rotater \<Rightarrow> string \<Rightarrow> zlog_file option" where
  "zlog_file_check_new mem r path =
     (if base_path r = path then None
      else if last path = CHR ''/'' then None
      else if \<not> mem then None
      else if length path > MAXLEN_PATH then None
      else
        let (index, nread) = scan_index (drop (num_start_len r) path) in
        if num_width r \<noteq> 0 \<and> int nread < num_width r then None else Some \<lparr>file_index = index, file_path = path\<rparr>)"

text \<open>The list holds no null pointers.\<close>

definition zlog_file_cmp :: "zlog_file option \<Rightarrow> zlog_file \<Rightarrow> int" where
  "zlog_file_cmp a_file_1 a_file_2 = (case a_file_1 of None \<Rightarrow> 0 | Some f \<Rightarrow> if file_index f > file_index a_file_2 then 1 else 0)"

text \<open>\<open>mem\<close> says whether the allocations for a path succeed.\<close>

primrec add_paths :: "(string \<Rightarrow> bool \<times> bool) \<Rightarrow> zlog_rotater \<Rightarrow> string list \<Rightarrow> zlog_file zc_arraylist \<Rightarrow> (int \<times> zlog_file zc_arraylist) res" where
  "add_paths mem r [] l = Ret (0, l)"
| "add_paths mem r (path # pathv) l =
     (case zlog_file_check_new (fst (mem path)) r path of
        None \<Rightarrow> add_paths mem r pathv l
      | Some a_file \<Rightarrow>
          bnd (zc_arraylist_sortadd (snd (mem path)) l zlog_file_cmp a_file) (\<lambda>(rc, l').
          if rc \<noteq> 0 then Ret (-1, l') else add_paths mem r pathv l'))"

definition zlog_rotater_add_archive_files ::
  "bool \<Rightarrow> bool \<Rightarrow> (string \<Rightarrow> bool \<times> bool) \<Rightarrow> (string \<Rightarrow> glob_answer) \<Rightarrow> zlog_rotater \<Rightarrow> (int \<times> zlog_rotater) res" where
  "zlog_rotater_add_archive_files mem1 mem2 mem glob r =
     (case zc_arraylist_new mem1 mem2 True of
        None \<Rightarrow> Ret (-1, r\<lparr>files := None\<rparr>)
      | Some l \<Rightarrow>
          (case glob (glob_path r) of
             Glob_No_Match \<Rightarrow> Ret (0, r\<lparr>files := Some l\<rparr>)
           | Glob_Error \<Rightarrow> Ret (-1, r\<lparr>files := Some l\<rparr>)
           | Glob_Paths pathv \<Rightarrow> bnd (add_paths mem r pathv l) (\<lambda>(rc, l'). Ret (rc, r\<lparr>files := Some l'\<rparr>))))"

text \<open>The path of the archive with number \<open>j\<close>, printed with \<open>"%.*s%0*d%s"\<close>: a negative width means blanks on the right. \<open>glob_path\<close> and \<open>new_path\<close> are arrays of
  \<open>MAXLEN_PATH + 1\<close> bytes; a text that does not fit is an error.\<close>

definition pad_number :: "int \<Rightarrow> nat \<Rightarrow> string" where
  "pad_number w j = (if w \<ge> 0 then zero_pad (nat w) (show_nat j) else show_nat j @ replicate (nat (- w) - length (show_nat j)) CHR '' '')"

definition numbered :: "zlog_rotater \<Rightarrow> nat \<Rightarrow> string" where
  "numbered r j = take (num_start_len r) (glob_path r) @ pad_number (num_width r) j @ drop (num_end_len r) (glob_path r)"

definition new_path :: "zlog_rotater \<Rightarrow> nat \<Rightarrow> string option res" where
  "new_path r j =
     (if num_end_len r > MAXLEN_PATH then Crash Out_Of_Bounds
      else Ret (if length (numbered r j) > MAXLEN_PATH then None else Some (numbered r j)))"

definition move_to :: "(string \<Rightarrow> bool) \<Rightarrow> zlog_rotater \<Rightarrow> string \<Rightarrow> nat \<Rightarrow> disk \<Rightarrow> (int \<times> disk) res" where
  "move_to free r path j d =
     bnd (new_path r j) (\<lambda>p. Ret (case p of None \<Rightarrow> (-1, d) | Some p \<Rightarrow> disk_rename free d path p))"

text \<open>The loop that removes the oldest files of a sequence, with \<open>rest\<close> files left.\<close>

primrec unlink_old :: "nat \<Rightarrow> (string \<Rightarrow> bool) \<Rightarrow> zlog_rotater \<Rightarrow> zlog_file zc_arraylist \<Rightarrow> int \<Rightarrow> disk \<Rightarrow> (int \<times> disk) res" where
  "unlink_old 0 free r l i d = Ret (0, d)"
| "unlink_old (Suc rest) free r l i d =
     bnd (slot_at l i) (\<lambda>v.
     case v of
       None \<Rightarrow> Crash Null_Deref
     | Some a_file \<Rightarrow>
         if max_count r > 0 \<and> i < al_len l - max_count r
         then let (rc, d') = disk_unlink free d (file_path a_file) in if rc \<noteq> 0 then Ret (-1, d') else unlink_old rest free r l (i + 1) d'
         else unlink_old rest free r l (i + 1) d)"

text \<open>The number behind the greatest one in use: the C expression overflows when that is \<open>INT_MAX\<close>.\<close>

definition zlog_rotater_seq_files :: "(string \<Rightarrow> bool) \<Rightarrow> zlog_rotater \<Rightarrow> zlog_file zc_arraylist \<Rightarrow> disk \<Rightarrow> (int \<times> disk) res" where
  "zlog_rotater_seq_files free r l d =
     bnd (unlink_old (nat (al_len l)) free r l 0 d) (\<lambda>(rc, d1).
     if rc \<noteq> 0 then Ret (-1, d1)
     else if al_len l > 0 then
       bnd (zc_arraylist_get l (al_len l - 1)) (\<lambda>v.
       case v of
         None \<Rightarrow> Ret (-1, d1)
       | Some a_file \<Rightarrow>
           let j = zc_max (al_len l - 1) (file_index a_file) + 1 in
           if j > 2147483647 then Crash Int_Overflow else move_to free r (base_path r) (nat j) d1)
     else move_to free r (base_path r) 0 d1)"

text \<open>The loop over the list from its end; \<open>i\<close> is the number of files left.\<close>

primrec roll_down :: "nat \<Rightarrow> (string \<Rightarrow> bool) \<Rightarrow> zlog_rotater \<Rightarrow> zlog_file zc_arraylist \<Rightarrow> disk \<Rightarrow> (int \<times> disk) res" where
  "roll_down 0 free r l d = Ret (0, d)"
| "roll_down (Suc i) free r l d =
     bnd (zc_arraylist_get l (int i)) (\<lambda>v.
     case v of
       None \<Rightarrow> Ret (-1, d)
     | Some a_file \<Rightarrow>
         bnd (if max_count r > 0 \<and> int i \<ge> max_count r - 1 then Ret (disk_unlink free d (file_path a_file))
              else move_to free r (file_path a_file) (i + 1) d) (\<lambda>(rc, d').
         if rc \<noteq> 0 then Ret (-1, d') else roll_down i free r l d'))"

definition zlog_rotater_roll_files :: "(string \<Rightarrow> bool) \<Rightarrow> zlog_rotater \<Rightarrow> zlog_file zc_arraylist \<Rightarrow> disk \<Rightarrow> (int \<times> disk) res" where
  "zlog_rotater_roll_files free r l d =
     bnd (roll_down (nat (al_len l)) free r l d) (\<lambda>(rc, d').
     if rc \<noteq> 0 then Ret (-1, d') else move_to free r (base_path r) 0 d')"

text \<open>\<open>snprintf\<close> into the array \<open>glob_path\<close>; the code takes a text that is one byte too long for it as fitting.\<close>

definition zlog_rotater_parse_archive_path :: "zlog_rotater \<Rightarrow> int \<times> zlog_rotater" where
  "zlog_rotater_parse_archive_path r =
     (if archive_path r = [] then
        let g = base_path r @ ''.*'' in
        if length g > MAXLEN_PATH + 1 then (-1, r\<lparr>glob_path := take MAXLEN_PATH g\<rparr>)
        else (0, r\<lparr>glob_path := take MAXLEN_PATH g, mv_type := ROLLING, num_width := 0,
                   num_start_len := length (base_path r) + 1, num_end_len := length (base_path r) + 2\<rparr>)
      else
        let pre = takeWhile (\<lambda>c. c \<noteq> CHR ''#'') (archive_path r); p = dropWhile (\<lambda>c. c \<noteq> CHR ''#'') (archive_path r) in
        if p = [] then (-1, r)
        else
          let (w, q) = (case scan_int (tl p) of None \<Rightarrow> (num_width r, tl p) | Some (w, q) \<Rightarrow> (w, q)); r1 = r\<lparr>num_width := w\<rparr> in
          if q \<noteq> [] \<and> (hd q = CHR ''r'' \<or> hd q = CHR ''s'') then
            let r2 = r1\<lparr>mv_type := (if hd q = CHR ''r'' then ROLLING else SEQUENCE)\<rparr>; n = length pre in
            if n > MAXLEN_PATH then (-1, r2)
            else
              let g = CHR ''*'' # tl q; r3 = r2\<lparr>glob_path := pre @ take (MAXLEN_PATH - n) g\<rparr> in
              if length g > MAXLEN_PATH + 1 - n then (-1, r3) else (0, r3\<lparr>num_start_len := n, num_end_len := n + 1\<rparr>)
          else (-1, r1))"

definition zlog_rotater_clean :: "zlog_rotater \<Rightarrow> zlog_rotater res" where
  "zlog_rotater_clean r =
     bnd (case files r of None \<Rightarrow> Ret [] | Some l \<Rightarrow> zc_arraylist_del l) (\<lambda>_.
     Ret (r\<lparr>base_path := [], archive_path := [], max_count := 0, mv_type := 0, num_width := 0, num_start_len := 0, num_end_len := 0,
            glob_path := [], files := None\<rparr>))"

definition zlog_rotater_lsmv ::
  "bool \<Rightarrow> bool \<Rightarrow> (string \<Rightarrow> bool \<times> bool) \<Rightarrow> (string \<Rightarrow> glob_answer) \<Rightarrow> (string \<Rightarrow> bool) \<Rightarrow> zlog_rotater \<Rightarrow> string \<Rightarrow> string \<Rightarrow> int \<Rightarrow> disk
    \<Rightarrow> (int \<times> zlog_rotater \<times> disk) res" where
  "zlog_rotater_lsmv mem1 mem2 mem glob free r base archive cnt d =
     (let (rc, r1) = zlog_rotater_parse_archive_path (r\<lparr>base_path := base, archive_path := archive, max_count := cnt\<rparr>) in
      if rc \<noteq> 0 then bnd (zlog_rotater_clean r1) (\<lambda>r'. Ret (-1, r', d))
      else
        bnd (zlog_rotater_add_archive_files mem1 mem2 mem glob r1) (\<lambda>(rc, r2).
        if rc \<noteq> 0 then bnd (zlog_rotater_clean r2) (\<lambda>r'. Ret (-1, r', d))
        else
          bnd (if mv_type r2 = ROLLING then zlog_rotater_roll_files free r2 (the (files r2)) d
               else if mv_type r2 = SEQUENCE then zlog_rotater_seq_files free r2 (the (files r2)) d
               else Ret (0, d)) (\<lambda>(rc, d').
          bnd (zlog_rotater_clean r2) (\<lambda>r'. Ret (if rc \<noteq> 0 then -1 else 0, r', d')))))"

text \<open>\<open>flock\<close> and \<open>funlock\<close> tell whether the two calls of \<open>fcntl\<close> succeed.\<close>

definition zlog_rotater_trylock :: "bool \<Rightarrow> zlog_rotater \<Rightarrow> int \<times> zlog_rotater" where
  "zlog_rotater_trylock flock r =
     (if lock_mutex r then (-1, r) else if \<not> flock then (-1, r\<lparr>lock_mutex := False\<rparr>) else (0, r\<lparr>lock_mutex := True\<rparr>))"

definition zlog_rotater_unlock :: "bool \<Rightarrow> zlog_rotater \<Rightarrow> int \<times> zlog_rotater" where
  "zlog_rotater_unlock funlock r = (if funlock then 0 else -1, r\<lparr>lock_mutex := False\<rparr>)"

definition zlog_rotater_rotate ::
  "bool \<Rightarrow> bool \<Rightarrow> bool \<Rightarrow> bool \<Rightarrow> (string \<Rightarrow> bool \<times> bool) \<Rightarrow> (string \<Rightarrow> glob_answer) \<Rightarrow> (string \<Rightarrow> bool) \<Rightarrow> zlog_rotater \<Rightarrow> string \<Rightarrow> nat \<Rightarrow> string \<Rightarrow> nat
    \<Rightarrow> int \<Rightarrow> disk \<Rightarrow> (int \<times> zlog_rotater \<times> disk) res" where
  "zlog_rotater_rotate flock funlock mem1 mem2 mem glob free r base msg_len archive max_size cnt d =
     (let (rc, r1) = zlog_rotater_trylock flock r in
      if rc \<noteq> 0 then Ret (0, r1, d)
      else
        bnd (case d base of
               None \<Rightarrow> Ret (-1, r1, d)
             | Some s \<Rightarrow>
                 if length s + msg_len \<le> max_size then Ret (0, r1, d)
                 else zlog_rotater_lsmv mem1 mem2 mem glob free r1 base archive cnt d) (\<lambda>(rc, r2, d').
        Ret (rc, snd (zlog_rotater_unlock funlock r2), d')))"

section \<open>Listing the archives\<close>

definition glob_list :: "glob_answer \<Rightarrow> string list option" where
  "glob_list a = (case a of Glob_No_Match \<Rightarrow> Some [] | Glob_Error \<Rightarrow> None | Glob_Paths pathv \<Rightarrow> Some pathv)"

lemma insert_sorted_key:
  fixes key :: "'a \<Rightarrow> 'b :: linorder"
  assumes "sorted (map key xs)"
  shows "sorted (map key (takeWhile (\<lambda>y. key y \<le> key x) xs @ x # dropWhile (\<lambda>y. key y \<le> key x) xs))"
  using assms
proof (induction xs)
  case (Cons y ys)
  then show ?case by (cases "key y \<le> key x") (auto dest!: set_takeWhileD set_dropWhileD)
qed simp

lemma mset_insert_key: "mset (takeWhile P xs @ x # dropWhile P xs) = add_mset x (mset xs)"
proof -
  have "mset xs = mset (takeWhile P xs) + mset (dropWhile P xs)" by (simp flip: mset_append)
  then show ?thesis by simp
qed

text \<open>Every path that is a file of an archive is put in its place.\<close>

lemma add_paths_sorts:
  assumes "arraylist_ok l" "slots l = map Some fs" "sorted (map file_index fs)" "\<forall>p \<in> set ps. zlog_file_check_new True r p = Some (F p)"
  shows "\<exists>l' fs'. add_paths (\<lambda>_. (True, True)) r ps l = Ret (0, l') \<and> arraylist_ok l' \<and> slots l' = map Some fs' \<and> sorted (map file_index fs')
    \<and> mset fs' = mset fs + mset (map F ps)"
  using assms
proof (induction ps arbitrary: l fs)
  case (Cons p ps)
  let ?fs = "takeWhile (\<lambda>y. file_index y \<le> file_index (F p)) fs @ F p # dropWhile (\<lambda>y. file_index y \<le> file_index (F p)) fs"
  have "(zlog_file_cmp (Some a) b > 0) = (file_index a > file_index b)" for a b by (simp add: zlog_file_cmp_def)
  from sortadd_ok [OF Cons.prems(1,2), where key = file_index and cmp = zlog_file_cmp and x = "F p", OF this] obtain l1 where
    l1: "zc_arraylist_sortadd True l zlog_file_cmp (F p) = Ret (0, l1)" "arraylist_ok l1" "slots l1 = map Some ?fs" by blast
  from Cons.IH [OF l1(2,3) insert_sorted_key [OF Cons.prems(3)]] Cons.prems(4) obtain l' fs' where
    "add_paths (\<lambda>_. (True, True)) r ps l1 = Ret (0, l')" "arraylist_ok l'" "slots l' = map Some fs'" "sorted (map file_index fs')"
    "mset fs' = mset ?fs + mset (map F ps)" by auto
  with Cons.prems(4) l1(1) show ?case by (auto simp: mset_insert_key simp del: mset_append)
qed simp

text \<open>The default names of archives: \<open>aa.0\<close>, \<open>aa.1\<close> and so on.\<close>

definition archive_of :: "string \<Rightarrow> nat \<Rightarrow> string" where
  "archive_of base j = base @ ''.'' @ show_nat j"

lemma archive_of_inj [simp]: "archive_of base i = archive_of base j \<longleftrightarrow> i = j"
  using digits_val_show_nat by (auto simp: archive_of_def) (metis of_nat_eq_iff)

lemma archive_of_neq_base [simp]: "archive_of base j \<noteq> base" "base \<noteq> archive_of base j"
  by (simp_all add: archive_of_def)

definition rolling :: "zlog_rotater \<Rightarrow> string \<Rightarrow> int \<Rightarrow> zlog_rotater" where
  "rolling r base cnt = r\<lparr>base_path := base, archive_path := [], max_count := cnt, glob_path := base @ ''.*'', mv_type := ROLLING, num_width := 0,
     num_start_len := length base + 1, num_end_len := length base + 2\<rparr>"

lemma numbered_rolling [simp]: "numbered (rolling r base cnt) j = archive_of base j"
  by (simp add: numbered_def rolling_def archive_of_def pad_number_def zero_pad_def)

lemma rolling_fields [simp]:
  "num_end_len (rolling r base cnt) = length base + 2" "base_path (rolling r base cnt) = base" "max_count (rolling r base cnt) = cnt"
  "glob_path (rolling r base cnt) = base @ ''.*''" "mv_type (rolling r base cnt) = ROLLING"
  by (simp_all add: rolling_def)

lemma parse_rolling:
  "length base + 2 \<le> MAXLEN_PATH
    \<Longrightarrow> zlog_rotater_parse_archive_path (r\<lparr>base_path := base, archive_path := [], max_count := cnt\<rparr>) = (0, rolling r base cnt)"
  by (simp add: zlog_rotater_parse_archive_path_def rolling_def Let_def)

lemma scan_index_show_nat: "j < 2 ^ 31 \<Longrightarrow> scan_index (show_nat j) = (int j, length (show_nat j))"
proof -
  assume j: "j < 2 ^ 31"
  have "isspace CHR '' ''" by (simp add: isspace_def byte_def)
  then have "atoi (CHR '' '' # s) = atoi s" "skip_space (CHR '' '' # s) = skip_space s" for s
    by (simp_all add: skip_space_def atoi_def strtol10_def)
  then have "scan_int (CHR '' '' # s) = scan_int s" for s by (simp add: scan_int_def split: list.split)
  with scan_int_show_nat [OF j, of "[]"] show ?thesis by (simp add: scan_index_def)
qed

lemma check_archive:
  assumes "j < 2 ^ 31" "length (archive_of base j) \<le> MAXLEN_PATH"
  shows "zlog_file_check_new True (rolling r base cnt) (archive_of base j) = Some \<lparr>file_index = int j, file_path = archive_of base j\<rparr>"
proof -
  have "last (archive_of base j) \<in> set (show_nat j)" using show_nat_nonempty [of j] by (simp add: archive_of_def)
  then have "isdigit (last (archive_of base j))" using show_nat_digits by blast
  then have "last (archive_of base j) \<noteq> CHR ''/''" by (auto simp: isdigit_def byte_def)
  with assms scan_index_show_nat [OF assms(1)] show ?thesis
    by (simp add: zlog_file_check_new_def rolling_def) (simp add: archive_of_def)
qed

lemma list_archives:
  assumes ns: "sorted ns" "distinct ns" "\<forall>j \<in> set ns. j < 2 ^ 31 \<and> length (archive_of base j) \<le> MAXLEN_PATH"
    and glob: "glob_list (glob (base @ ''.*'')) = Some pathv" "mset pathv = mset (map (archive_of base) ns)"
  shows "\<exists>l. zlog_rotater_add_archive_files True True (\<lambda>_. (True, True)) glob (rolling r base cnt) = Ret (0, (rolling r base cnt)\<lparr>files := Some l\<rparr>)
    \<and> arraylist_ok l \<and> slots l = map (\<lambda>j. Some \<lparr>file_index = int j, file_path = archive_of base j\<rparr>) ns"
proof -
  let ?F = "\<lambda>j. \<lparr>file_index = int j, file_path = archive_of base j\<rparr>"
  obtain l :: "zlog_file zc_arraylist" where l: "zc_arraylist_new True True True = Some l" "arraylist_ok l" "slots l = map Some []"
    by (simp add: zc_arraylist_new_def arraylist_ok_def slots_def ARRAY_LIST_DEFAULT_SIZE_def)
  define G where "G p = the (zlog_file_check_new True (rolling r base cnt) p)" for p
  have G: "G (archive_of base j) = ?F j" "zlog_file_check_new True (rolling r base cnt) (archive_of base j) = Some (?F j)" if "j \<in> set ns" for j
    using check_archive [of j base r cnt] ns(3) that by (simp_all add: G_def)
  have "set pathv = archive_of base ` set ns" using mset_eq_setD [OF glob(2)] by simp
  with G have "\<forall>p \<in> set pathv. zlog_file_check_new True (rolling r base cnt) p = Some (G p)" by auto
  from add_paths_sorts [OF l(2,3) _ this] obtain l' fs where a: "add_paths (\<lambda>_. (True, True)) (rolling r base cnt) pathv l = Ret (0, l')" "arraylist_ok l'"
      "slots l' = map Some fs" "sorted (map file_index fs)" "mset fs = mset (map G pathv)" by auto
  have "mset (map G pathv) = mset (map G (map (archive_of base) ns))" unfolding mset_map [of G] glob(2) ..
  also have "map G (map (archive_of base) ns) = map ?F ns" using G(1) by simp
  finally have ms: "mset fs = mset (map ?F ns)" using a(5) by simp
  have "mset (map file_index fs) = image_mset file_index (mset (map ?F ns))" using ms by simp
  also have "\<dots> = mset (map int ns)" by (simp add: image_mset.compositionality comp_def)
  finally have "sort (map int ns) = map file_index fs" using a(4) by (intro properties_for_sort) simp_all
  moreover have "sorted (map int ns)" using ns(1) by (simp add: sorted_map)
  ultimately have idx: "map file_index fs = map int ns" by (simp add: sorted_sort_id)
  have "\<forall>f \<in> set fs. f = ?F (nat (file_index f))" using mset_eq_setD [OF ms] by auto
  then have "fs = map (\<lambda>f. ?F (nat (file_index f))) fs" by (induction fs) simp_all
  also have "\<dots> = map (\<lambda>i. ?F (nat i)) (map file_index fs)" by simp
  also have "\<dots> = map ?F ns" unfolding idx by simp
  finally have sl: "slots l' = map (\<lambda>j. Some (?F j)) ns" using a(3) by simp
  consider "glob (base @ ''.*'') = Glob_No_Match" "pathv = []" | "glob (base @ ''.*'') = Glob_Paths pathv"
    using glob(1) by (auto simp: glob_list_def split: glob_answer.splits)
  then have "zlog_rotater_add_archive_files True True (\<lambda>_. (True, True)) glob (rolling r base cnt) = Ret (0, (rolling r base cnt)\<lparr>files := Some l'\<rparr>)"
    using l(1) a(1) by cases (simp_all add: zlog_rotater_add_archive_files_def)
  with sl a(2) show ?thesis by blast
qed

section \<open>Rolling\<close>

text \<open>Which places of the list are kept.\<close>

definition kept_place :: "int \<Rightarrow> nat \<Rightarrow> bool" where
  "kept_place cnt k \<longleftrightarrow> cnt \<le> 0 \<or> int k < cnt - 1"

text \<open>\<open>A\<close> names the archives, \<open>g k\<close> is the number of the archive at the place \<open>k\<close> of the list: the \<open>n\<close> archives are moved to the numbers \<open>1\<close> to \<open>n\<close>, or removed.\<close>

definition shifted :: "(nat \<Rightarrow> string) \<Rightarrow> (nat \<Rightarrow> nat) \<Rightarrow> int \<Rightarrow> nat \<Rightarrow> disk \<Rightarrow> disk \<Rightarrow> bool" where
  "shifted A g cnt n d d' \<longleftrightarrow>
     (\<forall>k < n. kept_place cnt k \<longrightarrow> d' (A (Suc k)) = d (A (g k)))
     \<and> (\<forall>k < n. g k \<notin> Suc ` {k. k < n \<and> kept_place cnt k} \<longrightarrow> d' (A (g k)) = None)
     \<and> (\<forall>p. p \<notin> (A \<circ> Suc) ` {k. k < n \<and> kept_place cnt k} \<and> p \<notin> (A \<circ> g) ` {..<n} \<longrightarrow> d' p = d p)"

lemma get_slot:
  assumes "arraylist_ok l" "slots l = map Some fs" "i < length fs"
  shows "zc_arraylist_get l (int i) = Ret (Some (fs ! i))"
proof -
  from assms(1) obtain us vs where u: "array l = Some (us @ vs)" "al_len l = int (length us)" "slots l = us" by (rule arraylist_okE) blast
  with assms(2,3) show ?thesis by (auto simp: zc_arraylist_get_def slot_at_def nth_append)
qed

lemma move_to_ok:
  assumes "num_end_len r \<le> MAXLEN_PATH" "length (numbered r j) \<le> MAXLEN_PATH" "free p" "free (numbered r j)" "d p \<noteq> None"
  shows "move_to free r p j d = Ret (0, d(p := None, numbered r j := d p))"
  using assms by (simp add: move_to_def new_path_def disk_rename_def)

lemma roll_down_shifts:
  assumes l: "arraylist_ok l" "slots l = map Some fs" "n \<le> length fs" "\<forall>k < n. file_path (fs ! k) = A (g k)"
    and g: "strict_mono_on {..<n} g" "\<forall>k < n. g k \<le> Suc k"
    and A: "inj A" "\<And>j. free (A j)" "\<And>j. numbered r j = A j" "num_end_len r \<le> MAXLEN_PATH" "\<forall>j \<le> n. length (A j) \<le> MAXLEN_PATH"
    and d: "\<forall>k < n. d (A (g k)) \<noteq> None"
  shows "\<exists>d'. roll_down n free r l d = Ret (0, d') \<and> shifted A g (max_count r) n d d'"
  using l(3,4) g A(5) d
proof (induction n arbitrary: d)
  case 0
  show ?case by (simp add: shifted_def)
next
  case (Suc n)
  have get: "zc_arraylist_get l (int n) = Ret (Some (fs ! n))" using get_slot [OF l(1,2)] Suc.prems(1) by simp
  have gn: "g k < g n" "g k \<le> n" if "k < n" for k
    using that Suc.prems(3,4) by (auto simp: strict_mono_on_def) (meson Suc_leI le_trans less_imp_le_nat less_Suc_eq)
  define kp where "kp \<longleftrightarrow> kept_place (max_count r) n"
  define d1 where "d1 = (if kp then d(A (g n) := None, A (Suc n) := d (A (g n))) else d(A (g n) := None))"
  have neq: "A (g k) \<noteq> A (g n)" "A (g k) \<noteq> A (Suc n)" if "k < n" for k using gn [OF that] A(1) by (auto simp: inj_eq)
  have run: "roll_down (Suc n) free r l d = roll_down n free r l d1"
    using get Suc.prems(2,5,6) A(2,3,4) move_to_ok [of r "Suc n" free "A (g n)" d]
    by (auto simp: d1_def kp_def kept_place_def disk_unlink_def not_le)
  have d1: "d1 (A (g k)) = d (A (g k))" if "k < n" for k using neq [OF that] by (simp add: d1_def)
  have "\<exists>d'. roll_down n free r l d1 = Ret (0, d') \<and> shifted A g (max_count r) n d1 d'"
    using Suc.prems d1 by (intro Suc.IH) (auto simp: strict_mono_on_def)
  then obtain d' where d': "roll_down n free r l d1 = Ret (0, d')" "shifted A g (max_count r) n d1 d'" by blast
  have "shifted A g (max_count r) (Suc n) d d'"
    unfolding shifted_def
  proof (intro conjI allI impI)
    fix k assume k: "k < Suc n" "kept_place (max_count r) k"
    show "d' (A (Suc k)) = d (A (g k))"
    proof (cases "k = n")
      case True
      have "A (Suc n) \<notin> (A \<circ> Suc) ` {k. k < n \<and> kept_place (max_count r) k}" "A (Suc n) \<notin> (A \<circ> g) ` {..<n}"
        using A(1) gn(2) by (force simp: inj_eq)+
      with d'(2) True k(2) show ?thesis by (auto simp: shifted_def d1_def kp_def)
    qed (use k d'(2) d1 in \<open>auto simp: shifted_def\<close>)
  next
    fix k assume k: "k < Suc n" "g k \<notin> Suc ` {k. k < Suc n \<and> kept_place (max_count r) k}"
    show "d' (A (g k)) = None"
    proof (cases "k = n")
      case True
      have "A (g n) \<notin> (A \<circ> Suc) ` {k. k < n \<and> kept_place (max_count r) k}" "A (g n) \<notin> (A \<circ> g) ` {..<n}"
        using A(1) k(2) True by (auto simp: inj_eq dest: gn(1))
      with d'(2) True k(2) A(1) show ?thesis by (auto simp: shifted_def d1_def kp_def inj_eq)
    next
      case False
      with k have "k < n" "g k \<notin> Suc ` {k. k < n \<and> kept_place (max_count r) k}" by auto
      with d'(2) show ?thesis by (simp add: shifted_def)
    qed
  next
    fix p assume "p \<notin> (A \<circ> Suc) ` {k. k < Suc n \<and> kept_place (max_count r) k} \<and> p \<notin> (A \<circ> g) ` {..<Suc n}"
    then have "p \<notin> (A \<circ> Suc) ` {k. k < n \<and> kept_place (max_count r) k} \<and> p \<notin> (A \<circ> g) ` {..<n}" "p \<noteq> A (g n)" "kp \<longrightarrow> p \<noteq> A (Suc n)"
      by (auto simp: kp_def image_iff)
    with d'(2) show "d' p = d p" unfolding shifted_def d1_def by auto
  qed
  with run d'(1) show ?case by metis
qed

section \<open>Rotating\<close>

lemma numbered_files [simp]: "numbered (r\<lparr>files := x\<rparr>) = numbered r"
  by (simp add: fun_eq_iff numbered_def)

lemma rotate_run:
  assumes "\<not> lock_mutex r" "d base = Some s" "length s + msg_len > max_size" "length base + 2 \<le> MAXLEN_PATH"
    and list: "zlog_rotater_add_archive_files True True (\<lambda>_. (True, True)) glob (rolling (r\<lparr>lock_mutex := True\<rparr>) base cnt)
      = Ret (0, (rolling (r\<lparr>lock_mutex := True\<rparr>) base cnt)\<lparr>files := Some l\<rparr>)" "arraylist_ok l"
    and roll: "zlog_rotater_roll_files free ((rolling (r\<lparr>lock_mutex := True\<rparr>) base cnt)\<lparr>files := Some l\<rparr>) l d = Ret (0, d')"
  shows "\<exists>r'. zlog_rotater_rotate True funlock True True (\<lambda>_. (True, True)) glob free r base msg_len [] max_size cnt d = Ret (0, r', d') \<and> \<not> lock_mutex r'"
proof -
  obtain ds where "zc_arraylist_del l = Ret ds" using arraylist_del_ret [OF list(2)] by blast
  then have clean: "\<exists>r'. zlog_rotater_clean ((rolling (r\<lparr>lock_mutex := True\<rparr>) base cnt)\<lparr>files := Some l\<rparr>) = Ret r'" by (simp add: zlog_rotater_clean_def)
  with assms(1-3) parse_rolling [OF assms(4)] list(1) roll clean show ?thesis
    by (auto simp: zlog_rotater_rotate_def zlog_rotater_trylock_def zlog_rotater_lsmv_def zlog_rotater_unlock_def)
qed



text \<open>C39: When two of the numbers are missing, rolling destroys an archive. With the archives \<open>aa.2\<close> and \<open>aa.3\<close> and no limit for their number, \<open>aa.3\<close> is at the second place
  and is renamed to \<open>aa.2\<close>, over the archive that is still to be moved: what was in \<open>aa.2\<close> is on the disk no more.\<close>

theorem rotate_gap_loses:
  assumes "\<not> lock_mutex r" "d base = Some s" "length s + msg_len > max_size" "cnt \<le> 0"
    and "d (archive_of base 2) = Some x" "d (archive_of base 3) = Some y" "\<forall>j \<le> 3. length (archive_of base j) \<le> MAXLEN_PATH"
    and "free base" "\<forall>j. free (archive_of base j)"
    and "glob (base @ ''.*'') = Glob_Paths pathv" "mset pathv = {#archive_of base 2, archive_of base 3#}"
  shows "\<exists>r' d'. zlog_rotater_rotate True funlock True True (\<lambda>_. (True, True)) glob free r base msg_len [] max_size cnt d = Ret (0, r', d')
    \<and> d' = d(base := None, archive_of base 0 := Some s, archive_of base 1 := Some y, archive_of base 2 := None, archive_of base 3 := None)"
proof -
  let ?A = "archive_of base" and ?r = "rolling (r\<lparr>lock_mutex := True\<rparr>) base cnt"
  have len: "length base + 2 \<le> MAXLEN_PATH"
    using assms(7) [rule_format, of 0] show_nat_nonempty [of 0] by (cases "show_nat 0") (auto simp: archive_of_def)
  have "\<forall>j \<in> set [2, 3]. j < 2 ^ 31 \<and> length (?A j) \<le> MAXLEN_PATH" using assms(7) by simp
  from list_archives [where glob = glob and pathv = pathv, OF _ _ this, of "r\<lparr>lock_mutex := True\<rparr>" cnt] assms(10,11) obtain l where
    l: "zlog_rotater_add_archive_files True True (\<lambda>_. (True, True)) glob ?r = Ret (0, ?r\<lparr>files := Some l\<rparr>)" "arraylist_ok l"
      "slots l = map Some (map (\<lambda>j. \<lparr>file_index = int j, file_path = ?A j\<rparr>) [2, 3])" by (auto simp: glob_list_def)
  have al: "nat (al_len l) = Suc (Suc 0)" using len_slots [OF l(2)] l(3) by simp
  have get: "zc_arraylist_get l 0 = Ret (Some \<lparr>file_index = 2, file_path = ?A 2\<rparr>)" "zc_arraylist_get l 1 = Ret (Some \<lparr>file_index = 3, file_path = ?A 3\<rparr>)"
    using get_slot [OF l(2,3), of 0] get_slot [OF l(2,3), of 1] by simp_all
  have mv: "move_to free (?r\<lparr>files := Some l\<rparr>) p j e = Ret (0, e(p := None, ?A j := e p))" if "free p" "j \<le> 3" "e p \<noteq> None" for p j e
    using move_to_ok [of "?r\<lparr>files := Some l\<rparr>" j free p e] that assms(7,9) len by simp
  let ?d' = "d(base := None, ?A 0 := Some s, ?A 1 := Some y, ?A 2 := None, ?A 3 := None)"
  have "zlog_rotater_roll_files free (?r\<lparr>files := Some l\<rparr>) l d = Ret (0, ?d')"
    unfolding zlog_rotater_roll_files_def al using get mv assms(2,4-6,8,9)
    by (simp add: fun_eq_iff)
  from rotate_run [OF assms(1-3) len l(1,2) this, of funlock] show ?thesis by blast
qed

theorem rotate_gap_loses_witness:
  "\<exists>r' d'. zlog_rotater_rotate True True True True (\<lambda>_. (True, True)) (\<lambda>_. Glob_Paths [archive_of ''a'' 2, archive_of ''a'' 3]) (\<lambda>_. True)
      (the (zlog_rotater_new True True True)) ''a'' 2 [] 3 0 [''a'' \<mapsto> ''new'', archive_of ''a'' 2 \<mapsto> ''old'', archive_of ''a'' 3 \<mapsto> ''older''] = Ret (0, r', d')
     \<and> ''old'' \<notin> ran d'"
proof -
  let ?d = "[''a'' \<mapsto> ''new'', archive_of ''a'' 2 \<mapsto> ''old'', archive_of ''a'' 3 \<mapsto> ''older'']"
  have len: "\<forall>j \<le> 3. length (archive_of ''a'' j) \<le> MAXLEN_PATH"
    by (auto simp: archive_of_def MAXLEN_PATH_def show_nat.simps)
  from rotate_gap_loses [of "the (zlog_rotater_new True True True)" ?d "''a''" "''new''" 3 2 0 "''old''" "''older''" "\<lambda>_. True"
      "\<lambda>_. Glob_Paths [archive_of ''a'' 2, archive_of ''a'' 3]" "[archive_of ''a'' 2, archive_of ''a'' 3]" True] len
  show ?thesis
    by (auto simp: zlog_rotater_new_def ran_def split: if_splits)
qed

section \<open>Sequences\<close>

lemma slot_at_files:
  assumes "arraylist_ok l" "slots l = map Some fs" "i < length fs"
  shows "slot_at l (int i) = Ret (Some (fs ! i))"
  using get_slot [OF assms] assms(3) len_slots [OF assms(1)] assms(2) by (simp add: zc_arraylist_get_def)

lemma unlink_old_removes:
  assumes l: "arraylist_ok l" "slots l = map Some fs" and free: "\<forall>f \<in> set fs. free (file_path f)" and dist: "distinct (map file_path fs)"
    and d: "\<forall>k. i \<le> k \<and> k < length fs \<longrightarrow> d (file_path (fs ! k)) \<noteq> None" and i: "i + rest = length fs"
  shows "unlink_old rest free r l (int i) d
    = Ret (0, \<lambda>p. if \<exists>k \<ge> i. k < length fs \<and> max_count r > 0 \<and> int k < int (length fs) - max_count r \<and> p = file_path (fs ! k) then None else d p)"
  using d i
proof (induction rest arbitrary: i d)
  case 0
  then show ?case by (auto simp: fun_eq_iff)
next
  case (Suc rest)
  let ?gone = "\<lambda>k. max_count r > 0 \<and> int k < int (length fs) - max_count r"
  let ?d = "if ?gone i then d(file_path (fs ! i) := None) else d"
  have i: "i < length fs" using Suc.prems(2) by simp
  have al: "al_len l = int (length fs)" using len_slots [OF l(1)] l(2) by simp
  have "disk_unlink free d (file_path (fs ! i)) = (0, d(file_path (fs ! i) := None))" using free Suc.prems(1) i by (simp add: disk_unlink_def)
  then have "unlink_old (Suc rest) free r l (int i) d = unlink_old rest free r l (int (Suc i)) ?d"
    using slot_at_files [OF l i] al by (simp add: add.commute)
  also have "\<dots> = Ret (0, \<lambda>p. if \<exists>k \<ge> Suc i. k < length fs \<and> ?gone k \<and> p = file_path (fs ! k) then None else ?d p)"
  proof -
    have "\<forall>k. Suc i \<le> k \<and> k < length fs \<longrightarrow> ?d (file_path (fs ! k)) \<noteq> None"
      using Suc.prems(1) dist i by (auto simp: distinct_conv_nth)
    from Suc.IH [OF this] Suc.prems(2) show ?thesis by (simp add: conj_assoc)
  qed
  also have "\<dots> = Ret (0, \<lambda>p. if \<exists>k \<ge> i. k < length fs \<and> ?gone k \<and> p = file_path (fs ! k) then None else d p)"
  proof -
    have "(if \<exists>k \<ge> Suc i. k < length fs \<and> ?gone k \<and> p = file_path (fs ! k) then None else ?d p)
        = (if \<exists>k \<ge> i. k < length fs \<and> ?gone k \<and> p = file_path (fs ! k) then None else d p)" for p
      using i by (cases "?gone i \<and> p = file_path (fs ! i)") (auto simp: Suc_le_eq order_le_less)
    then show ?thesis by simp
  qed
  finally show ?case by (simp add: conj_assoc)
qed

text \<open>C38: Numbering in sequence. The log file becomes the archive with the number behind the greatest in use, so none is overwritten, and of the \<open>n\<close> archives the
  \<open>n - max_count\<close> oldest are removed. With the new one, \<open>max_count + 1\<close> archives are left: one more than rolling leaves for the same setting.\<close>

theorem rotate_sequence:
  assumes "arraylist_ok l" "slots l = map (\<lambda>j. Some \<lparr>file_index = int j, file_path = numbered r j\<rparr>) ns" "sorted ns" "distinct ns"
    and "inj (numbered r)" "base_path r \<notin> range (numbered r)" "free (base_path r)" "\<forall>j. free (numbered r j)" "d (base_path r) = Some s"
    and "\<forall>j \<in> set ns. d (numbered r j) \<noteq> None" "num_end_len r \<le> MAXLEN_PATH"
    and "new = (if ns = [] then 0 else Suc (last ns))" "new < 2 ^ 31" "length (numbered r new) \<le> MAXLEN_PATH"
    and "gone = (if max_count r > 0 then length ns - nat (max_count r) else 0)"
  shows "\<exists>d'. zlog_rotater_seq_files free r l d = Ret (0, d') \<and> d' (base_path r) = None \<and> d' (numbered r new) = Some s
    \<and> (\<forall>j \<in> set (take gone ns). d' (numbered r j) = None) \<and> (\<forall>j \<in> set (drop gone ns). d' (numbered r j) = d (numbered r j))
    \<and> (max_count r > 0 \<and> int (length ns) \<ge> max_count r \<longrightarrow> int (card (insert new (set (drop gone ns)))) = max_count r + 1)"
proof -
  let ?A = "numbered r" and ?n = "length ns"
  let ?fs = "map (\<lambda>j. \<lparr>file_index = int j, file_path = ?A j\<rparr>) ns"
  have sl: "slots l = map Some ?fs" using assms(2) by simp
  have al: "al_len l = int ?n" using len_slots [OF assms(1)] sl by simp
  define d1 where "d1 p = (if \<exists>k \<ge> 0. k < length ?fs \<and> max_count r > 0 \<and> int k < int (length ?fs) - max_count r \<and> p = file_path (?fs ! k) then None else d p)" for p
  have un: "unlink_old ?n free r l 0 d = Ret (0, d1)"
    unfolding d1_def using unlink_old_removes [OF assms(1) sl, of free 0 d ?n r] assms(4,5,8,10)
    by (simp add: distinct_map inj_on_subset comp_def)
  have "{k. k < ?n \<and> max_count r > 0 \<and> int k < int ?n - max_count r} = {0..<gone}" by (auto simp: assms(15))
  then have st: "set (take gone ns) = (!) ns ` {k. k < ?n \<and> max_count r > 0 \<and> int k < int ?n - max_count r}"
    using nth_image [of gone ns] by (simp add: assms(15))
  have k: "(\<exists>k. k < ?n \<and> max_count r > 0 \<and> int k < int ?n - max_count r \<and> p = ?A (ns ! k)) \<longleftrightarrow> p \<in> ?A ` set (take gone ns)" for p
    unfolding st by auto
  have d1: "d1 p = (if p \<in> ?A ` set (take gone ns) then None else d p)" for p
    using k [of p] by (auto simp: d1_def)
  have lt: "j < new" if "j \<in> set ns" for j
  proof -
    from that obtain k where k: "k < ?n" "j = ns ! k" by (auto simp: in_set_conv_nth)
    then have "ns ! k \<le> ns ! (?n - 1)" using assms(3) by (intro sorted_nth_mono) auto
    with k that show ?thesis by (auto simp: assms(12) last_conv_nth)
  qed
  have len: "?n \<le> new" using card_mono [of "{..<new}" "set ns"] lt distinct_card [OF assms(4)] by auto
  have base: "d1 (base_path r) = Some s" using assms(6,9) by (auto simp: d1)
  have "zlog_rotater_seq_files free r l d = move_to free r (base_path r) new d1"
  proof (cases "ns = []")
    case False
    have "zc_arraylist_get l (int (?n - 1)) = Ret (Some (?fs ! (?n - 1)))" using get_slot [OF assms(1) sl, of "?n - 1"] False by simp
    moreover have "zc_max (int ?n - 1) (int (last ns)) = int (last ns)" using len False by (simp add: zc_max_def assms(12))
    moreover have "nat (int (ns ! (?n - Suc 0)) + 1) = Suc (ns ! (?n - Suc 0))" by simp
    ultimately show ?thesis using False al un assms(12,13)
      by (simp add: zlog_rotater_seq_files_def last_conv_nth of_nat_diff Suc_leI)
  qed (use al un assms(12) in \<open>simp add: zlog_rotater_seq_files_def\<close>)
  then have run: "zlog_rotater_seq_files free r l d = Ret (0, d1(base_path r := None, ?A new := Some s))"
    using move_to_ok [of r new free "base_path r" d1] assms(7,8,11,14) base by simp
  have nin: "j \<noteq> new" if "j \<in> set ns" for j using lt [OF that] by simp
  then have nin2: "new \<notin> set (take gone ns)" "new \<notin> set (drop gone ns)" by (auto dest: in_set_takeD in_set_dropD)
  have keep: "set (take gone ns) \<inter> set (drop gone ns) = {}" by (rule set_take_disj_set_drop_if_distinct [OF assms(4)]) simp
  have "int (card (insert new (set (drop gone ns)))) = max_count r + 1" if "max_count r > 0" "int ?n \<ge> max_count r"
    using that nin distinct_card [OF distinct_drop [OF assms(4)], of gone] by (subst card_insert_disjoint) (auto dest: in_set_dropD simp: assms(15))
  moreover have "?A j \<noteq> base_path r" "base_path r \<noteq> ?A j" for j using assms(6) by (metis rangeI)+
  ultimately show ?thesis using run keep nin2 assms(5)
    by (auto simp: d1 inj_eq)
qed

theorem rotate_sequence_witness:
  "\<exists>d'. zlog_rotater_seq_files (\<lambda>_. True) ((rolling (the (zlog_rotater_new True True True)) ''a'' 1)\<lparr>mv_type := SEQUENCE\<rparr>)
      \<lparr>array = Some [Some \<lparr>file_index = 4, file_path = archive_of ''a'' 4\<rparr>, Some \<lparr>file_index = 7, file_path = archive_of ''a'' 7\<rparr>], al_len = 2, al_size = 2,
        al_del = True, al_deleted = []\<rparr>
      [''a'' \<mapsto> ''new'', archive_of ''a'' 4 \<mapsto> ''older'', archive_of ''a'' 7 \<mapsto> ''old''] = Ret (0, d')
     \<and> d' (archive_of ''a'' 4) = None \<and> d' (archive_of ''a'' 7) = Some ''old'' \<and> d' (archive_of ''a'' 8) = Some ''new''"
proof -
  let ?d = "[''a'' \<mapsto> ''new'', archive_of ''a'' 4 \<mapsto> ''older'', archive_of ''a'' 7 \<mapsto> ''old'']"
  let ?r = "(rolling (the (zlog_rotater_new True True True)) ''a'' 1)\<lparr>mv_type := SEQUENCE\<rparr>"
  let ?l = "\<lparr>array = Some [Some \<lparr>file_index = 4, file_path = archive_of ''a'' 4\<rparr>, Some \<lparr>file_index = 7, file_path = archive_of ''a'' 7\<rparr>], al_len = 2,
    al_size = 2, al_del = True, al_deleted = []\<rparr>"
  have A: "numbered ?r = archive_of ''a''" using numbered_rolling [of "the (zlog_rotater_new True True True)" "''a''" 1] by (simp add: fun_eq_iff numbered_def)
  have l: "arraylist_ok ?l" "slots ?l = map (\<lambda>j. Some \<lparr>file_index = int j, file_path = numbered ?r j\<rparr>) [4, 7]"
    unfolding A by (simp_all add: arraylist_ok_def slots_def)
  have s8: "length (show_nat 8) = 1" by (simp add: show_nat.simps)
  have n: "inj (numbered ?r)" "length (numbered ?r 8) \<le> MAXLEN_PATH" "num_end_len ?r \<le> MAXLEN_PATH"
    unfolding A by (simp_all add: inj_def) (simp_all add: archive_of_def MAXLEN_PATH_def s8)
  have f: "sorted [4, 7 :: nat]" "distinct [4, 7 :: nat]" "base_path ?r \<notin> range (numbered ?r)" "?d (base_path ?r) = Some ''new''"
      "\<forall>j \<in> set [4, 7]. ?d (numbered ?r j) \<noteq> None" "8 = (if [4, 7 :: nat] = [] then 0 else Suc (last [4, 7]))" "(8 :: nat) < 2 ^ 31"
      "1 = (if max_count ?r > 0 then length [4, 7 :: nat] - nat (max_count ?r) else 0)" "\<forall>j :: nat. True"
    unfolding A by (simp_all add: image_iff)
  note rotate_sequence [OF l f(1,2) n(1) f(3), where free = "\<lambda>_. True" and d = ?d, OF TrueI f(9,4,5) n(3) f(6,7) n(2) f(8)]
  then obtain d' where "zlog_rotater_seq_files (\<lambda>_. True) ?r ?l ?d = Ret (0, d')" "d' (numbered ?r 8) = Some ''new''"
      "\<forall>j \<in> set (take 1 [4, 7]). d' (numbered ?r j) = None" "\<forall>j \<in> set (drop 1 [4, 7]). d' (numbered ?r j) = ?d (numbered ?r j)"
    by (elim exE conjE) (rule that, assumption+)
  then show ?thesis unfolding A by simp
qed

end
