(* ===== verification/Zlog_Category.thy ===== *)
theory Zlog_Category
  imports Zlog_Level "HOL-Library.Word" "HOL-Library.Signed_Division"
begin

text \<open>
  Which rules a message goes to (\<open>zlog/src/category.c\<close>, the selectors of \<open>zlog/src/rule.c\<close>): the rules that fit a category, the bitmap of the levels they let through, and
  their exchange when the configuration is read again.

  \<^item> A rule has its selector and the function its field \<open>output\<close> points to (\<open>rule_output\<close>); the functions themselves are not modelled. The state they work on, thread and files, is the type \<open>'st\<close>.
  \<^item> A bitmap is the list of its 32 bytes. Levels are \<open>int\<close>, and the divisions of the code round towards zero.
\<close>

unbundle bit_operations_syntax

section \<open>Rules\<close>

record 'st zlog_rule =
  rule_category :: string
  compare_char :: char
  rule_level :: int
  level_bitmap :: "8 word list"
  rule_output :: "'st \<Rightarrow> int \<times> 'st"

definition category_char :: "char \<Rightarrow> bool" where
  "category_char c \<longleftrightarrow> isdigit c \<or> isupper c \<or> islower c \<or> c = CHR ''_'' \<or> c = CHR ''*'' \<or> c = CHR ''!''"

text \<open>\<open>sscanf(selector, " %[^.].%s", category, level)\<close>, when both are there.\<close>

definition scan_selector :: "string \<Rightarrow> (string \<times> string) option" where
  "scan_selector selector =
     (let category = takeWhile (\<lambda>c. c \<noteq> CHR ''.'') selector; r = dropWhile (\<lambda>c. c \<noteq> CHR ''.'') selector in
      if category = [] \<or> length r \<le> 1 then None else Some (category, tl r))"

text \<open>The character that says how levels are compared, and the name of the level.\<close>

definition scan_compare :: "string \<Rightarrow> char \<times> string" where
  "scan_compare level =
     (case level of
        [] \<Rightarrow> (CHR ''.'', [])
      | c # p \<Rightarrow>
          if c = CHR ''='' then (CHR ''='', p)
          else if c = CHR ''!'' then (CHR ''!'', p)
          else if c = CHR ''*'' then (CHR ''*'', level)
          else (CHR ''.'', level))"

text \<open>\<open>|=\<close> and \<open>&=\<close> on a byte of the bitmap, with an \<open>int\<close> on the right.\<close>

definition or_byte :: "8 word list \<Rightarrow> nat \<Rightarrow> 32 word \<Rightarrow> 8 word list" where
  "or_byte m i w = m[i := m ! i OR ucast w]"

definition and_byte :: "8 word list \<Rightarrow> nat \<Rightarrow> 32 word \<Rightarrow> 8 word list" where
  "and_byte m i w = m[i := m ! i AND ucast w]"

definition rule_bitmap :: "char \<Rightarrow> int \<Rightarrow> 8 word list" where
  "rule_bitmap c level =
     (let i = nat (level sdiv 8); s = nat (7 - level smod 8) in
      if c = CHR ''='' then or_byte (replicate 32 0) i (push_bit s 1)
      else if c = CHR ''!'' then and_byte (replicate 32 0xFF) i (NOT (push_bit s 1))
      else if c = CHR ''*'' then replicate 32 0xFF
      else take (i + 1) (or_byte (replicate 32 0) i (NOT (push_bit (s + 1) 0xFF))) @ replicate (32 - (i + 1)) 0xFF)"

text \<open>The part of \<open>zlog_rule_new\<close> that reads the selector of a line. The arrays are as long as a line of the configuration, which has no line breaks.\<close>

definition rule_select :: "zlog_levels \<Rightarrow> string \<Rightarrow> ('st \<Rightarrow> int \<times> 'st) \<Rightarrow> 'st zlog_rule option res" where
  "rule_select levels line out =
     (let selector = takeWhile (\<lambda>c. \<not> isspace c) (skip_space line) in
      case scan_selector selector of
        None \<Rightarrow> Ret None
      | Some (category, level) \<Rightarrow>
          if \<not> list_all category_char category then Ret None
          else
            let (c, p) = scan_compare level in
            bnd (zlog_level_list_atoi levels (Some p)) (\<lambda>l.
            Ret (Some \<lparr>rule_category = category, compare_char = c, rule_level = l, level_bitmap = rule_bitmap c l, rule_output = out\<rparr>)))"

definition zlog_rule_output :: "'st zlog_rule \<Rightarrow> int \<Rightarrow> 'st \<Rightarrow> int \<times> 'st" where
  "zlog_rule_output r level th =
     (if compare_char r = CHR ''*'' then rule_output r th
      else if compare_char r = CHR ''.'' then (if level \<ge> rule_level r then rule_output r th else (0, th))
      else if compare_char r = CHR ''='' then (if level = rule_level r then rule_output r th else (0, th))
      else if compare_char r = CHR ''!'' then (if level \<noteq> rule_level r then rule_output r th else (0, th))
      else (0, th))"

definition zlog_rule_is_wastebin :: "'st zlog_rule \<Rightarrow> bool" where
  "zlog_rule_is_wastebin r \<longleftrightarrow> rule_category r = ''!''"

text \<open>\<open>strncmp\<close> compares up to the end of the shorter text, so a category that is shorter than the rule's does not match.\<close>

definition zlog_rule_match_category :: "'st zlog_rule \<Rightarrow> string \<Rightarrow> bool" where
  "zlog_rule_match_category r category \<longleftrightarrow>
     (if rule_category r = ''*'' then True
      else if rule_category r = category then True
      else if last (rule_category r) = CHR ''_'' then
        let len = (if length category = length (rule_category r) - 1 then length (rule_category r) - 1 else length (rule_category r)) in
        take len (rule_category r) = take len category
      else False)"

section \<open>Categories\<close>

record 'st zlog_category =
  cat_name :: string
  cat_bitmap :: "8 word list"
  cat_bitmap_backup :: "8 word list"
  fit_rules :: "'st zlog_rule zc_arraylist option"
  fit_rules_backup :: "'st zlog_rule zc_arraylist option"

definition zlog_cateogry_overlap_bitmap :: "'st zlog_category \<Rightarrow> 'st zlog_rule \<Rightarrow> 'st zlog_category" where
  "zlog_cateogry_overlap_bitmap c r = c\<lparr>cat_bitmap := map2 (OR) (cat_bitmap c) (level_bitmap r)\<rparr>"

text \<open>A rule is added to the fitting ones. \<open>mem\<close> says whether the list can grow.\<close>

definition add_rule :: "bool \<Rightarrow> 'st zlog_category \<Rightarrow> 'st zlog_rule \<Rightarrow> (int \<times> 'st zlog_category) res" where
  "add_rule mem c r =
     (case fit_rules c of
        None \<Rightarrow> Crash Null_Deref
      | Some l \<Rightarrow>
          bnd (zc_arraylist_add mem l r) (\<lambda>(rc, l').
          let c' = c\<lparr>fit_rules := Some l'\<rparr> in
          if rc \<noteq> 0 then Ret (-1, c') else Ret (0, zlog_cateogry_overlap_bitmap c' r)))"

text \<open>The loop over the rules: the number of those that fit, and the last wastebin rule.\<close>

primrec fit_loop ::
  "(nat \<Rightarrow> bool) \<Rightarrow> 'st zlog_rule list \<Rightarrow> nat \<Rightarrow> 'st zlog_rule option \<Rightarrow> 'st zlog_category \<Rightarrow> (int \<times> nat \<times> 'st zlog_rule option \<times> 'st zlog_category) res" where
  "fit_loop mem [] n wastebin c = Ret (0, n, wastebin, c)"
| "fit_loop mem (r # rs) n wastebin c =
     (let wastebin' = (if zlog_rule_is_wastebin r then Some r else wastebin) in
      if zlog_rule_match_category r (cat_name c)
      then bnd (add_rule (mem n) c r) (\<lambda>(rc, c').
        if rc \<noteq> 0 then Ret (-1, n, wastebin, c') else fit_loop mem rs (n + 1) wastebin' c')
      else fit_loop mem rs n wastebin' c)"

definition drop_rules :: "'st zlog_rule zc_arraylist option \<Rightarrow> unit res" where
  "drop_rules l = (case l of None \<Rightarrow> Ret () | Some l \<Rightarrow> bnd (zc_arraylist_del l) (\<lambda>_. Ret ()))"

definition zlog_category_obtain_rules ::
  "bool \<Rightarrow> bool \<Rightarrow> (nat \<Rightarrow> bool) \<Rightarrow> 'st zlog_category \<Rightarrow> 'st zlog_rule list \<Rightarrow> (int \<times> 'st zlog_category) res" where
  "zlog_category_obtain_rules mem1 mem2 mem c rules =
     bnd (drop_rules (fit_rules c)) (\<lambda>_.
     let c1 = c\<lparr>cat_bitmap := replicate 32 0, fit_rules := zc_arraylist_new mem1 mem2 False\<rparr> in
     if fit_rules c1 = None then Ret (-1, c1)
     else
       bnd (fit_loop mem rules 0 None c1) (\<lambda>(rc, n, wastebin, c2).
       bnd (if rc = 0 \<and> n = 0 then (case wastebin of Some r \<Rightarrow> add_rule (mem 0) c2 r | None \<Rightarrow> Ret (0, c2)) else Ret (rc, c2)) (\<lambda>(rc', c3).
       if rc' \<noteq> 0 then bnd (drop_rules (fit_rules c3)) (\<lambda>_. Ret (-1, c3\<lparr>fit_rules := None\<rparr>)) else Ret (0, c3))))"

definition zlog_category_new ::
  "bool \<Rightarrow> bool \<Rightarrow> bool \<Rightarrow> (nat \<Rightarrow> bool) \<Rightarrow> string \<Rightarrow> 'st zlog_rule list \<Rightarrow> 'st zlog_category option res" where
  "zlog_category_new mem0 mem1 mem2 mem name rules =
     (if length name > MAXLEN_PATH then Ret None
      else if \<not> mem0 then Ret None
      else
        bnd (zlog_category_obtain_rules mem1 mem2 mem
          \<lparr>cat_name = name, cat_bitmap = replicate 32 0, cat_bitmap_backup = replicate 32 0, fit_rules = None, fit_rules_backup = None\<rparr> rules) (\<lambda>(rc, c).
        if rc \<noteq> 0 then bnd (drop_rules (fit_rules c)) (\<lambda>_. Ret None) else Ret (Some c)))"

definition zlog_category_update_rules ::
  "bool \<Rightarrow> bool \<Rightarrow> (nat \<Rightarrow> bool) \<Rightarrow> 'st zlog_category \<Rightarrow> 'st zlog_rule list \<Rightarrow> (int \<times> 'st zlog_category) res" where
  "zlog_category_update_rules mem1 mem2 mem c new_rules =
     bnd (drop_rules (fit_rules_backup c)) (\<lambda>_.
     bnd (zlog_category_obtain_rules mem1 mem2 mem (c\<lparr>fit_rules_backup := fit_rules c, fit_rules := None, cat_bitmap_backup := cat_bitmap c\<rparr>) new_rules) (\<lambda>(rc, c').
     if rc \<noteq> 0 then Ret (-1, c'\<lparr>fit_rules := None\<rparr>) else Ret (0, c')))"

definition zlog_category_commit_rules :: "'st zlog_category \<Rightarrow> 'st zlog_category res" where
  "zlog_category_commit_rules c =
     (if fit_rules_backup c = None then Ret c
      else bnd (drop_rules (fit_rules_backup c)) (\<lambda>_. Ret (c\<lparr>fit_rules_backup := None, cat_bitmap_backup := replicate 32 0\<rparr>)))"

definition zlog_category_rollback_rules :: "'st zlog_category \<Rightarrow> 'st zlog_category res" where
  "zlog_category_rollback_rules c =
     (if fit_rules_backup c = None then Ret c
      else
        bnd (drop_rules (fit_rules c)) (\<lambda>_.
        Ret (c\<lparr>fit_rules := fit_rules_backup c, fit_rules_backup := None, cat_bitmap := cat_bitmap_backup c, cat_bitmap_backup := replicate 32 0\<rparr>)))"

text \<open>The result of the last rule is returned.\<close>

primrec output_rules :: "'st zlog_rule list \<Rightarrow> int \<Rightarrow> int \<Rightarrow> 'st \<Rightarrow> int \<times> 'st" where
  "output_rules [] level rc th = (rc, th)"
| "output_rules (r # rs) level rc th = (let (rc', th') = zlog_rule_output r level th in output_rules rs level rc' th')"

definition zlog_category_output :: "'st zlog_category \<Rightarrow> int \<Rightarrow> 'st \<Rightarrow> (int \<times> 'st) res" where
  "zlog_category_output c level th =
     (case fit_rules c of
        None \<Rightarrow> Crash Null_Deref
      | Some l \<Rightarrow> (case array l of None \<Rightarrow> Crash Out_Of_Bounds | Some _ \<Rightarrow> Ret (output_rules (map the (slots l)) level 0 th)))"

text \<open>The macro \<open>zlog_category_needless_level\<close>.\<close>

definition zlog_category_needless_level :: "'st zlog_category \<Rightarrow> int \<Rightarrow> bool res" where
  "zlog_category_needless_level c lv =
     (let i = lv sdiv 8 in
      if i < 0 \<or> i \<ge> 32 then Crash Out_Of_Bounds
      else Ret (drop_bit (nat (7 - lv smod 8)) (ucast (cat_bitmap c ! nat i) :: 32 word) AND 1 = 0))"

section \<open>Bitmaps\<close>

text \<open>The bit of a level, the most significant bit of a byte first.\<close>

definition level_bit :: "8 word list \<Rightarrow> nat \<Rightarrow> bool" where
  "level_bit m lv = bit (m ! (lv div 8)) (7 - lv mod 8)"

text \<open>When a rule lets a level through.\<close>

definition passes :: "'st zlog_rule \<Rightarrow> int \<Rightarrow> bool" where
  "passes r level \<longleftrightarrow> compare_char r = CHR ''*'' \<or> compare_char r = CHR ''.'' \<and> level \<ge> rule_level r
     \<or> compare_char r = CHR ''='' \<and> level = rule_level r \<or> compare_char r = CHR ''!'' \<and> level \<noteq> rule_level r"

definition rule_ok :: "'st zlog_rule \<Rightarrow> bool" where
  "rule_ok r \<longleftrightarrow> compare_char r \<in> set ''*.=!'' \<and> -1 \<le> rule_level r \<and> rule_level r < 256 \<and> level_bitmap r = rule_bitmap (compare_char r) (rule_level r)"

lemma rule_output_eq: "zlog_rule_output r level th = (if passes r level then rule_output r th else (0, th))"
  by (auto simp: zlog_rule_output_def passes_def)

lemma bit_255 [simp]: "bit (255 :: int) n \<longleftrightarrow> n < 8"
proof -
  have "(255 :: int) = mask 8" by (simp add: mask_eq_exp_minus_1)
  then show ?thesis by (simp only: bit_mask_iff) auto
qed

lemma byte_bits:
  assumes "n < 8" "s \<le> 9"
  shows "bit (ucast (push_bit s 1 :: 32 word) :: 8 word) n \<longleftrightarrow> n = s"
    "bit (ucast (NOT (push_bit s 1) :: 32 word) :: 8 word) n \<longleftrightarrow> n \<noteq> s"
    "bit (ucast (NOT (push_bit s 0xFF) :: 32 word) :: 8 word) n \<longleftrightarrow> n < s"
  using assms by (auto simp: bit_simps)

lemma level_byte:
  assumes "n < 256"
  shows "int n sdiv 8 = int (n div 8)" "nat (7 - int n smod 8) = 7 - n mod 8" "n div 8 < 32"
proof -
  have "int n smod 8 = int (n mod 8)" by (cases "n = 0") (simp_all add: signed_modulo_int_def zmod_int)
  then show "nat (7 - int n smod 8) = 7 - n mod 8" by linarith
  show "int n sdiv 8 = int (n div 8)" by (cases "n = 0") (simp_all add: signed_divide_int_def zdiv_int)
qed (use assms in \<open>simp add: less_mult_imp_div_less\<close>)

lemma level_byte_1 [simp]: "(1 :: int) sdiv 8 = 0" "(1 :: int) smod 8 = 1"
  by (simp_all add: signed_divide_int_def signed_modulo_int_def)

lemma length_rule_bitmap: "-1 \<le> l \<Longrightarrow> l < 256 \<Longrightarrow> length (rule_bitmap c l) = 32"
proof -
  assume l: "-1 \<le> l" "l < 256"
  have "nat (l sdiv 8) < 32"
  proof (cases "l = -1")
    case False
    with l level_byte [of "nat l"] show ?thesis by simp
  qed simp
  then show ?thesis by (auto simp: rule_bitmap_def Let_def or_byte_def and_byte_def)
qed

lemma div_mod_le: "lv div 8 = n div 8 \<Longrightarrow> 7 - lv mod 8 < Suc (7 - n mod 8) \<longleftrightarrow> n \<le> (lv :: nat)"
proof -
  assume eq: "lv div 8 = n div 8"
  have "lv = 8 * (lv div 8) + lv mod 8" "n = 8 * (n div 8) + n mod 8" "lv mod 8 < 8" "n mod 8 < 8" by simp_all
  with eq show ?thesis by linarith
qed

lemma div_mod_eq: "lv = (n :: nat) \<longleftrightarrow> lv div 8 = n div 8 \<and> 7 - lv mod 8 = 7 - n mod 8"
proof
  have "lv = 8 * (lv div 8) + lv mod 8" "n = 8 * (n div 8) + n mod 8" "lv mod 8 < 8" "n mod 8 < 8" by simp_all
  then show "lv = n" if "lv div 8 = n div 8 \<and> 7 - lv mod 8 = 7 - n mod 8" using that by linarith
qed simp

lemma rule_bitmap_bit:
  assumes n: "n < 256" and lv: "lv < 256" and c: "c \<in> set ''*.=!''"
  shows "level_bit (rule_bitmap c (int n)) lv
    \<longleftrightarrow> c = CHR ''*'' \<or> c = CHR ''.'' \<and> n \<le> lv \<or> c = CHR ''='' \<and> lv = n \<or> c = CHR ''!'' \<and> lv \<noteq> n"
proof -
  note b = level_byte [OF n]
  have i: "lv div 8 < 32" "7 - lv mod 8 < 8" using lv level_byte(3) by auto
  note bits = byte_bits [OF i(2)]
  have s: "7 - n mod 8 \<le> 9" by linarith
  consider "c = CHR ''*''" | "c = CHR ''.''" | "c = CHR ''=''" | "c = CHR ''!''" using c by auto
  then show ?thesis
  proof cases
    case 1
    with i show ?thesis by (simp add: level_bit_def rule_bitmap_def Let_def)
  next
    case 2
    consider "lv div 8 < n div 8" | "lv div 8 = n div 8" | "lv div 8 > n div 8" by linarith
    then show ?thesis
    proof cases
      case 1
      then have "\<not> n \<le> lv" using div_le_mono [of n lv 8] by linarith
      with 1 2 b i show ?thesis by (simp add: level_bit_def rule_bitmap_def or_byte_def nth_append Let_def del: push_bit_Suc)
    next
      case eq: 2
      have "Suc (7 - n mod 8) \<le> 9" by linarith
      with eq 2 b i bits(3) [of "Suc (7 - n mod 8)"] div_mod_le [of lv n] show ?thesis
        by (simp add: level_bit_def rule_bitmap_def or_byte_def nth_append Let_def del: push_bit_Suc)
    next
      case 3
      then have "n \<le> lv" using div_le_mono [of lv n 8] by linarith
      moreover have "lv div 8 - Suc (n div 8) < 31 - n div 8" using 3 i(1) by linarith
      ultimately show ?thesis using 2 3 b i by (simp add: level_bit_def rule_bitmap_def or_byte_def nth_append Let_def del: push_bit_Suc)
    qed
  next
    case 3
    with b i bits(1) [OF s] div_mod_eq [of lv n] show ?thesis
      by (auto simp: level_bit_def rule_bitmap_def or_byte_def nth_list_update bit_or_iff Let_def)
  next
    case 4
    with b i bits(2) [OF s] div_mod_eq [of lv n] show ?thesis
      by (auto simp: level_bit_def rule_bitmap_def and_byte_def nth_list_update bit_and_iff Let_def)
  qed
qed

lemma rule_bitmap_unknown:
  assumes lv: "lv < 256" and c: "c \<in> set ''*.=!''"
  shows "level_bit (rule_bitmap c (-1)) lv \<longleftrightarrow> c \<noteq> CHR ''=''"
proof -
  have i: "lv div 8 < 32" "7 - lv mod 8 < 8" using lv level_byte(3) by auto
  have bits: "\<not> bit (ucast (push_bit 8 1 :: 32 word) :: 8 word) (7 - lv mod 8)" "bit (ucast (NOT (push_bit 8 1) :: 32 word) :: 8 word) (7 - lv mod 8)"
      "bit (ucast (NOT (push_bit 9 0xFF) :: 32 word) :: 8 word) (7 - lv mod 8)"
    using byte_bits [OF i(2), of 8] byte_bits [OF i(2), of 9] i(2) by auto
  consider "c = CHR ''*''" | "c = CHR ''.''" | "c = CHR ''=''" | "c = CHR ''!''" using c by auto
  then show ?thesis
    using bits i
    by cases (auto simp: level_bit_def rule_bitmap_def or_byte_def and_byte_def nth_list_update nth_append bit_or_iff bit_and_iff Let_def
      simp del: push_bit_of_1 of_nat_numeral)
qed

lemma rule_bits:
  assumes "rule_ok r" "lv < 256"
  shows "level_bit (level_bitmap r) lv \<longleftrightarrow> passes r (int lv)" "length (level_bitmap r) = 32"
proof -
  have r: "compare_char r \<in> set ''*.=!''" "-1 \<le> rule_level r" "rule_level r < 256" "level_bitmap r = rule_bitmap (compare_char r) (rule_level r)"
    using assms(1) by (simp_all add: rule_ok_def)
  show "level_bit (level_bitmap r) lv \<longleftrightarrow> passes r (int lv)"
  proof (cases "rule_level r = -1")
    case True
    with rule_bitmap_unknown [OF assms(2) r(1)] r show ?thesis by (auto simp: passes_def)
  next
    case False
    with r(2,3) obtain n where "rule_level r = int n" "n < 256" by (cases "rule_level r") auto
    with rule_bitmap_bit [OF _ assms(2) r(1), of n] r(4) show ?thesis by (auto simp: passes_def)
  qed
  show "length (level_bitmap r) = 32" using length_rule_bitmap r(2-4) by simp
qed

section \<open>The rules of a category\<close>

lemma find_name_range:
  assumes "levels_ok levels" "i + n = 256"
  shows "\<exists>m. find_name n levels str (int i) = Ret m \<and> -1 \<le> m \<and> m < 256"
  using assms(2)
proof (induction n arbitrary: i)
  case (Suc n)
  have "slot_at levels (int i) = Ret (slots levels ! i)"
    using levels_get(1) [OF assms(1), of "int i"] Suc.prems assms(1) len_slots [of levels]
    by (auto simp: zc_arraylist_get_def levels_ok_def split: if_splits)
  moreover have "\<exists>m. find_name n levels str (int i + 1) = Ret m \<and> -1 \<le> m \<and> m < 256" using Suc.IH [of "Suc i"] Suc.prems by (simp add: add.commute)
  ultimately show ?case using Suc.prems by (auto split: option.split)
qed simp

lemma level_atoi_range: "levels_ok levels \<Longrightarrow> \<exists>m. zlog_level_list_atoi levels (Some str) = Ret m \<and> -1 \<le> m \<and> m < 256"
proof -
  assume ok: "levels_ok levels"
  have "nat (al_len levels) = 256" using ok len_slots [of levels] by (simp add: levels_ok_def)
  moreover have "\<exists>v. slot_at levels 0 = Ret v"
    using levels_get(1) [OF ok, of 0] ok len_slots [of levels] by (auto simp: zc_arraylist_get_def levels_ok_def split: if_splits)
  ultimately show ?thesis using find_name_range [OF ok, of 0 256 str] by (auto simp: zlog_level_list_atoi_def)
qed

lemma rule_select_ok:
  assumes "levels_ok levels" "rule_select levels line out = Ret (Some r)"
  shows "rule_ok r"
proof -
  obtain category level where s: "scan_selector (takeWhile (\<lambda>c. \<not> isspace c) (skip_space line)) = Some (category, level)"
    using assms(2) by (auto simp: rule_select_def Let_def split: option.splits)
  obtain c p where c: "scan_compare level = (c, p)" by fastforce
  then have "c \<in> set ''*.=!''" by (auto simp: scan_compare_def split: list.splits if_splits)
  moreover obtain m where "zlog_level_list_atoi levels (Some p) = Ret m" "-1 \<le> m" "m < 256" using level_atoi_range [OF assms(1)] by blast
  ultimately show ?thesis using assms(2) s c by (auto simp: rule_select_def rule_ok_def split: if_splits)
qed

text \<open>The rules a category goes to: those that match, or else the last wastebin rule.\<close>

definition last_wastebin :: "'st zlog_rule list \<Rightarrow> 'st zlog_rule option \<Rightarrow> 'st zlog_rule option" where
  "last_wastebin rs w = (case filter zlog_rule_is_wastebin rs of [] \<Rightarrow> w | ws \<Rightarrow> Some (last ws))"

definition fitting :: "string \<Rightarrow> 'st zlog_rule list \<Rightarrow> 'st zlog_rule list" where
  "fitting name rs =
     (let gs = filter (\<lambda>r. zlog_rule_match_category r name) rs in
      if gs \<noteq> [] then gs else case last_wastebin rs None of None \<Rightarrow> [] | Some r \<Rightarrow> [r])"

lemma last_wastebin_simps [simp]:
  "last_wastebin [] w = w" "last_wastebin (r # rs) w = last_wastebin rs (if zlog_rule_is_wastebin r then Some r else w)"
  by (auto simp: last_wastebin_def split: list.split)

lemma last_wastebin_in: "last_wastebin rs None = Some r \<Longrightarrow> r \<in> set rs"
  using last_in_set [of "filter zlog_rule_is_wastebin rs"] by (auto simp: last_wastebin_def split: list.splits)

lemma fitting_subset: "set (fitting name rs) \<subseteq> set rs"
  by (cases "last_wastebin rs None") (auto simp: fitting_def Let_def dest: last_wastebin_in split: if_splits)

text \<open>The fields \<open>add_rule\<close> works on: the rules in the list, and the levels in the bitmap.\<close>

definition holds_rules :: "'st zlog_category \<Rightarrow> 'st zlog_rule list \<Rightarrow> bool" where
  "holds_rules c rs \<longleftrightarrow> (\<exists>l. fit_rules c = Some l \<and> arraylist_ok l \<and> slots l = map Some rs) \<and> length (cat_bitmap c) = 32
     \<and> (\<forall>lv < 256. level_bit (cat_bitmap c) lv \<longleftrightarrow> (\<exists>r \<in> set rs. passes r (int lv)))"

definition same_rest :: "'st zlog_category \<Rightarrow> 'st zlog_category \<Rightarrow> bool" where
  "same_rest c c' \<longleftrightarrow> cat_name c' = cat_name c \<and> cat_bitmap_backup c' = cat_bitmap_backup c \<and> fit_rules_backup c' = fit_rules_backup c"

lemma overlap_bits:
  assumes "length a = 32" "length b = 32" "lv < 256"
  shows "level_bit (map2 (OR) a b) lv \<longleftrightarrow> level_bit a lv \<or> level_bit b lv"
  using assms level_byte(3) [of lv] by (simp add: level_bit_def bit_or_iff)

lemma add_rule_ok:
  assumes "holds_rules c rs" "rule_ok r"
  shows "\<exists>c'. add_rule True c r = Ret (0, c') \<and> holds_rules c' (rs @ [r]) \<and> same_rest c c'"
proof -
  obtain l where l: "fit_rules c = Some l" "arraylist_ok l" "slots l = map Some rs" using assms(1) by (auto simp: holds_rules_def)
  from add_ok [OF l(2), of r] obtain l' where l': "zc_arraylist_add True l r = Ret (0, l')" "arraylist_ok l'" "slots l' = slots l @ [Some r]" by blast
  have "length (cat_bitmap c) = 32" "length (level_bitmap r) = 32"
    using assms(1) rule_bits(2) [OF assms(2), of 0] by (auto simp: holds_rules_def)
  then have "holds_rules (zlog_cateogry_overlap_bitmap (c\<lparr>fit_rules := Some l'\<rparr>) r) (rs @ [r])"
    using assms l' l(3) rule_bits(1) [OF assms(2)] by (auto simp: holds_rules_def zlog_cateogry_overlap_bitmap_def overlap_bits)
  with l(1) l'(1) show ?thesis by (auto simp: add_rule_def same_rest_def zlog_cateogry_overlap_bitmap_def)
qed

lemma fit_loop_ok:
  assumes "holds_rules c gs" "\<forall>r \<in> set rs. rule_ok r"
  shows "\<exists>c'. fit_loop (\<lambda>_. True) rs n w c = Ret (0, n + length (filter (\<lambda>r. zlog_rule_match_category r (cat_name c)) rs), last_wastebin rs w, c')
    \<and> holds_rules c' (gs @ filter (\<lambda>r. zlog_rule_match_category r (cat_name c)) rs) \<and> same_rest c c'"
  using assms
proof (induction rs arbitrary: n w c gs)
  case Nil
  then show ?case by (simp add: same_rest_def)
next
  case (Cons r rs)
  show ?case
  proof (cases "zlog_rule_match_category r (cat_name c)")
    case True
    obtain c1 where c1: "add_rule True c r = Ret (0, c1)" "holds_rules c1 (gs @ [r])" "same_rest c c1"
      using add_rule_ok Cons.prems by (metis list.set_intros(1))
    from Cons.IH [OF c1(2), of "n + 1"] Cons.prems(2) c1(3) True c1(1) show ?thesis by (fastforce simp: same_rest_def)
  next
    case False
    from Cons.IH [OF Cons.prems(1), of n] Cons.prems(2) False show ?thesis by simp
  qed
qed

lemma obtain_rules_ok:
  assumes "fit_rules c = None" "\<forall>r \<in> set rs. rule_ok r"
  shows "\<exists>c'. zlog_category_obtain_rules True True (\<lambda>_. True) c rs = Ret (0, c') \<and> holds_rules c' (fitting (cat_name c) rs) \<and> same_rest c c'"
proof -
  obtain l :: "'a zlog_rule zc_arraylist" where l: "zc_arraylist_new True True False = Some l" "arraylist_ok l" "slots l = []"
    by (simp add: zc_arraylist_new_def arraylist_ok_def slots_def ARRAY_LIST_DEFAULT_SIZE_def)
  let ?c1 = "c\<lparr>cat_bitmap := replicate 32 0, fit_rules := Some l\<rparr>" and ?gs = "filter (\<lambda>r. zlog_rule_match_category r (cat_name c)) rs"
  have "holds_rules ?c1 []" using l(2,3) level_byte(3) by (auto simp: holds_rules_def level_bit_def)
  from fit_loop_ok [OF this assms(2), of 0 None] obtain c2 where
    c2: "fit_loop (\<lambda>_. True) rs 0 None ?c1 = Ret (0, length ?gs, last_wastebin rs None, c2)" "holds_rules c2 ?gs" "same_rest c c2"
    by (auto simp: same_rest_def)
  show ?thesis
  proof (cases "?gs = [] \<and> last_wastebin rs None \<noteq> None")
    case True
    then obtain r where r: "last_wastebin rs None = Some r" by auto
    with last_wastebin_in assms(2) have "rule_ok r" by blast
    with add_rule_ok [OF c2(2)] True obtain c3 where "add_rule True c2 r = Ret (0, c3)" "holds_rules c3 [r]" "same_rest c2 c3" by auto
    with c2 l(1) assms(1) True r show ?thesis
      by (auto simp: zlog_category_obtain_rules_def drop_rules_def fitting_def same_rest_def)
  next
    case False
    then have "fitting (cat_name c) rs = ?gs" by (auto simp: fitting_def Let_def)
    with c2 l(1) assms(1) False show ?thesis
      by (auto simp: zlog_category_obtain_rules_def drop_rules_def split: option.split)
  qed
qed

section \<open>Selecting and reloading\<close>

lemma needless_level_eq:
  assumes "holds_rules c rs" "lv < 256"
  shows "zlog_category_needless_level c (int lv) = Ret (\<forall>r \<in> set rs. \<not> passes r (int lv))"
proof -
  note b = level_byte [OF assms(2)]
  let ?w = "ucast (cat_bitmap c ! (lv div 8)) :: 32 word"
  have "drop_bit (7 - lv mod 8) ?w AND 1 = 0 \<longleftrightarrow> even (drop_bit (7 - lv mod 8) ?w)" by (simp add: and_one_eq even_iff_mod_2_eq_zero)
  also have "\<dots> \<longleftrightarrow> \<not> bit ?w (7 - lv mod 8)" by (simp add: bit_iff_odd_drop_bit)
  also have "\<dots> \<longleftrightarrow> \<not> level_bit (cat_bitmap c) lv" by (auto simp: level_bit_def bit_ucast_iff)
  finally have "drop_bit (nat (7 - int lv smod 8)) ?w AND 1 = 0 \<longleftrightarrow> \<not> level_bit (cat_bitmap c) lv" by (simp add: b(2))
  with assms b show ?thesis by (simp add: zlog_category_needless_level_def holds_rules_def)
qed

lemma output_rules_fold: "snd (output_rules rs lv rc th) = foldl (\<lambda>th r. snd (rule_output r th)) th (filter (\<lambda>r. passes r lv) rs)"
  by (induction rs arbitrary: rc th) (auto simp: rule_output_eq split: prod.split)

lemma output_rules_none: "\<forall>r \<in> set rs. \<not> passes r lv \<Longrightarrow> output_rules rs lv 0 th = (0, th)"
  by (induction rs) (simp_all add: rule_output_eq)

lemma category_output_eq:
  assumes "holds_rules c rs"
  shows "zlog_category_output c lv th = Ret (output_rules rs lv 0 th)"
  using assms by (auto simp: zlog_category_output_def holds_rules_def arraylist_ok_def comp_def)

text \<open>C11: A category made from rules of the configuration goes, with memory, to the rules that match its name, in their order, or to the last wastebin rule when none does. The
  bitmap of the category is exact: the test that is made before any lock is taken skips a level exactly when no rule lets it through, also for a rule with an unknown level
  name, which is taken for level -1. A message of a level goes to every rule that lets it through, in order, and to no other.\<close>

theorem category_selects:
  assumes "levels_ok levels" "\<forall>r \<in> set rules. \<exists>line. rule_select levels line (rule_output r) = Ret (Some r)" "length name \<le> MAXLEN_PATH"
  shows "\<exists>c. zlog_category_new True True True (\<lambda>_. True) name rules = Ret (Some c)
    \<and> (\<forall>lv. 0 \<le> lv \<and> lv < 256 \<longrightarrow> zlog_category_needless_level c lv = Ret (\<forall>r \<in> set (fitting name rules). \<not> passes r lv))
    \<and> (\<forall>lv th. \<exists>rc. zlog_category_output c lv th = Ret (rc, foldl (\<lambda>th r. snd (rule_output r th)) th (filter (\<lambda>r. passes r lv) (fitting name rules))))"
proof -
  let ?c = "\<lparr>cat_name = name, cat_bitmap = replicate 32 0, cat_bitmap_backup = replicate 32 0, fit_rules = None, fit_rules_backup = None\<rparr>"
  have "\<forall>r \<in> set rules. rule_ok r" using rule_select_ok [OF assms(1)] assms(2) by blast
  from obtain_rules_ok [of ?c, OF _ this] obtain c where
    c: "zlog_category_obtain_rules True True (\<lambda>_. True) ?c rules = Ret (0, c)" "holds_rules c (fitting name rules)" by auto
  have "zlog_category_new True True True (\<lambda>_. True) name rules = Ret (Some c)" using c(1) assms(3) by (simp add: zlog_category_new_def)
  moreover have "zlog_category_needless_level c lv = Ret (\<forall>r \<in> set (fitting name rules). \<not> passes r lv)" if "0 \<le> lv \<and> lv < 256" for lv
    using needless_level_eq [OF c(2), of "nat lv"] that by (simp add: nat_less_iff)
  moreover have "\<exists>rc. zlog_category_output c lv th = Ret (rc, foldl (\<lambda>th r. snd (rule_output r th)) th (filter (\<lambda>r. passes r lv) (fitting name rules)))" for lv th
    using category_output_eq [OF c(2), of lv th] output_rules_fold [of "fitting name rules" lv 0 th] by (metis prod.collapse)
  ultimately show ?thesis by blast
qed

theorem category_selects_witness:
  "\<exists>levels r c rc. zlog_level_list_new True True (\<lambda>_. (True, True)) = Ret (Some levels) \<and> rule_select levels ''*.* >stdout'' (\<lambda>n. (0, n + 1)) = Ret (Some r)
     \<and> zlog_category_new True True True (\<lambda>_. True) ''web'' [r] = Ret (Some c) \<and> zlog_category_needless_level c 20 = Ret False
     \<and> zlog_category_output c 20 (0 :: nat) = Ret (rc, 1)"
proof -
  obtain levels where levels: "zlog_level_list_new True True (\<lambda>_. (True, True)) = Ret (Some levels)" "levels_ok levels" using level_list_new_ok by blast
  obtain m where m: "zlog_level_list_atoi levels (Some ''*'') = Ret m" using level_atoi_range [OF levels(2)] by blast
  define r :: "nat zlog_rule" where
    "r = \<lparr>rule_category = ''*'', compare_char = CHR ''*'', rule_level = m, level_bitmap = rule_bitmap CHR ''*'' m, rule_output = (\<lambda>n. (0, n + 1))\<rparr>"
  have "takeWhile (\<lambda>c. \<not> isspace c) (skip_space ''*.* >stdout'') = ''*.*''" by code_simp
  then have r: "rule_select levels ''*.* >stdout'' (\<lambda>n. (0, n + 1)) = Ret (Some r)"
    by (simp add: rule_select_def scan_selector_def category_char_def scan_compare_def Let_def m r_def)
  have f: "fitting ''web'' [r] = [r]" "passes r 20" "rule_output r = (\<lambda>n. (0, n + 1))"
    by (simp_all add: fitting_def zlog_rule_match_category_def passes_def r_def)
  have rs: "\<forall>x \<in> set [r]. \<exists>line. rule_select levels line (rule_output x) = Ret (Some x)" using r f(3) by auto
  have "length ''web'' \<le> MAXLEN_PATH" by (simp add: MAXLEN_PATH_def)
  from category_selects [OF levels(2) rs this] obtain c where
    c: "zlog_category_new True True True (\<lambda>_. True) ''web'' [r] = Ret (Some c)"
      "\<forall>lv. 0 \<le> lv \<and> lv < 256 \<longrightarrow> zlog_category_needless_level c lv = Ret (\<forall>r \<in> set (fitting ''web'' [r]). \<not> passes r lv)"
      "\<forall>lv th. \<exists>rc. zlog_category_output c lv th = Ret (rc, foldl (\<lambda>th r. snd (rule_output r th)) th (filter (\<lambda>r. passes r lv) (fitting ''web'' [r])))"
    by blast
  from c(3) [rule_format, of 20 0] f obtain rc where o: "zlog_category_output c 20 0 = Ret (rc, 1)" by auto
  have "zlog_category_needless_level c 20 = Ret False" using c(2) [rule_format, of 20] f by simp
  with levels(1) r c(1) o show ?thesis by blast
qed



end
